(* ===== verification/Prelude.thy ===== *)
theory Prelude
  imports
    "HOL-Library.Word"
    "HOL-Library.Signed_Division"
    "HOL-Library.Monad_Syntax"
    "HOL-Library.Multiset"
begin

text \<open>
  Shared vocabulary of the development: the C integer types as words, C's truncating
  division on signed values, array accesses that fail outside the array, and the
  bounded \<open>for\<close> loop over an index range.  Every operation that C leaves undefined
  (an access outside an object, a division by zero, a null pointer) is \<^term>\<open>None\<close>.
\<close>

unbundle bit_operations_syntax

section \<open>Integer types\<close>

type_synonym u8 = "8 word"
type_synonym u16 = "16 word"
type_synonym u32 = "32 word"
type_synonym u64 = "64 word"

text \<open>Signed types have the same carriers; they are read with \<^const>\<open>sint\<close>.\<close>

type_synonym i8 = "8 word"
type_synonym i16 = "16 word"
type_synonym i32 = "32 word"

section \<open>Collections of proof rules\<close>

named_theorems opt_simps \<open>what it means for an option-valued step to succeed\<close>
named_theorems keeps \<open>an operation keeps a field or an invariant\<close>

section \<open>Truncating division\<close>

definition c_div :: "'a::len word \<Rightarrow> 'a word \<Rightarrow> 'a word option" where
  "c_div a b = (if b = 0 then None else Some (word_of_int (sint a sdiv sint b)))"

definition c_mod :: "'a::len word \<Rightarrow> 'a word \<Rightarrow> 'a word option" where
  "c_mod a b = (if b = 0 then None else Some (word_of_int (sint a smod sint b)))"

definition u_div :: "'a::len word \<Rightarrow> 'a word \<Rightarrow> 'a word option" where
  "u_div a b = (if b = 0 then None else Some (a div b))"

definition u_mod :: "'a::len word \<Rightarrow> 'a word \<Rightarrow> 'a word option" where
  "u_mod a b = (if b = 0 then None else Some (a mod b))"

lemma smod_bounds:
  fixes a b :: int
  assumes "0 < b"
  shows "- b < a smod b" and "a smod b < b"
proof -
  have m: "0 \<le> x mod b" "x mod b < b" for x
    using assms by simp_all
  show "- b < a smod b"
    using assms m(1) [of a] m(2) [of "- a"] unfolding signed_modulo_int_def sgn_if
    by (auto simp: abs_if simp del: pos_mod_sign)
  show "a smod b < b"
    using assms m(2) [of a] m(1) [of "- a"] unfolding signed_modulo_int_def sgn_if
    by (auto simp: abs_if simp del: pos_mod_sign)
qed

lemma smod_nonneg:
  fixes a b :: int
  assumes "0 \<le> a" and "0 < b"
  shows "a smod b = a mod b"
  using assms by (cases "a = 0") (simp_all add: signed_modulo_int_def)

lemma sdiv_nonneg:
  fixes a b :: int
  assumes "0 \<le> a" and "0 < b"
  shows "a sdiv b = a div b"
  using assms by (cases "a = 0") (simp_all add: signed_divide_int_def)

lemma sdiv_minus_left: "(- a) sdiv b = - (a sdiv b)" for a b :: int
  by (simp add: signed_divide_int_def sgn_minus)

section \<open>Array accesses\<close>

definition rd :: "'a list \<Rightarrow> nat \<Rightarrow> 'a option" where
  "rd xs i = (if i < length xs then Some (xs ! i) else None)"

definition wr :: "'a list \<Rightarrow> nat \<Rightarrow> 'a \<Rightarrow> 'a list option" where
  "wr xs i v = (if i < length xs then Some (xs[i := v]) else None)"

definition rd_at :: "'a list \<Rightarrow> int \<Rightarrow> 'a option" where
  "rd_at xs i = (if 0 \<le> i then rd xs (nat i) else None)"

definition wr_at :: "'a list \<Rightarrow> int \<Rightarrow> 'a \<Rightarrow> 'a list option" where
  "wr_at xs i v = (if 0 \<le> i then wr xs (nat i) v else None)"

lemma rd_Some [opt_simps]: "rd xs i = Some v \<longleftrightarrow> i < length xs \<and> v = xs ! i"
  by (auto simp: rd_def)

lemma wr_Some [opt_simps]: "wr xs i v = Some ys \<longleftrightarrow> i < length xs \<and> ys = xs[i := v]"
  by (auto simp: wr_def)

lemma rd_at_Some [opt_simps]:
  "rd_at xs i = Some v \<longleftrightarrow> 0 \<le> i \<and> nat i < length xs \<and> v = xs ! nat i"
  by (auto simp: rd_at_def rd_Some)

lemma wr_at_Some [opt_simps]:
  "wr_at xs i v = Some ys \<longleftrightarrow> 0 \<le> i \<and> nat i < length xs \<and> ys = xs[nat i := v]"
  by (auto simp: wr_at_def wr_Some)

lemma rd_in [simp]: "i < length xs \<Longrightarrow> rd xs i = Some (xs ! i)"
  by (simp add: rd_def)

lemma wr_in [simp]: "i < length xs \<Longrightarrow> wr xs i v = Some (xs[i := v])"
  by (simp add: wr_def)

lemma rd_None_iff [simp]: "rd xs i = None \<longleftrightarrow> length xs \<le> i"
  by (simp add: rd_def)

declare Option.bind_eq_Some_conv [opt_simps]

lemma bex_set_nth: "(\<exists>x \<in> set xs. P x) \<longleftrightarrow> (\<exists>i < length xs. P (xs ! i))"
  by (metis in_set_conv_nth)

text \<open>\<open>require b\<close>: go on only where \<open>b\<close> holds.\<close>

definition require :: "bool \<Rightarrow> unit option" where
  "require b = (if b then Some () else None)"

lemma require_Some [opt_simps]: "require b = Some u \<longleftrightarrow> b"
  by (simp add: require_def)

lemma require_simps [simp]: "require True = Some ()" "require False = None"
  by (simp_all add: require_def)

lemma c_mod_Some [opt_simps]:
  "c_mod a b = Some r \<longleftrightarrow> b \<noteq> 0 \<and> r = word_of_int (sint a smod sint b)"
  by (auto simp: c_mod_def)

lemma c_div_Some [opt_simps]:
  "c_div a b = Some r \<longleftrightarrow> b \<noteq> 0 \<and> r = word_of_int (sint a sdiv sint b)"
  by (auto simp: c_div_def)

lemma u_mod_Some [opt_simps]: "u_mod a b = Some r \<longleftrightarrow> b \<noteq> 0 \<and> r = a mod b"
  by (auto simp: u_mod_def)

lemma u_div_Some [opt_simps]: "u_div a b = Some r \<longleftrightarrow> b \<noteq> 0 \<and> r = a div b"
  by (auto simp: u_div_def)

section \<open>Loops over an index range\<close>

text \<open>
  \<open>for_each f is s\<close> runs the loop body \<open>f\<close> for each index of \<open>is\<close> in order, and stops
  with \<^term>\<open>None\<close> at the first body that fails.
\<close>

fun for_each :: "('i \<Rightarrow> 's \<Rightarrow> 's option) \<Rightarrow> 'i list \<Rightarrow> 's \<Rightarrow> 's option" where
  "for_each f [] s = Some s"
| "for_each f (i # is) s = (case f i s of None \<Rightarrow> None | Some s' \<Rightarrow> for_each f is s')"

lemma for_each_inv:
  assumes "for_each f is s = Some s'" and "I s"
    and "\<And>i s s'. i \<in> set is \<Longrightarrow> I s \<Longrightarrow> f i s = Some s' \<Longrightarrow> I s'"
  shows "I s'"
  using assms
proof (induction "is" arbitrary: s)
  case Nil
  then show ?case by simp
next
  case (Cons i "is")
  from Cons.prems(1) obtain s1 where s1: "f i s = Some s1" "for_each f is s1 = Some s'"
    by (auto split: option.splits)
  have "I s1" using Cons.prems(2,3) s1(1) by auto
  then show ?case using Cons.IH [OF s1(2)] Cons.prems(3) by auto
qed

lemma for_each_total:
  assumes "I s"
    and "\<And>i s. i \<in> set is \<Longrightarrow> I s \<Longrightarrow> \<exists>s'. f i s = Some s' \<and> I s'"
  shows "\<exists>s'. for_each f is s = Some s' \<and> I s'"
  using assms
proof (induction "is" arbitrary: s)
  case Nil
  then show ?case by simp
next
  case (Cons i "is")
  then obtain s1 where "f i s = Some s1" "I s1" by force
  then show ?case using Cons.IH [of s1] Cons.prems(2) by auto
qed

lemma for_each_append:
  "for_each f (is @ js) s = (case for_each f is s of None \<Rightarrow> None | Some s' \<Rightarrow> for_each f js s')"
  by (induction "is" arbitrary: s) (auto split: option.splits)

lemma for_each_cong:
  assumes "\<And>i s. i \<in> set is \<Longrightarrow> f i s = g i s"
  shows "for_each f is s = for_each g is s"
  using assms by (induction "is" arbitrary: s) (auto split: option.splits)

section \<open>Words\<close>

lemma unat16_less: "unat (x :: u16) < 65536"
  using unsigned_less [of x, where ?'a = nat] by simp

lemma unat8_less: "unat (x :: u8) < 256"
  using unsigned_less [of x, where ?'a = nat] by simp

lemma unat32_less: "unat (x :: u32) < 4294967296"
  using unsigned_less [of x, where ?'a = nat] by simp

lemma unat_of_nat16: "n < 65536 \<Longrightarrow> unat (word_of_nat n :: u16) = n"
  by (simp add: unsigned_of_nat take_bit_nat_eq_self)

lemma unat_of_nat32: "n < 4294967296 \<Longrightarrow> unat (word_of_nat n :: u32) = n"
  by (simp add: unsigned_of_nat take_bit_nat_eq_self)

lemma xor_left_cancel: "x XOR a = x XOR b \<longleftrightarrow> a = b" for x a b :: "'a::len word"
  by (metis xor.assoc xor.left_neutral xor_self_eq)

lemma uint16_bounds: "0 \<le> uint (x :: u16)" "uint (x :: u16) < 65536"
  using unsigned_less [of x, where ?'a = int] by simp_all

lemma unat_ucast_u8_u16 [simp]: "unat (ucast (x :: u8) :: u16) = unat x"
  by (simp add: unsigned_ucast_eq take_bit_nat_eq_self unat8_less less_trans [OF unat8_less])

lemma sint32_bounds: "- 2147483648 \<le> sint (x :: i32)" "sint (x :: i32) < 2147483648"
  using sint_ge [of x] sint_lt [of x] by simp_all

lemma sint16_bounds: "- 32768 \<le> sint (x :: i16)" "sint (x :: i16) < 32768"
  using sint_ge [of x] sint_lt [of x] by simp_all

lemma sint_word_of_int16: "- 32768 \<le> k \<Longrightarrow> k < 32768 \<Longrightarrow> sint (word_of_int k :: i16) = k"
  by (simp add: signed_of_int signed_take_bit_int_eq_self)

lemma sint_word_of_int32:
  "- 2147483648 \<le> k \<Longrightarrow> k < 2147483648 \<Longrightarrow> sint (word_of_int k :: i32) = k"
  by (simp add: signed_of_int signed_take_bit_int_eq_self)

lemma uint_word_of_int16: "0 \<le> k \<Longrightarrow> k < 65536 \<Longrightarrow> uint (word_of_int k :: u16) = k"
  by (simp add: unsigned_of_int take_bit_int_eq_self)

lemma unat_word_of_int16: "0 \<le> k \<Longrightarrow> k < 65536 \<Longrightarrow> unat (word_of_int k :: u16) = nat k"
  by (simp add: unsigned_of_int take_bit_int_eq_self nat_take_bit_eq flip: unat_eq_nat_uint)

lemma uint_eq_sint16: "uint (x :: i16) = (if sint x < 0 then sint x + 65536 else sint x)"
proof -
  have "uint x = sint x mod 65536"
    by (simp add: uint_sint take_bit_eq_mod)
  also have "\<dots> = (sint x + 65536) mod 65536" by simp
  finally show ?thesis
    using sint16_bounds [of x] \<open>uint x = sint x mod 65536\<close>
    by (auto simp del: mod_add_self2)
qed

lemma uint_eq_sint32: "uint (x :: i32) = (if sint x < 0 then sint x + 4294967296 else sint x)"
proof -
  have "uint x = sint x mod 4294967296"
    by (simp add: uint_sint take_bit_eq_mod)
  also have "\<dots> = (sint x + 4294967296) mod 4294967296" by simp
  finally show ?thesis
    using sint32_bounds [of x] \<open>uint x = sint x mod 4294967296\<close>
    by (auto simp del: mod_add_self2)
qed

lemma uint_uminus32: "uint (- x :: i32) = (- sint x) mod 4294967296"
  using uint_word_of_int [of "- sint x", where 'a = 32] by simp

lemma uint_uminus16: "uint (- x :: i16) = (- sint x) mod 65536"
  using uint_word_of_int [of "- sint x", where 'a = 16] by simp

lemma sint_add32:
  fixes a b :: i32
  assumes "- 2147483648 \<le> sint a + sint b" and "sint a + sint b < 2147483648"
  shows "sint (a + b) = sint a + sint b"
proof -
  have "a + b = word_of_int (sint a + sint b)" by simp
  then show ?thesis using sint_word_of_int32 [OF assms] by simp
qed

end
