(* ===== verification/Rand.thy ===== *)
theory Rand
  imports Prelude
begin

text \<open>
  The pseudo-random generator of \<open>src/src/chromatron_wifi/src/random.c\<close>: two linear
  feedback shift registers whose low halves are combined.  The file keeps one pair of
  registers as statics (\<open>lfsr31\<close>, \<open>lfsr32\<close>); the \<open>..._with_seed\<close> variants keep the
  pair in a caller's \<open>uint64_t\<close>, whose first 32 bit word in memory (the low word on the
  little-endian target) is the 31 bit register.
\<close>

section \<open>State and operations\<close>

record rnd_state =
  lfsr31 :: u32
  lfsr32 :: u32

definition POLY32 :: u32 where "POLY32 = 0xB4BCD35C"
definition POLY31 :: u32 where "POLY31 = 0x7A5BC2E3"

definition shift_lfsr32 :: "u32 \<Rightarrow> u32 \<Rightarrow> u32" where
  "shift_lfsr32 lfsr msk =
     (let fb = lfsr AND 1;
          lfsr = drop_bit 1 lfsr
      in if fb = 1 then lfsr XOR msk else lfsr)"

definition rand31_32 :: "rnd_state \<Rightarrow> u16 \<times> rnd_state" where
  "rand31_32 s =
     (let l32 = shift_lfsr32 (lfsr32 s) POLY32;
          l32 = shift_lfsr32 l32 POLY32;
          l31 = shift_lfsr32 (lfsr31 s) POLY31
      in (ucast ((l32 XOR l31) AND 0xffff), \<lparr>lfsr31 = l31, lfsr32 = l32\<rparr>))"

definition rnd_v_seed :: "u64 \<Rightarrow> rnd_state" where
  "rnd_v_seed seed =
     (let l31 = ucast (drop_bit 32 seed) :: u32;
          l32 = ucast (seed AND 0xffffffff) :: u32
      in \<lparr>lfsr31 = (if l31 = 0 then 1 else l31), lfsr32 = (if l32 = 0 then 1 else l32)\<rparr>)"

definition init_random :: rnd_state where
  "init_random = rnd_v_seed 1"

definition rnd_v_init :: rnd_state where
  "rnd_v_init = init_random"

definition rnd_u64_get_seed :: "rnd_state \<Rightarrow> u64" where
  "rnd_u64_get_seed s = push_bit 32 (ucast (lfsr31 s)) OR ucast (lfsr32 s)"

text \<open>A \<open>uint64_t\<close> seen as two adjacent 32 bit registers.\<close>

definition seed_halves :: "u64 \<Rightarrow> rnd_state" where
  "seed_halves seed = \<lparr>lfsr31 = ucast seed, lfsr32 = ucast (drop_bit 32 seed)\<rparr>"

definition halves_seed :: "rnd_state \<Rightarrow> u64" where
  "halves_seed s = push_bit 32 (ucast (lfsr32 s)) OR ucast (lfsr31 s)"

definition rnd_u8_get_int_with_seed :: "u64 \<Rightarrow> u8 \<times> u64" where
  "rnd_u8_get_int_with_seed seed =
     (let (val, s) = rand31_32 (seed_halves seed) in (ucast (val AND 0xff), halves_seed s))"

definition rnd_u16_get_int_with_seed :: "u64 \<Rightarrow> u16 \<times> u64" where
  "rnd_u16_get_int_with_seed seed =
     (let (val, s) = rand31_32 (seed_halves seed) in (val, halves_seed s))"

definition rnd_u8_get_int :: "rnd_state \<Rightarrow> u8 \<times> rnd_state" where
  "rnd_u8_get_int s = (let (val, s') = rand31_32 s in (ucast (val AND 0xff), s'))"

definition rnd_u16_get_int :: "rnd_state \<Rightarrow> u16 \<times> rnd_state" where
  "rnd_u16_get_int s = (let (val, s') = rand31_32 s in (val, s'))"

text \<open>\<open>rnd_v_fill\<close>: the bytes it stores, first to last.\<close>

fun rnd_v_fill :: "nat \<Rightarrow> rnd_state \<Rightarrow> u8 list \<times> rnd_state" where
  "rnd_v_fill 0 s = ([], s)"
| "rnd_v_fill (Suc len) s =
     (let (b, s) = rnd_u8_get_int s; (bs, s) = rnd_v_fill len s in (b # bs, s))"

section \<open>When a register dies\<close>

text \<open>A shift register at zero stays there; the masks decide what can reach zero.\<close>

lemma shift_lfsr32_0 [simp]: "shift_lfsr32 0 msk = 0"
  by (simp add: shift_lfsr32_def)

lemma word_zero_of_halves:
  fixes x :: u32
  assumes "x AND 1 = 0" and "drop_bit 1 x = 0"
  shows "x = 0"
proof (rule bit_word_eqI)
  fix n
  show "bit x n = bit (0 :: u32) n"
  proof (cases n)
    case 0
    from assms(1) have "bit (x AND 1) 0 = bit (0 :: u32) 0" by simp
    then show ?thesis using 0 by (simp add: bit_simps)
  next
    case (Suc m)
    from assms(2) have "bit (drop_bit 1 x) m = bit (0 :: u32) m" by simp
    then show ?thesis using Suc by (simp add: bit_simps)
  qed
qed

lemma and_one_cases: "(x :: u32) AND 1 = 0 \<or> x AND 1 = 1"
  by (simp add: and_one_eq mod2_eq_if)

lemma shift_POLY32_eq_0_iff: "shift_lfsr32 x POLY32 = 0 \<longleftrightarrow> x = 0"
proof
  assume z: "shift_lfsr32 x POLY32 = 0"
  have "x AND 1 = 0"
  proof (rule ccontr)
    assume "x AND 1 \<noteq> 0"
    then have "drop_bit 1 x XOR POLY32 = 0"
      using z and_one_cases [of x] by (auto simp: shift_lfsr32_def Let_def)
    then have "bit (drop_bit 1 x XOR POLY32) 31 = bit (0 :: u32) 31" by simp
    moreover have "bit POLY32 31" by (simp add: POLY32_def)
    moreover have "\<not> bit x 32" using bit_imp_le_length [of x 32] by auto
    ultimately show False by (simp add: bit_simps)
  qed
  then show "x = 0"
    using z by (auto simp: shift_lfsr32_def Let_def intro: word_zero_of_halves)
qed simp

lemma shift_POLY31_eq_0_iff: "shift_lfsr32 x POLY31 = 0 \<longleftrightarrow> x = 0 \<or> x = 0xF4B785C7"
proof
  assume z: "shift_lfsr32 x POLY31 = 0"
  show "x = 0 \<or> x = 0xF4B785C7"
  proof (cases "x AND 1 = 0")
    case True
    then show ?thesis
      using z by (auto simp: shift_lfsr32_def Let_def intro: word_zero_of_halves)
  next
    case False
    then have o: "x AND 1 = 1" using and_one_cases [of x] by simp
    then have "drop_bit 1 x XOR POLY31 = 0"
      using z by (auto simp: shift_lfsr32_def Let_def)
    then have "(drop_bit 1 x XOR POLY31) XOR POLY31 = 0 XOR POLY31" by simp
    then have "drop_bit 1 x = POLY31" by (simp only: xor.assoc xor_self_eq xor.right_neutral xor.left_neutral)
    then have "x div 2 = 0x7A5BC2E3" by (simp add: drop_bit_eq_div POLY31_def)
    moreover have "x mod 2 = 1" using o by (simp add: and_one_eq mod2_eq_if)
    ultimately have "x = 2 * 0x7A5BC2E3 + 1" by (metis mult_div_mod_eq)
    then show ?thesis by simp
  qed
next
  assume "x = 0 \<or> x = 0xF4B785C7"
  then show "shift_lfsr32 x POLY31 = 0"
    by (auto simp: shift_lfsr32_def POLY31_def)
qed

lemma rand31_32_lfsr32 [simp]:
  "lfsr32 (snd (rand31_32 s)) = 0 \<longleftrightarrow> lfsr32 s = 0"
  by (simp add: rand31_32_def Let_def shift_POLY32_eq_0_iff)

section \<open>Two register halves in a seed word\<close>

lemma seed_halves_inverse [simp]: "seed_halves (halves_seed s) = s"
proof (cases s)
  case (fields a b)
  have "ucast (push_bit 32 (ucast b :: u64) OR ucast a) = (a :: u32)"
    by (rule bit_word_eqI) (auto simp: bit_simps)
  moreover have "ucast (drop_bit 32 (push_bit 32 (ucast b :: u64) OR ucast a)) = (b :: u32)"
    by (rule bit_word_eqI) (auto simp: bit_simps dest: bit_imp_le_length)
  ultimately show ?thesis
    using fields by (simp add: seed_halves_def halves_seed_def)
qed

lemma halves_seed_inverse [simp]: "halves_seed (seed_halves w) = w"
  unfolding seed_halves_def halves_seed_def
  by (rule bit_word_eqI) (auto simp: bit_simps dest: bit_imp_le_length)

section \<open>The contract of a generator\<close>

text \<open>
  What every drawing operation promises: a state that is live stays live, so a live
  generator can be drawn from any number of times.
\<close>

locale generator =
  fixes draw :: "'s \<Rightarrow> 'v \<times> 's"
    and live :: "'s \<Rightarrow> bool"
  assumes draw_live: "live (snd (draw s)) \<longleftrightarrow> live s"
begin

lemma live_funpow: "live (((\<lambda>s. snd (draw s)) ^^ n) s) \<longleftrightarrow> live s"
  by (induction n) (simp_all add: draw_live)

end

interpretation rnd8: generator rnd_u8_get_int "\<lambda>s. lfsr32 s \<noteq> 0"
  by unfold_locales (simp add: rnd_u8_get_int_def split_beta Let_def)

interpretation rnd16: generator rnd_u16_get_int "\<lambda>s. lfsr32 s \<noteq> 0"
  by unfold_locales (simp add: rnd_u16_get_int_def split_beta Let_def)

interpretation seeded8: generator rnd_u8_get_int_with_seed "\<lambda>w. lfsr32 (seed_halves w) \<noteq> 0"
  by unfold_locales (simp add: rnd_u8_get_int_with_seed_def split_beta Let_def)

interpretation seeded16: generator rnd_u16_get_int_with_seed "\<lambda>w. lfsr32 (seed_halves w) \<noteq> 0"
  by unfold_locales (simp add: rnd_u16_get_int_with_seed_def split_beta Let_def)

lemma rnd_v_seed_live: "lfsr32 (rnd_v_seed w) \<noteq> 0" "lfsr31 (rnd_v_seed w) \<noteq> 0"
  by (simp_all add: rnd_v_seed_def Let_def)

lemma rnd_v_fill_length [simp]: "length (fst (rnd_v_fill n s)) = n"
  by (induction n arbitrary: s) (simp_all add: split_beta Let_def)

lemma rnd_v_fill_live: "lfsr32 (snd (rnd_v_fill n s)) \<noteq> 0 \<longleftrightarrow> lfsr32 s \<noteq> 0"
proof (induction n arbitrary: s)
  case (Suc n)
  then show ?case using rnd8.draw_live [of s] by (simp add: split_beta Let_def)
qed simp

end
