(* ===== verification/Bubble.thy ===== *)
theory Bubble
  imports Prelude
begin

text \<open>
  The in-place bubble sort that \<open>util_v_bubble_sort_u16\<close> (\<open>util.c\<close>) and
  \<open>_kvdb_v_sort\<close> (\<open>kvdb.c\<close>) both spell out: repeat a pass over the array, swapping
  neighbours that are out of order, until a pass swaps nothing.  The order is given
  by a key; two neighbours are swapped when the key of the first is strictly greater.
  The lemmas show that the outer loop ends and that the result is the stable sort.
\<close>

text \<open>One run of the inner \<open>for\<close> loop: the array after it, and the \<open>swapped\<close> flag.\<close>

fun bubble_pass :: "('a \<Rightarrow> 'k::linorder) \<Rightarrow> 'a list \<Rightarrow> 'a list \<times> bool" where
  "bubble_pass k [] = ([], False)"
| "bubble_pass k [x] = ([x], False)"
| "bubble_pass k (x # y # zs) =
     (if k x > k y
      then (let (rest, _) = bubble_pass k (x # zs) in (y # rest, True))
      else (let (rest, swapped) = bubble_pass k (y # zs) in (x # rest, swapped)))"

text \<open>What a pass reduces: the number of pairs that are out of order.\<close>

fun inversions :: "('a \<Rightarrow> 'k::linorder) \<Rightarrow> 'a list \<Rightarrow> nat" where
  "inversions k [] = 0"
| "inversions k (x # xs) = length (filter (\<lambda>y. k x > k y) xs) + inversions k xs"

lemma mset_bubble_pass [simp]: "mset (fst (bubble_pass k xs)) = mset xs"
  by (induction k xs rule: bubble_pass.induct) (auto simp: split_beta Let_def)

lemma length_bubble_pass [simp]: "length (fst (bubble_pass k xs)) = length xs"
  by (metis mset_bubble_pass size_mset)

lemma length_filter_bubble_pass:
  "length (filter P (fst (bubble_pass k xs))) = length (filter P xs)"
  by (metis mset_bubble_pass mset_filter size_mset)

lemma inversions_bubble_pass:
  "inversions k (fst (bubble_pass k xs)) + (if snd (bubble_pass k xs) then 1 else 0)
     \<le> inversions k xs"
  by (induction k xs rule: bubble_pass.induct)
     (auto simp: split_beta Let_def length_filter_bubble_pass split: if_splits)

lemma bubble_pass_unswapped:
  "\<not> snd (bubble_pass k xs) \<Longrightarrow> fst (bubble_pass k xs) = xs \<and> sorted (map k xs)"
proof (induction k xs rule: bubble_pass.induct)
  case (3 k x y zs)
  then show ?case
    by (cases zs) (auto simp: split_beta Let_def split: if_splits)
qed auto

lemma filter_bubble_pass:
  "filter (\<lambda>x. k x = c) (fst (bubble_pass k xs)) = filter (\<lambda>x. k x = c) xs"
  by (induction k xs rule: bubble_pass.induct)
     (auto simp: split_beta Let_def)

function bubble_sort :: "('a \<Rightarrow> 'k::linorder) \<Rightarrow> 'a list \<Rightarrow> 'a list" where
  "bubble_sort k xs =
     (let (ys, swapped) = bubble_pass k xs in if swapped then bubble_sort k ys else ys)"
  by pat_completeness auto
termination
proof (relation "measure (\<lambda>(k, xs). inversions k xs)")
  fix k :: "'a \<Rightarrow> 'k::linorder" and xs ys swapped and p :: "'a list \<times> bool"
  assume "p = bubble_pass k xs" "(ys, swapped) = p" swapped
  then show "((k, ys), k, xs) \<in> measure (\<lambda>(k, xs). inversions k xs)"
    using inversions_bubble_pass [of k xs] by (cases "bubble_pass k xs") auto
qed simp

declare bubble_sort.simps [simp del]

lemma bubble_sort_keeps:
  "mset (bubble_sort k xs) = mset xs
   \<and> filter (\<lambda>x. k x = c) (bubble_sort k xs) = filter (\<lambda>x. k x = c) xs
   \<and> sorted (map k (bubble_sort k xs))"
proof (induction k xs rule: bubble_sort.induct)
  case (1 k xs)
  obtain ys sw where p: "bubble_pass k xs = (ys, sw)" by fastforce
  have m: "mset ys = mset xs" "filter (\<lambda>x. k x = c) ys = filter (\<lambda>x. k x = c) xs"
    using mset_bubble_pass [of k xs] filter_bubble_pass [of k c xs] p by simp_all
  show ?case
  proof (cases sw)
    case True
    then show ?thesis using "1" [of "(ys, sw)" ys sw] p m
      by (simp add: bubble_sort.simps [of k xs])
  next
    case False
    then show ?thesis using bubble_pass_unswapped [of k xs] p m
      by (simp add: bubble_sort.simps [of k xs])
  qed
qed

lemma mset_bubble_sort [simp]: "mset (bubble_sort k xs) = mset xs"
  using bubble_sort_keeps [of k xs] by blast

lemma set_bubble_sort [simp]: "set (bubble_sort k xs) = set xs"
  by (metis mset_bubble_sort set_mset_mset)

lemma length_bubble_sort [simp]: "length (bubble_sort k xs) = length xs"
  by (metis mset_bubble_sort size_mset)

lemma bubble_sort_eq_sort_key: "bubble_sort k xs = sort_key k xs"
proof (rule properties_for_sort_key [symmetric])
  show "mset (bubble_sort k xs) = mset xs" by simp
  show "sorted (map k (bubble_sort k xs))" using bubble_sort_keeps [of k xs] by blast
  show "filter (\<lambda>x. k y = k x) (bubble_sort k xs) = filter (\<lambda>x. k y = k x) xs" for y
    using bubble_sort_keeps [of k xs "k y"] by (simp add: eq_commute)
qed

end
