(* ===== verification/Util.thy ===== *)
theory Util
  imports Bubble
begin

text \<open>
  The arithmetic helpers of \<open>src/src/sapphireos/util.c\<close>: absolute values, comparison of
  wrapping sequence numbers, linear interpolation, the moving averages and the array
  averages, and the bubble sort.  Local variables keep the width of the C variable; a
  32 bit intermediate that cannot overflow is an \<open>int\<close>.  \<open>f_abs\<close> works on floats and
  is not modelled.
\<close>

section \<open>Operations\<close>

definition abs16 :: "i16 \<Rightarrow> u16" where
  "abs16 a = (if sint a < 0 then - a else a)"

definition abs32 :: "i32 \<Rightarrow> u32" where
  "abs32 a = (if sint a < 0 then - a else a)"

definition util_i8_compare_sequence_u16 :: "u16 \<Rightarrow> u16 \<Rightarrow> int" where
  "util_i8_compare_sequence_u16 a b =
     (let distance = sint (a - b) in if distance < 0 then - 1 else if distance > 0 then 1 else 0)"

definition util_i8_compare_sequence_u32 :: "u32 \<Rightarrow> u32 \<Rightarrow> int" where
  "util_i8_compare_sequence_u32 a b =
     (let distance = sint (a - b) in if distance < 0 then - 1 else if distance > 0 then 1 else 0)"

definition util_u16_linear_interp :: "u16 \<Rightarrow> u16 \<Rightarrow> u16 \<Rightarrow> u16 \<Rightarrow> u16 \<Rightarrow> u16" where
  "util_u16_linear_interp x x0 y0 x1 y1 =
     (let y_diff = y1 - y0;
          x_diff = x1 - x0
      in if x_diff = 0 then y0
         else (let temp = ((ucast x - ucast x0) :: u32) * ucast y_diff;
                   temp = temp div ucast x_diff
               in ucast ((ucast y0 :: u32) + temp)))"

definition util_v_bubble_sort_u16 :: "u16 list \<Rightarrow> u16 list" where
  "util_v_bubble_sort_u16 array = bubble_sort uint array"

definition util_i16_ewma :: "i16 \<Rightarrow> i16 \<Rightarrow> u8 \<Rightarrow> i16" where
  "util_i16_ewma nw old ratio =
     (let temp = (word_of_int ((uint ratio * sint nw) sdiv 256
                               + ((256 - uint ratio) * sint old) sdiv 256) :: i16)
      in if sint nw > sint old \<and> sint temp < sint old then old
         else if sint nw < sint old \<and> sint temp > sint old then old
         else temp)"

definition util_u16_ewma :: "u16 \<Rightarrow> u16 \<Rightarrow> u8 \<Rightarrow> u16" where
  "util_u16_ewma nw old ratio =
     (let temp = (word_of_int ((uint ratio * uint nw) div 256
                               + ((256 - uint ratio) * uint old) div 256) :: u16)
      in if nw > old \<and> temp < old then old
         else if nw < old \<and> temp > old then old
         else temp)"

text \<open>The averages divide by the length: \<^term>\<open>None\<close> for an empty array.\<close>

definition util_u8_average :: "u8 list \<Rightarrow> u8 option" where
  "util_u8_average dat =
     (let sum = foldl (\<lambda>s d. s + ucast d) (0 :: u16) dat
      in map_option ucast (u_div sum (of_nat (length dat))))"

definition util_i16_average :: "i16 list \<Rightarrow> i16 option" where
  "util_i16_average dat =
     (let sum = foldl (\<lambda>s d. s + scast d) (0 :: i32) dat
      in map_option ucast (c_div sum (of_nat (length dat))))"

definition util_u16_average :: "u16 list \<Rightarrow> u16 option" where
  "util_u16_average dat =
     (let sum = foldl (\<lambda>s d. s + ucast d) (0 :: u32) dat
      in map_option ucast (u_div sum (of_nat (length dat))))"

section \<open>Absolute values and sequence numbers\<close>

lemma uint_abs32: "uint (abs32 a) = \<bar>sint a\<bar>"
proof (cases "sint a < 0")
  case True
  then have "uint (abs32 a) = (- sint a) mod 4294967296" by (simp add: abs32_def uint_uminus32)
  then show ?thesis using True sint32_bounds [of a] by simp
next
  case False
  then show ?thesis by (simp add: abs32_def uint_eq_sint32)
qed

lemma uint_abs16: "uint (abs16 a) = \<bar>sint a\<bar>"
proof (cases "sint a < 0")
  case True
  then have "uint (abs16 a) = (- sint a) mod 65536" by (simp add: abs16_def uint_uminus16)
  then show ?thesis using True sint16_bounds [of a] by simp
next
  case False
  then show ?thesis by (simp add: abs16_def uint_eq_sint16)
qed

text \<open>
  Two sequence numbers less than half the range apart are ordered by how far the first
  is ahead, across the wrap of the counter.
\<close>

lemma compare_sequence_u16_ahead:
  assumes "0 < k" and "k < 32768"
  shows "util_i8_compare_sequence_u16 (b + word_of_int k) b = 1"
    and "util_i8_compare_sequence_u16 b (b + word_of_int k) = - 1"
proof -
  have "sint (word_of_int k :: u16) = k"
    using assms by (intro sint_word_of_int16) simp_all
  moreover have "sint (- word_of_int k :: u16) = - k"
    using assms sint_word_of_int16 [of "- k"] by simp
  ultimately show "util_i8_compare_sequence_u16 (b + word_of_int k) b = 1"
    and "util_i8_compare_sequence_u16 b (b + word_of_int k) = - 1"
    using assms by (simp_all add: util_i8_compare_sequence_u16_def Let_def)
qed

lemma compare_sequence_u16_antisym:
  assumes "a - b \<noteq> 0x8000"
  shows "util_i8_compare_sequence_u16 a b = - util_i8_compare_sequence_u16 b a"
proof -
  have "sint (b - a) = - sint (a - b)"
  proof -
    have "sint (a - b) \<noteq> - 32768"
    proof
      assume "sint (a - b) = - 32768"
      then have "word_of_int (sint (a - b)) = (word_of_int (- 32768) :: u16)" by (rule arg_cong)
      then show False using assms by simp
    qed
    then have "sint (word_of_int (- sint (a - b)) :: i16) = - sint (a - b)"
      using sint16_bounds [of "a - b"] by (intro sint_word_of_int16) simp_all
    then show ?thesis by simp
  qed
  then show ?thesis by (simp add: util_i8_compare_sequence_u16_def Let_def)
qed

section \<open>Interpolation\<close>

lemma unat_ucast_u16_u32 [simp]: "unat (ucast (x :: u16) :: u32) = unat x"
  using unat16_less [of x] by (simp add: unsigned_ucast_eq take_bit_nat_eq_self)

lemma util_u16_linear_interp_eq:
  assumes "x0 \<le> x" and "x \<le> x1" and "x0 < x1" and "y0 \<le> y1"
  shows "unat (util_u16_linear_interp x x0 y0 x1 y1)
         = unat y0 + (unat x - unat x0) * (unat y1 - unat y0) div (unat x1 - unat x0)"
proof -
  have le: "unat x0 \<le> unat x" "unat x \<le> unat x1" "unat x0 < unat x1" "unat y0 \<le> unat y1"
    using assms by (simp_all add: word_le_nat_alt word_less_nat_alt)
  define p where "p = (unat x - unat x0) * (unat y1 - unat y0)"
  have d: "unat (x1 - x0) = unat x1 - unat x0" "unat (y1 - y0) = unat y1 - unat y0"
    using assms by (simp_all add: unat_sub)
  have nz: "x1 - x0 \<noteq> 0" using assms by simp
  have diff: "unat ((ucast x - ucast x0) :: u32) = unat x - unat x0"
    using le by (subst unat_sub) (simp_all add: word_le_nat_alt)
  have p1: "p \<le> (unat x1 - unat x0) * (unat y1 - unat y0)"
    unfolding p_def using le by (intro mult_right_mono) simp_all
  also have "\<dots> \<le> 65535 * 65535"
    using unat16_less [of x1] unat16_less [of y1] by (intro mult_mono) simp_all
  finally have p2: "p < 4294967296" by simp
  have prod: "unat (((ucast x - ucast x0) :: u32) * ucast (y1 - y0)) = p"
    using p2 by (simp add: unat_word_ariths(2) diff d p_def)
  have q: "p div (unat x1 - unat x0) \<le> unat y1 - unat y0"
    using p1 le by (metis div_le_mono diff_is_0_eq nonzero_mult_div_cancel_left not_le)
  have quot: "unat ((((ucast x - ucast x0) :: u32) * ucast (y1 - y0)) div ucast (x1 - x0))
              = p div (unat x1 - unat x0)"
    by (simp add: unat_div prod d)
  have "unat y0 + p div (unat x1 - unat x0) < 65536"
    using q le unat16_less [of y1] by simp
  then show ?thesis
    using nz quot
    by (simp add: util_u16_linear_interp_def Let_def p_def unsigned_ucast_eq
        take_bit_nat_eq_self unat_word_ariths(1))
qed

lemma util_u16_linear_interp_between:
  assumes "x0 \<le> x" and "x \<le> x1" and "x0 < x1" and "y0 \<le> y1"
  shows "y0 \<le> util_u16_linear_interp x x0 y0 x1 y1 \<and> util_u16_linear_interp x x0 y0 x1 y1 \<le> y1"
proof -
  have le: "unat x0 \<le> unat x" "unat x \<le> unat x1" "unat x0 < unat x1" "unat y0 \<le> unat y1"
    using assms by (simp_all add: word_le_nat_alt word_less_nat_alt)
  have "(unat x - unat x0) * (unat y1 - unat y0) div (unat x1 - unat x0)
        \<le> (unat x1 - unat x0) * (unat y1 - unat y0) div (unat x1 - unat x0)"
    using le by (intro div_le_mono mult_right_mono) simp_all
  also have "\<dots> = unat y1 - unat y0" using le by simp
  finally show ?thesis
    using le by (simp add: word_le_nat_alt util_u16_linear_interp_eq [OF assms])
qed

section \<open>Averages\<close>

lemma foldl_u8_sum:
  assumes "unat s + 255 * length xs < 65536"
  shows "unat (foldl (\<lambda>s d. s + ucast d) (s :: u16) (xs :: u8 list)) = unat s + sum_list (map unat xs)"
  using assms
proof (induction xs arbitrary: s)
  case (Cons x xs)
  have b: "unat x < 256" by (rule unat8_less)
  then have a: "unat (s + ucast x) = unat s + unat x"
    using Cons.prems by (simp add: unat_word_ariths(1))
  show ?case using Cons.IH [of "s + ucast x"] Cons.prems a b by simp
qed simp

lemma sum_list_le_bound: "(\<And>x. x \<in> set xs \<Longrightarrow> x \<le> (m :: nat)) \<Longrightarrow> sum_list xs \<le> length xs * m"
  by (induction xs) force+

lemma sum_list_ge_bound: "(\<And>x. x \<in> set xs \<Longrightarrow> (m :: nat) \<le> x) \<Longrightarrow> length xs * m \<le> sum_list xs"
  by (induction xs) force+

lemma util_u8_average_eq:
  assumes "dat \<noteq> []" and "length dat < 256"
  shows "\<exists>a. util_u8_average dat = Some a \<and> unat a = sum_list (map unat dat) div length dat"
proof -
  let ?s = "sum_list (map unat dat)"
  have s: "unat (foldl (\<lambda>s d. s + ucast d) (0 :: u16) dat) = ?s"
    using assms(2) foldl_u8_sum [of 0 dat] by simp
  have l: "unat (of_nat (length dat) :: u16) = length dat"
    using assms(2) by (simp add: unsigned_of_nat take_bit_nat_eq_self)
  then have nz: "(of_nat (length dat) :: u16) \<noteq> 0"
    using assms(1) by (metis length_0_conv unsigned_0)
  have "?s \<le> length dat * 255"
  proof -
    have "x \<le> 255" if "x \<in> set (map unat dat)" for x
    proof -
      from that obtain y :: u8 where "x = unat y" by auto
      then show ?thesis using unat8_less [of y] by simp
    qed
    then show ?thesis using sum_list_le_bound [of "map unat dat" 255] by simp
  qed
  then have "?s div length dat \<le> 255"
    using assms(1) by (metis div_le_mono length_0_conv nonzero_mult_div_cancel_left)
  then show ?thesis
    using s l nz
    by (simp add: util_u8_average_def Let_def u_div_def unsigned_ucast_eq unat_div take_bit_nat_eq_self)
qed

lemma util_u8_average_between:
  assumes "dat \<noteq> []" and "length dat < 256" and "\<forall>x \<in> set dat. lo \<le> x \<and> x \<le> hi"
  shows "\<exists>a. util_u8_average dat = Some a \<and> lo \<le> a \<and> a \<le> hi"
proof -
  obtain a where a: "util_u8_average dat = Some a" "unat a = sum_list (map unat dat) div length dat"
    using util_u8_average_eq [OF assms(1,2)] by blast
  have "sum_list (map unat dat) \<le> length dat * unat hi"
    using assms(3) sum_list_le_bound [of "map unat dat" "unat hi"] by (auto simp: word_le_nat_alt)
  moreover have "length dat * unat lo \<le> sum_list (map unat dat)"
    using assms(3) sum_list_ge_bound [of "map unat dat" "unat lo"] by (auto simp: word_le_nat_alt)
  ultimately have "unat lo \<le> unat a" "unat a \<le> unat hi"
    using assms(1) a(2)
    by (metis div_le_mono length_0_conv nonzero_mult_div_cancel_left)+
  then show ?thesis using a(1) by (auto simp: word_le_nat_alt)
qed

section \<open>Moving average\<close>

lemma weighted_sum_bounds:
  fixes r n q m M :: int
  assumes "0 \<le> r" "r \<le> 256" "m \<le> n" "m \<le> q" "n \<le> M" "q \<le> M"
  shows "m - 1 \<le> r * n div 256 + (256 - r) * q div 256"
    and "r * n div 256 + (256 - r) * q div 256 \<le> M"
proof -
  have "r * m \<le> r * n" "(256 - r) * m \<le> (256 - r) * q"
    using assms by (simp_all add: mult_left_mono)
  moreover have "r * m + (256 - r) * m = 256 * m" by (simp add: algebra_simps)
  ultimately show "m - 1 \<le> r * n div 256 + (256 - r) * q div 256" by linarith
  have "r * n \<le> r * M" "(256 - r) * q \<le> (256 - r) * M"
    using assms by (simp_all add: mult_left_mono)
  moreover have "r * M + (256 - r) * M = 256 * M" by (simp add: algebra_simps)
  ultimately show "r * n div 256 + (256 - r) * q div 256 \<le> M" by linarith
qed

text \<open>
  The unsigned average never overshoots, and undershoots the smaller of its inputs by at
  most one: the two truncated quotients can lose one unit together.
\<close>

lemma util_u16_ewma_bounds:
  "uint (min nw old) - 1 \<le> uint (util_u16_ewma nw old ratio)
   \<and> uint (util_u16_ewma nw old ratio) \<le> uint (max nw old)"
proof -
  define t where "t = (uint ratio * uint nw) div 256 + ((256 - uint ratio) * uint old) div 256"
  have r: "0 \<le> uint ratio" "uint ratio \<le> 256"
    using unsigned_less [of ratio, where ?'a = int] by simp_all
  have mm: "uint (min nw old) \<le> uint nw" "uint (min nw old) \<le> uint old"
    "uint nw \<le> uint (max nw old)" "uint old \<le> uint (max nw old)"
    by (simp_all flip: word_le_def)
  have b: "uint (min nw old) - 1 \<le> t" "t \<le> uint (max nw old)"
    using weighted_sum_bounds [OF r mm(1,2,3,4)] by (simp_all add: t_def)
  have "0 \<le> t" unfolding t_def using r
    by (intro add_nonneg_nonneg) (simp_all add: pos_imp_zdiv_nonneg_iff)
  then have u: "uint (word_of_int t :: u16) = t"
    using b(2) uint16_bounds [of "max nw old"] by (intro uint_word_of_int16) simp_all
  then show ?thesis
    using b mm by (auto simp: util_u16_ewma_def Let_def simp flip: t_def)
qed

section \<open>Sorting\<close>

lemma util_v_bubble_sort_u16_sorts:
  "sorted (util_v_bubble_sort_u16 xs) \<and> mset (util_v_bubble_sort_u16 xs) = mset xs"
proof -
  have "sorted (map uint (bubble_sort uint xs))"
    using bubble_sort_keeps [of uint xs] by blast
  then show ?thesis
    by (auto simp: util_v_bubble_sort_u16_def sorted_map word_le_def elim: sorted_wrt_mono_rel [rotated])
qed

end
