(* ===== verification/Kvdb.thy ===== *)
theory Kvdb
  imports Bubble
begin

text \<open>
  The key/value database of \<open>src/src/sapphireos/kvdb.c\<close>, as the pixel firmware builds it
  (no name file, no safe mode).  The database is one heap block holding an array of
  \<open>db_entry32_t\<close>, kept sorted by descending hash with the free entries (hash 0) at the
  end, and a one-entry cache of the last successful search.

  The allocator is a parameter: \<open>kvdb_v_init\<close> takes the handle that \<open>mem2_h_alloc\<close>
  returned, and \<open>kvdb_i8_add\<close> takes what \<open>mem2_i8_realloc\<close> gave (\<^term>\<open>None\<close> when it
  failed, otherwise the raw contents of the entries the block grew by).  The weak hooks
  \<open>kvdb_v_notify_set\<close> and \<open>kvdb_i8_handle_publish\<close> belong to the application: whether the
  first is linked is a field, the second is an argument, and their calls are logged.
\<close>

section \<open>State\<close>

record catbus_meta =
  meta_hash :: u32
  meta_type :: u8
  meta_count :: u8
  meta_flags :: u8
  meta_reserved :: u8

datatype kv_call = Notify_set u32 catbus_meta i32 | Handle_publish u32

record db_entry32 =
  de_hash :: u32
  de_type :: u8
  de_flags :: u8
  de_tag :: u8
  de_data :: i32

record kvdb_state =
  kv_count :: u16
  db_size :: u16
  kv_handle :: int
  kv_entries :: "db_entry32 list"
  cached_index :: int
  cached_hash :: u32
  notify_linked :: bool
  kv_calls :: "kv_call list"

definition zero_entry :: db_entry32 where
  "zero_entry = \<lparr>de_hash = 0, de_type = 0, de_flags = 0, de_tag = 0, de_data = 0\<rparr>"

definition kvdb_initial :: "bool \<Rightarrow> kvdb_state" where
  "kvdb_initial linked =
     \<lparr>kv_count = 0, db_size = 0, kv_handle = - 1, kv_entries = [], cached_index = - 1,
      cached_hash = 0, notify_linked = linked, kv_calls = []\<rparr>"

abbreviation (input) KVDB_STATUS_OK :: int where "KVDB_STATUS_OK \<equiv> 0"
abbreviation (input) KVDB_STATUS_NOT_FOUND :: int where "KVDB_STATUS_NOT_FOUND \<equiv> - 1"
abbreviation (input) KVDB_STATUS_NOT_ENOUGH_SPACE :: int where "KVDB_STATUS_NOT_ENOUGH_SPACE \<equiv> - 2"
abbreviation (input) KVDB_STATUS_INVALID_HASH :: int where "KVDB_STATUS_INVALID_HASH \<equiv> - 3"

abbreviation (input) KVDB_INITIAL_SIZE :: u16 where "KVDB_INITIAL_SIZE \<equiv> 8"
abbreviation (input) KVDB_SIZE_INCREMENT :: u16 where "KVDB_SIZE_INCREMENT \<equiv> 4"
abbreviation (input) KVDB_MAX_ENTRIES :: u16 where "KVDB_MAX_ENTRIES \<equiv> 128"
abbreviation (input) CATBUS_FLAGS_DYNAMIC :: u8 where "CATBUS_FLAGS_DYNAMIC \<equiv> 8"
abbreviation (input) CATBUS_TYPE_INT32 :: u8 where "CATBUS_TYPE_INT32 \<equiv> 7"

section \<open>Search and sort\<close>

text \<open>The \<open>while\<close> loop of the binary search; the locals are \<open>int16_t\<close> and stay below 129.\<close>

function kv_bsearch :: "db_entry32 list \<Rightarrow> u32 \<Rightarrow> int \<Rightarrow> int \<Rightarrow> int" where
  "kv_bsearch entry hash first lst =
     (if first \<le> lst
      then (let middle = (first + lst) div 2
            in if de_hash (entry ! nat middle) > hash
               then kv_bsearch entry hash (middle + 1) lst
               else if de_hash (entry ! nat middle) = hash then middle
               else kv_bsearch entry hash first (middle - 1))
      else - 1)"
  by pat_completeness auto
termination
  by (relation "measure (\<lambda>(entry, hash, first, lst). nat (lst - first + 1))") auto

declare kv_bsearch.simps [simp del]

definition kvdb_i16_search_hash :: "u32 \<Rightarrow> kvdb_state \<Rightarrow> int \<times> kvdb_state" where
  "kvdb_i16_search_hash hash st =
     (if hash = 0 then (- 1, st)
      else if cached_index st \<ge> 0 \<and> cached_hash st = hash then (cached_index st, st)
      else (let middle = kv_bsearch (kv_entries st) hash 0 (uint (db_size st) - 1)
            in if middle \<ge> 0
               then (middle, st\<lparr>cached_hash := hash, cached_index := middle\<rparr>)
               else (- 1, st)))"

definition kv_key :: "db_entry32 \<Rightarrow> int" where
  "kv_key e = - uint (de_hash e)"

text \<open>Neighbours are swapped when the first hash is smaller: descending order.\<close>

definition kvdb_v_sort :: "kvdb_state \<Rightarrow> kvdb_state" where
  "kvdb_v_sort st = st\<lparr>kv_entries := bubble_sort kv_key (kv_entries st)\<rparr>"

section \<open>The interface of the module\<close>

definition kvdb_v_init :: "int \<Rightarrow> kvdb_state \<Rightarrow> kvdb_state" where
  "kvdb_v_init h st =
     (let st = st\<lparr>kv_handle := h\<rparr>
      in if h < 0 then st
         else st\<lparr>db_size := KVDB_INITIAL_SIZE,
                 kv_entries := replicate (unat KVDB_INITIAL_SIZE) zero_entry\<rparr>)"

definition kvdb_u16_count :: "kvdb_state \<Rightarrow> u16" where
  "kvdb_u16_count st = kv_count st"

definition kvdb_u16_db_size :: "kvdb_state \<Rightarrow> u16" where
  "kvdb_u16_db_size st = db_size st * 11"

definition kvdb_i8_get_meta :: "u32 \<Rightarrow> kvdb_state \<Rightarrow> int \<times> catbus_meta option \<times> kvdb_state" where
  "kvdb_i8_get_meta hash st =
     (if kv_handle st < 0 then (KVDB_STATUS_NOT_ENOUGH_SPACE, None, st)
      else (let (index, st) = kvdb_i16_search_hash hash st
            in if index \<ge> 0
               then (let e = kv_entries st ! nat index
                     in (KVDB_STATUS_OK,
                         Some \<lparr>meta_hash = hash, meta_type = de_type e, meta_count = 0,
                               meta_flags = de_flags e, meta_reserved = 0\<rparr>, st))
               else (KVDB_STATUS_NOT_FOUND,
                     Some \<lparr>meta_hash = 0, meta_type = 0, meta_count = 0, meta_flags = 0,
                           meta_reserved = 0\<rparr>, st)))"

text \<open>
  \<open>kvdb_i8_set\<close>.  The notifier is handed the metadata of the key; the search inside
  \<open>kvdb_i8_get_meta\<close> finds the entry in the cache.
\<close>

definition kvdb_i8_set :: "u32 \<Rightarrow> i32 \<Rightarrow> kvdb_state \<Rightarrow> int \<times> kvdb_state" where
  "kvdb_i8_set hash dat st =
     (if hash = 0 then (KVDB_STATUS_INVALID_HASH, st)
      else if kv_handle st < 0 then (KVDB_STATUS_NOT_ENOUGH_SPACE, st)
      else (let (index, st) = kvdb_i16_search_hash hash st
            in if index \<ge> 0
               then (let i = nat index;
                         changed = (de_data (kv_entries st ! i) \<noteq> dat);
                         st = st\<lparr>kv_entries := (kv_entries st)
                                   [i := (kv_entries st ! i)\<lparr>de_data := dat\<rparr>]\<rparr>
                     in if notify_linked st \<and> changed
                        then (let (_, meta, st) = kvdb_i8_get_meta hash st
                              in (KVDB_STATUS_OK,
                                  st\<lparr>kv_calls := kv_calls st @
                                        [Notify_set hash (the meta) dat]\<rparr>))
                        else (KVDB_STATUS_OK, st))
               else (KVDB_STATUS_NOT_FOUND, st)))"

text \<open>\<open>kvdb_i8_get\<close>: status and the value stored through the pointer, if one is stored.\<close>

definition kvdb_i8_get :: "u32 \<Rightarrow> kvdb_state \<Rightarrow> int \<times> i32 option \<times> kvdb_state" where
  "kvdb_i8_get hash st =
     (if kv_handle st < 0 then (KVDB_STATUS_NOT_ENOUGH_SPACE, None, st)
      else (let (index, st) = kvdb_i16_search_hash hash st
            in if index \<ge> 0
               then (KVDB_STATUS_OK, Some (de_data (kv_entries st ! nat index)), st)
               else (KVDB_STATUS_NOT_FOUND, Some 0, st)))"

text \<open>The loop that stores a new entry at the first free index.\<close>

fun kv_fill_free :: "db_entry32 \<Rightarrow> db_entry32 list \<Rightarrow> db_entry32 list" where
  "kv_fill_free e [] = []"
| "kv_fill_free e (x # xs) = (if de_hash x = 0 then e # xs else x # kv_fill_free e xs)"

definition kvdb_grow :: "db_entry32 list option \<Rightarrow> kvdb_state \<Rightarrow> kvdb_state option" where
  "kvdb_grow grown st =
     (if kv_count st \<ge> db_size st
      then (case grown of
              None \<Rightarrow> None
            | Some raw \<Rightarrow>
                Some (st\<lparr>kv_entries := kv_entries st @ map (\<lambda>e. e\<lparr>de_hash := 0\<rparr>) raw,
                         db_size := db_size st + KVDB_SIZE_INCREMENT\<rparr>))
      else Some st)"

definition kvdb_i8_add ::
    "u32 \<Rightarrow> i32 \<Rightarrow> u8 \<Rightarrow> db_entry32 list option \<Rightarrow> kvdb_state \<Rightarrow> int \<times> kvdb_state" where
  "kvdb_i8_add hash dat tag grown st =
     (let (status, st) = kvdb_i8_set hash dat st
      in if status = KVDB_STATUS_OK then (status, st)
         else if hash = 0 then (KVDB_STATUS_INVALID_HASH, st)
         else if kv_handle st < 0 then (KVDB_STATUS_NOT_ENOUGH_SPACE, st)
         else if kv_count st \<ge> KVDB_MAX_ENTRIES then (KVDB_STATUS_NOT_ENOUGH_SPACE, st)
         else (case kvdb_grow grown st of
                 None \<Rightarrow> (KVDB_STATUS_NOT_ENOUGH_SPACE, st)
               | Some st \<Rightarrow>
                   (let e = \<lparr>de_hash = hash, de_type = CATBUS_TYPE_INT32,
                             de_flags = CATBUS_FLAGS_DYNAMIC, de_tag = tag, de_data = dat\<rparr>;
                        st = st\<lparr>kv_entries := kv_fill_free e (kv_entries st),
                                kv_count := kv_count st + 1\<rparr>
                    in (KVDB_STATUS_OK, kvdb_v_sort st))))"

definition kvdb_i8_delete :: "u32 \<Rightarrow> kvdb_state \<Rightarrow> int \<times> kvdb_state" where
  "kvdb_i8_delete hash st =
     (if kv_handle st < 0 then (KVDB_STATUS_NOT_ENOUGH_SPACE, st)
      else (let (index, st) = kvdb_i16_search_hash hash st
            in if index \<ge> 0
               then (let i = nat index;
                         st = st\<lparr>kv_entries := (kv_entries st)
                                   [i := (kv_entries st ! i)\<lparr>de_hash := 0\<rparr>],
                                 kv_count := kv_count st - 1\<rparr>;
                         st = kvdb_v_sort st
                     in (KVDB_STATUS_OK, st\<lparr>cached_index := - 1\<rparr>))
               else (KVDB_STATUS_NOT_FOUND, st)))"

text \<open>The loop of \<open>kvdb_v_delete_tag\<close>: the entries after it, and the entry count.\<close>

fun kv_clear_tag :: "u8 \<Rightarrow> db_entry32 list \<Rightarrow> u16 \<Rightarrow> db_entry32 list \<times> u16" where
  "kv_clear_tag tag [] cnt = ([], cnt)"
| "kv_clear_tag tag (e # es) cnt =
     (if de_hash e \<noteq> 0 \<and> de_tag e = tag
      then (let (es, cnt) = kv_clear_tag tag es (cnt - 1) in (e\<lparr>de_hash := 0\<rparr> # es, cnt))
      else (let (es, cnt) = kv_clear_tag tag es cnt in (e # es, cnt)))"

definition kvdb_v_delete_tag :: "u8 \<Rightarrow> kvdb_state \<Rightarrow> kvdb_state" where
  "kvdb_v_delete_tag tag st =
     (if kv_handle st < 0 then st
      else (let (es, cnt) = kv_clear_tag tag (kv_entries st) (kv_count st)
            in kvdb_v_sort (st\<lparr>kv_entries := es, kv_count := cnt, cached_index := - 1\<rparr>)))"

definition kvdb_i8_publish :: "(u32 \<Rightarrow> int) option \<Rightarrow> u32 \<Rightarrow> kvdb_state \<Rightarrow> int \<times> kvdb_state" where
  "kvdb_i8_publish hook hash st =
     (case hook of
        None \<Rightarrow> (KVDB_STATUS_OK, st)
      | Some f \<Rightarrow> (f hash, st\<lparr>kv_calls := kv_calls st @ [Handle_publish hash]\<rparr>))"

definition kvdb_h_get_hash_for_index :: "u16 \<Rightarrow> kvdb_state \<Rightarrow> u32" where
  "kvdb_h_get_hash_for_index index st =
     (if kv_handle st < 0 then 0
      else if index \<ge> db_size st then 0
      else de_hash (kv_entries st ! unat index))"

definition kvdb_i16_get_index_for_hash :: "u32 \<Rightarrow> kvdb_state \<Rightarrow> int \<times> kvdb_state" where
  "kvdb_i16_get_index_for_hash hash st =
     (if kv_handle st < 0 then (0, st) else kvdb_i16_search_hash hash st)"

text \<open>
  The direct reads truncate what \<open>kvdb_i8_get\<close> stored; the value is indeterminate
  (\<^term>\<open>None\<close>) when it stored nothing, because the database was never allocated.
\<close>

definition kvdb_i32_read :: "u32 \<Rightarrow> kvdb_state \<Rightarrow> i32 option \<times> kvdb_state" where
  "kvdb_i32_read hash st = (let (_, dat, st) = kvdb_i8_get hash st in (dat, st))"

definition kvdb_u16_read :: "u32 \<Rightarrow> kvdb_state \<Rightarrow> u16 option \<times> kvdb_state" where
  "kvdb_u16_read hash st = (let (_, dat, st) = kvdb_i8_get hash st in (map_option ucast dat, st))"

definition kvdb_u8_read :: "u32 \<Rightarrow> kvdb_state \<Rightarrow> u8 option \<times> kvdb_state" where
  "kvdb_u8_read hash st = (let (_, dat, st) = kvdb_i8_get hash st in (map_option ucast dat, st))"

definition kvdb_i8_read :: "u32 \<Rightarrow> kvdb_state \<Rightarrow> i8 option \<times> kvdb_state" where
  "kvdb_i8_read hash st = (let (_, dat, st) = kvdb_i8_get hash st in (map_option ucast dat, st))"

definition kvdb_i16_read :: "u32 \<Rightarrow> kvdb_state \<Rightarrow> i16 option \<times> kvdb_state" where
  "kvdb_i16_read hash st = (let (_, dat, st) = kvdb_i8_get hash st in (map_option ucast dat, st))"

definition kvdb_b_read :: "u32 \<Rightarrow> kvdb_state \<Rightarrow> bool option \<times> kvdb_state" where
  "kvdb_b_read hash st = (let (_, dat, st) = kvdb_i8_get hash st in (map_option (\<lambda>d. d \<noteq> 0) dat, st))"

section \<open>Well-formed databases\<close>

definition kv_live :: "db_entry32 list \<Rightarrow> db_entry32 list" where
  "kv_live es = filter (\<lambda>e. de_hash e \<noteq> 0) es"

definition kv_sorted :: "db_entry32 list \<Rightarrow> bool" where
  "kv_sorted es \<longleftrightarrow> sorted (map kv_key es)"

text \<open>
  The invariant every operation keeps: the block holds \<open>db_size\<close> entries, sorted by
  descending hash, no hash twice, and \<open>kv_count\<close> of them are in use.
\<close>

definition kvdb_wf :: "kvdb_state \<Rightarrow> bool" where
  "kvdb_wf st \<longleftrightarrow>
     0 \<le> kv_handle st
     \<and> length (kv_entries st) = unat (db_size st) \<and> unat (db_size st) \<le> 128
     \<and> 4 dvd unat (db_size st)
     \<and> kv_sorted (kv_entries st)
     \<and> distinct (map de_hash (kv_live (kv_entries st)))
     \<and> unat (kv_count st) = length (kv_live (kv_entries st))"

text \<open>The cache, when it is set, names the entry of the cached hash.\<close>

definition cache_ok :: "kvdb_state \<Rightarrow> bool" where
  "cache_ok st \<longleftrightarrow>
     0 \<le> cached_index st \<longrightarrow>
       nat (cached_index st) < length (kv_entries st)
       \<and> cached_hash st \<noteq> 0
       \<and> de_hash (kv_entries st ! nat (cached_index st)) = cached_hash st"

text \<open>The weaker fact that holds even when the cache is stale: it stays inside the block.\<close>

definition cache_in_range :: "kvdb_state \<Rightarrow> bool" where
  "cache_in_range st \<longleftrightarrow> cached_index st < int (length (kv_entries st))"

text \<open>What the database means: a partial map from hashes to values.\<close>

definition kv_map :: "db_entry32 list \<Rightarrow> u32 \<rightharpoonup> i32" where
  "kv_map es = map_of (map (\<lambda>e. (de_hash e, de_data e)) (kv_live es))"

definition kvdb_abs :: "kvdb_state \<Rightarrow> u32 \<rightharpoonup> i32" where
  "kvdb_abs st = kv_map (kv_entries st)"

lemma map_fst_live: "map fst (map (\<lambda>e. (de_hash e, de_data e)) es) = map de_hash es"
  by (simp add: comp_def)

lemma kv_live_append [simp]: "kv_live (xs @ ys) = kv_live xs @ kv_live ys"
  by (simp add: kv_live_def)

lemma mset_kv_live_sort [simp]: "mset (kv_live (bubble_sort kv_key es)) = mset (kv_live es)"
  by (simp add: kv_live_def)

lemma kv_live_sort_distinct [simp]:
  "distinct (map de_hash (kv_live (bubble_sort kv_key es))) = distinct (map de_hash (kv_live es))"
  by (metis mset_eq_imp_distinct_iff mset_kv_live_sort mset_map)

lemma kv_live_sort_length [simp]:
  "length (kv_live (bubble_sort kv_key es)) = length (kv_live es)"
  by (metis mset_kv_live_sort size_mset)

lemma kv_sorted_sort [simp]: "kv_sorted (bubble_sort kv_key es)"
  using bubble_sort_keeps [of kv_key es] by (simp add: kv_sorted_def)

text \<open>The meaning depends on the live entries only, not on their order.\<close>

lemma kv_map_live_cong:
  assumes "mset (kv_live xs) = mset (kv_live ys)" and "distinct (map de_hash (kv_live ys))"
  shows "kv_map xs = kv_map ys"
proof -
  let ?f = "\<lambda>e. (de_hash e, de_data e)"
  have "distinct (map de_hash (kv_live xs))"
    using assms by (metis mset_eq_imp_distinct_iff mset_map)
  moreover have "set (kv_live xs) = set (kv_live ys)"
    using assms(1) by (metis set_mset_mset)
  ultimately show ?thesis
    using assms(2) unfolding kv_map_def
    by (subst map_of_inject_set) (simp_all add: comp_def)
qed

lemma kv_map_sort [simp]:
  "distinct (map de_hash (kv_live es)) \<Longrightarrow> kv_map (bubble_sort kv_key es) = kv_map es"
  by (rule kv_map_live_cong) simp_all

lemma kv_map_Some_iff:
  assumes "distinct (map de_hash (kv_live es))"
  shows "kv_map es h = Some v \<longleftrightarrow> h \<noteq> 0 \<and> (\<exists>e \<in> set es. de_hash e = h \<and> de_data e = v)"
  using assms unfolding kv_map_def
  by (subst map_of_eq_Some_iff) (auto simp: comp_def kv_live_def)

lemma kv_map_None_iff: "kv_map es h = None \<longleftrightarrow> h = 0 \<or> (\<forall>e \<in> set es. de_hash e \<noteq> h)"
  by (auto simp: kv_map_def map_of_eq_None_iff kv_live_def image_image)

lemma kv_map_nth:
  assumes "distinct (map de_hash (kv_live es))" and "i < length es" and "de_hash (es ! i) \<noteq> 0"
  shows "kv_map es (de_hash (es ! i)) = Some (de_data (es ! i))"
  using assms by (subst kv_map_Some_iff) auto

text \<open>A live hash occurs at one index only.\<close>

lemma live_index_unique:
  assumes "distinct (map de_hash (kv_live es))" and "i < length es" and "j < length es"
    and "de_hash (es ! i) = de_hash (es ! j)" and "de_hash (es ! i) \<noteq> 0"
  shows "i = j"
  using assms
proof (induction es arbitrary: i j)
  case (Cons e es)
  have notin: "de_hash (es ! k) \<noteq> de_hash e" if "k < length es" "de_hash e \<noteq> 0" for k
    using Cons.prems(1) that by (auto simp: kv_live_def image_iff dest: nth_mem)
  have rest: "distinct (map de_hash (kv_live es))"
    using Cons.prems(1) by (auto simp: kv_live_def split: if_splits)
  show ?case
    using Cons.prems(2-5) notin Cons.IH [OF rest]
    by (cases i; cases j) fastforce+
qed simp

section \<open>The binary search\<close>

lemma kv_sorted_nth:
  assumes "kv_sorted es" and "i \<le> j" and "j < length es"
  shows "de_hash (es ! j) \<le> de_hash (es ! i)"
proof -
  have "map kv_key es ! i \<le> map kv_key es ! j"
    using assms by (intro sorted_nth_mono) (simp_all add: kv_sorted_def)
  then show ?thesis using assms by (simp add: kv_key_def word_le_def)
qed

lemma kv_bsearch_correct:
  assumes "kv_sorted es" and "0 \<le> first" and "lst < int (length es)"
    and "\<And>i. i < length es \<Longrightarrow> de_hash (es ! i) = h \<Longrightarrow> first \<le> int i \<and> int i \<le> lst"
  shows "(kv_bsearch es h first lst = - 1 \<and> (\<forall>i < length es. de_hash (es ! i) \<noteq> h))
         \<or> (0 \<le> kv_bsearch es h first lst
            \<and> nat (kv_bsearch es h first lst) < length es
            \<and> de_hash (es ! nat (kv_bsearch es h first lst)) = h)"
  using assms
proof (induction es h first lst rule: kv_bsearch.induct)
  case (1 es h first lst)
  define m where "m = (first + lst) div 2"
  show ?case
  proof (cases "first \<le> lst")
    case False
    then show ?thesis using "1.prems"(4)
      by (subst (1 2 3 4) kv_bsearch.simps) force
  next
    case True
    have m: "first \<le> m" "m \<le> lst" "0 \<le> m" "nat m < length es"
      using True "1.prems"(2,3) by (auto simp: m_def)
    consider "de_hash (es ! nat m) > h" | "de_hash (es ! nat m) = h" | "de_hash (es ! nat m) < h"
      by fastforce
    then show ?thesis
    proof cases
      case 1
      have "m + 1 \<le> int i \<and> int i \<le> lst" if i: "i < length es" "de_hash (es ! i) = h" for i
      proof -
        have "\<not> i \<le> nat m" using kv_sorted_nth [OF "1.prems"(1), of i "nat m"] m 1 i by auto
        then show ?thesis using "1.prems"(4) [OF i] m by auto
      qed
      moreover have "kv_bsearch es h first lst = kv_bsearch es h (m + 1) lst"
        using True 1 by (subst kv_bsearch.simps) (simp add: m_def Let_def)
      ultimately show ?thesis
        using "1.IH"(1) [OF True m_def] 1 "1.prems"(1,3) m by auto
    next
      case 2
      then have "kv_bsearch es h first lst = m"
        using True by (subst kv_bsearch.simps) (simp add: m_def Let_def)
      then show ?thesis using m 2 by simp
    next
      case 3
      have "first \<le> int i \<and> int i \<le> m - 1" if i: "i < length es" "de_hash (es ! i) = h" for i
      proof -
        have "\<not> nat m \<le> i" using kv_sorted_nth [OF "1.prems"(1), of "nat m" i] m 3 i by auto
        then show ?thesis using "1.prems"(4) [OF i] m by auto
      qed
      moreover have "kv_bsearch es h first lst = kv_bsearch es h first (m - 1)"
        using True 3 by (subst kv_bsearch.simps) (auto simp: m_def Let_def)
      ultimately show ?thesis
        using "1.IH"(2) [OF True m_def] 3 "1.prems"(1,2,3) m by auto
    qed
  qed
qed

lemma search_miss:
  assumes "kvdb_wf st" and "cache_ok st" and "kvdb_abs st h = None"
  shows "kvdb_i16_search_hash h st = (- 1, st)"
proof (cases "h = 0")
  case True
  then show ?thesis by (simp add: kvdb_i16_search_hash_def)
next
  case False
  then have none: "\<forall>e \<in> set (kv_entries st). de_hash e \<noteq> h"
    using assms(3) by (simp add: kvdb_abs_def kv_map_None_iff)
  then have "\<not> (0 \<le> cached_index st \<and> cached_hash st = h)"
    using assms(2) by (auto simp: cache_ok_def)
  moreover have "kv_bsearch (kv_entries st) h 0 (uint (db_size st) - 1) = - 1"
    using kv_bsearch_correct [of "kv_entries st" 0 "uint (db_size st) - 1" h] assms(1) none
    by (auto simp: kvdb_wf_def dest: nth_mem)
  ultimately show ?thesis using False by (simp add: kvdb_i16_search_hash_def)
qed

lemma search_hit:
  assumes wf: "kvdb_wf st" and cache: "cache_ok st" and hit: "kvdb_abs st h = Some v"
  obtains i where "kvdb_i16_search_hash h st = (int i, st\<lparr>cached_hash := h, cached_index := int i\<rparr>)"
    and "i < length (kv_entries st)" and "h \<noteq> 0"
    and "de_hash (kv_entries st ! i) = h" and "de_data (kv_entries st ! i) = v"
proof -
  have d: "distinct (map de_hash (kv_live (kv_entries st)))" using wf by (simp add: kvdb_wf_def)
  obtain k where k: "h \<noteq> 0" "k < length (kv_entries st)" "de_hash (kv_entries st ! k) = h"
    "de_data (kv_entries st ! k) = v"
    using hit d by (auto simp: kvdb_abs_def kv_map_Some_iff in_set_conv_nth)
  show thesis
  proof (cases "0 \<le> cached_index st \<and> cached_hash st = h")
    case True
    then have c: "nat (cached_index st) < length (kv_entries st)"
      "de_hash (kv_entries st ! nat (cached_index st)) = h"
      using cache by (auto simp: cache_ok_def)
    then have "nat (cached_index st) = k" using live_index_unique [OF d _ k(2)] k by auto
    then have "cached_index st = int k" using True by auto
    then show ?thesis using that [of k] k True by (simp add: kvdb_i16_search_hash_def)
  next
    case False
    let ?m = "kv_bsearch (kv_entries st) h 0 (uint (db_size st) - 1)"
    have n: "uint (db_size st) - 1 = int (length (kv_entries st)) - 1" and srt: "kv_sorted (kv_entries st)"
      using wf by (simp_all add: kvdb_wf_def)
    have "(?m = - 1 \<and> (\<forall>i < length (kv_entries st). de_hash (kv_entries st ! i) \<noteq> h))
      \<or> (0 \<le> ?m \<and> nat ?m < length (kv_entries st) \<and> de_hash (kv_entries st ! nat ?m) = h)"
      unfolding n by (rule kv_bsearch_correct [OF srt]) simp_all
    then have "0 \<le> ?m \<and> nat ?m < length (kv_entries st) \<and> de_hash (kv_entries st ! nat ?m) = h"
      using k(2,3) by blast
    moreover from this have "nat ?m = k"
      using live_index_unique [OF d _ k(2), of "nat ?m"] k(1,3) by simp
    ultimately have m: "?m = int k" by linarith
    have "kvdb_i16_search_hash h st = (int k, st\<lparr>cached_hash := h, cached_index := int k\<rparr>)"
      using k(1) False m by (auto simp: kvdb_i16_search_hash_def Let_def)
    then show ?thesis using k by (intro that [of k])
  qed
qed

section \<open>Reading and writing\<close>

text \<open>A client that never adds a key relies on this invariant.\<close>

definition kvdb_inv :: "kvdb_state \<Rightarrow> bool" where
  "kvdb_inv st \<longleftrightarrow> kvdb_wf st \<and> cache_ok st"

lemma cached_keeps [keeps]:
  "kvdb_wf (st\<lparr>cached_hash := h, cached_index := i\<rparr>) = kvdb_wf st"
  "kvdb_wf (st\<lparr>cached_index := i\<rparr>) = kvdb_wf st"
  "kvdb_wf (st\<lparr>cached_hash := h\<rparr>) = kvdb_wf st"
  "kvdb_abs (st\<lparr>cached_hash := h\<rparr>) = kvdb_abs st"
  "kvdb_wf (st\<lparr>kv_calls := cs\<rparr>) = kvdb_wf st"
  "kvdb_abs (st\<lparr>cached_hash := h, cached_index := i\<rparr>) = kvdb_abs st"
  "kvdb_abs (st\<lparr>cached_index := i\<rparr>) = kvdb_abs st"
  "kvdb_abs (st\<lparr>kv_calls := cs\<rparr>) = kvdb_abs st"
  "cache_ok (st\<lparr>kv_calls := cs\<rparr>) = cache_ok st"
  by (simp_all add: kvdb_wf_def kvdb_abs_def cache_ok_def)

lemma cache_set_ok:
  assumes "i < length (kv_entries st)" and "h \<noteq> 0" and "de_hash (kv_entries st ! i) = h"
  shows "cache_ok (st\<lparr>cached_hash := h, cached_index := int i\<rparr>)"
  using assms by (simp add: cache_ok_def)

lemma kvdb_i8_get_hit:
  assumes "kvdb_inv st" and "kvdb_abs st h = Some v"
  shows "\<exists>st'. kvdb_i8_get h st = (KVDB_STATUS_OK, Some v, st')
               \<and> kvdb_inv st' \<and> kvdb_abs st' = kvdb_abs st \<and> kv_entries st' = kv_entries st"
proof -
  have inv: "kvdb_wf st" "cache_ok st" using assms(1) by (simp_all add: kvdb_inv_def)
  from search_hit [OF inv assms(2)] obtain i where i:
    "kvdb_i16_search_hash h st = (int i, st\<lparr>cached_hash := h, cached_index := int i\<rparr>)"
    "i < length (kv_entries st)" "h \<noteq> 0" "de_hash (kv_entries st ! i) = h"
    "de_data (kv_entries st ! i) = v" by blast
  moreover have "0 \<le> kv_handle st" using inv by (simp add: kvdb_wf_def)
  ultimately show ?thesis
    using inv by (simp add: kvdb_i8_get_def kvdb_inv_def keeps cache_set_ok)
qed

lemma kvdb_i8_get_miss:
  assumes "kvdb_inv st" and "kvdb_abs st h = None"
  shows "kvdb_i8_get h st = (KVDB_STATUS_NOT_FOUND, Some 0, st)"
  using assms search_miss [of st h] by (simp add: kvdb_i8_get_def kvdb_inv_def kvdb_wf_def)

text \<open>Storing a value at a live index changes one binding and nothing else.\<close>

lemma kv_live_update_data:
  assumes "i < length es"
  shows "map de_hash (kv_live (es[i := (es ! i)\<lparr>de_data := v\<rparr>])) = map de_hash (kv_live es)"
    and "map kv_key (es[i := (es ! i)\<lparr>de_data := v\<rparr>]) = map kv_key es"
  using assms
  by (induction es arbitrary: i) (auto simp: kv_live_def kv_key_def split: nat.splits)

lemma kv_map_update_data:
  assumes d: "distinct (map de_hash (kv_live es))" and i: "i < length es"
    and h: "de_hash (es ! i) \<noteq> 0"
  shows "kv_map (es[i := (es ! i)\<lparr>de_data := v\<rparr>]) = (kv_map es)(de_hash (es ! i) \<mapsto> v)"
proof (rule ext)
  fix k
  let ?es = "es[i := (es ! i)\<lparr>de_data := v\<rparr>]"
  have d': "distinct (map de_hash (kv_live ?es))" using d i by (simp add: kv_live_update_data)
  show "kv_map ?es k = ((kv_map es)(de_hash (es ! i) \<mapsto> v)) k"
  proof (cases "k = de_hash (es ! i)")
    case True
    then show ?thesis using kv_map_nth [OF d', of i] i h by simp
  next
    case False
    have "(\<exists>e \<in> set ?es. de_hash e = k \<and> de_data e = w) \<longleftrightarrow>
          (\<exists>e \<in> set es. de_hash e = k \<and> de_data e = w)" for w
    proof -
      have "(\<exists>j < length es. de_hash (?es ! j) = k \<and> de_data (?es ! j) = w) \<longleftrightarrow>
            (\<exists>j < length es. de_hash (es ! j) = k \<and> de_data (es ! j) = w)"
        using False i by (auto simp: nth_list_update)
      then show ?thesis by (simp add: bex_set_nth)
    qed
    then have "kv_map ?es k = Some w \<longleftrightarrow> kv_map es k = Some w" for w
      by (simp add: kv_map_Some_iff d d')
    then show ?thesis using False by (metis fun_upd_other option.exhaust)
  qed
qed

lemma store_keeps:
  assumes "kvdb_wf st" and "i < length (kv_entries st)" and "de_hash (kv_entries st ! i) \<noteq> 0"
    and st': "st' = st\<lparr>kv_entries := (kv_entries st)[i := (kv_entries st ! i)\<lparr>de_data := v\<rparr>]\<rparr>"
  shows "kvdb_wf st'" and "kvdb_abs st' = (kvdb_abs st)(de_hash (kv_entries st ! i) \<mapsto> v)"
proof -
  note u = kv_live_update_data [OF assms(2), of v]
  have "length (kv_live (kv_entries st')) = length (kv_live (kv_entries st))"
    using arg_cong [OF u(1), of length] by (simp add: st')
  then show "kvdb_wf st'"
    using assms(1) u by (simp add: kvdb_wf_def kv_sorted_def st')
  show "kvdb_abs st' = (kvdb_abs st)(de_hash (kv_entries st ! i) \<mapsto> v)"
    using assms(1-3) by (simp add: kvdb_abs_def kv_map_update_data st' kvdb_wf_def)
qed

lemma kvdb_i8_get_meta_keeps [keeps]:
  assumes "kvdb_inv st"
  shows "kvdb_inv (snd (snd (kvdb_i8_get_meta h st)))"
    and "kvdb_abs (snd (snd (kvdb_i8_get_meta h st))) = kvdb_abs st"
proof -
  have inv: "kvdb_wf st" "cache_ok st" using assms by (simp_all add: kvdb_inv_def)
  have "kvdb_inv (snd (snd (kvdb_i8_get_meta h st)))
        \<and> kvdb_abs (snd (snd (kvdb_i8_get_meta h st))) = kvdb_abs st"
  proof (cases "kvdb_abs st h")
    case None
    then show ?thesis
      using inv search_miss [of st h] by (simp add: kvdb_i8_get_meta_def kvdb_inv_def)
  next
    case (Some v)
    from search_hit [OF inv Some] obtain i where
      "kvdb_i16_search_hash h st = (int i, st\<lparr>cached_hash := h, cached_index := int i\<rparr>)"
      "i < length (kv_entries st)" "h \<noteq> 0" "de_hash (kv_entries st ! i) = h" by blast
    then show ?thesis
      using inv by (simp add: kvdb_i8_get_meta_def kvdb_inv_def keeps cache_set_ok Let_def)
  qed
  then show "kvdb_inv (snd (snd (kvdb_i8_get_meta h st)))"
    and "kvdb_abs (snd (snd (kvdb_i8_get_meta h st))) = kvdb_abs st" by simp_all
qed

lemma kvdb_inv_calls [keeps]: "kvdb_inv (st\<lparr>kv_calls := cs\<rparr>) = kvdb_inv st"
  by (simp add: kvdb_inv_def keeps)

lemma kvdb_i8_set_hit:
  assumes "kvdb_inv st" and "kvdb_abs st h = Some v"
  shows "\<exists>st'. kvdb_i8_set h w st = (KVDB_STATUS_OK, st')
               \<and> kvdb_inv st' \<and> kvdb_abs st' = (kvdb_abs st)(h \<mapsto> w)"
proof -
  have inv: "kvdb_wf st" "cache_ok st" using assms(1) by (simp_all add: kvdb_inv_def)
  from search_hit [OF inv assms(2)] obtain i where i:
    "kvdb_i16_search_hash h st = (int i, st\<lparr>cached_hash := h, cached_index := int i\<rparr>)"
    "i < length (kv_entries st)" "h \<noteq> 0" "de_hash (kv_entries st ! i) = h" by blast
  let ?es = "(kv_entries st)[i := (kv_entries st ! i)\<lparr>de_data := w\<rparr>]"
  define st1 where "st1 = st\<lparr>cached_hash := h, cached_index := int i, kv_entries := ?es\<rparr>"
  have "kvdb_wf (st\<lparr>kv_entries := ?es\<rparr>)"
    "kvdb_abs (st\<lparr>kv_entries := ?es\<rparr>) = (kvdb_abs st)(h \<mapsto> w)"
    using store_keeps [OF inv(1) i(2) _ refl, of w] i by simp_all
  then have st1: "kvdb_inv st1" "kvdb_abs st1 = (kvdb_abs st)(h \<mapsto> w)"
    using i by (simp_all add: st1_def kvdb_inv_def kvdb_wf_def kvdb_abs_def cache_ok_def)
  have "0 \<le> kv_handle st" using inv by (simp add: kvdb_wf_def)
  then have "kvdb_i8_set h w st = (KVDB_STATUS_OK,
      if notify_linked st \<and> de_data (kv_entries st ! i) \<noteq> w
      then (let (_, meta, s) = kvdb_i8_get_meta h st1
            in s\<lparr>kv_calls := kv_calls s @ [Notify_set h (the meta) w]\<rparr>)
      else st1)"
    using i(1,3) by (simp add: kvdb_i8_set_def st1_def Let_def split_beta)
  then show ?thesis
    using st1 kvdb_i8_get_meta_keeps [OF st1(1), of h] by (auto simp: split_beta Let_def keeps)
qed

lemma kvdb_i8_set_miss:
  assumes "kvdb_inv st" and "kvdb_abs st h = None"
  shows "\<exists>e. kvdb_i8_set h w st = (e, st) \<and> e \<noteq> KVDB_STATUS_OK"
  using assms search_miss [of st h]
  by (simp add: kvdb_i8_set_def kvdb_inv_def kvdb_wf_def)

section \<open>The contract of a key/value store\<close>

text \<open>
  What the pixel library and the virtual machine rely on when they read and write
  values by hash: reads see the map, a write to a present key changes that key only, an
  operation on an absent key reports an error and changes nothing.
\<close>

locale kv_store =
  fixes get :: "'k \<Rightarrow> 's \<Rightarrow> int \<times> 'v option \<times> 's"
    and put :: "'k \<Rightarrow> 'v \<Rightarrow> 's \<Rightarrow> int \<times> 's"
    and abs :: "'s \<Rightarrow> 'k \<Rightarrow> 'v option"
    and invar :: "'s \<Rightarrow> bool"
  assumes get_present: "invar s \<Longrightarrow> abs s k = Some v \<Longrightarrow>
      \<exists>s'. get k s = (0, Some v, s') \<and> invar s' \<and> abs s' = abs s"
    and get_absent: "invar s \<Longrightarrow> abs s k = None \<Longrightarrow>
      \<exists>e r. get k s = (e, r, s) \<and> e \<noteq> 0"
    and put_present: "invar s \<Longrightarrow> abs s k = Some v \<Longrightarrow>
      \<exists>s'. put k w s = (0, s') \<and> invar s' \<and> abs s' = (abs s)(k \<mapsto> w)"
    and put_absent: "invar s \<Longrightarrow> abs s k = None \<Longrightarrow> \<exists>e. put k w s = (e, s) \<and> e \<noteq> 0"
begin

lemma get_status: "invar s \<Longrightarrow> fst (get k s) = 0 \<longleftrightarrow> abs s k \<noteq> None"
  using get_present [of s k] get_absent [of s k] by (cases "abs s k") auto

lemma get_keeps: "invar s \<Longrightarrow> invar (snd (snd (get k s))) \<and> abs (snd (snd (get k s))) = abs s"
  using get_present [of s k] get_absent [of s k] by (cases "abs s k") auto

lemma put_keeps:
  "invar s \<Longrightarrow> invar (snd (put k w s))
     \<and> abs (snd (put k w s)) = (if abs s k = None then abs s else (abs s)(k \<mapsto> w))"
  using put_present [of s k _ w] put_absent [of s k w] by (cases "abs s k") auto

lemma put_get_same:
  assumes "invar s" and "abs s k \<noteq> None"
  shows "fst (snd (get k (snd (put k w s)))) = Some w"
proof -
  have "invar (snd (put k w s))" "abs (snd (put k w s)) k = Some w"
    using put_keeps [OF assms(1), of k w] assms(2) by simp_all
  then show ?thesis using get_present by fastforce
qed

lemma put_get_other:
  assumes "invar s" and "j \<noteq> k" and "abs s j = Some v"
  shows "fst (snd (get j (snd (put k w s)))) = Some v"
proof -
  have "invar (snd (put k w s))" "abs (snd (put k w s)) j = Some v"
    using put_keeps [OF assms(1), of k w] assms(2,3) by simp_all
  then show ?thesis using get_present by fastforce
qed

text \<open>A sequence of writes: the last write to each present key wins.\<close>

lemma puts_keeps:
  "invar s \<Longrightarrow>
     invar (fold (\<lambda>(k, w) s. snd (put k w s)) ws s)
     \<and> abs (fold (\<lambda>(k, w) s. snd (put k w s)) ws s)
       = (\<lambda>k. if abs s k = None then None
              else case map_of (rev ws) k of None \<Rightarrow> abs s k | Some w \<Rightarrow> Some w)"
proof (induction ws arbitrary: s)
  case Nil
  then show ?case by (auto simp: fun_eq_iff)
next
  case (Cons kw ws)
  obtain k w where kw: "kw = (k, w)" by fastforce
  have "invar (snd (put k w s))"
    and "abs (snd (put k w s)) = (if abs s k = None then abs s else (abs s)(k \<mapsto> w))"
    using put_keeps [OF Cons.prems, of k w] by simp_all
  then show ?case
    using Cons.IH [of "snd (put k w s)"] kw
    by (auto simp: fun_eq_iff map_add_def split: option.splits)
qed

end

interpretation kvdb: kv_store kvdb_i8_get kvdb_i8_set kvdb_abs kvdb_inv
proof unfold_locales
  fix s k v w
  show "kvdb_inv s \<Longrightarrow> kvdb_abs s k = Some v \<Longrightarrow>
      \<exists>s'. kvdb_i8_get k s = (0, Some v, s') \<and> kvdb_inv s' \<and> kvdb_abs s' = kvdb_abs s"
    using kvdb_i8_get_hit by blast
  show "kvdb_inv s \<Longrightarrow> kvdb_abs s k = None \<Longrightarrow> \<exists>e r. kvdb_i8_get k s = (e, r, s) \<and> e \<noteq> 0"
    using kvdb_i8_get_miss by fastforce
  show "kvdb_inv s \<Longrightarrow> kvdb_abs s k = Some v \<Longrightarrow>
      \<exists>s'. kvdb_i8_set k w s = (0, s') \<and> kvdb_inv s' \<and> kvdb_abs s' = (kvdb_abs s)(k \<mapsto> w)"
    by (rule kvdb_i8_set_hit)
  show "kvdb_inv s \<Longrightarrow> kvdb_abs s k = None \<Longrightarrow> \<exists>e. kvdb_i8_set k w s = (e, s) \<and> e \<noteq> 0"
    by (rule kvdb_i8_set_miss)
qed

section \<open>Creating, adding and deleting\<close>

lemma kv_live_zero [simp]: "kv_live (replicate n zero_entry) = []"
  by (simp add: kv_live_def zero_entry_def)

lemma kv_key_zero [simp]: "kv_key zero_entry = 0"
  by (simp add: kv_key_def zero_entry_def)

lemma kvdb_v_init_inv:
  assumes "0 \<le> h"
  shows "kvdb_inv (kvdb_v_init h (kvdb_initial linked))"
    and "kvdb_abs (kvdb_v_init h (kvdb_initial linked)) = Map.empty"
  using assms
  by (simp_all add: kvdb_v_init_def kvdb_initial_def kvdb_inv_def kvdb_wf_def cache_ok_def
      kvdb_abs_def kv_map_def kv_sorted_def)

lemma length_kv_live: "length (kv_live es) \<le> length es"
  by (simp add: kv_live_def)

lemma kv_free_exists:
  assumes "length (kv_live es) < length es"
  shows "\<exists>x \<in> set es. de_hash x = 0"
proof (rule ccontr)
  assume "\<not> ?thesis"
  then have "kv_live es = es" by (auto simp: kv_live_def filter_id_conv)
  then show False using assms by simp
qed

lemma mset_kv_live_fill:
  assumes "\<exists>x \<in> set es. de_hash x = 0" and "de_hash e \<noteq> 0"
  shows "mset (kv_live (kv_fill_free e es)) = add_mset e (mset (kv_live es))"
  using assms by (induction es) (auto simp: kv_live_def)

lemma length_kv_fill_free [simp]: "length (kv_fill_free e es) = length es"
  by (induction es) auto

lemma kv_live_cleared [simp]: "kv_live (map (\<lambda>e. e\<lparr>de_hash := 0\<rparr>) es) = []"
  by (simp add: kv_live_def)

text \<open>The entries of a database one entry larger, whatever their order.\<close>

lemma kv_map_insert:
  assumes d: "distinct (map de_hash (kv_live es))"
    and new: "\<forall>x \<in> set es. de_hash x \<noteq> de_hash e" and nz: "de_hash e \<noteq> 0"
    and m: "mset (kv_live es') = add_mset e (mset (kv_live es))"
  shows "distinct (map de_hash (kv_live es'))"
    and "kv_map es' = (kv_map es)(de_hash e \<mapsto> de_data e)"
    and "length (kv_live es') = Suc (length (kv_live es))"
proof -
  have l: "kv_live (e # es) = e # kv_live es" using nz by (simp add: kv_live_def)
  have ms: "mset (kv_live es') = mset (kv_live (e # es))" using m l by simp
  have d2: "distinct (map de_hash (kv_live (e # es)))"
    using d new unfolding l by (auto simp: kv_live_def)
  show "distinct (map de_hash (kv_live es'))"
    using d2 ms by (metis mset_eq_imp_distinct_iff mset_map)
  have "kv_map es' = kv_map (e # es)" by (rule kv_map_live_cong [OF ms d2])
  then show "kv_map es' = (kv_map es)(de_hash e \<mapsto> de_data e)" by (simp add: kv_map_def l)
  show "length (kv_live es') = Suc (length (kv_live es))"
    using arg_cong [OF m, of size] by simp
qed

definition grow_ok :: "db_entry32 list option \<Rightarrow> kvdb_state \<Rightarrow> bool" where
  "grow_ok grown st \<longleftrightarrow>
     kv_count st < db_size st \<or> (\<exists>raw. grown = Some raw \<and> length raw = unat KVDB_SIZE_INCREMENT)"

lemma kvdb_grow_ok:
  assumes wf: "kvdb_wf st" and "grow_ok grown st" and room: "kv_count st < KVDB_MAX_ENTRIES"
  obtains st' where "kvdb_grow grown st = Some st'" and "kvdb_wf st'"
    and "mset (kv_live (kv_entries st')) = mset (kv_live (kv_entries st))"
    and "length (kv_live (kv_entries st')) < length (kv_entries st')"
    and "kv_count st' = kv_count st" and "cached_index st' = cached_index st"
    and "cached_hash st' = cached_hash st" and "kv_handle st' = kv_handle st"
    and "\<And>c. filter (\<lambda>e. de_hash e > c) (kv_entries st') = filter (\<lambda>e. de_hash e > c) (kv_entries st)"
proof (cases "kv_count st < db_size st")
  case True
  then have "length (kv_live (kv_entries st)) < length (kv_entries st)"
    using wf by (simp add: kvdb_wf_def word_less_nat_alt)
  moreover have "kvdb_grow grown st = Some st"
    using True by (auto simp: kvdb_grow_def)
  ultimately show ?thesis using that [of st] wf by blast
next
  case False
  then obtain raw where raw: "grown = Some raw" "length raw = 4"
    using assms(2) by (auto simp: grow_ok_def)
  have "unat (kv_count st) = unat (db_size st)"
    using False wf length_kv_live [of "kv_entries st"]
    by (simp add: kvdb_wf_def word_le_nat_alt not_less)
  then have full: "kv_count st = db_size st" by (rule word_unat_eq_iff [THEN iffD2])
  let ?es = "kv_entries st @ map (\<lambda>e. e\<lparr>de_hash := 0\<rparr>) raw"
  let ?st = "st\<lparr>kv_entries := ?es, db_size := db_size st + KVDB_SIZE_INCREMENT\<rparr>"
  have n: "unat (db_size st) < 128" using room full by (simp add: word_less_nat_alt)
  have "4 dvd unat (db_size st)" using wf by (simp add: kvdb_wf_def)
  then have n4: "unat (db_size st + 4) = unat (db_size st) + 4" "unat (db_size st) + 4 \<le> 128"
    using n by (auto simp: unat_word_ariths dvd_def)
  have "\<forall>x \<in> set (map kv_key (kv_entries st)). x \<le> 0"
    by (simp add: kv_key_def)
  moreover have "\<forall>x \<in> set (map kv_key (map (\<lambda>e. e\<lparr>de_hash := 0\<rparr>) raw)). x = 0"
    by (simp add: kv_key_def)
  moreover have "sorted (map kv_key (map (\<lambda>e. e\<lparr>de_hash := 0\<rparr>) raw))"
    by (simp add: kv_key_def comp_def map_replicate_const)
  ultimately have srt: "kv_sorted ?es"
    using wf by (auto simp: kvdb_wf_def kv_sorted_def sorted_append)
  have "kvdb_wf ?st"
    using wf n4 srt raw(2) by (simp add: kvdb_wf_def)
  then show ?thesis
    using that [of ?st] raw full wf
    by (simp add: kvdb_grow_def kvdb_wf_def filter_empty_conv)
qed

text \<open>The index of a live key is the number of larger live keys.\<close>

lemma index_counts_larger:
  assumes srt: "kv_sorted es" and d: "distinct (map de_hash (kv_live es))"
    and i: "i < length es" "de_hash (es ! i) \<noteq> 0"
  shows "length (filter (\<lambda>e. de_hash e > de_hash (es ! i)) es) = i"
proof -
  let ?P = "\<lambda>e. de_hash e > de_hash (es ! i)"
  have before: "?P (es ! j)" if "j < i" for j
    using kv_sorted_nth [OF srt, of j i] live_index_unique [OF d i(1), of j] that i
    by (metis less_le less_imp_le less_trans not_less_iff_gr_or_eq)
  have after: "\<not> ?P (es ! j)" if "i \<le> j" "j < length es" for j
    using kv_sorted_nth [OF srt that] by simp
  have "filter ?P (take i es) = take i es"
    using before i(1) by (auto simp: filter_id_conv in_set_conv_nth)
  moreover have "filter ?P (drop i es) = []"
    using after by (auto simp: filter_empty_conv in_set_conv_nth)
  ultimately have "filter ?P (take i es @ drop i es) = take i es"
    by (simp del: append_take_drop_id)
  then show ?thesis using i(1) by simp
qed

text \<open>Adding an absent key: the map grows by one binding, the cache is left as it was.\<close>

lemma kvdb_i8_add_absent:
  assumes inv: "kvdb_inv st" and absent: "kvdb_abs st h = None" and nz: "h \<noteq> 0"
    and room: "kv_count st < KVDB_MAX_ENTRIES" and grow: "grow_ok grown st"
  obtains st' where "kvdb_i8_add h v tag grown st = (KVDB_STATUS_OK, st')"
    and "kvdb_wf st'" and "kvdb_abs st' = (kvdb_abs st)(h \<mapsto> v)"
    and "cached_index st' = cached_index st" and "cached_hash st' = cached_hash st"
    and "\<And>c. length (filter (\<lambda>e. de_hash e > c) (kv_entries st'))
          = length (filter (\<lambda>e. de_hash e > c) (kv_entries st)) + (if h > c then 1 else 0)"
proof -
  define e where "e = \<lparr>de_hash = h, de_type = CATBUS_TYPE_INT32,
                       de_flags = CATBUS_FLAGS_DYNAMIC, de_tag = tag, de_data = v\<rparr>"
  have wf: "kvdb_wf st" using inv by (simp add: kvdb_inv_def)
  obtain g where g: "kvdb_grow grown st = Some g" "kvdb_wf g"
    "mset (kv_live (kv_entries g)) = mset (kv_live (kv_entries st))"
    "length (kv_live (kv_entries g)) < length (kv_entries g)"
    "kv_count g = kv_count st" "cached_index g = cached_index st"
    "cached_hash g = cached_hash st" "kv_handle g = kv_handle st"
    and gf: "\<And>c. filter (\<lambda>e. de_hash e > c) (kv_entries g) = filter (\<lambda>e. de_hash e > c) (kv_entries st)"
    by (rule kvdb_grow_ok [OF wf grow room], rule that)
  have d: "distinct (map de_hash (kv_live (kv_entries g)))" using g(2) by (simp add: kvdb_wf_def)
  have dst: "distinct (map de_hash (kv_live (kv_entries st)))" using wf by (simp add: kvdb_wf_def)
  have same: "kv_map (kv_entries g) = kvdb_abs st"
    unfolding kvdb_abs_def by (rule kv_map_live_cong [OF g(3) dst])
  define f where "f = kv_fill_free e (kv_entries g)"
  have m: "mset (kv_live f) = add_mset e (mset (kv_live (kv_entries g)))"
    unfolding f_def
    by (rule mset_kv_live_fill [OF kv_free_exists [OF g(4)]]) (simp add: e_def nz)
  have "kv_map (kv_entries g) h = None" using absent by (simp add: same)
  then have new: "\<forall>x \<in> set (kv_entries g). de_hash x \<noteq> de_hash e" "de_hash e \<noteq> 0"
    using nz by (simp_all add: kv_map_None_iff e_def)
  note ins = kv_map_insert [OF d new m]
  define st' where "st' = kvdb_v_sort (g\<lparr>kv_entries := f, kv_count := kv_count g + 1\<rparr>)"
  have cnt: "unat (kv_count g + 1) = Suc (unat (kv_count g))"
    using room g(5) by (simp add: word_less_nat_alt unat_word_ariths(1))
  have "kvdb_wf st'"
    using g(2) ins(1,3) cnt
    by (simp add: kvdb_wf_def st'_def kvdb_v_sort_def f_def)
  moreover have "kvdb_abs st' = (kvdb_abs st)(h \<mapsto> v)"
    using ins(1,2) same by (simp add: kvdb_abs_def st'_def kvdb_v_sort_def e_def)
  moreover have "kvdb_i8_add h v tag grown st = (KVDB_STATUS_OK, st')"
    using kvdb_i8_set_miss [OF inv absent, of v] nz wf room g(1)
    by (auto simp: kvdb_i8_add_def kvdb_wf_def st'_def e_def f_def Let_def not_le leD)
  moreover have "length (filter (\<lambda>e. de_hash e > c) (kv_entries st'))
      = length (filter (\<lambda>e. de_hash e > c) (kv_entries st)) + (if h > c then 1 else 0)" for c
  proof -
    have live: "filter (\<lambda>e. de_hash e > c) xs = filter (\<lambda>e. de_hash e > c) (kv_live xs)" for xs
      by (auto simp: kv_live_def intro!: filter_cong)
    have "mset (filter (\<lambda>e. de_hash e > c) (kv_live (kv_entries st')))
        = filter_mset (\<lambda>e. de_hash e > c) (add_mset e (mset (kv_live (kv_entries g))))"
      using m by (simp add: st'_def kvdb_v_sort_def)
    from arg_cong [OF this, of size] show ?thesis
      using live [of "kv_entries st'"] live [of "kv_entries st"] g(3)
      by (auto simp: e_def simp flip: size_mset mset_filter)
  qed
  ultimately show thesis
    using that [of st'] g(6,7) by (simp add: st'_def kvdb_v_sort_def)
qed

text \<open>
  The cache after an insertion.  It still names its entry when the new key sorts after it
  (or when nothing was cached), and names a different, larger key otherwise.
\<close>

lemma cache_after_add:
  assumes wf: "kvdb_wf st'" and srt: "kvdb_wf st" "cache_ok st" and c: "0 \<le> cached_index st"
    and keep: "cached_index st' = cached_index st" "cached_hash st' = cached_hash st"
    and bind: "kvdb_abs st' = (kvdb_abs st)(h \<mapsto> v)"
    and larger: "\<And>c. length (filter (\<lambda>e. de_hash e > c) (kv_entries st'))
          = length (filter (\<lambda>e. de_hash e > c) (kv_entries st)) + (if h > c then 1 else 0)"
  obtains j where "j < length (kv_entries st')" and "de_hash (kv_entries st' ! j) = cached_hash st"
    and "j = nat (cached_index st) + (if h > cached_hash st then 1 else 0)"
proof -
  define i where "i = nat (cached_index st)"
  have i: "i < length (kv_entries st)" "cached_hash st \<noteq> 0"
    "de_hash (kv_entries st ! i) = cached_hash st"
    using srt(2) c by (simp_all add: cache_ok_def i_def)
  have d: "distinct (map de_hash (kv_live (kv_entries st)))"
    "distinct (map de_hash (kv_live (kv_entries st')))" "kv_sorted (kv_entries st)"
    "kv_sorted (kv_entries st')"
    using wf srt(1) by (simp_all add: kvdb_wf_def)
  have "de_hash (kv_entries st ! i) \<noteq> 0" using i(2,3) by simp
  then have "kv_map (kv_entries st) (de_hash (kv_entries st ! i))
               = Some (de_data (kv_entries st ! i))"
    by (rule kv_map_nth [OF d(1) i(1)])
  then have "kvdb_abs st (cached_hash st) \<noteq> None" using i(3) by (simp add: kvdb_abs_def)
  then have "kvdb_abs st' (cached_hash st) \<noteq> None" by (simp add: bind)
  then obtain j where j: "j < length (kv_entries st')" "de_hash (kv_entries st' ! j) = cached_hash st"
    using i(2) by (auto simp: kvdb_abs_def kv_map_None_iff in_set_conv_nth)
  have "j = i + (if h > cached_hash st then 1 else 0)"
    using index_counts_larger [OF d(4,2) j(1)] index_counts_larger [OF d(3,1) i(1)]
      larger [of "cached_hash st"] j(2) i(2,3) by simp
  then show thesis using j that by (simp add: i_def)
qed

lemma kv_clear_live:
  assumes "i < length es" and "de_hash (es ! i) \<noteq> 0"
  shows "mset (kv_live es) = add_mset (es ! i) (mset (kv_live (es[i := (es ! i)\<lparr>de_hash := 0\<rparr>])))"
  using assms
proof (induction es arbitrary: i)
  case (Cons e es)
  show ?case
  proof (cases i)
    case 0
    then show ?thesis using Cons.prems by (simp add: kv_live_def)
  next
    case (Suc j)
    then have "mset (kv_live es)
        = add_mset (es ! j) (mset (kv_live (es[j := (es ! j)\<lparr>de_hash := 0\<rparr>])))"
      using Cons.prems Cons.IH [of j] by simp
    then show ?thesis using Suc by (simp add: kv_live_def)
  qed
qed simp

text \<open>Removing some live entries: what is left is the part of the map that was kept.\<close>

lemma kv_map_remove:
  assumes d: "distinct (map de_hash (kv_live es))"
    and m: "mset (kv_live es) = mset gone + mset (kv_live es')"
  shows "distinct (map de_hash (kv_live es'))"
    and "kv_map es' = kv_map es |` (- de_hash ` set gone)"
    and "length (kv_live es') + length gone = length (kv_live es)"
proof -
  have ms: "mset (map de_hash (gone @ kv_live es')) = mset (map de_hash (kv_live es))"
    using m by simp
  then have "distinct (map de_hash (gone @ kv_live es'))"
    using d by (metis mset_eq_imp_distinct_iff)
  then have d': "distinct (map de_hash (kv_live es'))"
    and disj: "de_hash ` set gone \<inter> de_hash ` set (kv_live es') = {}" by auto
  show "distinct (map de_hash (kv_live es'))" by (rule d')
  have sets: "set (kv_live es) = set gone \<union> set (kv_live es')"
    using arg_cong [OF m, of set_mset] by simp
  have "kv_map es' h = Some v \<longleftrightarrow> (kv_map es |` (- de_hash ` set gone)) h = Some v" for h v
  proof -
    have Some_iff: "kv_map xs h = Some v \<longleftrightarrow> (\<exists>e \<in> set (kv_live xs). de_hash e = h \<and> de_data e = v)"
      if "distinct (map de_hash (kv_live xs))" for xs
      using that by (subst kv_map_Some_iff) (auto simp: kv_live_def)
    show ?thesis
      using Some_iff [OF d] Some_iff [OF d'] sets disj by (auto simp: restrict_map_def)
  qed
  then show "kv_map es' = kv_map es |` (- de_hash ` set gone)"
    by (metis not_Some_eq ext)
  show "length (kv_live es') + length gone = length (kv_live es)"
    using arg_cong [OF m, of size] by simp
qed

lemma kvdb_i8_delete_present:
  assumes inv: "kvdb_inv st" and h: "kvdb_abs st h = Some v"
  obtains st' where "kvdb_i8_delete h st = (KVDB_STATUS_OK, st')" and "kvdb_inv st'"
    and "kvdb_abs st' = (kvdb_abs st)(h := None)" and "kv_count st' = kv_count st - 1"
proof -
  have wf: "kvdb_wf st" "cache_ok st" using inv by (simp_all add: kvdb_inv_def)
  obtain i where i: "kvdb_i16_search_hash h st = (int i, st\<lparr>cached_hash := h, cached_index := int i\<rparr>)"
    "i < length (kv_entries st)" "h \<noteq> 0" "de_hash (kv_entries st ! i) = h"
    by (rule search_hit [OF wf h])
  let ?es = "(kv_entries st)[i := (kv_entries st ! i)\<lparr>de_hash := 0\<rparr>]"
  define st' where "st' = (kvdb_v_sort (st\<lparr>cached_hash := h, cached_index := int i, kv_entries := ?es,
       kv_count := kv_count st - 1\<rparr>))\<lparr>cached_index := - 1\<rparr>"
  have d: "distinct (map de_hash (kv_live (kv_entries st)))"
    and cnt: "unat (kv_count st) = length (kv_live (kv_entries st))"
    using wf(1) by (simp_all add: kvdb_wf_def)
  have "mset (kv_live (kv_entries st)) = mset [kv_entries st ! i] + mset (kv_live ?es)"
    using kv_clear_live [OF i(2)] i(3,4) by simp
  note rem = kv_map_remove [OF d this]
  have "unat (kv_count st - 1) = unat (kv_count st) - 1"
    using cnt rem(3) by (simp add: unat_sub_if' word_le_nat_alt)
  then have "kvdb_inv st'"
    using wf(1) rem(1,3)
    by (simp add: kvdb_inv_def kvdb_wf_def cache_ok_def st'_def kvdb_v_sort_def)
  moreover have "kvdb_abs st' = (kvdb_abs st)(h := None)"
    using rem(1,2) i(4)
    by (simp add: kvdb_abs_def st'_def kvdb_v_sort_def restrict_complement_singleton_eq)
  moreover have "kvdb_i8_delete h st = (KVDB_STATUS_OK, st')"
    using i(1) wf(1) by (simp add: kvdb_i8_delete_def st'_def Let_def kvdb_wf_def)
  ultimately show thesis using that [of st'] by (simp add: st'_def kvdb_v_sort_def)
qed

lemma kvdb_i8_delete_absent:
  assumes "kvdb_inv st" and "kvdb_abs st h = None"
  shows "kvdb_i8_delete h st = (KVDB_STATUS_NOT_FOUND, st)"
  using assms search_miss [of st h] by (simp add: kvdb_i8_delete_def kvdb_inv_def kvdb_wf_def)

lemma kv_clear_tag_spec:
  "length (fst (kv_clear_tag tag es cnt)) = length es
   \<and> kv_live (fst (kv_clear_tag tag es cnt)) = filter (\<lambda>e. de_tag e \<noteq> tag) (kv_live es)
   \<and> snd (kv_clear_tag tag es cnt)
       = cnt - word_of_nat (length (filter (\<lambda>e. de_tag e = tag) (kv_live es)))"
  by (induction es arbitrary: cnt) (auto simp: kv_live_def split_beta algebra_simps)

lemma kvdb_v_delete_tag_keeps:
  assumes wf: "kvdb_wf st"
  shows "kvdb_inv (kvdb_v_delete_tag tag st)"
    and "kvdb_abs (kvdb_v_delete_tag tag st)
           = kvdb_abs st |` {h. \<forall>e \<in> set (kv_entries st). de_hash e = h \<longrightarrow> de_tag e \<noteq> tag}"
    and "mset (kv_live (kv_entries (kvdb_v_delete_tag tag st)))
           = filter_mset (\<lambda>e. de_tag e \<noteq> tag) (mset (kv_live (kv_entries st)))"
proof -
  let ?gone = "filter (\<lambda>e. de_tag e = tag) (kv_live (kv_entries st))"
  obtain es cnt where es: "kv_clear_tag tag (kv_entries st) (kv_count st) = (es, cnt)" by fastforce
  have spec: "length es = length (kv_entries st)"
    "kv_live es = filter (\<lambda>e. de_tag e \<noteq> tag) (kv_live (kv_entries st))"
    "cnt = kv_count st - word_of_nat (length ?gone)"
    using kv_clear_tag_spec [of tag "kv_entries st" "kv_count st"] by (simp_all add: es)
  have d: "distinct (map de_hash (kv_live (kv_entries st)))"
    and n: "unat (kv_count st) = length (kv_live (kv_entries st))"
    using wf by (simp_all add: kvdb_wf_def)
  have m: "mset (kv_live (kv_entries st)) = mset ?gone + mset (kv_live es)"
    by (simp add: spec(2) flip: multiset_partition)
  note rem = kv_map_remove [OF d m]
  have st': "kvdb_v_delete_tag tag st
      = kvdb_v_sort (st\<lparr>kv_entries := es, kv_count := cnt, cached_index := - 1\<rparr>)"
    using wf by (simp add: kvdb_v_delete_tag_def es kvdb_wf_def)
  have "kv_count st = word_of_nat (unat (kv_count st))" by simp
  also have "\<dots> = word_of_nat (length (kv_live es)) + word_of_nat (length ?gone)"
    using rem(3) n by (simp flip: of_nat_add)
  finally have "cnt = word_of_nat (length (kv_live es))" by (simp add: spec(3))
  moreover have "length (kv_live es) < 2 ^ 16"
    using rem(3) n unat16_less [of "kv_count st"] by simp
  ultimately have cnt: "unat cnt = length (kv_live es)"
    by (simp add: unat_of_nat)
  show "kvdb_inv (kvdb_v_delete_tag tag st)"
    using wf rem(1) cnt spec(1)
    by (simp add: st' kvdb_inv_def kvdb_wf_def cache_ok_def kvdb_v_sort_def)
  have "kvdb_abs (kvdb_v_delete_tag tag st) = kvdb_abs st |` (- de_hash ` set ?gone)"
    using rem(1,2) by (simp add: st' kvdb_abs_def kvdb_v_sort_def)
  also have "\<dots> = kvdb_abs st |` {h. \<forall>e \<in> set (kv_entries st). de_hash e = h \<longrightarrow> de_tag e \<noteq> tag}"
    by (rule ext) (auto simp: restrict_map_def kvdb_abs_def kv_map_None_iff kv_live_def image_iff)
  finally show "kvdb_abs (kvdb_v_delete_tag tag st)
           = kvdb_abs st |` {h. \<forall>e \<in> set (kv_entries st). de_hash e = h \<longrightarrow> de_tag e \<noteq> tag}" .
  show "mset (kv_live (kv_entries (kvdb_v_delete_tag tag st)))
           = filter_mset (\<lambda>e. de_tag e \<noteq> tag) (mset (kv_live (kv_entries st)))"
    by (simp add: st' kvdb_v_sort_def spec(2))
qed

section \<open>Properties\<close>

definition sample_entry :: "u32 \<Rightarrow> u8 \<Rightarrow> i32 \<Rightarrow> db_entry32" where
  "sample_entry h tag v = \<lparr>de_hash = h, de_type = CATBUS_TYPE_INT32,
     de_flags = CATBUS_FLAGS_DYNAMIC, de_tag = tag, de_data = v\<rparr>"

text \<open>Two keys in a fresh block, the smaller one cached by an earlier read.\<close>

definition sample_db :: kvdb_state where
  "sample_db = (kvdb_v_init 0 (kvdb_initial True))
     \<lparr>kv_entries := [sample_entry 900 7 11, sample_entry 500 2 22, zero_entry,
        zero_entry, zero_entry, zero_entry, zero_entry, zero_entry],
      kv_count := 2, cached_index := 1, cached_hash := 500\<rparr>"

lemma sample_db_ok:
  "kvdb_inv sample_db"
  "kvdb_abs sample_db 500 = Some 22" "kvdb_abs sample_db 700 = None" "kvdb_abs sample_db 900 = Some 11"
  "kv_count sample_db < KVDB_MAX_ENTRIES" "grow_ok None sample_db"
  "cached_index sample_db = 1" "cached_hash sample_db = 500"
  by (simp_all add: sample_db_def kvdb_initial_def kvdb_v_init_def kvdb_inv_def kvdb_wf_def
      cache_ok_def kvdb_abs_def kv_map_def kv_sorted_def kv_live_def sample_entry_def kv_key_def
      zero_entry_def grow_ok_def)

text \<open>
  C21 Writing a present key returns OK, keeps the invariant, changes that binding of the
  map alone, and the next read of the key returns OK with the value written; a write to an absent
  key returns an error status and leaves the database exactly as it was.
\<close>

theorem kvdb_i8_set_get:
  assumes inv: "kvdb_inv st"
  shows "case kvdb_abs st h of
           None \<Rightarrow> fst (kvdb_i8_set h w st) \<noteq> KVDB_STATUS_OK \<and> snd (kvdb_i8_set h w st) = st
         | Some v \<Rightarrow>
             (\<exists>st'. kvdb_i8_set h w st = (KVDB_STATUS_OK, st') \<and> kvdb_inv st'
                    \<and> kvdb_abs st' = (kvdb_abs st)(h \<mapsto> w)
                    \<and> (\<exists>st''. kvdb_i8_get h st' = (KVDB_STATUS_OK, Some w, st'')))"
proof (cases "kvdb_abs st h")
  case None
  then show ?thesis using kvdb.put_absent [OF inv None, of w] by auto
next
  case (Some v)
  obtain st' where st': "kvdb_i8_set h w st = (KVDB_STATUS_OK, st')" "kvdb_inv st'"
    "kvdb_abs st' = (kvdb_abs st)(h \<mapsto> w)"
    using kvdb.put_present [OF inv Some, of w] by blast
  then have "kvdb_abs st' h = Some w" by simp
  from kvdb.get_present [OF st'(2) this] show ?thesis using Some st' by auto
qed

lemma kvdb_i8_set_get_witness:
  "case kvdb_abs sample_db 500 of
           None \<Rightarrow> fst (kvdb_i8_set 500 77 sample_db) \<noteq> KVDB_STATUS_OK
                     \<and> snd (kvdb_i8_set 500 77 sample_db) = sample_db
         | Some v \<Rightarrow>
             (\<exists>st'. kvdb_i8_set 500 77 sample_db = (KVDB_STATUS_OK, st') \<and> kvdb_inv st'
                    \<and> kvdb_abs st' = (kvdb_abs sample_db)(500 \<mapsto> 77)
                    \<and> (\<exists>st''. kvdb_i8_get 500 st' = (KVDB_STATUS_OK, Some 77, st'')))"
  by (rule kvdb_i8_set_get [OF sample_db_ok(1)])

text \<open>
  A sequence of writes by hash, in any order and with repetitions, never adds or
  removes a key, and each key present before reads back the last value written to it, or its old
  value when it was not written.
\<close>

theorem kvdb_writes_last_wins:
  assumes inv: "kvdb_inv st" and present: "kvdb_abs st h = Some v"
  shows "let st' = fold (\<lambda>(k, w) st. snd (kvdb_i8_set k w st)) ws st
         in dom (kvdb_abs st') = dom (kvdb_abs st)
            \<and> (\<exists>st''. kvdb_i8_get h st'
                 = (KVDB_STATUS_OK,
                    Some (case map_of (rev ws) h of None \<Rightarrow> v | Some w \<Rightarrow> w), st''))"
proof -
  define st' where "st' = fold (\<lambda>(k, w) st. snd (kvdb_i8_set k w st)) ws st"
  have st': "kvdb_inv st'"
    "kvdb_abs st' = (\<lambda>k. if kvdb_abs st k = None then None
        else case map_of (rev ws) k of None \<Rightarrow> kvdb_abs st k | Some w \<Rightarrow> Some w)"
    using kvdb.puts_keeps [OF inv, of ws] by (simp_all add: st'_def)
  have "kvdb_abs st' h = Some (case map_of (rev ws) h of None \<Rightarrow> v | Some w \<Rightarrow> w)"
    using present by (simp add: st'(2) split: option.splits)
  from kvdb.get_present [OF st'(1) this]
  show ?thesis
    by (auto simp: st'(2) dom_def Let_def simp flip: st'_def split: option.splits if_splits)
qed

lemma kvdb_writes_last_wins_witness:
  "let st' = fold (\<lambda>(k, w) st. snd (kvdb_i8_set k w st)) [(500, 1), (900, 2), (500, 3)] sample_db
   in dom (kvdb_abs st') = dom (kvdb_abs sample_db)
      \<and> (\<exists>st''. kvdb_i8_get 500 st' = (KVDB_STATUS_OK, Some 3, st''))"
  using kvdb_writes_last_wins [OF sample_db_ok(1,2), of "[(500, 1), (900, 2), (500, 3)]"] by simp

text \<open>
  C22 Adding an absent, non-zero key when the database has room (and the block can grow when it
  is full) returns OK and yields a well-formed database, still sorted, whose map has exactly the
  new binding more; the cache is still right when nothing was cached or when the new hash is below
  the cached one.
\<close>

theorem kvdb_i8_add_correct:
  assumes inv: "kvdb_inv st" and absent: "kvdb_abs st h = None" and nz: "h \<noteq> 0"
    and room: "kv_count st < KVDB_MAX_ENTRIES" and grow: "grow_ok grown st"
  shows "\<exists>st'. kvdb_i8_add h v tag grown st = (KVDB_STATUS_OK, st') \<and> kvdb_wf st'
           \<and> kvdb_abs st' = (kvdb_abs st)(h \<mapsto> v)
           \<and> (cached_index st < 0 \<or> h < cached_hash st \<longrightarrow> kvdb_inv st')"
proof -
  obtain st' where st': "kvdb_i8_add h v tag grown st = (KVDB_STATUS_OK, st')" "kvdb_wf st'"
    "kvdb_abs st' = (kvdb_abs st)(h \<mapsto> v)"
    "cached_index st' = cached_index st" "cached_hash st' = cached_hash st"
    and larger: "\<And>c. length (filter (\<lambda>e. de_hash e > c) (kv_entries st'))
          = length (filter (\<lambda>e. de_hash e > c) (kv_entries st)) + (if h > c then 1 else 0)"
    by (rule kvdb_i8_add_absent [OF inv absent nz room grow, where v = v and tag = tag], rule that)
  have wf: "kvdb_wf st" "cache_ok st" using inv by (simp_all add: kvdb_inv_def)
  have "cache_ok st'" if "cached_index st < 0 \<or> h < cached_hash st"
  proof (cases "cached_index st < 0")
    case True
    then show ?thesis by (simp add: cache_ok_def st'(4))
  next
    case False
    then have c: "0 \<le> cached_index st" by simp
    obtain j where "j < length (kv_entries st')" "de_hash (kv_entries st' ! j) = cached_hash st"
      "j = nat (cached_index st) + (if h > cached_hash st then 1 else 0)"
      by (rule cache_after_add [OF st'(2) wf c st'(4,5,3) larger])
    then show ?thesis
      using that False wf(2) by (simp add: cache_ok_def st'(4,5) split: if_splits)
  qed
  then show ?thesis using st' by (auto simp: kvdb_inv_def)
qed

lemma kvdb_i8_add_correct_witness:
  "\<exists>st'. kvdb_i8_add 400 5 1 None sample_db = (KVDB_STATUS_OK, st') \<and> kvdb_wf st'
     \<and> kvdb_abs st' = (kvdb_abs sample_db)(400 \<mapsto> 5)
     \<and> (cached_index sample_db < 0 \<or> (400::u32) < cached_hash sample_db \<longrightarrow> kvdb_inv st')"
proof (rule kvdb_i8_add_correct [OF sample_db_ok(1) _ _ sample_db_ok(5,6)])
  show "kvdb_abs sample_db 400 = None"
    by (simp add: sample_db_def kvdb_abs_def kv_map_def kv_live_def sample_entry_def zero_entry_def)
qed simp

text \<open>
  C26 The cache is not reset when an insertion moves entries.  If the hash \<open>c\<close> was read last
  and a larger, absent hash is then added, the next read of \<open>c\<close> returns OK with the data of an
  entry whose hash is larger than \<open>c\<close>, although the map still binds \<open>c\<close> to its own value.
\<close>

theorem kvdb_i8_add_stale_cache:
  assumes inv: "kvdb_inv st" and absent: "kvdb_abs st h = None"
    and room: "kv_count st < KVDB_MAX_ENTRIES" and grow: "grow_ok grown st"
    and cached: "0 \<le> cached_index st" "cached_hash st = c" and above: "c < h"
  shows "\<exists>st' e. kvdb_i8_add h v tag grown st = (KVDB_STATUS_OK, st')
           \<and> kvdb_abs st' c = kvdb_abs st c \<and> kvdb_abs st c \<noteq> None
           \<and> e \<in> set (kv_entries st') \<and> de_hash e > c
           \<and> kvdb_i8_get c st' = (KVDB_STATUS_OK, Some (de_data e), st')"
proof -
  have nz: "h \<noteq> 0" using above by auto
  obtain st' where st': "kvdb_i8_add h v tag grown st = (KVDB_STATUS_OK, st')" "kvdb_wf st'"
    "kvdb_abs st' = (kvdb_abs st)(h \<mapsto> v)"
    "cached_index st' = cached_index st" "cached_hash st' = cached_hash st"
    and larger: "\<And>c. length (filter (\<lambda>e. de_hash e > c) (kv_entries st'))
          = length (filter (\<lambda>e. de_hash e > c) (kv_entries st)) + (if h > c then 1 else 0)"
    by (rule kvdb_i8_add_absent [OF inv absent nz room grow, where v = v and tag = tag], rule that)
  have wf: "kvdb_wf st" "cache_ok st" using inv by (simp_all add: kvdb_inv_def)
  define i where "i = nat (cached_index st)"
  obtain j where j: "j < length (kv_entries st')" "de_hash (kv_entries st' ! j) = c" "j = Suc i"
    using cache_after_add [OF st'(2) wf cached(1) st'(4,5,3) larger] above
    unfolding cached(2) i_def by auto
  have c0: "c \<noteq> 0" using wf(2) cached by (simp add: cache_ok_def)
  have d: "distinct (map de_hash (kv_live (kv_entries st')))" "kv_sorted (kv_entries st')"
    using st'(2) by (simp_all add: kvdb_wf_def)
  have "de_hash (kv_entries st' ! i) \<noteq> de_hash (kv_entries st' ! j)"
    using live_index_unique [OF d(1) j(1), of i] j c0 by auto
  moreover have "de_hash (kv_entries st' ! j) \<le> de_hash (kv_entries st' ! i)"
    using kv_sorted_nth [OF d(2) _ j(1), of i] j(3) by simp
  ultimately have gt: "de_hash (kv_entries st' ! i) > c" using j(2) by auto
  have "kvdb_i8_get c st' = (KVDB_STATUS_OK, Some (de_data (kv_entries st' ! i)), st')"
    using st'(2,4,5) cached c0
    by (simp add: kvdb_i8_get_def kvdb_i16_search_hash_def kvdb_wf_def i_def)
  moreover have "kvdb_abs st' c = kvdb_abs st c" using above by (auto simp: st'(3))
  moreover have "de_hash (kv_entries st' ! j) \<noteq> 0" using j(2) c0 by simp
  then have "kvdb_abs st' c \<noteq> None"
    using kv_map_nth [OF d(1) j(1)] j(2) by (simp add: kvdb_abs_def)
  moreover have "kv_entries st' ! i \<in> set (kv_entries st')" using j by simp
  ultimately show ?thesis using st'(1) gt by auto
qed

lemma kvdb_i8_add_stale_cache_witness:
  "\<exists>st' e. kvdb_i8_add 700 33 1 None sample_db = (KVDB_STATUS_OK, st')
     \<and> kvdb_abs st' 500 = kvdb_abs sample_db 500 \<and> kvdb_abs sample_db 500 \<noteq> None
     \<and> e \<in> set (kv_entries st') \<and> de_hash e > 500
     \<and> kvdb_i8_get 500 st' = (KVDB_STATUS_OK, Some (de_data e), st')"
  by (rule kvdb_i8_add_stale_cache [OF sample_db_ok(1,3,5,6)]) (simp_all add: sample_db_ok)

text \<open>
  C27 Deleting a present key returns OK, removes its binding and no other, lowers the count
  by one and resets the cache, so that the invariant holds again whatever was cached; deleting an
  absent key reports that it was not found and changes nothing.
\<close>

theorem kvdb_i8_delete_correct:
  assumes inv: "kvdb_inv st"
  shows "case kvdb_abs st h of
           None \<Rightarrow> kvdb_i8_delete h st = (KVDB_STATUS_NOT_FOUND, st)
         | Some v \<Rightarrow>
             (\<exists>st'. kvdb_i8_delete h st = (KVDB_STATUS_OK, st') \<and> kvdb_inv st'
                    \<and> kvdb_abs st' = (kvdb_abs st)(h := None)
                    \<and> kvdb_u16_count st' = kvdb_u16_count st - 1)"
proof (cases "kvdb_abs st h")
  case None
  then show ?thesis using kvdb_i8_delete_absent [OF inv] by simp
next
  case (Some v)
  obtain st' where "kvdb_i8_delete h st = (KVDB_STATUS_OK, st')" "kvdb_inv st'"
    "kvdb_abs st' = (kvdb_abs st)(h := None)" "kv_count st' = kv_count st - 1"
    by (rule kvdb_i8_delete_present [OF inv Some])
  then show ?thesis using Some by (simp add: kvdb_u16_count_def)
qed

lemma kvdb_i8_delete_correct_witness:
  "\<exists>st'. kvdb_i8_delete 900 sample_db = (KVDB_STATUS_OK, st') \<and> kvdb_inv st'
      \<and> kvdb_abs st' = (kvdb_abs sample_db)(900 := None)
      \<and> kvdb_u16_count st' = kvdb_u16_count sample_db - 1"
  using kvdb_i8_delete_correct [OF sample_db_ok(1), of 900] by (simp add: sample_db_ok(4))

text \<open>
  Deleting by tag removes exactly the bindings of the entries with that tag, keeps every
  other entry with its value, keeps the count exact, and leaves a sorted database with an empty
  cache, even when the cache was stale before.
\<close>

theorem kvdb_v_delete_tag_correct:
  assumes wf: "kvdb_wf st"
  shows "let st' = kvdb_v_delete_tag tag st
         in kvdb_inv st'
            \<and> kvdb_abs st' = kvdb_abs st |` {h. \<forall>e \<in> set (kv_entries st). de_hash e = h \<longrightarrow> de_tag e \<noteq> tag}
            \<and> mset (kv_live (kv_entries st'))
                = filter_mset (\<lambda>e. de_tag e \<noteq> tag) (mset (kv_live (kv_entries st)))"
  using kvdb_v_delete_tag_keeps [OF wf, of tag] by (simp add: Let_def)

lemma kvdb_v_delete_tag_correct_witness:
  "kvdb_wf sample_db \<and>
   (let st' = kvdb_v_delete_tag 2 sample_db
    in kvdb_inv st'
       \<and> kvdb_abs st' = kvdb_abs sample_db
            |` {h. \<forall>e \<in> set (kv_entries sample_db). de_hash e = h \<longrightarrow> de_tag e \<noteq> 2}
       \<and> mset (kv_live (kv_entries st'))
           = filter_mset (\<lambda>e. de_tag e \<noteq> 2) (mset (kv_live (kv_entries sample_db))))"
proof -
  have "kvdb_wf sample_db" using sample_db_ok(1) by (simp add: kvdb_inv_def)
  then show ?thesis using kvdb_v_delete_tag_correct [of sample_db 2] by blast
qed

end
