(* ===== verification/Crc.thy ===== *)
theory Crc
  imports Prelude
begin

text \<open>
  The CRC-CCITT of \<open>src/src/chromatron_wifi/src/crc.c\<close> (polynomial 0x1021, initial value
  0xffff, no reflection): the 256 entry table and the byte-wise routines, with the bit-wise
  register they implement.  A buffer is a list of bytes; reading past its end is \<^term>\<open>None\<close>.
\<close>

section \<open>The routines\<close>

definition crctab :: "u16 list" where
  "crctab = [0x0000, 0x1021, 0x2042, 0x3063, 0x4084, 0x50a5, 0x60c6, 0x70e7,
   0x8108, 0x9129, 0xa14a, 0xb16b, 0xc18c, 0xd1ad, 0xe1ce, 0xf1ef,
   0x1231, 0x0210, 0x3273, 0x2252, 0x52b5, 0x4294, 0x72f7, 0x62d6,
   0x9339, 0x8318, 0xb37b, 0xa35a, 0xd3bd, 0xc39c, 0xf3ff, 0xe3de,
   0x2462, 0x3443, 0x0420, 0x1401, 0x64e6, 0x74c7, 0x44a4, 0x5485,
   0xa56a, 0xb54b, 0x8528, 0x9509, 0xe5ee, 0xf5cf, 0xc5ac, 0xd58d,
   0x3653, 0x2672, 0x1611, 0x0630, 0x76d7, 0x66f6, 0x5695, 0x46b4,
   0xb75b, 0xa77a, 0x9719, 0x8738, 0xf7df, 0xe7fe, 0xd79d, 0xc7bc,
   0x48c4, 0x58e5, 0x6886, 0x78a7, 0x0840, 0x1861, 0x2802, 0x3823,
   0xc9cc, 0xd9ed, 0xe98e, 0xf9af, 0x8948, 0x9969, 0xa90a, 0xb92b,
   0x5af5, 0x4ad4, 0x7ab7, 0x6a96, 0x1a71, 0x0a50, 0x3a33, 0x2a12,
   0xdbfd, 0xcbdc, 0xfbbf, 0xeb9e, 0x9b79, 0x8b58, 0xbb3b, 0xab1a,
   0x6ca6, 0x7c87, 0x4ce4, 0x5cc5, 0x2c22, 0x3c03, 0x0c60, 0x1c41,
   0xedae, 0xfd8f, 0xcdec, 0xddcd, 0xad2a, 0xbd0b, 0x8d68, 0x9d49,
   0x7e97, 0x6eb6, 0x5ed5, 0x4ef4, 0x3e13, 0x2e32, 0x1e51, 0x0e70,
   0xff9f, 0xefbe, 0xdfdd, 0xcffc, 0xbf1b, 0xaf3a, 0x9f59, 0x8f78,
   0x9188, 0x81a9, 0xb1ca, 0xa1eb, 0xd10c, 0xc12d, 0xf14e, 0xe16f,
   0x1080, 0x00a1, 0x30c2, 0x20e3, 0x5004, 0x4025, 0x7046, 0x6067,
   0x83b9, 0x9398, 0xa3fb, 0xb3da, 0xc33d, 0xd31c, 0xe37f, 0xf35e,
   0x02b1, 0x1290, 0x22f3, 0x32d2, 0x4235, 0x5214, 0x6277, 0x7256,
   0xb5ea, 0xa5cb, 0x95a8, 0x8589, 0xf56e, 0xe54f, 0xd52c, 0xc50d,
   0x34e2, 0x24c3, 0x14a0, 0x0481, 0x7466, 0x6447, 0x5424, 0x4405,
   0xa7db, 0xb7fa, 0x8799, 0x97b8, 0xe75f, 0xf77e, 0xc71d, 0xd73c,
   0x26d3, 0x36f2, 0x0691, 0x16b0, 0x6657, 0x7676, 0x4615, 0x5634,
   0xd94c, 0xc96d, 0xf90e, 0xe92f, 0x99c8, 0x89e9, 0xb98a, 0xa9ab,
   0x5844, 0x4865, 0x7806, 0x6827, 0x18c0, 0x08e1, 0x3882, 0x28a3,
   0xcb7d, 0xdb5c, 0xeb3f, 0xfb1e, 0x8bf9, 0x9bd8, 0xabbb, 0xbb9a,
   0x4a75, 0x5a54, 0x6a37, 0x7a16, 0x0af1, 0x1ad0, 0x2ab3, 0x3a92,
   0xfd2e, 0xed0f, 0xdd6c, 0xcd4d, 0xbdaa, 0xad8b, 0x9de8, 0x8dc9,
   0x7c26, 0x6c07, 0x5c64, 0x4c45, 0x3ca2, 0x2c83, 0x1ce0, 0x0cc1,
   0xef1f, 0xff3e, 0xcf5d, 0xdf7c, 0xaf9b, 0xbfba, 0x8fd9, 0x9ff8,
   0x6e17, 0x7e36, 0x4e55, 0x5e74, 0x2e93, 0x3eb2, 0x0ed1, 0x1ef0]"

definition crc_u16_start :: u16 where
  "crc_u16_start = 0xffff"

definition crc_u16_byte :: "u16 \<Rightarrow> u8 \<Rightarrow> u16" where
  "crc_u16_byte crc dat =
     (let temp = ucast (drop_bit 8 crc) :: u8;
          crc = push_bit 8 crc;
          crc = crc OR ucast dat
      in crc XOR crctab ! unat temp)"

definition crc_u16_finish :: "u16 \<Rightarrow> u16" where
  "crc_u16_finish crc =
     (let crc = crc_u16_byte crc 0
      in crc_u16_byte crc 0)"

text \<open>The loop body of \<open>crc_u16_partial_block\<close> is written out in C as it is here.\<close>

fun crc_u16_loop :: "nat \<Rightarrow> u16 \<Rightarrow> u8 list \<Rightarrow> u16 option" where
  "crc_u16_loop 0 crc ptr = Some crc"
| "crc_u16_loop (Suc n) crc ptr =
     (case ptr of
        [] \<Rightarrow> None
      | b # ptr \<Rightarrow>
          (let temp = ucast (drop_bit 8 crc) :: u8;
               crc = push_bit 8 crc;
               crc = crc OR ucast b;
               crc = crc XOR crctab ! unat temp
           in crc_u16_loop n crc ptr))"

definition crc_u16_partial_block :: "u16 \<Rightarrow> u8 list \<Rightarrow> u16 \<Rightarrow> u16 option" where
  "crc_u16_partial_block crc ptr len = crc_u16_loop (unat len) crc ptr"

definition crc_u16_block :: "u8 list \<Rightarrow> u16 \<Rightarrow> u16 option" where
  "crc_u16_block ptr len =
     (let crc = crc_u16_start
      in map_option crc_u16_finish (crc_u16_partial_block crc ptr len))"

section \<open>The bit-wise register\<close>

text \<open>
  The textbook register: shift one message bit in at the bottom, and subtract the
  polynomial when a one leaves at the top.
\<close>

definition crc_bit :: "u16 \<Rightarrow> bool \<Rightarrow> u16" where
  "crc_bit crc b = (2 * crc OR of_bool b) XOR (if bit crc 15 then 0x1021 else 0)"

definition byte_bits :: "u8 \<Rightarrow> bool list" where
  "byte_bits d = map (bit d) [7, 6, 5, 4, 3, 2, 1, 0]"

definition crc_bits :: "u16 \<Rightarrow> bool list \<Rightarrow> u16" where
  "crc_bits crc bs = foldl crc_bit crc bs"

lemma crc_bit_linear: "crc_bit (x XOR y) (b \<noteq> c) = crc_bit x b XOR crc_bit y c"
  unfolding crc_bit_def
  by (rule bit_word_eqI) (auto simp: bit_simps)

lemma crc_bits_linear:
  "length bs = length cs \<Longrightarrow>
     crc_bits (x XOR y) (map2 (\<noteq>) bs cs) = crc_bits x bs XOR crc_bits y cs"
  unfolding crc_bits_def
  by (induction bs cs arbitrary: x y rule: list_induct2)
    (simp_all only: list.map zip_Cons_Cons zip_Nil foldl.simps prod.case crc_bit_linear)

lemma crctab_length [simp]: "length crctab = 256"
  by (simp add: crctab_def)

fun doubled :: "u16 list \<Rightarrow> u16 list" where
  "doubled [] = []"
| "doubled (t # ts) = crc_bit t False # (crc_bit t False XOR 0x1021) # doubled ts"

lemma crctab_doubled: "doubled (take 128 crctab) = crctab"
  unfolding crctab_def
  by (simp add: crc_bit_def)

lemma nth_doubled:
  "m < length ts \<Longrightarrow> doubled ts ! (2 * m) = crc_bit (ts ! m) False
     \<and> doubled ts ! Suc (2 * m) = crc_bit (ts ! m) False XOR 0x1021"
  by (induction ts arbitrary: m) (auto simp: less_Suc_eq_0_disj)

lemma crc_bits_snoc: "crc_bits c (bs @ [b]) = crc_bit (crc_bits c bs) b"
  by (simp add: crc_bits_def)

lemma crc_bits_append: "crc_bits c (bs @ cs) = crc_bits (crc_bits c bs) cs"
  by (simp add: crc_bits_def)

lemma crc_bits_Cons: "crc_bits c (b # bs) = crc_bits (crc_bit c b) bs"
  by (simp add: crc_bits_def)

lemma word_of_nat_odd: "(word_of_nat (Suc (2 * m)) :: u16) = word_of_nat (2 * m) XOR 1"
  by (simp add: xor_one_eq)

text \<open>Table entry \<open>n\<close> is what eight zero bits make of \<open>n\<close> in the upper byte.\<close>

lemma crctab_bits:
  "n < 256 \<Longrightarrow> crctab ! n = crc_bits (push_bit 8 (word_of_nat n)) (replicate 8 False)"
proof (induction n rule: less_induct)
  case (less n)
  let ?T = "\<lambda>n :: nat. crc_bits (push_bit 8 (word_of_nat n)) (replicate 8 False)"
  show ?case
  proof (cases "n = 0")
    case True
    have "crctab ! 0 = 0" by (simp add: crctab_def)
    moreover have "crc_bits 0 (replicate k False) = 0" for k
      by (induction k) (simp_all add: crc_bits_def crc_bit_def)
    ultimately show ?thesis using True by simp
  next
    case False
    define m where "m = n div 2"
    have m: "m < n" "m < 128" "n = 2 * m \<or> n = Suc (2 * m)" using False less.prems by (auto simp: m_def)
    have IH: "crctab ! m = ?T m" using less.IH [OF m(1)] m(2) by simp
    have "\<not> bit m 7" using m(2) by (simp add: bit_iff_odd)
    then have "\<not> bit (push_bit 8 (word_of_nat m :: u16)) 15"
      by (simp add: bit_simps)
    then have "crc_bit (push_bit 8 (word_of_nat m)) False = push_bit 8 (word_of_nat (2 * m))"
      by (simp add: crc_bit_def push_bit_eq_mult)
    then have even: "?T (2 * m) = crc_bit (crctab ! m) False"
      unfolding IH
      by (metis crc_bits_Cons crc_bits_snoc replicate_Suc replicate_append_same)
    have "replicate 8 False = [False, False, False, False, False, False, False, False]"
      by (simp add: numeral_eq_Suc)
    then have T1: "?T 1 = 0x1021"
      by (simp add: crc_bits_def crc_bit_def)
    have "push_bit 8 (word_of_nat (Suc (2 * m))) = push_bit 8 (word_of_nat (2 * m)) XOR (push_bit 8 (word_of_nat 1) :: u16)"
      by (simp only: word_of_nat_odd push_bit_xor of_nat_1)
    then have odd: "?T (Suc (2 * m)) = ?T (2 * m) XOR ?T 1"
      using crc_bits_linear [of "replicate 8 False" "replicate 8 False" "push_bit 8 (word_of_nat (2 * m))" "push_bit 8 (word_of_nat 1)"]
      by (simp add: map_replicate_const)
    have "crctab ! (2 * m) = crc_bit (crctab ! m) False
        \<and> crctab ! Suc (2 * m) = crc_bit (crctab ! m) False XOR 0x1021"
      using nth_doubled [of m "take 128 crctab"] m(2) by (simp add: crctab_doubled)
    then show ?thesis using m(3) even odd T1 by auto
  qed
qed

text \<open>A byte shifted in below a register whose upper byte is clear just moves up.\<close>

lemma crc_bit_shift: "\<not> bit c 15 \<Longrightarrow> crc_bit c b = push_bit 1 c OR of_bool b"
  by (simp add: crc_bit_def mult.commute)

lemma crc_bit_low:
  assumes k: "k < 8"
  shows "crc_bit (push_bit k (ucast (x :: u8)) OR ucast (drop_bit (8 - k) d)) (bit d (7 - k))
    = push_bit (Suc k) (ucast x) OR ucast (drop_bit (7 - k) (d :: u8))"
proof -
  let ?c = "push_bit k (ucast x) OR ucast (drop_bit (8 - k) d) :: u16"
  have "\<not> bit ?c 15"
    using k by (auto simp: bit_simps dest!: bit_imp_le_length)
  then have "crc_bit ?c (bit d (7 - k)) = push_bit 1 ?c OR of_bool (bit d (7 - k))"
    by (rule crc_bit_shift)
  also have "\<dots> = push_bit (Suc k) (ucast x) OR ucast (drop_bit (7 - k) d)"
  proof (rule bit_word_eqI)
    fix n :: nat
    assume n: "n < LENGTH(16)"
    show "bit (push_bit 1 ?c OR of_bool (bit d (7 - k))) n
        = bit (push_bit (Suc k) (ucast x) OR ucast (drop_bit (7 - k) d) :: u16) n"
    proof (cases n)
      case 0
      then show ?thesis
        unfolding bit_or_iff bit_push_bit_iff bit_of_bool_iff bit_unsigned_iff bit_drop_bit_eq by simp
    next
      case (Suc m)
      have "8 - k + m = 7 - k + n" using Suc k by arith
      then have "bit d (8 - k + m) = bit d (7 - k + n)" by (rule arg_cong)
      then show ?thesis using n Suc
        unfolding bit_or_iff bit_push_bit_iff bit_of_bool_iff bit_unsigned_iff bit_drop_bit_eq
        by (auto simp: comp_def)
    qed
  qed
  finally show ?thesis .
qed

lemma crc_bits_low:
  "crc_bits (ucast (x :: u8)) (byte_bits d) = push_bit 8 (ucast x) OR ucast d"
proof -
  define st where "st k = (push_bit k (ucast x) OR ucast (drop_bit (8 - k) d) :: u16)" for k
  have step: "crc_bit (st k) (bit d (7 - k)) = st (k + 1)" if "k < 8" for k
    using crc_bit_low [OF that, of x d] by (simp add: st_def)
  have two: "st (Suc (Suc 0)) = st 2" by (simp add: numeral_2_eq_2)
  have "crc_bits (st 0) (byte_bits d) = st 8"
    using step [of 0] step [of 1] step [of 2] step [of 3] step [of 4] step [of 5] step [of 6] step [of 7]
    by (simp add: crc_bits_def byte_bits_def two)
  moreover have "drop_bit 8 d = 0" by (rule bit_word_eqI) (simp add: bit_simps)
  ultimately show ?thesis by (simp add: st_def)
qed

lemma word16_split: "c = push_bit 8 (ucast (ucast (drop_bit 8 c) :: u8)) XOR ucast (ucast c :: u8)"
  for c :: u16
  by (rule bit_word_eqI) (auto simp: bit_simps)

lemma crc_u16_byte_bits: "crc_u16_byte crc dat = crc_bits crc (byte_bits dat)"
proof -
  let ?hi = "ucast (drop_bit 8 crc) :: u8" and ?lo = "ucast crc :: u8"
  have "crc_bits crc (byte_bits dat)
      = crc_bits (push_bit 8 (ucast ?hi) XOR ucast ?lo) (map2 (\<noteq>) (replicate 8 False) (byte_bits dat))"
    by (subst word16_split [of crc]) (simp add: byte_bits_def numeral_eq_Suc)
  also have "\<dots> = crc_bits (push_bit 8 (ucast ?hi)) (replicate 8 False) XOR crc_bits (ucast ?lo) (byte_bits dat)"
    by (rule crc_bits_linear) (simp add: byte_bits_def)
  also have "crc_bits (push_bit 8 (ucast ?hi)) (replicate 8 False) = crctab ! unat ?hi"
    by (simp add: crctab_bits unat8_less)
  also have "crc_bits (ucast ?lo) (byte_bits dat) = push_bit 8 crc OR ucast dat"
    unfolding crc_bits_low by (rule bit_word_eqI) (auto simp: bit_simps)
  finally show ?thesis by (simp add: crc_u16_byte_def xor.commute)
qed

section \<open>Blocks\<close>

lemma crc_u16_loop_eq:
  "crc_u16_loop n crc ptr
     = (if n \<le> length ptr then Some (foldl crc_u16_byte crc (take n ptr)) else None)"
proof (induction n crc ptr rule: crc_u16_loop.induct)
  case (2 n crc ptr)
  then show ?case
  proof (cases ptr)
    case (Cons b bs)
    have "crc_u16_loop (Suc n) crc ptr = crc_u16_loop n (crc_u16_byte crc b) bs"
      by (simp add: Cons crc_u16_byte_def Let_def)
    then show ?thesis
      using "2.IH" [OF Cons refl refl refl refl] by (simp add: Cons crc_u16_byte_def Let_def)
  qed simp
qed simp

lemma foldl_crc_bits:
  "foldl crc_u16_byte crc bs = crc_bits crc (concat (map byte_bits bs))"
  by (induction bs arbitrary: crc) (simp_all add: crc_u16_byte_bits crc_bits_append crc_bits_def)

lemma crc_u16_block_eq:
  assumes "length bs = unat len"
  shows "crc_u16_block bs len = Some (foldl crc_u16_byte crc_u16_start (bs @ [0, 0]))"
  using assms
  by (simp add: crc_u16_block_def crc_u16_partial_block_def crc_u16_loop_eq crc_u16_finish_def Let_def)

text \<open>Two bytes shifted in replace the register: what they were is added to it.\<close>

lemma crc_two_bytes:
  "crc_u16_byte (crc_u16_byte c a) b
     = crc_u16_byte (crc_u16_byte c 0) 0 XOR (push_bit 8 (ucast a) OR ucast b)"
proof -
  have add: "crc_u16_byte x d = crc_u16_byte x 0 XOR ucast d" for x d
    unfolding crc_u16_byte_def Let_def
    by (rule bit_word_eqI) (auto simp: bit_simps dest: bit_imp_le_length)
  have lin: "crc_u16_byte (x XOR ucast d) 0 = crc_u16_byte x 0 XOR push_bit 8 (ucast d)"
    for x and d :: u8
  proof -
    have "drop_bit 8 (x XOR ucast d) = drop_bit 8 x"
      by (rule bit_word_eqI) (auto simp: bit_simps dest: bit_imp_le_length)
    then show ?thesis
      unfolding crc_u16_byte_def Let_def by (auto intro!: bit_word_eqI simp: bit_simps)
  qed
  have "crc_u16_byte (crc_u16_byte c a) b
      = (crc_u16_byte (crc_u16_byte c 0) 0 XOR push_bit 8 (ucast a)) XOR ucast b"
    by (subst add, subst add [of c a], subst lin) simp
  moreover have "push_bit 8 (ucast a) OR ucast b = push_bit 8 (ucast a) XOR (ucast b :: u16)"
    by (rule bit_word_eqI) (auto simp: bit_simps dest: bit_imp_le_length)
  ultimately show ?thesis by (simp add: xor.assoc)
qed

text \<open>Shifting the same byte into two registers never merges them.\<close>

lemma crc_bit_inj: "crc_bit x b = crc_bit y b \<longleftrightarrow> x = y"
proof
  assume eq: "crc_bit x b = crc_bit y b"
  define z where "z = x XOR y"
  have "crc_bit z (b \<noteq> b) = 0"
    unfolding z_def crc_bit_linear eq by simp
  then have z: "push_bit 1 z XOR (if bit z 15 then 0x1021 else 0) = 0"
    by (simp add: crc_bit_def mult.commute)
  have top: "\<not> bit z 15"
  proof
    assume "bit z 15"
    then have "odd (push_bit 1 z XOR (if bit z 15 then 0x1021 else 0))" by (simp add: even_xor_iff)
    then show False using z by simp
  qed
  then have shifted: "push_bit 1 z = 0" using z by simp
  have "z = 0"
  proof (rule bit_word_eqI)
    fix n :: nat
    assume n: "n < LENGTH(16)"
    show "bit z n = bit 0 n"
    proof (cases "n = 15")
      case True
      then show ?thesis using top by simp
    next
      case False
      have "bit (push_bit 1 z) (Suc n) = bit z n"
        unfolding bit_push_bit_iff using n False by simp
      then show ?thesis using shifted by simp
    qed
  qed
  then have "x XOR y = x XOR x" by (simp add: z_def)
  then show "x = y" unfolding xor_left_cancel by (rule sym)
qed simp

lemma crc_u16_byte_inj: "crc_u16_byte x d = crc_u16_byte y d \<longleftrightarrow> x = y"
  by (simp add: crc_u16_byte_bits crc_bits_def byte_bits_def crc_bit_inj)

lemma crc_bytes_inj:
  "foldl crc_u16_byte x bs = foldl crc_u16_byte y bs \<longleftrightarrow> x = y"
  by (induction bs arbitrary: x y) (simp_all add: crc_u16_byte_inj)

lemma two_bytes_inj:
  "(push_bit 8 (ucast a) OR ucast b :: u16) = push_bit 8 (ucast a') OR ucast b' \<longleftrightarrow> a = a' \<and> b = b'"
  for a b a' b' :: u8
proof
  assume eq: "(push_bit 8 (ucast a) OR ucast b :: u16) = push_bit 8 (ucast a') OR ucast b'"
  have hi: "ucast (drop_bit 8 (push_bit 8 (ucast u) OR ucast v :: u16)) = u" for u v :: u8
    by (rule bit_word_eqI) (auto simp: bit_simps dest: bit_imp_le_length)
  have lo: "ucast (push_bit 8 (ucast u) OR ucast v :: u16) = v" for u v :: u8
    by (rule bit_word_eqI) (auto simp: bit_simps)
  have "a = a'" by (metis eq hi)
  moreover have "b = b'" by (metis eq lo)
  ultimately show "a = a' \<and> b = b'" by simp
qed simp

section \<open>Properties\<close>

text \<open>
  C25 The table-driven CRC of a buffer is the bit-wise CRC-CCITT of its first
  \<open>length\<close> bytes: the register starts at 0xffff, takes the message bits from the most significant
  one on and then sixteen zero bits, and subtracts 0x1021 whenever a one is shifted out.  It reads
  nothing past the given length, and is undefined exactly when the buffer is shorter.
\<close>

theorem crc_u16_block_reference:
  "crc_u16_block bs len =
     (if unat len \<le> length bs
      then Some (crc_bits 0xffff (concat (map byte_bits (take (unat len) bs)) @ replicate 16 False))
      else None)"
proof -
  have zero: "byte_bits 0 @ byte_bits 0 = replicate 16 False"
    by (simp add: byte_bits_def numeral_eq_Suc)
  have "crc_u16_finish x = crc_bits x (byte_bits 0 @ byte_bits 0)" for x
    by (simp add: crc_u16_finish_def crc_u16_byte_bits crc_bits_append)
  then show ?thesis
    by (simp add: crc_u16_block_def crc_u16_partial_block_def crc_u16_loop_eq foldl_crc_bits
        crc_u16_start_def crc_bits_append zero)
qed

text \<open>The check value of a message followed by its CRC.\<close>

lemma crc_residue:
  assumes "length bs + 2 < 2 ^ 16" and crc: "crc_u16_block bs (word_of_nat (length bs)) = Some c"
  shows "crc_u16_block (bs @ [ucast (drop_bit 8 c), ucast c]) (word_of_nat (length bs + 2)) = Some 0"
proof -
  let ?s = "foldl crc_u16_byte crc_u16_start bs"
  have len: "length bs = unat (word_of_nat (length bs) :: u16)"
    using assms(1) by (simp add: unat_of_nat)
  have len2: "length (bs @ [ucast (drop_bit 8 c), ucast c])
      = unat (word_of_nat (length bs + 2) :: u16)"
    by (subst unat_of_nat16) (use assms(1) in simp_all)
  have c: "c = crc_u16_byte (crc_u16_byte ?s 0) 0"
    using crc crc_u16_block_eq [OF len] by simp
  have "push_bit 8 (ucast (ucast (drop_bit 8 c) :: u8)) OR ucast (ucast c :: u8) = c"
    by (rule bit_word_eqI) (auto simp: bit_simps)
  then have "crc_u16_byte (crc_u16_byte ?s (ucast (drop_bit 8 c))) (ucast c) = 0"
    by (subst crc_two_bytes) (simp flip: c)
  moreover have "crc_u16_byte 0 0 = 0" by (simp add: crc_u16_byte_def crctab_def)
  ultimately show ?thesis unfolding crc_u16_block_eq [OF len2] by simp
qed

text \<open>
  Appending the CRC of a message to it, high byte first, gives a message whose CRC
  is zero, which is how the receivers of the repository check a file or a packet.
\<close>

theorem crc_u16_block_residue:
  assumes "length bs + 2 < 2 ^ 16" and crc: "crc_u16_block bs (word_of_nat (length bs)) = Some c"
  shows "crc_u16_block (bs @ [ucast (drop_bit 8 c), ucast c]) (word_of_nat (length bs + 2)) = Some 0"
  using assms by (rule crc_residue)

lemma crc_u16_block_residue_witness:
  "\<exists>c. crc_u16_block [0x31, 0x32] 2 = Some c
       \<and> crc_u16_block [0x31, 0x32, ucast (drop_bit 8 c), ucast c] 4 = Some 0"
  using crc_u16_block_residue [of "[0x31, 0x32]"] by (simp add: crc_u16_block_eq)

text \<open>
  Two messages of the same length that differ in two adjacent bytes only have
  different CRCs: every error confined to two neighbouring bytes is detected, wherever it is.
\<close>

theorem crc_u16_block_detects_burst:
  assumes "(a, b) \<noteq> (a', b')" and len: "length (pre @ [a, b] @ post) = unat len"
  shows "crc_u16_block (pre @ [a, b] @ post) len \<noteq> crc_u16_block (pre @ [a', b'] @ post) len"
proof -
  have len': "length (pre @ [a', b'] @ post) = unat len" using len by simp
  let ?s = "foldl crc_u16_byte crc_u16_start pre"
  have "crc_u16_byte (crc_u16_byte ?s a) b \<noteq> crc_u16_byte (crc_u16_byte ?s a') b'"
    using assms(1)
    unfolding crc_two_bytes [of ?s a b] crc_two_bytes [of ?s a' b']
    by (simp add: xor_left_cancel two_bytes_inj)
  then have "foldl crc_u16_byte (crc_u16_byte (crc_u16_byte ?s a) b) (post @ [0, 0])
      \<noteq> foldl crc_u16_byte (crc_u16_byte (crc_u16_byte ?s a') b') (post @ [0, 0])"
    by (simp only: crc_bytes_inj simp_thms)
  then show ?thesis
    unfolding crc_u16_block_eq [OF len] crc_u16_block_eq [OF len'] by simp
qed

lemma crc_u16_block_detects_burst_witness:
  "crc_u16_block ([1] @ [2, 3] @ [4]) 4 \<noteq> crc_u16_block ([1] @ [2, 7] @ [4]) 4"
  by (rule crc_u16_block_detects_burst) simp_all

end
