(* ===== verification/Bytes.thy ===== *)
theory Bytes
  imports Prelude
begin

text \<open>
  Memory as a list of bytes on a little-endian processor: integers of 16 and 32 bits at an offset,
  and copying.  An access outside the list is undefined.
\<close>

section \<open>Byte memory\<close>

definition rd16 :: "u8 list \<Rightarrow> nat \<Rightarrow> u16 option" where
  "rd16 mem a = do {
     b0 \<leftarrow> rd mem a;
     b1 \<leftarrow> rd mem (a + 1);
     Some (ucast b0 OR push_bit 8 (ucast b1)) }"

definition rd32 :: "u8 list \<Rightarrow> nat \<Rightarrow> u32 option" where
  "rd32 mem a = do {
     lo \<leftarrow> rd16 mem a;
     hi \<leftarrow> rd16 mem (a + 2);
     Some (ucast lo OR push_bit 16 (ucast hi)) }"

definition bytes16 :: "u16 \<Rightarrow> u8 list" where
  "bytes16 w = [ucast w, ucast (drop_bit 8 w)]"

definition bytes32 :: "u32 \<Rightarrow> u8 list" where
  "bytes32 w = bytes16 (ucast w) @ bytes16 (ucast (drop_bit 16 w))"

definition put_bytes :: "u8 list \<Rightarrow> nat \<Rightarrow> u8 list \<Rightarrow> u8 list" where
  "put_bytes mem a bs = take a mem @ bs @ drop (a + length bs) mem"

definition wr32 :: "u8 list \<Rightarrow> nat \<Rightarrow> u32 \<Rightarrow> u8 list option" where
  "wr32 mem a w = (if a + 4 \<le> length mem then Some (put_bytes mem a (bytes32 w)) else None)"

lemma bytes16_join: "ucast (ucast w :: u8) OR push_bit 8 (ucast (ucast (drop_bit 8 w) :: u8)) = w" for w :: u16
  by (rule bit_word_eqI) (auto simp: bit_simps)

lemma bytes32_join: "ucast (ucast w :: u16) OR push_bit 16 (ucast (ucast (drop_bit 16 w) :: u16)) = w" for w :: u32
  by (rule bit_word_eqI) (auto simp: bit_simps)

lemma length_bytes [simp]: "length (bytes16 h) = 2" "length (bytes32 w) = 4"
  by (simp_all add: bytes16_def bytes32_def)

lemma length_put_bytes [simp]: "a + length bs \<le> length mem \<Longrightarrow> length (put_bytes mem a bs) = length mem"
  by (simp add: put_bytes_def)

lemma nth_put_bytes:
  assumes "a + length bs \<le> length mem"
  shows "put_bytes mem a bs ! i = (if a \<le> i \<and> i < a + length bs then bs ! (i - a) else mem ! i)"
  using assms by (auto simp: put_bytes_def nth_append)

lemma rd16_at: "a + 2 \<le> length mem \<Longrightarrow> rd16 mem a = Some (ucast (mem ! a) OR push_bit 8 (ucast (mem ! (a + 1))))"
  by (simp add: rd16_def)

lemma rd32_total: "(\<exists>w. rd32 mem a = Some w) \<longleftrightarrow> a + 4 \<le> length mem"
  by (auto simp: rd32_def rd16_def rd_def bind_eq_Some_conv split: if_splits)

lemma rd16_bytes: "rd16 (pre @ bytes16 w @ post) (length pre) = Some w"
  by (simp add: rd16_at nth_append bytes16_def bytes16_join)

lemma rd32_bytes: "rd32 (pre @ bytes32 w @ post) (length pre) = Some w"
proof -
  have lo: "rd16 (pre @ bytes32 w @ post) (length pre) = Some (ucast w)"
    using rd16_bytes [of pre "ucast w" "bytes16 (ucast (drop_bit 16 w)) @ post"] by (simp add: bytes32_def)
  have hi: "rd16 (pre @ bytes32 w @ post) (length pre + 2) = Some (ucast (drop_bit 16 w))"
    using rd16_bytes [of "pre @ bytes16 (ucast w)" "ucast (drop_bit 16 w)" post] by (simp add: bytes32_def)
  show ?thesis unfolding rd32_def lo hi by (simp add: bytes32_join)
qed

lemma rd32_put_same: "a + 4 \<le> length mem \<Longrightarrow> rd32 (put_bytes mem a (bytes32 w)) a = Some w"
  using rd32_bytes [of "take a mem" w "drop (a + 4) mem"] by (simp add: put_bytes_def min_absorb2)

lemma rd32_cong:
  assumes "length mem' = length mem" and "\<And>i. a \<le> i \<Longrightarrow> i < a + 4 \<Longrightarrow> mem' ! i = mem ! i"
  shows "rd32 mem' a = rd32 mem a"
  using assms(2) [of a] assms(2) [of "a + 1"] assms(2) [of "a + 2"] assms(2) [of "a + 3"]
  by (simp add: rd32_def rd16_def rd_def assms(1) numeral_3_eq_3)

lemma rd32_put_other:
  assumes "a + 4 \<le> length mem" and "b + 4 \<le> a \<or> a + 4 \<le> b"
  shows "rd32 (put_bytes mem a (bytes32 w)) b = rd32 mem b"
  using assms by (intro rd32_cong) (auto simp: nth_put_bytes)

lemma wr32_Some [opt_simps]:
  "wr32 mem a w = Some mem' \<longleftrightarrow> a + 4 \<le> length mem \<and> mem' = put_bytes mem a (bytes32 w)"
  by (auto simp: wr32_def)

lemma put_bytes_at: "put_bytes (pre @ old @ post) (length pre) new = pre @ new @ post" if "length old = length new"
  using that by (simp add: put_bytes_def)

lemma take_put_bytes:
  assumes "a + length bs \<le> n" and "n \<le> length mem"
  shows "take n (put_bytes mem a bs) = put_bytes (take n mem) a bs"
  using assms by (intro nth_equalityI) (simp_all add: nth_put_bytes min_absorb2)

definition wr16 :: "u8 list \<Rightarrow> nat \<Rightarrow> u16 \<Rightarrow> u8 list option" where
  "wr16 mem a w = (if a + 2 \<le> length mem then Some (put_bytes mem a (bytes16 w)) else None)"

lemma wr16_Some [opt_simps]:
  "wr16 mem a w = Some mem' \<longleftrightarrow> a + 2 \<le> length mem \<and> mem' = put_bytes mem a (bytes16 w)"
  by (auto simp: wr16_def)

text \<open>
  \<open>memcpy\<close>, where source and destination lie in the same memory: the bytes are read before they
  are written.
\<close>

definition copy_bytes :: "u8 list \<Rightarrow> nat \<Rightarrow> nat \<Rightarrow> nat \<Rightarrow> u8 list option" where
  "copy_bytes mem dst src n =
     (if dst + n \<le> length mem \<and> src + n \<le> length mem
      then Some (put_bytes mem dst (take n (drop src mem))) else None)"

lemma copy_bytes_Some [opt_simps]:
  "copy_bytes mem dst src n = Some mem' \<longleftrightarrow>
     dst + n \<le> length mem \<and> src + n \<le> length mem \<and> mem' = put_bytes mem dst (take n (drop src mem))"
  by (auto simp: copy_bytes_def)

end
