(* ===== verification/Memory.thy ===== *)
theory Memory
  imports Bytes
begin

text \<open>
  The dynamic memory pool of \<open>src/src/chromatron_wifi/src/memory.c\<close>: blocks behind one another
  in a byte array, a table of handles that point at them, and a collector that moves the live blocks
  together.  The assertions of the file are compiled out (\<open>#define ASSERT(a)\<close>), so
  \<open>verify_handle\<close> and \<open>mem2_v_check_canaries\<close> have no effect.  A null or wild pointer is undefined.
\<close>

section \<open>The pool\<close>

record mem_rt_data =
  heap_size :: u16
  handles_used :: u16
  free_space :: u16
  used_space :: u16
  dirty_space :: u16
  data_space :: u16
  peak_usage :: u16

text \<open>The statics of the file: a pointer is an offset in the heap, a null handle is \<^term>\<open>None\<close>.\<close>

record mem_state =
  mem_heap :: "u8 list"
  mem_handles :: "nat option list"
  free_space_ptr :: nat
  mem_rt :: mem_rt_data
  mem_allocs :: u32
  mem_alloc_fails :: u32

record mem_block_header =
  hdr_size :: u16
  hdr_handle :: i16
  hdr_type :: u8
  hdr_padding_len :: u8

abbreviation (input) MAX_MEM_HANDLES :: nat where "MAX_MEM_HANDLES \<equiv> 256"
abbreviation (input) MEM_DEFRAG_THRESHOLD :: u16 where "MEM_DEFRAG_THRESHOLD \<equiv> 512"
abbreviation (input) MEM_SIZE_DIRTY_MASK :: u16 where "MEM_SIZE_DIRTY_MASK \<equiv> 0x8000"
abbreviation (input) MEM_TYPE_UNKNOWN :: u8 where "MEM_TYPE_UNKNOWN \<equiv> 0"
abbreviation (input) MEM_ERR_INCORRECT_TYPE :: i16 where "MEM_ERR_INCORRECT_TYPE \<equiv> - 10"
abbreviation (input) MEM_ERR_INVALID_HANDLE :: i16 where "MEM_ERR_INVALID_HANDLE \<equiv> - 11"
abbreviation (input) MEM_ERR_END_OF_LIST :: i16 where "MEM_ERR_END_OF_LIST \<equiv> - 20"
abbreviation (input) CANARY_VALUE :: u8 where "CANARY_VALUE \<equiv> 0x47"

text \<open>The header is 6 bytes; \<open>sizeof(mem_block_header_t)\<close>.\<close>

abbreviation (input) HDR :: nat where "HDR \<equiv> 6"

definition rd_header :: "u8 list \<Rightarrow> nat \<Rightarrow> mem_block_header option" where
  "rd_header heap p = do {
     s \<leftarrow> rd16 heap p;
     h \<leftarrow> rd16 heap (p + 2);
     t \<leftarrow> rd heap (p + 4);
     l \<leftarrow> rd heap (p + 5);
     Some \<lparr>hdr_size = s, hdr_handle = h, hdr_type = t, hdr_padding_len = l\<rparr> }"

definition header_bytes :: "mem_block_header \<Rightarrow> u8 list" where
  "header_bytes hdr = bytes16 (hdr_size hdr) @ bytes16 (hdr_handle hdr) @ [hdr_type hdr, hdr_padding_len hdr]"

definition wr_header :: "u8 list \<Rightarrow> nat \<Rightarrow> mem_block_header \<Rightarrow> u8 list option" where
  "wr_header heap p hdr = (if p + HDR \<le> length heap then Some (put_bytes heap p (header_bytes hdr)) else None)"

definition MEM_BLOCK_SIZE :: "mem_block_header \<Rightarrow> nat" where
  "MEM_BLOCK_SIZE hdr = HDR + unat (NOT MEM_SIZE_DIRTY_MASK AND hdr_size hdr) + 1"

definition CANARY_PTR :: "nat \<Rightarrow> mem_block_header \<Rightarrow> nat" where
  "CANARY_PTR p hdr = p + MEM_BLOCK_SIZE hdr - 1"

definition swizzle :: "i16 \<Rightarrow> i16" where
  "swizzle handle = handle + 1"

definition unswizzle :: "i16 \<Rightarrow> i16" where
  "unswizzle handle = handle - 1"

definition generate_canary :: "mem_block_header \<Rightarrow> u8" where
  "generate_canary hdr = CANARY_VALUE"

definition is_dirty :: "mem_block_header \<Rightarrow> bool" where
  "is_dirty hdr \<longleftrightarrow> hdr_size hdr AND MEM_SIZE_DIRTY_MASK \<noteq> 0"

definition set_dirty :: "mem_block_header \<Rightarrow> mem_block_header" where
  "set_dirty hdr = hdr\<lparr>hdr_size := hdr_size hdr OR MEM_SIZE_DIRTY_MASK\<rparr>"

text \<open>\<open>handles[handle]\<close> and the header it points at.\<close>

definition header_of :: "mem_state \<Rightarrow> i16 \<Rightarrow> (nat \<times> mem_block_header) option" where
  "header_of m handle = do {
     p \<leftarrow> rd_at (mem_handles m) (sint handle);
     p \<leftarrow> p;
     hdr \<leftarrow> rd_header (mem_heap m) p;
     Some (p, hdr) }"

section \<open>Operations\<close>

text \<open>\<open>peak_usage\<close> and the two counters are left as they are.\<close>

definition mem2_v_init :: "u8 list \<Rightarrow> u16 \<Rightarrow> mem_state \<Rightarrow> mem_state" where
  "mem2_v_init heap sz m =
     m\<lparr>mem_heap := heap, free_space_ptr := 0, mem_handles := replicate MAX_MEM_HANDLES None,
       mem_rt := (mem_rt m)\<lparr>free_space := sz, heap_size := sz, used_space := 0, data_space := 0,
                             dirty_space := 0, handles_used := 0\<rparr>\<rparr>"

definition mem2_h_get_header :: "u16 \<Rightarrow> mem_state \<Rightarrow> mem_block_header option" where
  "mem2_h_get_header index m = do {
     p \<leftarrow> rd (mem_handles m) (unat index);
     case p of
       None \<Rightarrow> Some \<lparr>hdr_size = 0, hdr_handle = 0, hdr_type = 0, hdr_padding_len = 0\<rparr>
     | Some p \<Rightarrow> rd_header (mem_heap m) p }"

definition mem_b2_verify_handle :: "i16 \<Rightarrow> mem_state \<Rightarrow> bool option" where
  "mem_b2_verify_handle handle m =
     (if sint handle < 0 then Some False
      else do {
        let handle = unswizzle handle;
        p \<leftarrow> rd_at (mem_handles m) (sint handle);
        case p of
          None \<Rightarrow> Some False
        | Some p \<Rightarrow> do {
            hdr \<leftarrow> rd_header (mem_heap m) p;
            canary \<leftarrow> rd (mem_heap m) (CANARY_PTR p hdr);
            Some (canary = generate_canary hdr \<and> \<not> is_dirty hdr) } })"

definition padding_for :: "u16 \<Rightarrow> nat" where
  "padding_for sz = 4 - (HDR + unat sz + 1) mod 4"

definition alloc :: "u16 \<Rightarrow> u8 \<Rightarrow> mem_state \<Rightarrow> (i16 \<times> mem_state) option" where
  "alloc sz type m =
     (let padding_len = padding_for sz;
          sz = sz + word_of_nat padding_len;
          rt = mem_rt m;
          failed = Some (- 1, m\<lparr>mem_alloc_fails := mem_alloc_fails m + 1\<rparr>)
      in if unat (free_space rt) < unat sz + HDR + 1 then failed
         else (case find (\<lambda>i. mem_handles m ! i = None) [0..<MAX_MEM_HANDLES] of
           None \<Rightarrow> failed
         | Some i \<Rightarrow> do {
             let p = free_space_ptr m;
             handles \<leftarrow> wr (mem_handles m) i (Some p);
             let hdr = \<lparr>hdr_size = sz, hdr_handle = word_of_nat i, hdr_type = type,
                        hdr_padding_len = word_of_nat padding_len\<rparr>;
             heap \<leftarrow> wr_header (mem_heap m) p hdr;
             heap \<leftarrow> wr heap (CANARY_PTR p hdr) (generate_canary hdr);
             let used = used_space rt + word_of_nat (MEM_BLOCK_SIZE hdr);
             Some (swizzle (word_of_nat i),
               m\<lparr>mem_heap := heap, mem_handles := handles, free_space_ptr := p + MEM_BLOCK_SIZE hdr,
                 mem_rt := rt\<lparr>handles_used := handles_used rt + 1, data_space := data_space rt + sz,
                              free_space := free_space rt - word_of_nat (MEM_BLOCK_SIZE hdr),
                              used_space := used,
                              peak_usage := (if peak_usage rt < used then used else peak_usage rt)\<rparr>,
                 mem_allocs := mem_allocs m + 1\<rparr>) }))"

definition mem2_h_alloc :: "u16 \<Rightarrow> mem_state \<Rightarrow> (i16 \<times> mem_state) option" where
  "mem2_h_alloc sz = alloc sz MEM_TYPE_UNKNOWN"

definition mem2_h_alloc2 :: "u16 \<Rightarrow> u8 \<Rightarrow> mem_state \<Rightarrow> (i16 \<times> mem_state) option" where
  "mem2_h_alloc2 sz type = alloc sz type"

definition release_block :: "i16 \<Rightarrow> mem_state \<Rightarrow> mem_state option" where
  "release_block handle m = do {
     (p, hdr) \<leftarrow> header_of m handle;
     handles \<leftarrow> wr_at (mem_handles m) (sint handle) None;
     heap \<leftarrow> wr16 (mem_heap m) p (hdr_size (set_dirty hdr));
     let rt = mem_rt m;
     let sz = word_of_nat (MEM_BLOCK_SIZE (set_dirty hdr));
     Some (m\<lparr>mem_heap := heap, mem_handles := handles,
             mem_rt := rt\<lparr>handles_used := handles_used rt - 1, data_space := data_space rt - hdr_size hdr,
                          dirty_space := dirty_space rt + sz, used_space := used_space rt - sz\<rparr>\<rparr>) }"

text \<open>\<open>mem2_i8_realloc\<close>: the old bytes are copied with their old length, whatever the new one is.\<close>

definition mem2_i8_realloc :: "i16 \<Rightarrow> u16 \<Rightarrow> mem_state \<Rightarrow> (int \<times> mem_state) option" where
  "mem2_i8_realloc handle sz m = do {
     let handle = unswizzle handle;
     (p, hdr) \<leftarrow> header_of m handle;
     (new_handle, m) \<leftarrow> alloc sz (hdr_type hdr) m;
     if sint new_handle < 0 then Some (- 1, m)
     else do {
       let new_handle = unswizzle new_handle;
       (q, new_hdr) \<leftarrow> header_of m new_handle;
       heap \<leftarrow> copy_bytes (mem_heap m) (q + HDR) (p + HDR) (unat (hdr_size hdr));
       m \<leftarrow> release_block handle (m\<lparr>mem_heap := heap\<rparr>);
       heap \<leftarrow> wr16 (mem_heap m) (q + 2) handle;
       handles \<leftarrow> wr_at (mem_handles m) (sint handle) (Some q);
       handles \<leftarrow> wr_at handles (sint new_handle) None;
       Some (0, m\<lparr>mem_heap := heap, mem_handles := handles\<rparr>) } }"

definition mem2_h_get_handle :: "u8 \<Rightarrow> u8 \<Rightarrow> mem_state \<Rightarrow> i16 option" where
  "mem2_h_get_handle index type m =
     (if unat index \<ge> MAX_MEM_HANDLES then Some MEM_ERR_END_OF_LIST
      else do {
        p \<leftarrow> rd (mem_handles m) (unat index);
        case p of
          None \<Rightarrow> Some MEM_ERR_INVALID_HANDLE
        | Some p \<Rightarrow> do {
            hdr \<leftarrow> rd_header (mem_heap m) p;
            Some (if hdr_type hdr \<noteq> type then MEM_ERR_INCORRECT_TYPE else swizzle (ucast index)) } })"

definition mem2_v_free :: "i16 \<Rightarrow> mem_state \<Rightarrow> mem_state option" where
  "mem2_v_free handle m =
     (let handle = unswizzle handle
      in if sint handle \<ge> 0 then release_block handle m else Some m)"

definition mem2_u16_get_size :: "i16 \<Rightarrow> mem_state \<Rightarrow> u16 option" where
  "mem2_u16_get_size handle m = do {
     (p, hdr) \<leftarrow> header_of m (unswizzle handle);
     Some (hdr_size hdr - ucast (hdr_padding_len hdr)) }"

definition mem2_vp_get_ptr :: "i16 \<Rightarrow> mem_state \<Rightarrow> nat option" where
  "mem2_vp_get_ptr handle m = do {
     p \<leftarrow> rd_at (mem_handles m) (sint (unswizzle handle));
     p \<leftarrow> p;
     Some (p + HDR) }"

definition mem2_vp_get_ptr_fast :: "i16 \<Rightarrow> mem_state \<Rightarrow> nat option" where
  "mem2_vp_get_ptr_fast handle m = mem2_vp_get_ptr handle m"

text \<open>The result of \<open>mem2_u8_get_handles_used\<close> is a byte: 256 used handles are reported as none.\<close>

definition mem2_u8_get_handles_used :: "mem_state \<Rightarrow> u8" where
  "mem2_u8_get_handles_used m = ucast (handles_used (mem_rt m))"

definition mem2_v_get_rt_data :: "mem_state \<Rightarrow> mem_rt_data" where
  "mem2_v_get_rt_data m = mem_rt m"

definition mem2_u16_get_free :: "mem_state \<Rightarrow> u16" where
  "mem2_u16_get_free m = free_space (mem_rt m)"

definition mem2_u16_get_dirty :: "mem_state \<Rightarrow> u16" where
  "mem2_u16_get_dirty m = dirty_space (mem_rt m)"

section \<open>The collector\<close>

text \<open>The search for the first dirty block; the header is read before the bound is checked.\<close>

lemma rd_header_Some_length: "rd_header heap p = Some hdr \<Longrightarrow> p + HDR \<le> length heap"
  by (auto simp: rd_header_def opt_simps)

function skip_clean :: "u8 list \<Rightarrow> nat \<Rightarrow> nat \<Rightarrow> nat option" where
  "skip_clean heap free dirty =
     (case rd_header heap dirty of
        None \<Rightarrow> None
      | Some hdr \<Rightarrow>
          if \<not> is_dirty hdr \<and> dirty < free then skip_clean heap free (dirty + MEM_BLOCK_SIZE hdr)
          else Some dirty)"
  by pat_completeness auto
termination
  by (relation "measure (\<lambda>(heap, free, p). length heap - p)")
    (auto simp: MEM_BLOCK_SIZE_def dest: rd_header_Some_length)

text \<open>The search for the next clean block; \<^term>\<open>Some None\<close> when the free space is reached.\<close>

function skip_dirty :: "u8 list \<Rightarrow> nat \<Rightarrow> nat \<Rightarrow> nat option option" where
  "skip_dirty heap free clean =
     (case rd_header heap clean of
        None \<Rightarrow> None
      | Some hdr \<Rightarrow>
          if is_dirty hdr
          then (let clean = clean + MEM_BLOCK_SIZE hdr
                in if clean \<ge> free then Some None else skip_dirty heap free clean)
          else Some (Some clean))"
  by pat_completeness auto
termination
  by (relation "measure (\<lambda>(heap, free, p). length heap - p)")
    (auto simp: MEM_BLOCK_SIZE_def dest: rd_header_Some_length)

declare skip_clean.simps [simp del] skip_dirty.simps [simp del]

lemma skip_dirty_le:
  "skip_dirty heap free p = Some (Some q) \<Longrightarrow> p \<le> q"
proof (induction heap free p rule: skip_dirty.induct)
  case (1 heap free p)
  from "1.prems" show ?case
    by (subst (asm) skip_dirty.simps)
      (auto simp: Let_def split: option.splits if_splits dest!: "1.IH")
qed

text \<open>
  The loop that moves the clean blocks; the result is the heap, the handles and the end of the last
  block.
\<close>

function move_blocks ::
    "nat \<Rightarrow> u8 list \<Rightarrow> nat option list \<Rightarrow> nat \<Rightarrow> nat \<Rightarrow> (u8 list \<times> nat option list \<times> nat) option" where
  "move_blocks free heap handles clean dirty =
     (if clean < free
      then (case skip_dirty heap free clean of
          None \<Rightarrow> None
        | Some None \<Rightarrow> Some (heap, handles, dirty)
        | Some (Some clean) \<Rightarrow>
            (case rd_header heap clean of
               None \<Rightarrow> None
             | Some hdr \<Rightarrow>
                 (let next_block = clean + MEM_BLOCK_SIZE hdr
                  in case wr_at handles (sint (hdr_handle hdr)) (Some dirty) of
                       None \<Rightarrow> None
                     | Some handles \<Rightarrow>
                         (case copy_bytes heap dirty clean (MEM_BLOCK_SIZE hdr) of
                            None \<Rightarrow> None
                          | Some heap \<Rightarrow>
                              (case rd_header heap dirty of
                                 None \<Rightarrow> None
                               | Some moved \<Rightarrow>
                                   move_blocks free heap handles next_block (dirty + MEM_BLOCK_SIZE moved))))))
      else Some (heap, handles, dirty))"
  by pat_completeness auto
termination
proof (relation "measure (\<lambda>(free, heap, handles, clean, dirty). length heap - clean)", goal_cases)
  case (2 free heap handles clean dirty r c hdr nxt handles' heap' moved)
  have "length heap' = length heap" using 2 by (auto simp: opt_simps)
  moreover have "clean \<le> c" using 2 skip_dirty_le by blast
  moreover have "c < length heap" using 2 rd_header_Some_length by fastforce
  ultimately show ?case using 2 by (auto simp: MEM_BLOCK_SIZE_def)
qed simp

declare move_blocks.simps [simp del]

definition mem2_v_collect_garbage :: "mem_state \<Rightarrow> mem_state option" where
  "mem2_v_collect_garbage m =
     (if mem2_u16_get_dirty m < MEM_DEFRAG_THRESHOLD then Some m
      else do {
        let free = free_space_ptr m;
        dirty \<leftarrow> skip_clean (mem_heap m) free 0;
        let clean = (if 0 < dirty then dirty else 0);
        (heap, handles, dirty) \<leftarrow> move_blocks free (mem_heap m) (mem_handles m) clean dirty;
        Some (m\<lparr>mem_heap := heap, mem_handles := handles, free_space_ptr := dirty,
                mem_rt := (mem_rt m)\<lparr>free_space := free_space (mem_rt m) + dirty_space (mem_rt m),
                                     dirty_space := 0\<rparr>\<rparr>) })"

end
