(* ===== verification/Memory_Blocks.thy ===== *)
theory Memory_Blocks
  imports Memory
begin

text \<open>
  The pool seen as a list of blocks: how the bytes of the heap represent it, and what each operation
  of \<open>memory.c\<close> does to the list.
\<close>

section \<open>Blocks\<close>

record mem_block =
  blk_dirty :: bool
  blk_size :: u16
  blk_handle :: nat
  blk_type :: u8
  blk_pad :: u8
  blk_data :: "u8 list"

definition block_header :: "mem_block \<Rightarrow> mem_block_header" where
  "block_header b = \<lparr>hdr_size = (if blk_dirty b then blk_size b OR MEM_SIZE_DIRTY_MASK else blk_size b),
     hdr_handle = word_of_nat (blk_handle b), hdr_type = blk_type b, hdr_padding_len = blk_pad b\<rparr>"

definition block_bytes :: "mem_block \<Rightarrow> u8 list" where
  "block_bytes b = header_bytes (block_header b) @ blk_data b @ [CANARY_VALUE]"

definition block_len :: "mem_block \<Rightarrow> nat" where
  "block_len b = HDR + unat (blk_size b) + 1"

definition block_ok :: "mem_block \<Rightarrow> bool" where
  "block_ok b \<longleftrightarrow> unat (blk_size b) < 32768 \<and> length (blk_data b) = unat (blk_size b)
     \<and> blk_handle b < MAX_MEM_HANDLES \<and> 1 \<le> blk_pad b \<and> unat (blk_pad b) \<le> 4 \<and> unat (blk_pad b) \<le> unat (blk_size b)
     \<and> block_len b mod 4 = 0"

abbreviation layout :: "mem_block list \<Rightarrow> u8 list" where
  "layout bs \<equiv> concat (map block_bytes bs)"

abbreviation blocks_ok :: "mem_block list \<Rightarrow> bool" where
  "blocks_ok bs \<equiv> \<forall>b \<in> set bs. block_ok b"

abbreviation clean_blocks :: "mem_block list \<Rightarrow> mem_block list" where
  "clean_blocks bs \<equiv> filter (\<lambda>b. \<not> blk_dirty b) bs"

lemma length_header_bytes [simp]: "length (header_bytes hdr) = 6"
  by (simp add: header_bytes_def)

lemma length_block_bytes [simp]: "block_ok b \<Longrightarrow> length (block_bytes b) = block_len b"
  by (simp add: block_bytes_def block_ok_def block_len_def)

lemma block_len_pos: "7 \<le> block_len b"
  by (simp add: block_len_def)

lemma length_layout: "blocks_ok bs \<Longrightarrow> length (layout bs) = sum_list (map block_len bs)"
  by (induction bs) simp_all

lemma mask_bits:
  fixes s :: u16
  assumes "unat s < 32768"
  shows "s AND 0x8000 = 0" and "(s OR 0x8000) AND 0x8000 = 0x8000" and "NOT 0x8000 AND s = s"
    and "NOT 0x8000 AND (s OR 0x8000) = s"
proof -
  have top: "bit s k \<Longrightarrow> k < 15" for k
  proof -
    assume "bit s k"
    then have "bit (unat s) k" by (simp add: bit_unsigned_iff)
    moreover have "\<not> bit (unat s) k" if "15 \<le> k"
    proof -
      have "(2 :: nat) ^ 15 \<le> 2 ^ k" using that by (rule power_increasing) simp
      then show ?thesis using assms by (simp add: bit_iff_odd)
    qed
    ultimately show "k < 15" by (metis not_le)
  qed
  have mask: "bit (0x8000 :: u16) k \<longleftrightarrow> k = 15" for k
  proof -
    have "(0x8000 :: u16) = push_bit 15 1" by simp
    then show ?thesis by (simp only: bit_push_bit_iff bit_1_iff) auto
  qed
  have zero: "\<not> bit (0 :: u16) k" for k by simp
  show "s AND 0x8000 = 0" "(s OR 0x8000) AND 0x8000 = 0x8000" "NOT 0x8000 AND s = s"
    "NOT 0x8000 AND (s OR 0x8000) = s"
    by (rule bit_word_eqI; use top in \<open>auto simp only: bit_and_iff bit_or_iff bit_not_iff mask zero
        possible_bit_word len_num1 len_num0\<close>)+
qed

lemmas mask_simps = mask_bits mask_bits(3,4) [simplified]

lemma block_header_facts:
  assumes "block_ok b"
  shows "MEM_BLOCK_SIZE (block_header b) = block_len b" and "is_dirty (block_header b) = blk_dirty b"
    and "hdr_type (block_header b) = blk_type b" and "hdr_padding_len (block_header b) = blk_pad b"
    and "sint (hdr_handle (block_header b)) = int (blk_handle b)"
    and "\<not> blk_dirty b \<Longrightarrow> hdr_size (block_header b) = blk_size b"
proof -
  have "sint (word_of_nat (blk_handle b) :: i16) = int (blk_handle b)"
    using sint_word_of_int16 [of "int (blk_handle b)"] assms by (simp add: block_ok_def)
  then show "MEM_BLOCK_SIZE (block_header b) = block_len b" "is_dirty (block_header b) = blk_dirty b"
    "hdr_type (block_header b) = blk_type b" "hdr_padding_len (block_header b) = blk_pad b"
    "sint (hdr_handle (block_header b)) = int (blk_handle b)"
    "\<not> blk_dirty b \<Longrightarrow> hdr_size (block_header b) = blk_size b"
    using assms
    by (simp_all add: MEM_BLOCK_SIZE_def is_dirty_def block_header_def block_len_def block_ok_def mask_simps)
qed

lemma rd_header_bytes: "rd_header (pre @ header_bytes hdr @ post) (length pre) = Some hdr"
proof -
  have s: "rd16 (pre @ header_bytes hdr @ post) (length pre) = Some (hdr_size hdr)"
    using rd16_bytes [of pre "hdr_size hdr"] by (simp add: header_bytes_def)
  have h: "rd16 (pre @ header_bytes hdr @ post) (length pre + 2) = Some (hdr_handle hdr)"
    using rd16_bytes [of "pre @ bytes16 (hdr_size hdr)" "hdr_handle hdr"] by (simp add: header_bytes_def)
  have t: "rd (pre @ header_bytes hdr @ post) (length pre + 4) = Some (hdr_type hdr)"
    "rd (pre @ header_bytes hdr @ post) (length pre + 5) = Some (hdr_padding_len hdr)"
    by (simp_all add: rd_def header_bytes_def bytes16_def nth_append)
  show ?thesis unfolding rd_header_def s h t by simp
qed

lemma rd_header_block: "rd_header (pre @ block_bytes b @ post) (length pre) = Some (block_header b)"
  using rd_header_bytes [of pre "block_header b"] by (simp add: block_bytes_def)

section \<open>The collector on a list of blocks\<close>

lemma skip_clean_layout:
  assumes "blocks_ok bs" and "\<exists>b \<in> set bs. blk_dirty b"
  shows "skip_clean (pre @ layout bs @ post) (length pre + length (layout bs)) (length pre)
    = Some (length pre + length (layout (takeWhile (\<lambda>b. \<not> blk_dirty b) bs)))"
  using assms
proof (induction bs arbitrary: pre)
  case (Cons b bs)
  have hdr: "rd_header (pre @ block_bytes b @ layout bs @ post) (length pre) = Some (block_header b)"
    using rd_header_block [of pre b "layout bs @ post"] by simp
  have b: "block_ok b" using Cons.prems by simp
  show ?case
  proof (cases "blk_dirty b")
    case True
    then show ?thesis by (subst skip_clean.simps) (simp add: hdr block_header_facts [OF b])
  next
    case False
    then have "skip_clean ((pre @ block_bytes b) @ layout bs @ post)
        (length (pre @ block_bytes b) + length (layout bs)) (length (pre @ block_bytes b))
        = Some (length (pre @ block_bytes b) + length (layout (takeWhile (\<lambda>b. \<not> blk_dirty b) bs)))"
      using Cons by (intro Cons.IH) simp_all
    then show ?thesis
      using False b block_len_pos [of b]
      by (subst skip_clean.simps) (simp add: hdr block_header_facts [OF b] add.assoc)
  qed
qed simp

lemma skip_dirty_layout:
  assumes "blocks_ok bs" and "bs \<noteq> []"
  shows "skip_dirty (pre @ layout bs @ post) (length pre + length (layout bs)) (length pre)
    = Some (if \<forall>b \<in> set bs. blk_dirty b then None
            else Some (length pre + length (layout (takeWhile blk_dirty bs))))"
  using assms
proof (induction bs arbitrary: pre)
  case (Cons b bs)
  have hdr: "rd_header (pre @ block_bytes b @ layout bs @ post) (length pre) = Some (block_header b)"
    using rd_header_block [of pre b "layout bs @ post"] by simp
  have b: "block_ok b" using Cons.prems by simp
  show ?case
  proof (cases "blk_dirty b \<and> bs \<noteq> []")
    case False
    then show ?thesis
      using b by (subst skip_dirty.simps) (auto simp: hdr block_header_facts [OF b] Let_def)
  next
    case True
    have pos: "0 < length (layout bs)"
      using True Cons.prems(1) block_len_pos by (cases bs) (auto simp: block_len_def)
    have "skip_dirty ((pre @ block_bytes b) @ layout bs @ post)
        (length (pre @ block_bytes b) + length (layout bs)) (length (pre @ block_bytes b))
        = Some (if \<forall>b \<in> set bs. blk_dirty b then None
            else Some (length (pre @ block_bytes b) + length (layout (takeWhile blk_dirty bs))))"
      using True Cons by (intro Cons.IH) simp_all
    then show ?thesis
      using True b pos
      by (subst skip_dirty.simps) (simp add: hdr block_header_facts [OF b] add.assoc Let_def)
  qed
qed simp

section \<open>Where the blocks lie\<close>

fun place :: "nat \<Rightarrow> mem_block list \<Rightarrow> nat \<Rightarrow> nat option" where
  "place off [] i = None"
| "place off (b # bs) i =
     (if \<not> blk_dirty b \<and> blk_handle b = i then Some off else place (off + block_len b) bs i)"

lemma place_append:
  "place off (xs @ ys) i = (case place off xs i of
     Some p \<Rightarrow> Some p | None \<Rightarrow> place (off + sum_list (map block_len xs)) ys i)"
  by (induction xs arbitrary: off) (simp_all add: add.assoc split: option.split)

lemma place_None: "place off bs i = None \<longleftrightarrow> (\<forall>b \<in> set bs. \<not> blk_dirty b \<longrightarrow> blk_handle b \<noteq> i)"
  by (induction bs arbitrary: off) auto

lemma place_dirty: "\<forall>b \<in> set ds. blk_dirty b \<Longrightarrow> place off (ds @ bs) i = place (off + sum_list (map block_len ds)) bs i"
  by (induction ds arbitrary: off) (simp_all add: add.assoc)

text \<open>A handle names one block: its block splits the list.\<close>

lemma place_Some:
  assumes "place off bs i = Some p"
  obtains xs b ys where "bs = xs @ b # ys" and "\<not> blk_dirty b" and "blk_handle b = i"
    and "p = off + sum_list (map block_len xs)" and "place off xs i = None"
  using assms
proof (induction bs arbitrary: off thesis)
  case (Cons b bs)
  show ?case
  proof (cases "\<not> blk_dirty b \<and> blk_handle b = i")
    case True
    then show ?thesis using Cons.prems(2) by (intro Cons.prems(1) [of "[]" b bs]) auto
  next
    case False
    then have "place (off + block_len b) bs i = Some p" using Cons.prems(2) by auto
    then show ?thesis
    proof (rule Cons.IH [rotated])
      fix xs c ys
      assume "bs = xs @ c # ys" "\<not> blk_dirty c" "blk_handle c = i"
        "p = off + block_len b + sum_list (map block_len xs)" "place (off + block_len b) xs i = None"
      then show ?thesis using False by (intro Cons.prems(1) [of "b # xs" c ys]) auto
    qed
  qed
qed simp

text \<open>The state of the collector: the handles of moved blocks, and of those still to come.\<close>

definition moving :: "mem_block list \<Rightarrow> nat \<Rightarrow> mem_block list \<Rightarrow> nat option list" where
  "moving moved clean todo =
     map (\<lambda>i. case place 0 moved i of Some p \<Rightarrow> Some p | None \<Rightarrow> place clean todo i) [0..<MAX_MEM_HANDLES]"

definition handles_distinct :: "mem_block list \<Rightarrow> bool" where
  "handles_distinct bs \<longleftrightarrow> distinct (map blk_handle (clean_blocks bs))"

lemma handles_distinct_split:
  assumes "handles_distinct (xs @ b # ys)" and "\<not> blk_dirty b"
  shows "c \<in> set xs \<Longrightarrow> \<not> blk_dirty c \<Longrightarrow> blk_handle c \<noteq> blk_handle b"
    and "c \<in> set ys \<Longrightarrow> \<not> blk_dirty c \<Longrightarrow> blk_handle c \<noteq> blk_handle b"
proof -
  have "blk_handle b \<notin> blk_handle ` set (clean_blocks xs)" "blk_handle b \<notin> blk_handle ` set (clean_blocks ys)"
    using assms by (auto simp: handles_distinct_def)
  then show "c \<in> set xs \<Longrightarrow> \<not> blk_dirty c \<Longrightarrow> blk_handle c \<noteq> blk_handle b"
    "c \<in> set ys \<Longrightarrow> \<not> blk_dirty c \<Longrightarrow> blk_handle c \<noteq> blk_handle b"
    by (force simp: image_iff)+
qed

lemma moving_step:
  assumes "\<forall>b \<in> set ds. blk_dirty b" and "\<not> blk_dirty b" and "blk_handle b < MAX_MEM_HANDLES"
    and "handles_distinct (moved @ b # todo)"
  shows "(moving moved clean (ds @ b # todo)) [blk_handle b := Some (sum_list (map block_len moved))]
    = moving (moved @ [b]) (clean + sum_list (map block_len ds) + block_len b) todo"
proof (rule nth_equalityI)
  fix i
  assume "i < length ((moving moved clean (ds @ b # todo)) [blk_handle b := Some (sum_list (map block_len moved))])"
  then have i: "i < MAX_MEM_HANDLES" by (simp add: moving_def)
  have "place 0 moved (blk_handle b) = None"
    unfolding place_None using handles_distinct_split(1) [OF assms(4,2)] by blast
  then show "((moving moved clean (ds @ b # todo)) [blk_handle b := Some (sum_list (map block_len moved))]) ! i
    = moving (moved @ [b]) (clean + sum_list (map block_len ds) + block_len b) todo ! i"
    using i assms(2,3) place_dirty [OF assms(1), of clean "b # todo" i]
    by (auto simp: moving_def nth_list_update place_append [of 0 moved "[b]"] split: option.split)
qed (simp add: moving_def)

lemma move_step_bytes:
  assumes "block_ok b" and "length gap = length gap0 + length (layout ds)"
  shows "\<exists>gap'. copy_bytes (layout moved @ gap0 @ layout ds @ block_bytes b @ post) (length (layout moved))
      (length (layout moved) + length gap) (block_len b) = Some (layout (moved @ [b]) @ gap' @ post)
    \<and> length gap' = length gap"
proof -
  let ?x = "gap0 @ layout ds @ block_bytes b"
  have x: "length ?x = length gap + block_len b" using assms by simp
  have heap: "layout moved @ gap0 @ layout ds @ block_bytes b @ post
      = (layout moved @ gap0 @ layout ds) @ block_bytes b @ post" by simp
  have "length (layout moved @ gap0 @ layout ds) = length (layout moved) + length gap" using assms(2) by simp
  then have src: "take (block_len b) (drop (length (layout moved) + length gap)
        (layout moved @ gap0 @ layout ds @ block_bytes b @ post)) = block_bytes b"
    unfolding heap using assms(1) by (metis append_eq_conv_conj length_block_bytes)
  have "put_bytes (layout moved @ ?x @ post) (length (layout moved)) (block_bytes b)
      = layout moved @ block_bytes b @ drop (block_len b) ?x @ post"
    using x assms(1) by (simp add: put_bytes_def)
  then have "copy_bytes (layout moved @ gap0 @ layout ds @ block_bytes b @ post) (length (layout moved))
      (length (layout moved) + length gap) (block_len b)
      = Some (layout (moved @ [b]) @ drop (block_len b) ?x @ post)"
    using src x assms(1) by (simp add: copy_bytes_def)
  then show ?thesis using x by (intro exI [of _ "drop (block_len b) ?x"]) simp
qed

text \<open>The handle table of a list of blocks.\<close>

definition handle_table :: "mem_block list \<Rightarrow> nat option list" where
  "handle_table bs = map (place 0 bs) [0..<MAX_MEM_HANDLES]"

lemma moving_dirty: "\<forall>b \<in> set ds. blk_dirty b \<Longrightarrow> moving moved clean ds = handle_table moved"
  using place_dirty [of ds clean "[]"] by (auto simp: moving_def handle_table_def split: option.split)

lemma moving_all: "moving [] 0 bs = handle_table bs"
  by (simp add: moving_def handle_table_def)

lemma moving_start:
  "moving xs (sum_list (map block_len xs)) ys = handle_table (xs @ ys)"
  by (simp add: moving_def handle_table_def place_append split: option.split)

lemma move_blocks_step:
  assumes "clean < free" and "skip_dirty heap free clean = Some (Some p)" and "rd_header heap p = Some hdr"
    and "wr_at hs (sint (hdr_handle hdr)) (Some dirty) = Some hs'"
    and "copy_bytes heap dirty p (MEM_BLOCK_SIZE hdr) = Some heap'" and "rd_header heap' dirty = Some moved"
  shows "move_blocks free heap hs clean dirty
    = move_blocks free heap' hs' (p + MEM_BLOCK_SIZE hdr) (dirty + MEM_BLOCK_SIZE moved)"
  by (subst move_blocks.simps) (simp add: assms)

lemma move_blocks_layout:
  assumes "blocks_ok moved" and "blocks_ok todo" and "handles_distinct (moved @ todo)"
    and "c = length (layout moved) + length gap"
  shows "\<exists>post'. move_blocks (c + length (layout todo)) (layout moved @ gap @ layout todo @ post)
      (moving moved c todo) c (length (layout moved))
    = Some (layout (moved @ clean_blocks todo) @ post', handle_table (moved @ clean_blocks todo),
        length (layout (moved @ clean_blocks todo)))"
  using assms
proof (induction "length todo" arbitrary: moved todo gap c rule: less_induct)
  case less
  let ?heap = "layout moved @ gap @ layout todo @ post"
  have skip: "todo \<noteq> [] \<Longrightarrow> skip_dirty ?heap (c + length (layout todo)) c
      = Some (if \<forall>b \<in> set todo. blk_dirty b then None else Some (c + length (layout (takeWhile blk_dirty todo))))"
    using skip_dirty_layout [OF less.prems(2), of "layout moved @ gap" post] less.prems(4) by simp
  have end_case: ?case if "todo = [] \<or> (\<forall>b \<in> set todo. blk_dirty b)"
  proof -
    have clean: "clean_blocks todo = []" using that by (auto simp: filter_empty_conv)
    have tab: "moving moved c todo = handle_table moved" using that by (intro moving_dirty) auto
    show ?thesis
      unfolding clean tab using that skip
      by (subst move_blocks.simps) (cases "todo = []"; simp)
  qed
  show ?case
  proof (cases "todo = [] \<or> (\<forall>b \<in> set todo. blk_dirty b)")
    case False
    define ds where "ds = takeWhile blk_dirty todo"
    obtain b rest where "dropWhile blk_dirty todo = b # rest"
      using False by (cases "dropWhile blk_dirty todo") (auto simp: dropWhile_eq_Nil_conv)
    then have todo: "todo = ds @ b # rest" and b: "\<not> blk_dirty b" and ds: "\<forall>b \<in> set ds. blk_dirty b"
      using takeWhile_dropWhile_id [of blk_dirty todo] hd_dropWhile [of blk_dirty todo]
      by (auto simp: ds_def dest: set_takeWhileD)
    have ok: "block_ok b" "blocks_ok ds" "blocks_ok rest" "blk_handle b < MAX_MEM_HANDLES"
      using less.prems(2) by (auto simp: todo block_ok_def)
    let ?clean = "c + length (layout ds)"
    have skipped: "skip_dirty ?heap (c + length (layout todo)) c = Some (Some ?clean)"
      using skip False by (simp add: ds_def)
    have "rd_header ((layout moved @ gap @ layout ds) @ block_bytes b @ layout rest @ post)
        (length (layout moved @ gap @ layout ds)) = Some (block_header b)" by (rule rd_header_block)
    then have hdr: "rd_header ?heap ?clean = Some (block_header b)"
      using less.prems(4) by (simp add: todo add.assoc)
    obtain gap' where copied: "copy_bytes ?heap (length (layout moved)) ?clean (block_len b)
        = Some (layout (moved @ [b]) @ gap' @ layout rest @ post)" and gap': "length gap' = length (gap @ layout ds)"
      using move_step_bytes [OF ok(1), of "gap @ layout ds" gap ds moved "layout rest @ post"] less.prems(4)
      by (auto simp: todo add.assoc)
    have moved_hdr: "rd_header (layout (moved @ [b]) @ gap' @ layout rest @ post) (length (layout moved)) = Some (block_header b)"
      using rd_header_block [of "layout moved" b "gap' @ layout rest @ post"] by simp
    have distinct: "handles_distinct (moved @ b # rest)"
      using less.prems(3) ds by (auto simp: todo handles_distinct_def)
    have handles: "wr_at (moving moved c todo) (sint (hdr_handle (block_header b))) (Some (length (layout moved)))
        = Some (moving (moved @ [b]) (?clean + block_len b) rest)"
      using moving_step [OF ds b ok(4) distinct, of c] ok less.prems(1)
      by (simp add: wr_at_def block_header_facts todo length_layout) (simp add: moving_def)
    let ?c = "?clean + block_len b"
    obtain post' where rec: "move_blocks (?c + length (layout rest))
        (layout (moved @ [b]) @ gap' @ layout rest @ post) (moving (moved @ [b]) ?c rest) ?c (length (layout (moved @ [b])))
      = Some (layout ((moved @ [b]) @ clean_blocks rest) @ post', handle_table ((moved @ [b]) @ clean_blocks rest),
          length (layout ((moved @ [b]) @ clean_blocks rest)))"
      using less.hyps [of rest "moved @ [b]" ?c gap'] less.prems distinct ok gap' by (auto simp: todo)
    have clean: "moved @ clean_blocks todo = (moved @ [b]) @ clean_blocks rest"
      using b ds by (simp add: todo)
    have bound: "c + length (layout todo) = ?c + length (layout rest)" "c < c + length (layout todo)"
      using ok(1) block_len_pos [of b] by (simp_all add: todo)
    have len: "length (layout moved) + block_len b = length (layout (moved @ [b]))" using ok(1) by simp
    have "move_blocks (c + length (layout todo)) ?heap (moving moved c todo) c (length (layout moved))
        = move_blocks (?c + length (layout rest)) (layout (moved @ [b]) @ gap' @ layout rest @ post)
            (moving (moved @ [b]) ?c rest) ?c (length (layout (moved @ [b])))"
      using move_blocks_step [OF bound(2) skipped hdr handles _ moved_hdr] copied
      unfolding block_header_facts(1) [OF ok(1)] bound(1) len by blast
    then show ?thesis unfolding clean rec by blast
  qed (rule end_case)
qed

section \<open>The pool represents a list of blocks\<close>

abbreviation sizes :: "mem_block list \<Rightarrow> nat" where
  "sizes bs \<equiv> sum_list (map block_len bs)"

definition mem_rep :: "mem_block list \<Rightarrow> mem_state \<Rightarrow> bool" where
  "mem_rep bs m \<longleftrightarrow> blocks_ok bs \<and> handles_distinct bs
     \<and> take (length (layout bs)) (mem_heap m) = layout bs
     \<and> length (mem_heap m) = length (layout bs) + unat (free_space (mem_rt m))
     \<and> length (mem_heap m) < 32768 \<and> unat (heap_size (mem_rt m)) = length (mem_heap m)
     \<and> free_space_ptr m = length (layout bs) \<and> mem_handles m = handle_table bs
     \<and> unat (handles_used (mem_rt m)) = length (clean_blocks bs)
     \<and> unat (used_space (mem_rt m)) = sizes (clean_blocks bs)
     \<and> unat (dirty_space (mem_rt m)) = sizes (filter blk_dirty bs)
     \<and> unat (data_space (mem_rt m)) = sum_list (map (\<lambda>b. unat (blk_size b)) (clean_blocks bs))"

definition mem_inv :: "mem_state \<Rightarrow> bool" where
  "mem_inv m \<longleftrightarrow> (\<exists>bs. mem_rep bs m)"

text \<open>The object behind a handle: its type and the bytes it was allocated for.\<close>

definition mem_obj :: "mem_state \<Rightarrow> i16 \<Rightarrow> (u8 \<times> u8 list) option" where
  "mem_obj m handle =
     (case header_of m (unswizzle handle) of
        None \<Rightarrow> None
      | Some (p, hdr) \<Rightarrow>
          Some (hdr_type hdr, take (unat (hdr_size hdr) - unat (hdr_padding_len hdr)) (drop (p + HDR) (mem_heap m))))"

definition blk_obj :: "mem_block \<Rightarrow> u8 \<times> u8 list" where
  "blk_obj b = (blk_type b, take (unat (blk_size b) - unat (blk_pad b)) (blk_data b))"

definition find_obj :: "mem_block list \<Rightarrow> nat \<Rightarrow> (u8 \<times> u8 list) option" where
  "find_obj bs i = map_option blk_obj (find (\<lambda>b. \<not> blk_dirty b \<and> blk_handle b = i) bs)"

lemma mem_rep_heap:
  assumes "mem_rep bs m"
  obtains rest where "mem_heap m = layout bs @ rest" and "length rest = unat (free_space (mem_rt m))"
proof -
  have "mem_heap m = layout bs @ drop (length (layout bs)) (mem_heap m)"
    using assms append_take_drop_id [of "length (layout bs)" "mem_heap m"] by (simp add: mem_rep_def)
  then show thesis by (rule that) (use assms in \<open>simp add: mem_rep_def\<close>)
qed

lemma place_split:
  assumes "handles_distinct (xs @ b # ys)" and "\<not> blk_dirty b"
  shows "place off (xs @ b # ys) (blk_handle b) = Some (off + sizes xs)"
proof -
  have "place off xs (blk_handle b) = None"
    unfolding place_None using handles_distinct_split(1) [OF assms] by blast
  then show ?thesis using assms(2) by (simp add: place_append)
qed

lemma header_of_split:
  assumes "mem_rep (xs @ b # ys) m" and "\<not> blk_dirty b" and "sint k = int (blk_handle b)"
  shows "header_of m k = Some (length (layout xs), block_header b)"
proof -
  have ok: "blocks_ok (xs @ b # ys)" "handles_distinct (xs @ b # ys)" "mem_handles m = handle_table (xs @ b # ys)"
    using assms(1) by (simp_all add: mem_rep_def)
  obtain rest where "mem_heap m = layout (xs @ b # ys) @ rest" by (rule mem_rep_heap [OF assms(1)])
  then have hdr: "rd_header (mem_heap m) (length (layout xs)) = Some (block_header b)"
    using rd_header_block [of "layout xs" b "layout ys @ rest"] by simp
  have "blk_handle b < MAX_MEM_HANDLES" using ok(1) by (simp add: block_ok_def)
  then have "rd_at (mem_handles m) (sint k) = Some (Some (length (layout xs)))"
    using place_split [OF ok(2) assms(2), of 0] ok(1)
    by (simp add: rd_at_def ok(3) handle_table_def assms(3) length_layout)
  then show ?thesis by (simp add: header_of_def hdr)
qed

lemma header_of_none:
  assumes "mem_rep bs m" and "sint k = int i" and "place 0 bs i = None"
  shows "header_of m k = None"
proof (cases "i < MAX_MEM_HANDLES")
  case True
  then show ?thesis
    using assms by (simp add: header_of_def mem_rep_def rd_at_def handle_table_def)
next
  case False
  then show ?thesis
    using assms by (simp add: header_of_def mem_rep_def rd_at_def handle_table_def rd_def)
qed

lemma find_obj_split:
  assumes "handles_distinct (xs @ b # ys)" and "\<not> blk_dirty b"
  shows "find_obj (xs @ b # ys) (blk_handle b) = Some (blk_obj b)"
proof -
  have "find (\<lambda>c. \<not> blk_dirty c \<and> blk_handle c = blk_handle b) xs = None"
    using handles_distinct_split(1) [OF assms] by (auto simp: find_None_iff)
  moreover have "find P (us @ vs) = (case find P us of None \<Rightarrow> find P vs | Some u \<Rightarrow> Some u)" for P us and vs :: "mem_block list"
    by (induction us) simp_all
  ultimately show ?thesis using assms(2) by (simp add: find_obj_def)
qed

lemma find_obj_None: "find_obj bs i = None \<longleftrightarrow> place off bs i = None"
  by (auto simp: find_obj_def find_None_iff place_None)

lemma mem_obj_find:
  assumes "mem_rep bs m"
  shows "mem_obj m h = (if 0 \<le> sint (unswizzle h) then find_obj bs (nat (sint (unswizzle h))) else None)"
proof (cases "0 \<le> sint (unswizzle h)")
  case False
  then show ?thesis by (simp add: mem_obj_def header_of_def rd_at_def)
next
  case True
  let ?i = "nat (sint (unswizzle h))"
  have k: "sint (unswizzle h) = int ?i" using True by simp
  show ?thesis
  proof (cases "place 0 bs ?i")
    case None
    then show ?thesis
      using header_of_none [OF assms k None] True find_obj_None [of bs ?i 0] by (simp add: mem_obj_def)
  next
    case (Some p)
    then obtain xs b ys where bs: "bs = xs @ b # ys" and b: "\<not> blk_dirty b" "blk_handle b = ?i"
      by (rule place_Some)
    have rep: "mem_rep (xs @ b # ys) m" using assms bs by simp
    obtain rest where heap: "mem_heap m = layout (xs @ b # ys) @ rest" by (rule mem_rep_heap [OF rep])
    have ok: "block_ok b" "handles_distinct (xs @ b # ys)" using rep by (simp_all add: mem_rep_def)
    have "drop (length (layout xs) + HDR) (mem_heap m) = blk_data b @ [CANARY_VALUE] @ layout ys @ rest"
      by (simp add: heap block_bytes_def)
    then have "mem_obj m h = Some (blk_obj b)"
      using header_of_split [OF rep b(1), of "unswizzle h"] b ok(1) k
      by (simp add: mem_obj_def blk_obj_def block_header_facts block_ok_def)
    then show ?thesis using find_obj_split [OF ok(2) b(1)] b(2) True by (simp add: bs)
  qed
qed

end
