(* ===== verification/Memory_Pool.thy ===== *)
theory Memory_Pool
  imports Memory_Blocks
begin

text \<open>
  What the operations of the memory pool do to the objects behind the handles: allocation, release,
  reallocation, writing through a pointer, and collection.
\<close>

section \<open>Allocation\<close>

lemma padding_bounds: "1 \<le> padding_for s" "padding_for s \<le> 4" "(HDR + unat s + 1 + padding_for s) mod 4 = 0"
proof -
  have r: "(HDR + unat s + 1) mod 4 < 4" by simp
  then show "1 \<le> padding_for s" "padding_for s \<le> 4" by (simp_all add: padding_for_def)
  have "(n + (4 - n mod 4)) mod 4 = 0" for n :: nat by presburger
  then show "(HDR + unat s + 1 + padding_for s) mod 4 = 0" by (simp only: padding_for_def)
qed

lemma sizes_le_layout:
  "blocks_ok bs \<Longrightarrow> sizes (clean_blocks bs) + sizes (filter blk_dirty bs) = length (layout bs)"
  by (induction bs) auto

lemma count_le_sizes: "7 * length bs \<le> sizes bs"
proof (induction bs)
  case (Cons b bs)
  then show ?case using block_len_pos [of b] by simp
qed simp

lemma data_le_sizes: "sum_list (map (\<lambda>b. unat (blk_size b)) bs) \<le> sizes bs"
  by (induction bs) (simp_all add: block_len_def add_mono)

lemma mem_rep_bounds:
  assumes "mem_rep bs m"
  shows "sizes (clean_blocks bs) + sizes (filter blk_dirty bs) = length (layout bs)"
    and "length (layout bs) + unat (free_space (mem_rt m)) < 32768"
    and "7 * length (clean_blocks bs) \<le> sizes (clean_blocks bs)"
    and "sum_list (map (\<lambda>b. unat (blk_size b)) (clean_blocks bs)) \<le> sizes (clean_blocks bs)"
  using assms sizes_le_layout [of bs] count_le_sizes data_le_sizes by (simp_all add: mem_rep_def)

lemma unat_add16: "unat a + unat b < 65536 \<Longrightarrow> unat (a + b) = unat a + unat b" for a b :: u16
  by (simp add: unat_word_ariths(1))

lemma unat_diff16: "unat b \<le> unat a \<Longrightarrow> unat (a - b) = unat a - unat b" for a b :: u16
  by (simp add: unat_sub_if_size)

lemma append_block_bytes:
  assumes "block_len b \<le> length rest" and "blk_data b = take (unat (blk_size b)) (drop HDR rest)"
  shows "(put_bytes (pre @ rest) (length pre) (header_bytes (block_header b)))
      [length pre + block_len b - 1 := CANARY_VALUE]
    = pre @ block_bytes b @ drop (block_len b) rest"
proof -
  let ?n = "unat (blk_size b)"
  have len: "block_len b = HDR + ?n + 1" by (simp add: block_len_def)
  have split: "drop HDR rest = take ?n (drop HDR rest) @ [rest ! (HDR + ?n)] @ drop (block_len b) rest"
  proof -
    have "drop HDR rest = take ?n (drop HDR rest) @ drop (HDR + ?n) rest"
      by (metis append_take_drop_id drop_drop add.commute)
    moreover have "drop (HDR + ?n) rest = rest ! (HDR + ?n) # drop (block_len b) rest"
      using assms(1) Cons_nth_drop_Suc [of "HDR + ?n" rest] by (simp add: len)
    ultimately show ?thesis by simp
  qed
  have put: "put_bytes (pre @ rest) (length pre) (header_bytes (block_header b))
      = (pre @ header_bytes (block_header b) @ blk_data b) @ rest ! (HDR + ?n) # drop (block_len b) rest"
    using assms split by (simp add: put_bytes_def)
  have at: "length pre + block_len b - 1 = length (pre @ header_bytes (block_header b) @ blk_data b)"
    using assms by (simp add: len)
  show ?thesis unfolding put at list_update_length by (simp add: block_bytes_def)
qed

lemma handle_table_snoc:
  assumes "place 0 bs (blk_handle b) = None" and "\<not> blk_dirty b"
  shows "(handle_table bs) [blk_handle b := Some (sizes bs)] = handle_table (bs @ [b])"
  using assms by (intro nth_equalityI)
    (auto simp: handle_table_def place_append nth_list_update split: option.split)

text \<open>The block that an allocation appends.\<close>

definition new_block :: "u16 \<Rightarrow> u8 \<Rightarrow> nat \<Rightarrow> u8 list \<Rightarrow> mem_block" where
  "new_block s t i bytes = \<lparr>blk_dirty = False, blk_size = s + word_of_nat (padding_for s), blk_handle = i, blk_type = t,
     blk_pad = word_of_nat (padding_for s), blk_data = bytes\<rparr>"

definition alloc_fails :: "u16 \<Rightarrow> mem_state \<Rightarrow> bool" where
  "alloc_fails s m \<longleftrightarrow> unat (free_space (mem_rt m)) < unat s + padding_for s + HDR + 1
     \<or> (\<forall>i < MAX_MEM_HANDLES. mem_handles m ! i \<noteq> None)"

lemma unat_padded:
  assumes "unat s < 65532"
  shows "unat (s + word_of_nat (padding_for s)) = unat s + padding_for s"
  using assms padding_bounds(2) [of s] unat_add16 [of s "word_of_nat (padding_for s)"]
  by (simp add: unat_of_nat16)

lemma alloc_failed:
  assumes "unat s < 65532" and "alloc_fails s m"
  shows "alloc s t m = Some (- 1, m\<lparr>mem_alloc_fails := mem_alloc_fails m + 1\<rparr>)"
proof -
  have "find (\<lambda>i. mem_handles m ! i = None) [0..<MAX_MEM_HANDLES] = None"
    if "\<forall>i < MAX_MEM_HANDLES. mem_handles m ! i \<noteq> None"
    using that by (auto simp: find_None_iff)
  then show ?thesis
    using assms by (auto simp: alloc_def Let_def alloc_fails_def unat_padded)
qed

lemma alloc_done:
  assumes hdr: "hdr = \<lparr>hdr_size = s + word_of_nat (padding_for s), hdr_handle = word_of_nat i, hdr_type = t,
      hdr_padding_len = word_of_nat (padding_for s)\<rparr>"
    and "unat (s + word_of_nat (padding_for s)) + HDR + 1 \<le> unat (free_space (mem_rt m))"
    and "find (\<lambda>i. mem_handles m ! i = None) [0..<MAX_MEM_HANDLES] = Some i"
    and "wr (mem_handles m) i (Some (free_space_ptr m)) = Some hs"
    and "wr_header (mem_heap m) (free_space_ptr m) hdr = Some h1"
    and "wr h1 (CANARY_PTR (free_space_ptr m) hdr) CANARY_VALUE = Some h2"
    and "MEM_BLOCK_SIZE hdr = n"
  shows "alloc s t m = Some (word_of_nat (i + 1), m\<lparr>mem_heap := h2, mem_handles := hs,
     free_space_ptr := free_space_ptr m + n,
     mem_rt := (mem_rt m)\<lparr>handles_used := handles_used (mem_rt m) + 1,
       data_space := data_space (mem_rt m) + (s + word_of_nat (padding_for s)),
       free_space := free_space (mem_rt m) - word_of_nat n,
       used_space := used_space (mem_rt m) + word_of_nat n,
       peak_usage := (if peak_usage (mem_rt m) < used_space (mem_rt m) + word_of_nat n
                      then used_space (mem_rt m) + word_of_nat n else peak_usage (mem_rt m))\<rparr>,
     mem_allocs := mem_allocs m + 1\<rparr>)"
  using assms(2-7) by (simp add: alloc_def Let_def hdr [symmetric] generate_canary_def swizzle_def add.commute)

lemma alloc_rep:
  assumes rep: "mem_rep bs m" and small: "unat s < 65532" and ok: "\<not> alloc_fails s m"
  obtains i bytes m' where "alloc s t m = Some (word_of_nat (i + 1), m')" and "i < MAX_MEM_HANDLES"
    and "place 0 bs i = None" and "\<forall>j < i. place 0 bs j \<noteq> None"
    and "mem_rep (bs @ [new_block s t i bytes]) m'" and "mem_alloc_fails m' = mem_alloc_fails m"
    and "unat (free_space (mem_rt m')) + block_len (new_block s t i bytes) = unat (free_space (mem_rt m))"
proof -
  obtain rest where heap: "mem_heap m = layout bs @ rest" and rest: "length rest = unat (free_space (mem_rt m))"
    by (rule mem_rep_heap [OF rep])
  have tab: "mem_handles m = handle_table bs" using rep by (simp add: mem_rep_def)
  let ?free = "\<lambda>i. i < MAX_MEM_HANDLES \<and> place 0 bs i = None"
  define i where "i = (LEAST i. ?free i)"
  have "\<exists>i. ?free i" using ok by (auto simp: alloc_fails_def tab handle_table_def)
  then have i: "?free i" unfolding i_def by (rule LeastI_ex)
  have least: "j < i \<Longrightarrow> \<not> ?free j" for j unfolding i_def by (rule not_less_Least)
  have find: "find (\<lambda>i. mem_handles m ! i = None) [0..<MAX_MEM_HANDLES] = Some i"
    unfolding find_Some_iff using i least by (intro exI [of _ i]) (auto simp: tab handle_table_def)
  define bytes where "bytes = take (unat s + padding_for s) (drop HDR rest)"
  define b where "b = new_block s t i bytes"
  have sz: "unat (blk_size b) = unat s + padding_for s" using small by (simp add: b_def new_block_def unat_padded)
  then have len: "block_len b = unat s + padding_for s + HDR + 1" by (simp add: block_len_def)
  have fits: "block_len b \<le> length rest" using ok rest by (simp add: alloc_fails_def len)
  note bounds = mem_rep_bounds [OF rep]
  have pad: "unat (blk_pad b) = padding_for s"
    using padding_bounds(2) [of s] by (simp add: b_def new_block_def unsigned_of_nat take_bit_nat_eq_self)
  have "block_len b mod 4 = 0" using padding_bounds(3) [of s] by (simp add: len ac_simps)
  then have b_ok: "block_ok b"
    using sz fits bounds(2) rest i padding_bounds(1,2) [of s] pad len
    by (auto simp: block_ok_def b_def new_block_def bytes_def word_le_nat_alt)
  have hdr: "block_header b = \<lparr>hdr_size = s + word_of_nat (padding_for s), hdr_handle = word_of_nat i, hdr_type = t,
      hdr_padding_len = word_of_nat (padding_for s)\<rparr>"
    by (simp add: block_header_def b_def new_block_def)
  have blk: "\<not> blk_dirty b" "blk_handle b = i" "blk_data b = take (unat (blk_size b)) (drop HDR rest)"
    by (simp_all add: b_def new_block_def bytes_def sz [unfolded b_def new_block_def, simplified])
  have ptr: "free_space_ptr m = length (layout bs)" and blocks: "blocks_ok bs" using rep by (simp_all add: mem_rep_def)
  have written: "(put_bytes (mem_heap m) (length (layout bs)) (header_bytes (block_header b)))
      [CANARY_PTR (length (layout bs)) (block_header b) := CANARY_VALUE] = layout (bs @ [b]) @ drop (block_len b) rest"
    using append_block_bytes [OF fits blk(3), of "layout bs"]
    by (simp add: heap CANARY_PTR_def block_header_facts [OF b_ok])
  let ?rt = "mem_rt m"
  let ?used = "used_space ?rt + word_of_nat (block_len b)"
  let ?m = "m\<lparr>mem_heap := layout (bs @ [b]) @ drop (block_len b) rest, mem_handles := handle_table (bs @ [b]),
     free_space_ptr := length (layout bs) + block_len b,
     mem_rt := ?rt\<lparr>handles_used := handles_used ?rt + 1, data_space := data_space ?rt + blk_size b,
       free_space := free_space ?rt - word_of_nat (block_len b), used_space := ?used,
       peak_usage := (if peak_usage ?rt < ?used then ?used else peak_usage ?rt)\<rparr>,
     mem_allocs := mem_allocs m + 1\<rparr>"
  have hs: "wr (mem_handles m) i (Some (length (layout bs))) = Some (handle_table (bs @ [b]))"
    using handle_table_snoc [of bs b] i blk blocks by (simp add: tab wr_def handle_table_def length_layout)
  let ?h1 = "put_bytes (mem_heap m) (length (layout bs)) (header_bytes (block_header b))"
  have h1: "wr_header (mem_heap m) (length (layout bs)) (block_header b) = Some ?h1"
    using fits by (simp add: wr_header_def heap len)
  have "CANARY_PTR (length (layout bs)) (block_header b) < length ?h1"
    using fits by (simp add: heap len CANARY_PTR_def block_header_facts [OF b_ok])
  then have h2: "wr ?h1 (CANARY_PTR (length (layout bs)) (block_header b)) CANARY_VALUE
      = Some (layout (bs @ [b]) @ drop (block_len b) rest)"
    by (simp only: wr_in written)
  have "alloc s t m = Some (word_of_nat (i + 1), ?m)"
    using alloc_done [OF hdr _ find, of "handle_table (bs @ [b])" ?h1 "layout (bs @ [b]) @ drop (block_len b) rest"
        "block_len b"] hs h1 h2 block_header_facts(1) [OF b_ok] ok small
    unfolding ptr by (simp add: b_def new_block_def alloc_fails_def unat_padded)
  moreover have "mem_rep (bs @ [b]) ?m"
  proof -
    have n: "unat (word_of_nat (block_len b) :: u16) = block_len b" using fits rest bounds(2) by (simp add: unat_of_nat16)
    have "handles_distinct (bs @ [b])"
      using rep i blk by (auto simp: mem_rep_def handles_distinct_def place_None)
    moreover have "unat (free_space ?rt - word_of_nat (block_len b)) = unat (free_space ?rt) - block_len b"
      using fits rest n by (simp add: unat_diff16)
    moreover have "unat (used_space ?rt + word_of_nat (block_len b)) = unat (used_space ?rt) + block_len b"
      using fits rest bounds rep n by (simp add: unat_add16 mem_rep_def)
    moreover have "unat (handles_used ?rt + 1) = unat (handles_used ?rt) + 1"
      using bounds rep by (simp add: unat_add16 mem_rep_def)
    moreover have "unat (data_space ?rt + blk_size b) = unat (data_space ?rt) + unat (blk_size b)"
      using fits rest bounds rep sz len by (simp add: unat_add16 mem_rep_def)
    ultimately show ?thesis
      using rep b_ok blk(1) fits rest by (simp add: mem_rep_def heap)
  qed
  moreover have "unat (free_space (mem_rt ?m)) + block_len b = unat (free_space ?rt)"
    using fits rest bounds(2) by (simp add: unat_diff16 unat_of_nat16)
  ultimately show thesis
    using that [of i ?m bytes] i least by (auto simp: b_def)
qed

section \<open>Release\<close>

lemma header_fields:
  "put_bytes (pre @ header_bytes hdr @ post) (length pre) (bytes16 s)
    = pre @ header_bytes (hdr\<lparr>hdr_size := s\<rparr>) @ post"
  "put_bytes (pre @ header_bytes hdr @ post) (length pre + 2) (bytes16 h)
    = pre @ header_bytes (hdr\<lparr>hdr_handle := h\<rparr>) @ post"
  using put_bytes_at [of "bytes16 (hdr_size hdr)" "bytes16 s" pre]
    put_bytes_at [of "bytes16 (hdr_handle hdr)" "bytes16 h" "pre @ bytes16 (hdr_size hdr)"]
  by (simp_all add: header_bytes_def)

lemma block_ok_dirty [simp]: "block_ok (b\<lparr>blk_dirty := d\<rparr>) = block_ok b" "block_len (b\<lparr>blk_dirty := d\<rparr>) = block_len b"
  by (simp_all add: block_ok_def block_len_def)

lemma set_dirty_header: "\<not> blk_dirty b \<Longrightarrow> set_dirty (block_header b) = block_header (b\<lparr>blk_dirty := True\<rparr>)"
  by (simp add: set_dirty_def block_header_def)

lemma handle_table_dirty:
  assumes "handles_distinct (xs @ b # ys)" and "\<not> blk_dirty b"
  shows "(handle_table (xs @ b # ys)) [blk_handle b := None] = handle_table (xs @ b\<lparr>blk_dirty := True\<rparr> # ys)"
proof (rule nth_equalityI)
  fix i
  assume "i < length ((handle_table (xs @ b # ys)) [blk_handle b := None])"
  then have "i < MAX_MEM_HANDLES" by (simp add: handle_table_def)
  moreover have "place off (xs @ b\<lparr>blk_dirty := True\<rparr> # ys) (blk_handle b) = None" for off
    unfolding place_None using handles_distinct_split [OF assms] by auto
  moreover have "place off (xs @ b # ys) i = place off (xs @ b\<lparr>blk_dirty := True\<rparr> # ys) i" if "i \<noteq> blk_handle b" for off
    using that by (simp add: place_append split: option.split)
  ultimately show "(handle_table (xs @ b # ys)) [blk_handle b := None] ! i = handle_table (xs @ b\<lparr>blk_dirty := True\<rparr> # ys) ! i"
    by (cases "i = blk_handle b") (simp_all add: handle_table_def)
qed (simp add: handle_table_def)

lemma release_rep:
  assumes rep: "mem_rep (xs @ b # ys) m" and b: "\<not> blk_dirty b" and k: "sint k = int (blk_handle b)"
  shows "\<exists>m'. release_block k m = Some m' \<and> mem_rep (xs @ b\<lparr>blk_dirty := True\<rparr> # ys) m'
    \<and> free_space (mem_rt m') = free_space (mem_rt m) \<and> mem_alloc_fails m' = mem_alloc_fails m"
proof -
  let ?b = "b\<lparr>blk_dirty := True\<rparr>"
  obtain rest where heap: "mem_heap m = layout (xs @ b # ys) @ rest" and rest: "length rest = unat (free_space (mem_rt m))"
    by (rule mem_rep_heap [OF rep])
  have ok: "block_ok b" "blocks_ok xs" "blocks_ok ys" "handles_distinct (xs @ b # ys)"
    "mem_handles m = handle_table (xs @ b # ys)"
    using rep by (simp_all add: mem_rep_def)
  note bounds = mem_rep_bounds [OF rep]
  let ?rt = "mem_rt m"
  let ?m = "m\<lparr>mem_heap := layout (xs @ ?b # ys) @ rest, mem_handles := handle_table (xs @ ?b # ys),
     mem_rt := ?rt\<lparr>handles_used := handles_used ?rt - 1, data_space := data_space ?rt - blk_size b,
       dirty_space := dirty_space ?rt + word_of_nat (block_len b), used_space := used_space ?rt - word_of_nat (block_len b)\<rparr>\<rparr>"
  have i: "blk_handle b < MAX_MEM_HANDLES" using ok(1) by (simp add: block_ok_def)
  have hs: "wr_at (mem_handles m) (sint k) None = Some (handle_table (xs @ ?b # ys))"
    using handle_table_dirty [OF ok(4) b] i by (simp add: wr_at_def k ok(5) wr_def) (simp add: handle_table_def)
  have "put_bytes (mem_heap m) (length (layout xs)) (bytes16 (hdr_size (block_header ?b))) = layout (xs @ ?b # ys) @ rest"
    using header_fields(1) [of "layout xs" "block_header b" "blk_data b @ [CANARY_VALUE] @ layout ys @ rest"]
    by (simp add: heap block_bytes_def) (simp add: block_header_def)
  then have wr: "wr16 (mem_heap m) (length (layout xs)) (hdr_size (block_header ?b)) = Some (layout (xs @ ?b # ys) @ rest)"
    using ok(1) block_len_pos [of b] by (simp add: wr16_def heap)
  have "release_block k m = Some ?m"
    using header_of_split [OF rep b k] hs wr block_header_facts(1) [of ?b] block_header_facts(6) [OF ok(1) b] ok(1)
    by (simp add: release_block_def set_dirty_header [OF b] Let_def)
  moreover have "mem_rep (xs @ ?b # ys) ?m"
  proof -
    have sizes: "sizes (clean_blocks (xs @ b # ys)) = sizes (clean_blocks xs) + block_len b + sizes (clean_blocks ys)"
      using b by simp
    have n: "unat (word_of_nat (block_len b) :: u16) = block_len b"
      using bounds(1,2) sizes by (intro unat_of_nat16) linarith
    have "handles_distinct (xs @ ?b # ys)" using ok(4) b by (simp add: handles_distinct_def)
    moreover have "unat (dirty_space ?rt + word_of_nat (block_len b)) = unat (dirty_space ?rt) + block_len b"
    proof -
      have "unat (dirty_space ?rt) + block_len b \<le> length (layout (xs @ b # ys))"
        using rep bounds(1) sizes unfolding mem_rep_def by linarith
      then show ?thesis using bounds(2) n by (simp add: unat_add16)
    qed
    moreover have "unat (used_space ?rt - word_of_nat (block_len b)) = unat (used_space ?rt) - block_len b"
      using rep sizes n by (simp add: unat_diff16 mem_rep_def)
    moreover have "unat (handles_used ?rt - 1) = unat (handles_used ?rt) - 1"
      using rep b by (simp add: unat_diff16 mem_rep_def)
    moreover have "unat (data_space ?rt - blk_size b) = unat (data_space ?rt) - unat (blk_size b)"
      using rep b by (simp add: unat_diff16 mem_rep_def)
    ultimately show ?thesis
      using rep ok(1) b rest by (simp add: mem_rep_def heap)
  qed
  ultimately show ?thesis by (intro exI [of _ ?m]) simp
qed

section \<open>Collection\<close>

lemma move_blocks_length:
  "move_blocks free heap hs clean dirty = Some (heap', hs', dirty') \<Longrightarrow> length heap' = length heap"
proof (induction free heap hs clean dirty rule: move_blocks.induct)
  case (1 free heap hs clean dirty)
  from "1.prems" show ?case
    by (subst (asm) move_blocks.simps)
      (auto simp: Let_def opt_simps split: if_splits option.splits dest!: "1.IH")
qed

lemma collect_rep:
  assumes rep: "mem_rep bs m"
  shows "\<exists>m'. mem2_v_collect_garbage m = Some m'
    \<and> mem_rep (if dirty_space (mem_rt m) < MEM_DEFRAG_THRESHOLD then bs else clean_blocks bs) m'
    \<and> (dirty_space (mem_rt m) < MEM_DEFRAG_THRESHOLD \<longrightarrow> m' = m)"
proof (cases "dirty_space (mem_rt m) < MEM_DEFRAG_THRESHOLD")
  case True
  then show ?thesis using rep by (simp add: mem2_v_collect_garbage_def mem2_u16_get_dirty_def)
next
  case False
  obtain rest where heap: "mem_heap m = layout bs @ rest" and rest: "length rest = unat (free_space (mem_rt m))"
    by (rule mem_rep_heap [OF rep])
  have facts: "blocks_ok bs" "handles_distinct bs" "mem_handles m = handle_table bs" "free_space_ptr m = length (layout bs)"
    "unat (dirty_space (mem_rt m)) = sizes (filter blk_dirty bs)"
    using rep by (simp_all add: mem_rep_def)
  note bounds = mem_rep_bounds [OF rep]
  define xs where "xs = takeWhile (\<lambda>b. \<not> blk_dirty b) bs"
  define ys where "ys = dropWhile (\<lambda>b. \<not> blk_dirty b) bs"
  have bs: "bs = xs @ ys" by (simp add: xs_def ys_def)
  have cleanx: "clean_blocks xs = xs" by (auto simp: xs_def filter_id_conv dest: set_takeWhileD)
  have "\<exists>b \<in> set bs. blk_dirty b"
  proof (rule ccontr)
    assume "\<not> ?thesis"
    then have "filter blk_dirty bs = []" by (simp add: filter_empty_conv)
    then show False using facts(5) False by (simp add: word_less_nat_alt)
  qed
  from skip_clean_layout [OF facts(1) this, of "[]" rest]
  have skip: "skip_clean (mem_heap m) (free_space_ptr m) 0 = Some (length (layout xs))"
    by (simp add: heap facts(4) xs_def)
  have okx: "blocks_ok xs" "blocks_ok ys" using facts(1) by (auto simp: bs)
  have "moving xs (length (layout xs)) ys = handle_table bs"
    using moving_start [of xs ys] okx by (simp add: length_layout bs)
  with move_blocks_layout [OF okx, of "length (layout xs)" "[]" rest] facts(2)
  obtain post where moved: "move_blocks (free_space_ptr m) (mem_heap m) (mem_handles m) (length (layout xs)) (length (layout xs))
      = Some (layout (clean_blocks bs) @ post, handle_table (clean_blocks bs), length (layout (clean_blocks bs)))"
    by (auto simp: heap facts(3,4) bs cleanx)
  let ?m = "m\<lparr>mem_heap := layout (clean_blocks bs) @ post, mem_handles := handle_table (clean_blocks bs),
     free_space_ptr := length (layout (clean_blocks bs)),
     mem_rt := (mem_rt m)\<lparr>free_space := free_space (mem_rt m) + dirty_space (mem_rt m), dirty_space := 0\<rparr>\<rparr>"
  define d where "d = length (layout xs)"
  have run: "mem2_v_collect_garbage m = Some ?m"
    using False skip [folded d_def] moved [folded d_def]
    by (cases "d = 0") (simp_all add: mem2_v_collect_garbage_def mem2_u16_get_dirty_def Let_def)
  have len: "length (layout (clean_blocks bs) @ post) = length (mem_heap m)"
    using move_blocks_length [OF moved] .
  have "length (layout (clean_blocks bs)) = sizes (clean_blocks bs)" using facts(1) by (intro length_layout) simp
  then have "length post = unat (free_space (mem_rt m)) + sizes (filter blk_dirty bs)"
    using len bounds(1) rest by (simp add: heap)
  moreover have "unat (free_space (mem_rt m) + dirty_space (mem_rt m)) = unat (free_space (mem_rt m)) + sizes (filter blk_dirty bs)"
    using facts(5) bounds(1,2) by (simp add: unat_add16)
  ultimately have "mem_rep (clean_blocks bs) ?m"
    using rep len by (simp add: mem_rep_def handles_distinct_def filter_empty_conv)
  then show ?thesis using run False by (intro exI [of _ ?m]) simp
qed

section \<open>Writing through a pointer\<close>

text \<open>What a client does with \<open>mem2_vp_get_ptr\<close>: store bytes at an offset of an object.\<close>

definition store_at :: "i16 \<Rightarrow> nat \<Rightarrow> u8 list \<Rightarrow> mem_state \<Rightarrow> mem_state option" where
  "store_at handle off bytes m = do {
     p \<leftarrow> mem2_vp_get_ptr handle m;
     require (p + off + length bytes \<le> length (mem_heap m));
     Some (m\<lparr>mem_heap := put_bytes (mem_heap m) (p + off) bytes\<rparr>) }"

lemma ptr_split:
  assumes "mem_rep (xs @ b # ys) m" and "\<not> blk_dirty b" and "sint (unswizzle k) = int (blk_handle b)"
  shows "mem2_vp_get_ptr k m = Some (length (layout xs) + HDR)"
  using header_of_split [OF assms] by (auto simp: header_of_def mem2_vp_get_ptr_def opt_simps)

lemma handle_table_data:
  "handle_table (xs @ b\<lparr>blk_data := d\<rparr> # ys) = handle_table (xs @ b # ys)"
  by (simp add: handle_table_def place_append block_len_def split: option.split)

lemma put_in_block:
  assumes "block_ok b" and "off + length bytes \<le> unat (blk_size b)"
  shows "put_bytes (pre @ block_bytes b @ post) (length pre + HDR + off) bytes
      = pre @ block_bytes (b\<lparr>blk_data := put_bytes (blk_data b) off bytes\<rparr>) @ post"
    and "block_ok (b\<lparr>blk_data := put_bytes (blk_data b) off bytes\<rparr>)"
proof -
  have len: "length (blk_data b) = unat (blk_size b)" using assms(1) by (simp add: block_ok_def)
  define d1 d2 d3 where "d1 = take off (blk_data b)" and "d2 = take (length bytes) (drop off (blk_data b))"
    and "d3 = drop (length bytes) (drop off (blk_data b))"
  have d: "blk_data b = d1 @ d2 @ d3" unfolding d1_def d2_def d3_def append_take_drop_id ..
  have l: "length d1 = off" "length d2 = length bytes" using assms(2) len by (simp_all add: d1_def d2_def)
  have new: "put_bytes (d1 @ d2 @ d3) off bytes = d1 @ bytes @ d3"
    using put_bytes_at [of d2 bytes d1 d3] l by simp
  have hdr: "block_header (b\<lparr>blk_data := x\<rparr>) = block_header b" for x by (simp add: block_header_def)
  show "put_bytes (pre @ block_bytes b @ post) (length pre + HDR + off) bytes
      = pre @ block_bytes (b\<lparr>blk_data := put_bytes (blk_data b) off bytes\<rparr>) @ post"
    using put_bytes_at [of d2 bytes "pre @ header_bytes (block_header b) @ d1" "d3 @ [CANARY_VALUE] @ post"] l
    by (simp add: block_bytes_def new hdr d add.assoc)
  show "block_ok (b\<lparr>blk_data := put_bytes (blk_data b) off bytes\<rparr>)"
    using assms by (simp add: block_ok_def block_len_def)
qed

lemma store_rep:
  assumes rep: "mem_rep (xs @ b # ys) m" and b: "\<not> blk_dirty b" and k: "sint (unswizzle k) = int (blk_handle b)"
    and fits: "off + length bytes \<le> unat (blk_size b)"
  shows "\<exists>m'. store_at k off bytes m = Some m' \<and> m' = m\<lparr>mem_heap := mem_heap m'\<rparr>
    \<and> mem_rep (xs @ b\<lparr>blk_data := put_bytes (blk_data b) off bytes\<rparr> # ys) m'"
proof -
  let ?b = "b\<lparr>blk_data := put_bytes (blk_data b) off bytes\<rparr>"
  obtain rest where heap: "mem_heap m = layout (xs @ b # ys) @ rest" and rest: "length rest = unat (free_space (mem_rt m))"
    by (rule mem_rep_heap [OF rep])
  have ok: "block_ok b" "handles_distinct (xs @ b # ys)" "mem_handles m = handle_table (xs @ b # ys)"
    using rep by (simp_all add: mem_rep_def)
  note put = put_in_block [OF ok(1) fits]
  let ?m = "m\<lparr>mem_heap := layout (xs @ ?b # ys) @ rest\<rparr>"
  have "put_bytes (mem_heap m) (length (layout xs) + HDR + off) bytes = layout (xs @ ?b # ys) @ rest"
    using put(1) [of "layout xs" "layout ys @ rest"] by (simp add: heap)
  moreover have "length (layout xs) + HDR + off + length bytes \<le> length (mem_heap m)"
    using fits ok(1) by (simp add: heap block_len_def)
  ultimately have "store_at k off bytes m = Some ?m"
    using ptr_split [OF rep b k] by (simp add: store_at_def)
  moreover have "block_len ?b = block_len b" by (simp add: block_len_def)
  then have "mem_rep (xs @ ?b # ys) ?m"
    using rep put(2) rest ok(1) b
    by (simp add: mem_rep_def handle_table_data handles_distinct_def heap)
  ultimately show ?thesis by (intro exI [of _ ?m]) simp
qed

section \<open>Reallocation\<close>

lemma block_sizes_mono:
  assumes "block_ok b" and "unat (blk_size b) - unat (blk_pad b) \<le> unat s"
  shows "unat (blk_size b) \<le> unat s + padding_for s"
proof -
  have "(HDR + unat (blk_size b) + 1) mod 4 = 0" "unat (blk_size b) \<le> unat s + 4"
    using assms by (auto simp: block_ok_def block_len_def)
  then show ?thesis using padding_bounds [of s] by presburger
qed

text \<open>Giving the last block another handle.\<close>

lemma handle_table_rename:
  assumes "place 0 ws n = None" and "place 0 ws (blk_handle c) = None" and "n \<noteq> blk_handle c"
    and "n < MAX_MEM_HANDLES" and "blk_handle c < MAX_MEM_HANDLES" and "\<not> blk_dirty c"
  shows "(handle_table (ws @ [c])) [n := Some (sizes ws), blk_handle c := None] = handle_table (ws @ [c\<lparr>blk_handle := n\<rparr>])"
proof (rule nth_equalityI)
  fix j
  assume "j < length ((handle_table (ws @ [c])) [n := Some (sizes ws), blk_handle c := None])"
  then have j: "j < MAX_MEM_HANDLES" by (simp add: handle_table_def)
  have new: "handle_table (ws @ [c\<lparr>blk_handle := n\<rparr>]) ! j
      = (case place 0 ws j of Some p \<Rightarrow> Some p | None \<Rightarrow> if n = j then Some (sizes ws) else None)"
    using j assms(6) by (simp add: handle_table_def place_append split: option.split)
  have old: "handle_table (ws @ [c]) ! j
      = (case place 0 ws j of Some p \<Rightarrow> Some p | None \<Rightarrow> if blk_handle c = j then Some (sizes ws) else None)"
    using j assms(6) by (simp add: handle_table_def place_append split: option.split)
  have len: "length (handle_table (ws @ [c])) = 256" by (simp add: handle_table_def)
  show "(handle_table (ws @ [c])) [n := Some (sizes ws), blk_handle c := None] ! j
    = handle_table (ws @ [c\<lparr>blk_handle := n\<rparr>]) ! j"
    unfolding new using old j len assms(1-5) by (auto simp: nth_list_update split: option.split)
qed (simp add: handle_table_def)

lemma retarget_rep:
  assumes rep: "mem_rep (ws @ [c]) m" and c: "\<not> blk_dirty c" and n: "place 0 ws n = None" "n < MAX_MEM_HANDLES"
    "n \<noteq> blk_handle c" and k: "sint (k :: i16) = int n"
  obtains heap hs1 hs2 where "wr16 (mem_heap m) (length (layout ws) + 2) k = Some heap"
    and "wr_at (mem_handles m) (int n) (Some (length (layout ws))) = Some hs1"
    and "wr_at hs1 (int (blk_handle c)) None = Some hs2"
    and "mem_rep (ws @ [c\<lparr>blk_handle := n\<rparr>]) (m\<lparr>mem_heap := heap, mem_handles := hs2\<rparr>)"
proof -
  let ?d = "c\<lparr>blk_handle := n\<rparr>"
  obtain rest where heap: "mem_heap m = layout (ws @ [c]) @ rest" and rest: "length rest = unat (free_space (mem_rt m))"
    by (rule mem_rep_heap [OF rep])
  have ok: "blocks_ok ws" "block_ok c" "handles_distinct (ws @ [c])" "mem_handles m = handle_table (ws @ [c])"
    using rep by (simp_all add: mem_rep_def)
  have d_ok: "block_ok ?d" "block_len ?d = block_len c" using ok(2) n(2) by (simp_all add: block_ok_def block_len_def)
  have "word_of_int (sint k) = k" by simp
  then have "k = word_of_nat n" using k by simp
  then have "block_header ?d = (block_header c)\<lparr>hdr_handle := k\<rparr>" by (simp add: block_header_def)
  then have "put_bytes (mem_heap m) (length (layout ws) + 2) (bytes16 k) = layout (ws @ [?d]) @ rest"
    using header_fields(2) [of "layout ws" "block_header c" "blk_data c @ [CANARY_VALUE] @ rest" k]
    by (simp add: heap block_bytes_def)
  moreover have "length (layout ws) + 2 + 2 \<le> length (mem_heap m)" by (simp add: heap block_bytes_def)
  ultimately have wr: "wr16 (mem_heap m) (length (layout ws) + 2) k = Some (layout (ws @ [?d]) @ rest)"
    by (simp add: wr16_def)
  have "place 0 ws (blk_handle c) = None"
    unfolding place_None using handles_distinct_split(1) [OF ok(3) c] by blast
  then have "(handle_table (ws @ [c])) [n := Some (sizes ws), blk_handle c := None] = handle_table (ws @ [?d])"
    using n ok(2) c by (intro handle_table_rename) (simp_all add: block_ok_def)
  then have tab: "wr_at ((mem_handles m) [n := Some (length (layout ws))]) (int (blk_handle c)) None
      = Some (handle_table (ws @ [?d]))"
    using ok by (simp add: wr_at_def wr_def length_layout block_ok_def) (simp add: handle_table_def)
  have "handles_distinct (ws @ [?d])"
    using ok(3) n(1) c by (auto simp: handles_distinct_def place_None)
  then have "mem_rep (ws @ [?d]) (m\<lparr>mem_heap := layout (ws @ [?d]) @ rest, mem_handles := handle_table (ws @ [?d])\<rparr>)"
    using rep d_ok ok(2) c rest by (simp add: mem_rep_def heap)
  moreover have "wr_at (mem_handles m) (int n) (Some (length (layout ws))) = Some ((mem_handles m) [n := Some (length (layout ws))])"
    using n(2) by (simp add: wr_at_def wr_def ok(4) handle_table_def)
  ultimately show thesis using that wr tab by blast
qed

end
