(* ===== verification/Memory_Objects.thy ===== *)
theory Memory_Objects
  imports Memory_Pool
begin

text \<open>
  The memory pool as its clients see it: a finite map from handles to typed byte objects.  The
  properties of the operations are stated over this map.
\<close>

section \<open>Objects and blocks\<close>

lemma find_obj_append:
  "find_obj (us @ vs) j = (case find_obj us j of None \<Rightarrow> find_obj vs j | Some x \<Rightarrow> Some x)"
  by (induction us) (simp_all add: find_obj_def)

lemma find_obj_Cons: "find_obj (b # bs) j = (if \<not> blk_dirty b \<and> blk_handle b = j then Some (blk_obj b) else find_obj bs j)"
  by (simp add: find_obj_def)

lemma find_obj_Nil [simp]: "find_obj [] j = None"
  by (simp add: find_obj_def)

lemma find_obj_clean: "find_obj (clean_blocks bs) j = find_obj bs j"
  by (induction bs) (simp_all add: find_obj_Cons)

lemma find_obj_other:
  assumes "handles_distinct (xs @ b # ys)" and "\<not> blk_dirty b"
  shows "find_obj xs (blk_handle b) = None" and "find_obj ys (blk_handle b) = None"
  using handles_distinct_split [OF assms] by (auto simp: find_obj_None [of _ _ 0] place_None)

lemma unswizzle_handle: "sint (unswizzle (word_of_nat (i + 1))) = int i" if "i < MAX_MEM_HANDLES"
proof -
  have "unswizzle (word_of_nat (i + 1)) = word_of_int (int i)" by (simp add: unswizzle_def)
  then show ?thesis using sint_word_of_int16 [of "int i"] that by simp
qed

lemma handle_word: "0 \<le> sint (unswizzle h) \<Longrightarrow> h = word_of_nat (nat (sint (unswizzle h)) + 1)"
proof -
  assume "0 \<le> sint (unswizzle h)"
  moreover have "word_of_int (sint (unswizzle h)) = unswizzle h" by simp
  moreover have "word_of_nat (nat (sint (unswizzle h))) = (word_of_int (int (nat (sint (unswizzle h)))) :: i16)"
    by (rule of_int_of_nat_eq [symmetric])
  ultimately have "word_of_nat (nat (sint (unswizzle h))) = unswizzle h" by simp
  then show "h = word_of_nat (nat (sint (unswizzle h)) + 1)" by (simp add: unswizzle_def)
qed

lemma mem_obj_update:
  assumes "mem_rep bs m" and "mem_rep bs' m'" and "i < MAX_MEM_HANDLES"
    and "\<And>j. find_obj bs' j = (if j = i then v else find_obj bs j)"
  shows "mem_obj m' = (mem_obj m)(word_of_nat (i + 1) := v)"
proof
  fix h
  show "mem_obj m' h = ((mem_obj m)(word_of_nat (i + 1) := v)) h"
  proof (cases "h = word_of_nat (i + 1)")
    case True
    then show ?thesis using assms unswizzle_handle [OF assms(3)] by (simp add: mem_obj_find)
  next
    case False
    then have "0 \<le> sint (unswizzle h) \<Longrightarrow> nat (sint (unswizzle h)) \<noteq> i" using handle_word by blast
    then show ?thesis using assms False by (simp add: mem_obj_find)
  qed
qed

lemma mem_obj_same:
  assumes "mem_rep bs m" and "mem_rep bs' m'" and "\<And>j. find_obj bs' j = find_obj bs j"
  shows "mem_obj m' = mem_obj m"
  using assms by (auto simp: mem_obj_find)

text \<open>A live handle names a block.\<close>

lemma live_split:
  assumes "mem_rep bs m" and "mem_obj m h = Some obj"
  obtains xs b ys where "bs = xs @ b # ys" and "\<not> blk_dirty b" and "sint (unswizzle h) = int (blk_handle b)"
    and "h = word_of_nat (blk_handle b + 1)" and "obj = blk_obj b" and "blk_handle b < MAX_MEM_HANDLES"
proof -
  have h: "0 \<le> sint (unswizzle h)" "find_obj bs (nat (sint (unswizzle h))) = Some obj"
    using assms by (simp_all add: mem_obj_find split: if_splits)
  then have "place 0 bs (nat (sint (unswizzle h))) \<noteq> None" by (metis find_obj_None option.distinct(1))
  then obtain p where "place 0 bs (nat (sint (unswizzle h))) = Some p" by blast
  then obtain xs b ys where b: "bs = xs @ b # ys" "\<not> blk_dirty b" "blk_handle b = nat (sint (unswizzle h))"
    by (rule place_Some)
  have rep: "handles_distinct (xs @ b # ys)" "block_ok b" using assms(1) b(1) by (simp_all add: mem_rep_def)
  have "find_obj (xs @ b # ys) (blk_handle b) = Some (blk_obj b)" by (rule find_obj_split [OF rep(1) b(2)])
  then have obj: "obj = blk_obj b" using h(2) by (simp only: b(3) [symmetric] b(1)) simp
  show thesis
  proof (rule that [OF b(1,2) _ _ obj])
    show "sint (unswizzle h) = int (blk_handle b)" using b(3) h(1) by simp
    show "h = word_of_nat (blk_handle b + 1)" using handle_word [OF h(1)] by (simp only: b(3))
    show "blk_handle b < MAX_MEM_HANDLES" using rep(2) by (simp add: block_ok_def)
  qed
qed

lemma dead_handle:
  assumes "mem_rep bs m" and "mem_obj m h = None" and "0 < sint h"
  shows "header_of m (unswizzle h) = None"
  using assms(2) by (simp add: mem_obj_def split: option.splits prod.splits)

lemma blk_obj_length: "block_ok b \<Longrightarrow> length (snd (blk_obj b)) = unat (blk_size b) - unat (blk_pad b)"
  by (simp add: blk_obj_def block_ok_def)

lemma unat_pad: "unat (word_of_nat (padding_for s) :: u8) = padding_for s"
  using padding_bounds(2) [of s] by (simp add: unsigned_of_nat take_bit_nat_eq_self)

lemma new_block_facts:
  assumes "unat s < 65532"
  shows "\<not> blk_dirty (new_block s t i bytes)" and "blk_handle (new_block s t i bytes) = i"
    and "unat (blk_size (new_block s t i bytes)) = unat s + padding_for s"
    and "unat (blk_pad (new_block s t i bytes)) = padding_for s"
    and "blk_type (new_block s t i bytes) = t"
    and "block_len (new_block s t i bytes) = unat s + padding_for s + HDR + 1"
  using assms by (simp_all add: new_block_def unat_padded unat_pad block_len_def)

section \<open>Reallocation\<close>

lemma copied_data:
  assumes "mem_rep (xs @ b # ys) m"
  shows "take (unat (blk_size b)) (drop (length (layout xs) + HDR) (mem_heap m)) = blk_data b"
proof -
  obtain rest where heap: "mem_heap m = layout (xs @ b # ys) @ rest" by (rule mem_rep_heap [OF assms])
  have "drop (length (layout xs) + HDR) (mem_heap m) = blk_data b @ [CANARY_VALUE] @ layout ys @ rest"
    by (simp add: heap block_bytes_def)
  then show ?thesis using assms by (simp add: mem_rep_def block_ok_def)
qed

lemma realloc_rep:
  assumes rep: "mem_rep (xs @ b # ys) m" and b: "\<not> blk_dirty b" and k: "sint (unswizzle h) = int (blk_handle b)"
    and small: "unat s < 65532" and ok: "\<not> alloc_fails s m"
    and grows: "unat (blk_size b) - unat (blk_pad b) \<le> unat s"
  obtains i bytes m' where "mem2_i8_realloc h s m = Some (0, m')" and "place 0 (xs @ b # ys) i = None"
    and "mem_rep (xs @ b\<lparr>blk_dirty := True\<rparr> # ys
           @ [(new_block s (blk_type b) (blk_handle b) bytes)\<lparr>blk_data := put_bytes bytes 0 (blk_data b)\<rparr>]) m'"
    and "length bytes = unat s + padding_for s"
proof -
  let ?k = "unswizzle h"
  let ?bs = "xs @ b # ys" and ?b = "b\<lparr>blk_dirty := True\<rparr>"
  have hdr: "header_of m ?k = Some (length (layout xs), block_header b)" by (rule header_of_split [OF rep b k])
  have b_ok: "block_ok b" "blocks_ok xs" "blocks_ok ys" using rep by (simp_all add: mem_rep_def)
  obtain i bytes m1 where al: "alloc s (blk_type b) m = Some (word_of_nat (i + 1), m1)" "i < MAX_MEM_HANDLES"
      "place 0 ?bs i = None" and rep1: "mem_rep (?bs @ [new_block s (blk_type b) i bytes]) m1"
    by (rule alloc_rep [OF rep small ok])
  define c where "c = new_block s (blk_type b) i bytes"
  note c = new_block_facts [OF small, of "blk_type b" i bytes, folded c_def]
  have rep1: "mem_rep (?bs @ c # []) m1" "mem_rep (xs @ b # (ys @ [c])) m1" using rep1 by (simp_all add: c_def)
  have c_ok: "block_ok c" using rep1 by (simp add: mem_rep_def)
  have kc: "sint (unswizzle (word_of_nat (i + 1))) = int (blk_handle c)"
    using unswizzle_handle [OF al(2)] by (simp add: c)
  have hdr1: "header_of m1 (unswizzle (word_of_nat (i + 1))) = Some (length (layout ?bs), block_header c)"
    by (rule header_of_split [OF rep1(1) c(1) kc])
  have len: "length (blk_data b) = unat (blk_size b)" using b_ok by (simp add: block_ok_def)
  have fits: "0 + length (blk_data b) \<le> unat (blk_size c)"
    using block_sizes_mono [OF b_ok(1) grows] by (simp add: len c)
  let ?c = "c\<lparr>blk_data := put_bytes (blk_data c) 0 (blk_data b)\<rparr>"
  obtain m2 where st: "store_at (word_of_nat (i + 1)) 0 (blk_data b) m1 = Some m2" "m2 = m1\<lparr>mem_heap := mem_heap m2\<rparr>"
      "mem_rep (?bs @ ?c # []) m2"
    using store_rep [OF rep1(1) c(1) kc fits] by blast
  have heap1: "length (mem_heap m1) \<ge> length (layout ?bs) + block_len c"
    using rep1(1) c_ok by (simp add: mem_rep_def)
  have copy: "copy_bytes (mem_heap m1) (length (layout ?bs) + HDR) (length (layout xs) + HDR)
      (unat (hdr_size (block_header b))) = Some (mem_heap m2)"
  proof -
    have "mem_heap m2 = put_bytes (mem_heap m1) (length (layout ?bs) + HDR) (blk_data b)"
      using st(1) ptr_split [OF rep1(1) c(1) kc] by (auto simp: store_at_def opt_simps)
    moreover have "length (layout ?bs) + HDR + unat (blk_size b) \<le> length (mem_heap m1)"
      using heap1 fits len by (simp add: block_len_def)
    ultimately show ?thesis
      using copied_data [OF rep1(2)] b_ok block_header_facts(6) [OF b_ok(1) b] by (simp add: copy_bytes_def)
  qed
  have rep2: "mem_rep (xs @ b # (ys @ [?c])) m2" using st(3) by simp
  obtain m3 where rel: "release_block ?k m2 = Some m3" "mem_rep ((xs @ ?b # ys) @ [?c]) m3"
    using release_rep [OF rep2 b k] by auto
  have bounds: "blk_handle b < MAX_MEM_HANDLES" using b_ok by (simp add: block_ok_def)
  have "handles_distinct ?bs" using rep by (simp add: mem_rep_def)
  then have free: "place 0 (xs @ ?b # ys) (blk_handle b) = None"
    unfolding place_None using handles_distinct_split [OF _ b] by auto
  have "blk_handle b \<noteq> blk_handle ?c" using al(3) b by (auto simp: place_None c)
  then obtain heap hs1 hs2 where re: "wr16 (mem_heap m3) (length (layout (xs @ ?b # ys)) + 2) ?k = Some heap"
      "wr_at (mem_handles m3) (int (blk_handle b)) (Some (length (layout (xs @ ?b # ys)))) = Some hs1"
      "wr_at hs1 (int (blk_handle ?c)) None = Some hs2"
      "mem_rep ((xs @ ?b # ys) @ [?c\<lparr>blk_handle := blk_handle b\<rparr>]) (m3\<lparr>mem_heap := heap, mem_handles := hs2\<rparr>)"
    using retarget_rep [OF rel(2) _ free bounds _ k] c(1) by auto
  have lay: "length (layout (xs @ ?b # ys)) = length (layout ?bs)" using b_ok by simp
  have "0 \<le> sint (word_of_nat (i + 1) :: i16)"
    using sint_word_of_int16 [of "int (i + 1)"] al(2) by simp
  moreover have "hdr_type (block_header b) = blk_type b" by (simp add: block_header_def)
  ultimately have "mem2_i8_realloc h s m = Some (0, m3\<lparr>mem_heap := heap, mem_handles := hs2\<rparr>)"
    using al(1) hdr hdr1 copy st(2) [symmetric] rel(1) re(1-3) k kc
    unfolding lay by (simp add: mem2_i8_realloc_def Let_def)
  then show thesis
    using that [of _ i bytes] al(3) re(4) c_ok c
    by (simp add: c_def new_block_def block_ok_def)
qed

section \<open>The operations on objects\<close>

lemma init_rep:
  assumes "length heap = unat s" and "unat s < 32768"
  shows "mem_rep [] (mem2_v_init heap s m)"
proof -
  have "place 0 [] = (\<lambda>i. None)" by (rule ext) simp
  then show ?thesis
    using assms by (simp add: mem_rep_def mem2_v_init_def handles_distinct_def handle_table_def map_replicate_const)
qed

lemma mem_rep_fails [simp]: "mem_rep bs (m\<lparr>mem_alloc_fails := k\<rparr>) = mem_rep bs m"
  by (simp add: mem_rep_def)

lemma live_handle:
  assumes "mem_inv m" and "mem_obj m h = Some (t, bytes)"
  shows "mem2_u16_get_size h m = Some (word_of_nat (length bytes))" and "mem_b2_verify_handle h m = Some True"
    and "0 < sint h" and "sint h \<le> 256"
proof -
  obtain bs where rep: "mem_rep bs m" using assms(1) by (auto simp: mem_inv_def)
  obtain xs b ys where bs: "bs = xs @ b # ys" and b: "\<not> blk_dirty b" "sint (unswizzle h) = int (blk_handle b)"
    and h: "h = word_of_nat (blk_handle b + 1)" "(t, bytes) = blk_obj b" "blk_handle b < MAX_MEM_HANDLES"
    by (rule live_split [OF rep assms(2)])
  have rep: "mem_rep (xs @ b # ys) m" using rep by (simp only: bs)
  have ok: "block_ok b" using rep by (simp add: mem_rep_def)
  note hdr = header_of_split [OF rep b]
  have h': "sint h = int (blk_handle b) + 1"
    unfolding h(1) using sint_word_of_int16 [of "int (blk_handle b + 1)"] h(3) by simp
  then show pos: "0 < sint h" "sint h \<le> 256" using h(3) by simp_all
  have "length bytes = unat (blk_size b) - unat (blk_pad b)"
    using blk_obj_length [OF ok] by (simp add: h(2) [symmetric])
  moreover have "unat (blk_size b - ucast (blk_pad b)) = unat (blk_size b) - unat (blk_pad b)"
    using ok by (subst unat_diff16) (simp_all add: block_ok_def)
  ultimately have "unat (blk_size b - ucast (blk_pad b)) = length bytes" by simp
  then have "blk_size b - ucast (blk_pad b) = word_of_nat (length bytes)" by (simp flip: \<open>unat _ = length bytes\<close>)
  then show "mem2_u16_get_size h m = Some (word_of_nat (length bytes))"
    using hdr block_header_facts(4,6) [OF ok] b(1) by (simp add: mem2_u16_get_size_def)
  obtain rest where heap: "mem_heap m = layout (xs @ b # ys) @ rest" by (rule mem_rep_heap [OF rep])
  have "rd_at (mem_handles m) (sint (unswizzle h)) = Some (Some (length (layout xs)))"
    "rd_header (mem_heap m) (length (layout xs)) = Some (block_header b)"
    using hdr by (auto simp: header_of_def opt_simps)
  moreover have "rd (mem_heap m) (CANARY_PTR (length (layout xs)) (block_header b)) = Some CANARY_VALUE"
    using ok by (simp add: heap rd_def CANARY_PTR_def block_header_facts block_bytes_def nth_append block_len_def block_ok_def)
  ultimately show "mem_b2_verify_handle h m = Some True"
    using pos b(1) block_header_facts(2) [OF ok]
    by (simp add: mem_b2_verify_handle_def generate_canary_def Let_def)
qed

lemma alloc_object:
  assumes "mem_inv m" and "unat s < 65532"
  shows "\<exists>h m'. alloc s t m = Some (h, m') \<and> mem_inv m'
    \<and> (if alloc_fails s m then h = - 1 \<and> mem_obj m' = mem_obj m
       else mem_obj m h = None
          \<and> (\<exists>bytes. length bytes = unat s \<and> mem_obj m' = (mem_obj m)(h \<mapsto> (t, bytes))))"
proof -
  obtain bs where rep: "mem_rep bs m" using assms(1) by (auto simp: mem_inv_def)
  show ?thesis
  proof (cases "alloc_fails s m")
    case True
    let ?m = "m\<lparr>mem_alloc_fails := mem_alloc_fails m + 1\<rparr>"
    have rep': "mem_rep bs ?m" using rep by simp
    then have "mem_inv ?m" "mem_obj ?m = mem_obj m" using mem_obj_same [OF rep rep'] by (auto simp: mem_inv_def)
    then show ?thesis using alloc_failed [OF assms(2) True] True by simp
  next
    case False
    obtain i bytes m' where al: "alloc s t m = Some (word_of_nat (i + 1), m')" "i < MAX_MEM_HANDLES"
      "place 0 bs i = None" "mem_rep (bs @ [new_block s t i bytes]) m'"
      by (rule alloc_rep [OF rep assms(2) False])
    let ?c = "new_block s t i bytes"
    note c = new_block_facts [OF assms(2), of t i bytes]
    have none: "find_obj bs i = None" using al(3) find_obj_None by blast
    have "mem_obj m' = (mem_obj m)(word_of_nat (i + 1) := Some (blk_obj ?c))"
      using none c by (intro mem_obj_update [OF rep al(4,2)])
        (simp add: find_obj_append find_obj_Cons split: option.split)
    moreover have "blk_obj ?c = (t, snd (blk_obj ?c))" using c by (simp add: blk_obj_def)
    moreover have "length (snd (blk_obj ?c)) = unat s"
      using al(4) c by (subst blk_obj_length) (auto simp: mem_rep_def)
    moreover have "mem_obj m (word_of_nat (i + 1)) = None"
      using none unswizzle_handle [OF al(2)] by (simp add: mem_obj_find [OF rep])
    ultimately show ?thesis using al False unfolding mem_inv_def by auto
  qed
qed

lemma free_object:
  assumes "mem_inv m" and "mem_obj m h = Some obj"
  shows "\<exists>m'. mem2_v_free h m = Some m' \<and> mem_inv m' \<and> mem_obj m' = (mem_obj m)(h := None)
    \<and> free_space (mem_rt m') = free_space (mem_rt m)"
proof -
  obtain bs where rep: "mem_rep bs m" using assms(1) by (auto simp: mem_inv_def)
  obtain xs b ys where bs: "bs = xs @ b # ys" and b: "\<not> blk_dirty b" "sint (unswizzle h) = int (blk_handle b)"
    and h: "h = word_of_nat (blk_handle b + 1)" "blk_handle b < MAX_MEM_HANDLES"
    by (rule live_split [OF rep assms(2)])
  have rep: "mem_rep (xs @ b # ys) m" using rep by (simp only: bs)
  then have d: "handles_distinct (xs @ b # ys)" by (simp add: mem_rep_def)
  obtain m' where m': "release_block (unswizzle h) m = Some m'" "mem_rep (xs @ b\<lparr>blk_dirty := True\<rparr> # ys) m'"
    "free_space (mem_rt m') = free_space (mem_rt m)"
    using release_rep [OF rep b] by blast
  have "mem_obj m' = (mem_obj m)(word_of_nat (blk_handle b + 1) := None)"
    using find_obj_other [OF d b(1)]
    by (intro mem_obj_update [OF rep m'(2) h(2)]) (simp add: find_obj_append find_obj_Cons split: option.split)
  then show ?thesis
    using m' b by (auto simp: mem2_v_free_def mem_inv_def h(1) simp del: of_nat_add)
qed

lemma free_dead:
  assumes "mem_obj m h = None"
  shows "mem2_v_free h m = (if sint (unswizzle h) < 0 then Some m else None)"
proof -
  have "header_of m (unswizzle h) = None" using assms by (simp add: mem_obj_def split: option.splits prod.splits)
  then show ?thesis by (simp add: mem2_v_free_def release_block_def)
qed

lemma collect_object:
  assumes "mem_inv m"
  shows "\<exists>m'. mem2_v_collect_garbage m = Some m' \<and> mem_inv m' \<and> mem_obj m' = mem_obj m
    \<and> (if dirty_space (mem_rt m) < MEM_DEFRAG_THRESHOLD then m' = m
       else dirty_space (mem_rt m') = 0 \<and> free_space (mem_rt m') = free_space (mem_rt m) + dirty_space (mem_rt m))"
proof -
  obtain bs where rep: "mem_rep bs m" using assms by (auto simp: mem_inv_def)
  obtain m' where m': "mem2_v_collect_garbage m = Some m'"
    "mem_rep (if dirty_space (mem_rt m) < MEM_DEFRAG_THRESHOLD then bs else clean_blocks bs) m'"
    "dirty_space (mem_rt m) < MEM_DEFRAG_THRESHOLD \<longrightarrow> m' = m"
    using collect_rep [OF rep] by blast
  have "mem_obj m' = mem_obj m"
    by (rule mem_obj_same [OF rep m'(2)]) (simp add: find_obj_clean)
  then show ?thesis
    using m' by (auto simp: mem_inv_def mem2_v_collect_garbage_def mem2_u16_get_dirty_def Let_def opt_simps
        split: if_splits prod.splits)
qed

lemma store_object:
  assumes "mem_inv m" and "mem_obj m h = Some (t, old)" and "off + length bytes \<le> length old"
  shows "\<exists>m'. store_at h off bytes m = Some m' \<and> mem_inv m' \<and> m' = m\<lparr>mem_heap := mem_heap m'\<rparr>
    \<and> mem_obj m' = (mem_obj m)(h \<mapsto> (t, put_bytes old off bytes))"
proof -
  obtain bs where rep: "mem_rep bs m" using assms(1) by (auto simp: mem_inv_def)
  obtain xs b ys where bs: "bs = xs @ b # ys" and b: "\<not> blk_dirty b" "sint (unswizzle h) = int (blk_handle b)"
    and h: "h = word_of_nat (blk_handle b + 1)" "(t, old) = blk_obj b" "blk_handle b < MAX_MEM_HANDLES"
    by (rule live_split [OF rep assms(2)])
  have rep: "mem_rep (xs @ b # ys) m" using rep by (simp only: bs)
  then have ok: "handles_distinct (xs @ b # ys)" "block_ok b" by (simp_all add: mem_rep_def)
  have len: "length old = unat (blk_size b) - unat (blk_pad b)"
    using blk_obj_length [OF ok(2)] by (simp add: h(2) [symmetric])
  have fits: "off + length bytes \<le> unat (blk_size b)" using assms(3) len by linarith
  let ?b = "b\<lparr>blk_data := put_bytes (blk_data b) off bytes\<rparr>"
  obtain m' where m': "store_at h off bytes m = Some m'" "m' = m\<lparr>mem_heap := mem_heap m'\<rparr>" "mem_rep (xs @ ?b # ys) m'"
    using store_rep [OF rep b fits] by blast
  have "blk_obj ?b = (t, put_bytes old off bytes)"
    using h(2) assms(3) len ok(2)
    by (simp add: blk_obj_def block_ok_def take_put_bytes)
  then have "mem_obj m' = (mem_obj m)(word_of_nat (blk_handle b + 1) := Some (t, put_bytes old off bytes))"
    using find_obj_other [OF ok(1) b(1)] b(1)
    by (intro mem_obj_update [OF rep m'(3) h(3)]) (simp add: find_obj_append find_obj_Cons split: option.split)
  then show ?thesis using m' by (auto simp: mem_inv_def h(1) simp del: of_nat_add)
qed

lemma realloc_object:
  assumes "mem_inv m" and "mem_obj m h = Some (t, old)" and "unat s < 65532" and "length old \<le> unat s"
  shows "\<exists>status m'. mem2_i8_realloc h s m = Some (status, m') \<and> mem_inv m'
    \<and> (if alloc_fails s m then status = - 1 \<and> mem_obj m' = mem_obj m
       else status = 0 \<and> (\<exists>bytes. length bytes = unat s \<and> take (length old) bytes = old
              \<and> mem_obj m' = (mem_obj m)(h \<mapsto> (t, bytes))))"
proof -
  obtain bs where rep: "mem_rep bs m" using assms(1) by (auto simp: mem_inv_def)
  obtain xs b ys where bs: "bs = xs @ b # ys" and b: "\<not> blk_dirty b" "sint (unswizzle h) = int (blk_handle b)"
    and h: "h = word_of_nat (blk_handle b + 1)" "(t, old) = blk_obj b" "blk_handle b < MAX_MEM_HANDLES"
    by (rule live_split [OF rep assms(2)])
  have rep: "mem_rep (xs @ b # ys) m" using rep by (simp only: bs)
  then have ok: "handles_distinct (xs @ b # ys)" "block_ok b" by (simp_all add: mem_rep_def)
  have len: "length old = unat (blk_size b) - unat (blk_pad b)"
    using blk_obj_length [OF ok(2)] by (simp add: h(2) [symmetric])
  show ?thesis
  proof (cases "alloc_fails s m")
    case True
    let ?m = "m\<lparr>mem_alloc_fails := mem_alloc_fails m + 1\<rparr>"
    have rep': "mem_rep (xs @ b # ys) ?m" using rep by simp
    then have "mem_inv ?m" "mem_obj ?m = mem_obj m" using mem_obj_same [OF rep rep'] by (auto simp: mem_inv_def)
    then show ?thesis
      using alloc_failed [OF assms(3) True] True header_of_split [OF rep b]
      by (simp add: mem2_i8_realloc_def Let_def)
  next
    case False
    have grows: "unat (blk_size b) - unat (blk_pad b) \<le> unat s" using assms(4) len by simp
    obtain i bytes m' where re: "mem2_i8_realloc h s m = Some (0, m')" "place 0 (xs @ b # ys) i = None"
      "mem_rep (xs @ b\<lparr>blk_dirty := True\<rparr> # ys
           @ [(new_block s (blk_type b) (blk_handle b) bytes)\<lparr>blk_data := put_bytes bytes 0 (blk_data b)\<rparr>]) m'"
      "length bytes = unat s + padding_for s"
      by (rule realloc_rep [OF rep b assms(3) False grows])
    let ?c = "(new_block s (blk_type b) (blk_handle b) bytes)\<lparr>blk_data := put_bytes bytes 0 (blk_data b)\<rparr>"
    note c = new_block_facts [OF assms(3), of "blk_type b" "blk_handle b" bytes]
    have "mem_obj m' = (mem_obj m)(word_of_nat (blk_handle b + 1) := Some (blk_obj ?c))"
      using find_obj_other [OF ok(1) b(1)] b(1) c
      by (intro mem_obj_update [OF rep re(3) h(3)]) (auto simp: find_obj_append find_obj_Cons split: option.split)
    moreover have t: "blk_obj ?c = (t, take (unat s) (put_bytes bytes 0 (blk_data b)))"
      using h(2) c by (simp add: blk_obj_def)
    moreover have "length (take (unat s) (put_bytes bytes 0 (blk_data b))) = unat s"
      using re(4) block_sizes_mono [OF ok(2) grows] ok(2) by (simp add: block_ok_def)
    moreover have "take (length old) (take (unat s) (put_bytes bytes 0 (blk_data b))) = old"
      using h(2) len assms(4) ok(2) by (simp add: blk_obj_def put_bytes_def block_ok_def min_def)
    moreover have "mem_inv m'" using re(3) by (auto simp: mem_inv_def)
    ultimately show ?thesis
      using re(1) False unfolding h(1) [symmetric] by (simp only: if_False) blast
  qed
qed

section \<open>Isolation of an object\<close>

text \<open>
  What others may do while an object is alive: allocate, release, grow or write their own objects,
  and collect garbage.
\<close>

inductive pool_step :: "i16 \<Rightarrow> mem_state \<Rightarrow> mem_state \<Rightarrow> bool" for h where
  step_alloc: "mem2_h_alloc2 s t m = Some (k, m') \<Longrightarrow> unat s < 65532 \<Longrightarrow> pool_step h m m'"
| step_free: "mem2_v_free k m = Some m' \<Longrightarrow> k \<noteq> h \<Longrightarrow> pool_step h m m'"
| step_realloc: "mem2_i8_realloc k s m = Some (status, m') \<Longrightarrow> k \<noteq> h \<Longrightarrow> mem_obj m k = Some (t, old) \<Longrightarrow>
    length old \<le> unat s \<Longrightarrow> unat s < 65532 \<Longrightarrow> pool_step h m m'"
| step_store: "store_at k off bytes m = Some m' \<Longrightarrow> k \<noteq> h \<Longrightarrow> mem_obj m k = Some (t, old) \<Longrightarrow>
    off + length bytes \<le> length old \<Longrightarrow> pool_step h m m'"
| step_collect: "mem2_v_collect_garbage m = Some m' \<Longrightarrow> pool_step h m m'"

text \<open>A store of objects whose steps keep the invariant and every object they do not own.\<close>

locale object_store =
  fixes inv :: "'s \<Rightarrow> bool"
    and obj :: "'s \<Rightarrow> 'h \<Rightarrow> 'o option"
    and others :: "'h \<Rightarrow> 's \<Rightarrow> 's \<Rightarrow> bool"
  assumes others_keep: "others h s s' \<Longrightarrow> inv s \<Longrightarrow> obj s h = Some x \<Longrightarrow> inv s' \<and> obj s' h = Some x"
begin

lemma isolated:
  assumes "(others h)\<^sup>*\<^sup>* s s'" and "inv s" and "obj s h = Some x"
  shows "inv s' \<and> obj s' h = Some x"
  using assms by (induction rule: rtranclp_induct) (auto dest: others_keep)

end

lemma pool_step_keeps:
  assumes "pool_step h m m'" and "mem_inv m" and "mem_obj m h = Some x"
  shows "mem_inv m' \<and> mem_obj m' h = Some x"
  using assms(1)
proof (cases rule: pool_step.cases)
  case (step_alloc s t k)
  then show ?thesis
    using alloc_object [OF assms(2) step_alloc(2), of t] assms(3) by (auto simp: mem2_h_alloc2_def split: if_splits)
next
  case (step_free k)
  show ?thesis
  proof (cases "mem_obj m k")
    case None
    then show ?thesis using step_free free_dead [OF None] assms(2,3) by (simp split: if_splits)
  next
    case (Some y)
    then show ?thesis using step_free free_object [OF assms(2) Some] assms(3) by auto
  qed
next
  case (step_realloc k s status t old)
  then show ?thesis
    using realloc_object [OF assms(2) step_realloc(3,5,4)] assms(3) by (auto split: if_splits)
next
  case (step_store k off bytes t old)
  then show ?thesis using store_object [OF assms(2) step_store(3,4)] assms(3) by auto
next
  case step_collect
  then show ?thesis using collect_object [OF assms(2)] assms(3) by auto
qed

interpretation pool: object_store mem_inv mem_obj pool_step
  by unfold_locales (rule pool_step_keeps)

section \<open>Properties\<close>

text \<open>A pool of 64 bytes.\<close>

definition sample_pool :: mem_state where
  "sample_pool = mem2_v_init (replicate 64 0) 64 \<lparr>mem_heap = [], mem_handles = [], free_space_ptr = 0,
     mem_rt = \<lparr>heap_size = 0, handles_used = 0, free_space = 0, used_space = 0, dirty_space = 0,
               data_space = 0, peak_usage = 0\<rparr>, mem_allocs = 0, mem_alloc_fails = 0\<rparr>"

lemma sample_pool_inv: "mem_inv sample_pool"
  unfolding sample_pool_def mem_inv_def using init_rep [of "replicate 64 0" 64] by auto

lemma sample_pool_free: "unat s \<le> 40 \<Longrightarrow> \<not> alloc_fails s sample_pool"
  using padding_bounds(2) [of s]
  by (auto simp: alloc_fails_def sample_pool_def mem2_v_init_def intro!: exI [of _ 0])

lemma sample_object:
  obtains m h bytes where "mem_inv m" and "mem_obj m h = Some (3, bytes)" and "length bytes = 5"
proof -
  have "\<not> alloc_fails 5 sample_pool" using sample_pool_free [of 5] by simp
  then obtain h m' bytes where "mem_inv m'" "length bytes = 5" "mem_obj m' = (mem_obj sample_pool)(h \<mapsto> (3, bytes))"
    using alloc_object [OF sample_pool_inv, of 5 3] by auto
  then show thesis by (intro that [of m' h bytes]) simp_all
qed

text \<open>
  C32 Allocation: unless the free space is too small for the padded block or all 256 handles
  are taken, it returns a handle between 1 and 256 that was not in use, behind which is an object of
  the given type and exactly the given number of bytes, which the pool reports as its size and which
  verifies; every other object is untouched.  If it fails it returns -1 and changes no object.
\<close>

theorem mem_alloc_correct:
  assumes "mem_inv m" and "unat s < 65532"
  shows "\<exists>h m'. mem2_h_alloc2 s t m = Some (h, m') \<and> mem_inv m'
    \<and> (if alloc_fails s m then h = - 1 \<and> mem_obj m' = mem_obj m
       else 0 < sint h \<and> sint h \<le> 256 \<and> mem_obj m h = None
          \<and> (\<exists>bytes. length bytes = unat s \<and> mem_obj m' = (mem_obj m)(h \<mapsto> (t, bytes)))
          \<and> mem2_u16_get_size h m' = Some s \<and> mem_b2_verify_handle h m' = Some True)"
proof -
  obtain h m' where al: "alloc s t m = Some (h, m')" "mem_inv m'" and obj: "if alloc_fails s m then h = - 1 \<and> mem_obj m' = mem_obj m
       else mem_obj m h = None \<and> (\<exists>bytes. length bytes = unat s \<and> mem_obj m' = (mem_obj m)(h \<mapsto> (t, bytes)))"
    using alloc_object [OF assms] by blast
  show ?thesis
  proof (cases "alloc_fails s m")
    case False
    then obtain bytes where "length bytes = unat s" "mem_obj m' = (mem_obj m)(h \<mapsto> (t, bytes))" "mem_obj m h = None"
      using obj by auto
    then show ?thesis using live_handle [OF al(2), of h t bytes] al False by (auto simp: mem2_h_alloc2_def)
  qed (use al obj in \<open>auto simp: mem2_h_alloc2_def\<close>)
qed

lemma mem_alloc_correct_witness:
  "\<exists>h m' bytes. mem2_h_alloc2 5 3 sample_pool = Some (h, m') \<and> 0 < sint h \<and> mem_obj m' h = Some (3, bytes) \<and> length bytes = 5"
proof -
  have f: "\<not> alloc_fails 5 sample_pool" using sample_pool_free [of 5] by simp
  then show ?thesis using mem_alloc_correct [OF sample_pool_inv, of 5 3] by auto
qed

text \<open>
  C33 Release: a live handle's object is gone afterwards and no other object changes; the space
  is not free before the next collection.  Releasing a handle without an object, as a second release
  does, is undefined; only a handle below 1 is ignored.
\<close>

theorem mem_free_correct:
  assumes "mem_inv m"
  shows "case mem_obj m h of
      Some obj \<Rightarrow> (\<exists>m'. mem2_v_free h m = Some m' \<and> mem_inv m' \<and> mem_obj m' = (mem_obj m)(h := None)
                 \<and> mem2_u16_get_free m' = mem2_u16_get_free m \<and> mem2_v_free h m' = None)
    | None \<Rightarrow> mem2_v_free h m = (if sint (unswizzle h) < 0 then Some m else None)"
proof (cases "mem_obj m h")
  case (Some obj)
  have "0 \<le> sint (unswizzle h)"
    using Some by (auto simp: mem_obj_def header_of_def rd_at_def split: option.splits if_splits)
  moreover obtain m' where "mem2_v_free h m = Some m'" "mem_inv m'" "mem_obj m' = (mem_obj m)(h := None)"
    "free_space (mem_rt m') = free_space (mem_rt m)"
    using free_object [OF assms Some] by blast
  ultimately show ?thesis using Some free_dead [of m' h] by (simp add: mem2_u16_get_free_def)
qed (simp add: free_dead)

lemma mem_free_correct_witness:
  "\<exists>m h m'. mem_obj m h \<noteq> None \<and> mem2_v_free h m = Some m' \<and> mem_obj m' h = None \<and> mem2_v_free h m' = None"
proof -
  obtain m h bytes where m: "mem_inv m" "mem_obj m h = Some (3, bytes)" by (rule sample_object)
  then obtain m' where "mem2_v_free h m = Some m'" "mem_obj m' = (mem_obj m)(h := None)" "mem2_v_free h m' = None"
    using mem_free_correct [OF m(1), of h] by auto
  then show ?thesis using m(2) by (intro exI [of _ m] exI [of _ h] exI [of _ m']) simp
qed



text \<open>
  C35 Reallocation to at least the old size keeps the handle, the type and the old bytes and
  gives the new length, every other object is untouched; if it fails nothing changes.
\<close>

theorem mem_realloc_correct:
  assumes "mem_inv m" and "mem_obj m h = Some (t, old)" and "length old \<le> unat s" and "unat s < 65532"
  shows "\<exists>status m'. mem2_i8_realloc h s m = Some (status, m') \<and> mem_inv m'
    \<and> (if alloc_fails s m then status = - 1 \<and> mem_obj m' = mem_obj m
       else status = 0 \<and> (\<exists>bytes. length bytes = unat s \<and> take (length old) bytes = old
              \<and> mem_obj m' = (mem_obj m)(h \<mapsto> (t, bytes))))"
  by (rule realloc_object [OF assms(1,2,4,3)])

lemma mem_realloc_correct_witness:
  "\<exists>m h old status m'. length old = 5 \<and> mem_obj m h = Some (3, old) \<and> mem2_i8_realloc h 9 m = Some (status, m') \<and> mem_inv m'"
proof -
  obtain m h bytes where m: "mem_inv m" "mem_obj m h = Some (3, bytes)" "length bytes = 5" by (rule sample_object)
  then obtain status m' where "mem2_i8_realloc h 9 m = Some (status, m')" "mem_inv m'"
    using mem_realloc_correct [OF m(1,2), of 9] by auto
  then show ?thesis using m by blast
qed



text \<open>
  C37 The padded size of a request above 65532 bytes wraps around to 1 before it is compared
  with the free space: with 8 free bytes and a free handle the allocation succeeds, and the pool
  reports the requested size for a block that took 8 bytes.
\<close>

theorem mem_alloc_wraps:
  assumes "mem_inv m" and "65533 \<le> unat s" and "8 \<le> mem2_u16_get_free m" and "i < MAX_MEM_HANDLES"
    and "mem_handles m ! i = None"
  shows "\<exists>h m'. mem2_h_alloc2 s t m = Some (h, m') \<and> 0 < sint h
    \<and> mem2_u16_get_free m' = mem2_u16_get_free m - 8 \<and> mem2_u16_get_size h m' = Some s"
proof -
  obtain bs where rep: "mem_rep bs m" using assms(1) by (auto simp: mem_inv_def)
  have heap: "length (mem_heap m) = free_space_ptr m + unat (free_space (mem_rt m))" "length (mem_handles m) = 256"
    using rep by (simp_all add: mem_rep_def handle_table_def)
  have free: "8 \<le> unat (free_space (mem_rt m))" using assms(3) by (simp add: mem2_u16_get_free_def word_le_nat_alt)
  obtain i where find: "find (\<lambda>i. mem_handles m ! i = None) [0..<MAX_MEM_HANDLES] = Some i"
    using assms(4,5) by (cases "find (\<lambda>i. mem_handles m ! i = None) [0..<MAX_MEM_HANDLES]") (auto simp: find_None_iff)
  then have i: "i < MAX_MEM_HANDLES" by (auto simp: find_Some_iff)
  have "unat s = 65533 \<or> unat s = 65534 \<or> unat s = 65535" using assms(2) unat16_less [of s] by linarith
  then have "s = 65533 \<or> s = 65534 \<or> s = 65535" by (simp add: word_unat_eq_iff)
  then have pad: "s + word_of_nat (padding_for s) = 1" "1 - ucast (word_of_nat (padding_for s) :: u8) = s"
    by (auto simp: padding_for_def)
  let ?p = "free_space_ptr m"
  let ?hdr = "\<lparr>hdr_size = 1, hdr_handle = word_of_nat i, hdr_type = t, hdr_padding_len = word_of_nat (padding_for s)\<rparr>"
  have n: "MEM_BLOCK_SIZE ?hdr = 8" by (simp add: MEM_BLOCK_SIZE_def)
  let ?post = "(drop (?p + HDR) (mem_heap m)) [1 := CANARY_VALUE]"
  have put: "put_bytes (mem_heap m) ?p (header_bytes ?hdr) = (take ?p (mem_heap m) @ header_bytes ?hdr) @ drop (?p + HDR) (mem_heap m)"
    by (simp add: put_bytes_def)
  have upd: "(xs @ ys) [length xs + 1 := v] = xs @ ys [1 := v]" for xs ys :: "u8 list" and v
    by (simp add: list_update_append)
  have at: "CANARY_PTR ?p ?hdr = length (take ?p (mem_heap m) @ header_bytes ?hdr) + 1"
    using heap(1) by (simp add: CANARY_PTR_def n)
  have "(put_bytes (mem_heap m) ?p (header_bytes ?hdr)) [CANARY_PTR ?p ?hdr := CANARY_VALUE]
      = take ?p (mem_heap m) @ header_bytes ?hdr @ ?post"
    by (simp only: put at upd) (simp only: append_assoc)
  then have canary: "wr (put_bytes (mem_heap m) ?p (header_bytes ?hdr)) (CANARY_PTR ?p ?hdr) CANARY_VALUE
      = Some (take ?p (mem_heap m) @ header_bytes ?hdr @ ?post)"
    using heap(1) free by (simp add: wr_def CANARY_PTR_def n)
  obtain m' where m': "alloc s t m = Some (word_of_nat (i + 1), m')"
      "mem_heap m' = take ?p (mem_heap m) @ header_bytes ?hdr @ ?post" "mem_handles m' = (mem_handles m)[i := Some ?p]"
      "free_space (mem_rt m') = free_space (mem_rt m) - 8"
    using alloc_done [OF refl _ find, of s "(mem_handles m)[i := Some ?p]" t
        "put_bytes (mem_heap m) ?p (header_bytes ?hdr)" "take ?p (mem_heap m) @ header_bytes ?hdr @ ?post" 8]
      canary n heap i free unfolding pad by (simp add: wr_header_def)
  have "rd_header (mem_heap m') ?p = Some ?hdr"
    using rd_header_bytes [of "take ?p (mem_heap m)" ?hdr ?post] heap(1) by (simp add: m'(2))
  then have "header_of m' (unswizzle (word_of_nat (i + 1))) = Some (?p, ?hdr)"
    using i heap(2) unswizzle_handle [OF i] by (simp add: header_of_def m'(3) rd_at_def)
  then have "mem2_u16_get_size (word_of_nat (i + 1)) m' = Some s"
    using pad(2) by (simp add: mem2_u16_get_size_def)
  moreover have "0 < sint (word_of_nat (i + 1) :: i16)"
    using sint_word_of_int16 [of "int (i + 1)"] i by simp
  ultimately show ?thesis using m' by (auto simp: mem2_h_alloc2_def mem2_u16_get_free_def)
qed

lemma mem_alloc_wraps_witness:
  "\<exists>h m'. mem2_h_alloc2 65533 0 sample_pool = Some (h, m') \<and> mem2_u16_get_size h m' = Some 65533"
proof -
  have "8 \<le> mem2_u16_get_free sample_pool" "mem_handles sample_pool ! 0 = None"
    by (simp_all add: sample_pool_def mem2_v_init_def mem2_u16_get_free_def)
  then show ?thesis using mem_alloc_wraps [OF sample_pool_inv, of 65533 0 0] by auto
qed

end
