(* ===== verification/Node_List.thy ===== *)
theory Node_List
  imports Memory_Objects
begin

text \<open>
  The doubly linked lists of \<open>src/src/chromatron_wifi/src/list.c\<close>, whose nodes are objects of
  the memory pool: two links of 16 bits in front of the data.  A list refers to its nodes by handle;
  -1 is no node.  The assertions of the file and \<open>ATOMIC\<close> are compiled out.
\<close>

section \<open>Data\<close>

record list_t =
  list_init :: u8
  list_head :: i16
  list_tail :: i16

text \<open>
  \<open>list_node_state_t\<close>: the links at offsets 0 and 2, the first byte of the data at offset 4; with
  its trailing padding the struct has 6 bytes.
\<close>

abbreviation (input) NODE_OVERHEAD :: u16 where "NODE_OVERHEAD \<equiv> 5"
abbreviation (input) NODE_DATA :: nat where "NODE_DATA \<equiv> 4"

definition node_prev :: "nat \<Rightarrow> mem_state \<Rightarrow> i16 option" where
  "node_prev state m = rd16 (mem_heap m) state"

definition node_next :: "nat \<Rightarrow> mem_state \<Rightarrow> i16 option" where
  "node_next state m = rd16 (mem_heap m) (state + 2)"

definition set_node_prev :: "nat \<Rightarrow> i16 \<Rightarrow> mem_state \<Rightarrow> mem_state option" where
  "set_node_prev state n m = do {
     heap \<leftarrow> wr16 (mem_heap m) state n;
     Some (m\<lparr>mem_heap := heap\<rparr>) }"

definition set_node_next :: "nat \<Rightarrow> i16 \<Rightarrow> mem_state \<Rightarrow> mem_state option" where
  "set_node_next state n m = do {
     heap \<leftarrow> wr16 (mem_heap m) (state + 2) n;
     Some (m\<lparr>mem_heap := heap\<rparr>) }"

section \<open>Operations\<close>

definition list_v_init :: "list_t \<Rightarrow> list_t" where
  "list_v_init l = l\<lparr>list_head := - 1, list_tail := - 1, list_init := 1\<rparr>"

text \<open>The data to copy is \<^term>\<open>None\<close> for a null pointer; reading behind its end is undefined.\<close>

definition list_ln_create_node2 :: "u8 list option \<Rightarrow> u16 \<Rightarrow> u8 \<Rightarrow> mem_state \<Rightarrow> (i16 \<times> mem_state) option" where
  "list_ln_create_node2 data len type m = do {
     (h, m) \<leftarrow> mem2_h_alloc2 (NODE_OVERHEAD + len) type m;
     if sint h < 0 then Some (h, m)
     else do {
       state \<leftarrow> mem2_vp_get_ptr h m;
       m \<leftarrow> set_node_prev state (- 1) m;
       m \<leftarrow> set_node_next state (- 1) m;
       case data of
         None \<Rightarrow> Some (h, m)
       | Some bytes \<Rightarrow> do {
           require (unat len \<le> length bytes);
           require (state + NODE_DATA + unat len \<le> length (mem_heap m));
           Some (h, m\<lparr>mem_heap := put_bytes (mem_heap m) (state + NODE_DATA) (take (unat len) bytes)\<rparr>) } } }"

definition list_ln_create_node :: "u8 list option \<Rightarrow> u16 \<Rightarrow> mem_state \<Rightarrow> (i16 \<times> mem_state) option" where
  "list_ln_create_node data len m = list_ln_create_node2 data len MEM_TYPE_UNKNOWN m"

definition list_v_release_node :: "i16 \<Rightarrow> mem_state \<Rightarrow> mem_state option" where
  "list_v_release_node node m = mem2_v_free node m"

definition list_u16_node_size :: "i16 \<Rightarrow> mem_state \<Rightarrow> u16 option" where
  "list_u16_node_size node m = do {
     sz \<leftarrow> mem2_u16_get_size node m;
     Some (sz - NODE_OVERHEAD) }"

definition list_vp_get_data :: "i16 \<Rightarrow> mem_state \<Rightarrow> nat option" where
  "list_vp_get_data node m = do {
     state \<leftarrow> mem2_vp_get_ptr node m;
     Some (state + NODE_DATA) }"

definition list_ln_next :: "i16 \<Rightarrow> mem_state \<Rightarrow> i16 option" where
  "list_ln_next node m = do {
     state \<leftarrow> mem2_vp_get_ptr node m;
     node_next state m }"

definition list_ln_prev :: "i16 \<Rightarrow> mem_state \<Rightarrow> i16 option" where
  "list_ln_prev node m = do {
     state \<leftarrow> mem2_vp_get_ptr node m;
     node_prev state m }"

text \<open>The walks along a list may not end on a list that is damaged: then they are \<^term>\<open>None\<close>.\<close>

partial_function (option) count_from :: "mem_state \<Rightarrow> i16 \<Rightarrow> u8 \<Rightarrow> u8 option" where
  "count_from m node n =
     (if sint node \<ge> 0
      then do {
        next_node \<leftarrow> list_ln_next node m;
        count_from m next_node (n + 1) }
      else Some n)"

definition list_u8_count :: "list_t \<Rightarrow> mem_state \<Rightarrow> u8 option" where
  "list_u8_count l m = count_from m (list_head l) 0"

partial_function (option) size_from :: "mem_state \<Rightarrow> i16 \<Rightarrow> u16 \<Rightarrow> u16 option" where
  "size_from m node sz =
     (if sint node \<ge> 0
      then do {
        n \<leftarrow> list_u16_node_size node m;
        next_node \<leftarrow> list_ln_next node m;
        size_from m next_node (sz + n) }
      else Some sz)"

definition list_u16_size :: "list_t \<Rightarrow> mem_state \<Rightarrow> u16 option" where
  "list_u16_size l m = size_from m (list_head l) 0"

definition list_v_insert_after :: "list_t \<Rightarrow> i16 \<Rightarrow> i16 \<Rightarrow> mem_state \<Rightarrow> (list_t \<times> mem_state) option" where
  "list_v_insert_after l node new_node m = do {
     state \<leftarrow> mem2_vp_get_ptr node m;
     new_state \<leftarrow> mem2_vp_get_ptr new_node m;
     m \<leftarrow> set_node_prev new_state node m;
     nx \<leftarrow> node_next state m;
     m \<leftarrow> set_node_next new_state nx m;
     nx \<leftarrow> node_next state m;
     (l, m) \<leftarrow> (if sint nx < 0 then Some (l\<lparr>list_tail := new_node\<rparr>, m)
               else do {
                 next_state \<leftarrow> mem2_vp_get_ptr nx m;
                 m \<leftarrow> set_node_prev next_state new_node m;
                 Some (l, m) });
     m \<leftarrow> set_node_next state new_node m;
     Some (l, m) }"

definition list_v_insert_tail :: "list_t \<Rightarrow> i16 \<Rightarrow> mem_state \<Rightarrow> (list_t \<times> mem_state) option" where
  "list_v_insert_tail l node m = do {
     state \<leftarrow> mem2_vp_get_ptr node m;
     if sint (list_tail l) < 0
     then do {
       let l = l\<lparr>list_head := node, list_tail := node\<rparr>;
       m \<leftarrow> set_node_prev state (- 1) m;
       m \<leftarrow> set_node_next state (- 1) m;
       Some (l, m) }
     else list_v_insert_after l (list_tail l) node m }"

definition list_v_insert_head :: "list_t \<Rightarrow> i16 \<Rightarrow> mem_state \<Rightarrow> (list_t \<times> mem_state) option" where
  "list_v_insert_head l node m = do {
     state \<leftarrow> mem2_vp_get_ptr node m;
     if sint (list_head l) < 0
     then do {
       let l = l\<lparr>list_head := node, list_tail := node\<rparr>;
       m \<leftarrow> set_node_prev state (- 1) m;
       m \<leftarrow> set_node_next state (- 1) m;
       Some (l, m) }
     else do {
       head \<leftarrow> mem2_vp_get_ptr (list_head l) m;
       m \<leftarrow> set_node_prev head node m;
       m \<leftarrow> set_node_prev state (- 1) m;
       m \<leftarrow> set_node_next state (list_head l) m;
       Some (l\<lparr>list_head := node\<rparr>, m) } }"

definition list_v_remove :: "list_t \<Rightarrow> i16 \<Rightarrow> mem_state \<Rightarrow> (list_t \<times> mem_state) option" where
  "list_v_remove l node m = do {
     state \<leftarrow> mem2_vp_get_ptr node m;
     pv \<leftarrow> node_prev state m;
     (l, m) \<leftarrow> (if sint pv < 0
               then do {
                 nx \<leftarrow> node_next state m;
                 Some (l\<lparr>list_head := nx\<rparr>, m) }
               else do {
                 prev_state \<leftarrow> mem2_vp_get_ptr pv m;
                 nx \<leftarrow> node_next state m;
                 m \<leftarrow> set_node_next prev_state nx m;
                 Some (l, m) });
     nx \<leftarrow> node_next state m;
     (if sint nx < 0
      then do {
        pv \<leftarrow> node_prev state m;
        Some (l\<lparr>list_tail := pv\<rparr>, m) }
      else do {
        next_state \<leftarrow> mem2_vp_get_ptr nx m;
        pv \<leftarrow> node_prev state m;
        m \<leftarrow> set_node_prev next_state pv m;
        Some (l, m) }) }"

definition list_ln_remove_tail :: "list_t \<Rightarrow> mem_state \<Rightarrow> (i16 \<times> list_t \<times> mem_state) option" where
  "list_ln_remove_tail l m =
     (let tail = list_tail l
      in if sint tail \<ge> 0
         then do {
           (l, m) \<leftarrow> list_v_remove l (list_tail l) m;
           Some (tail, l, m) }
         else Some (tail, l, m))"

fun index_from :: "mem_state \<Rightarrow> i16 \<Rightarrow> nat \<Rightarrow> i16 option" where
  "index_from m node 0 = Some node"
| "index_from m node (Suc k) =
     (if sint node \<ge> 0
      then do {
        next_node \<leftarrow> list_ln_next node m;
        index_from m next_node k }
      else Some node)"

definition list_ln_index :: "list_t \<Rightarrow> u16 \<Rightarrow> mem_state \<Rightarrow> i16 option" where
  "list_ln_index l index m = index_from m (list_head l) (unat index)"

definition list_b_is_empty :: "list_t \<Rightarrow> bool" where
  "list_b_is_empty l \<longleftrightarrow> sint (list_head l) < 0"

partial_function (option) destroy_from :: "i16 \<Rightarrow> mem_state \<Rightarrow> mem_state option" where
  "destroy_from node m =
     (if sint node \<ge> 0
      then do {
        next_node \<leftarrow> list_ln_next node m;
        m \<leftarrow> list_v_release_node node m;
        destroy_from next_node m }
      else Some m)"

definition list_v_destroy :: "list_t \<Rightarrow> mem_state \<Rightarrow> (list_t \<times> mem_state) option" where
  "list_v_destroy l m =
     (if list_init l = 0 then Some (l, m)
      else do {
        m \<leftarrow> destroy_from (list_head l) m;
        Some (list_v_init l, m) })"

text \<open>
  \<open>list_u16_flatten\<close>: the bytes that it writes to the destination, one behind the other, and
  their number.  \<open>pos < current_pos + node_size\<close> is computed in \<open>int\<close>.
\<close>

partial_function (option) flatten_from ::
    "mem_state \<Rightarrow> i16 \<Rightarrow> u16 \<Rightarrow> u16 \<Rightarrow> u16 \<Rightarrow> u16 \<Rightarrow> u8 list \<Rightarrow> (u16 \<times> u8 list) option" where
  "flatten_from m node pos len current_pos data_copied out =
     (if sint node \<ge> 0 \<and> len > 0
      then do {
        node_size \<leftarrow> list_u16_node_size node m;
        (pos, len, data_copied, out) \<leftarrow>
          (if pos \<ge> current_pos \<and> unat pos < unat current_pos + unat node_size
           then do {
             let offset = pos - current_pos;
             let copy_len = node_size - offset;
             let copy_len = (if copy_len > len then len else copy_len);
             p \<leftarrow> list_vp_get_data node m;
             require (p + unat offset + unat copy_len \<le> length (mem_heap m));
             Some (pos + copy_len, len - copy_len, data_copied + copy_len,
               out @ take (unat copy_len) (drop (p + unat offset) (mem_heap m))) }
           else Some (pos, len, data_copied, out));
        next_node \<leftarrow> list_ln_next node m;
        flatten_from m next_node pos len (current_pos + node_size) data_copied out }
      else Some (data_copied, out))"

definition list_u16_flatten :: "list_t \<Rightarrow> u16 \<Rightarrow> u16 \<Rightarrow> mem_state \<Rightarrow> (u16 \<times> u8 list) option" where
  "list_u16_flatten l pos len m = flatten_from m (list_head l) pos len 0 0 []"

end
