(* ===== verification/Node_List_Spec.thy ===== *)
theory Node_List_Spec
  imports Node_List
begin

text \<open>
  The linked lists as sequences of nodes: every operation of the list module on a well-formed list
  is the corresponding operation on the sequence, and touches nothing but the links of nodes.
\<close>

section \<open>Nodes\<close>

text \<open>The links and the rest of a node, of an object that is large enough to be one.\<close>

definition links :: "mem_state \<Rightarrow> i16 \<Rightarrow> (i16 \<times> i16) option" where
  "links m h = do {
     (t, bytes) \<leftarrow> mem_obj m h;
     require (5 \<le> length bytes);
     p \<leftarrow> rd16 bytes 0;
     n \<leftarrow> rd16 bytes 2;
     Some (p, n) }"

definition payload :: "mem_state \<Rightarrow> i16 \<Rightarrow> (u8 \<times> u8 list) option" where
  "payload m h = do {
     (t, bytes) \<leftarrow> mem_obj m h;
     require (5 \<le> length bytes);
     Some (t, take (length bytes - 5) (drop NODE_DATA bytes)) }"

lemma links_obj:
  assumes "links m h = Some (p, n)"
  obtains t bytes where "mem_obj m h = Some (t, bytes)" and "5 \<le> length bytes"
    and "rd16 bytes 0 = Some p" and "rd16 bytes 2 = Some n"
  using assms by (auto simp: links_def opt_simps)

lemma links_payload: "(links m h = None) = (payload m h = None)"
  by (cases "mem_obj m h") (auto simp: links_def payload_def rd16_at require_def)

text \<open>The bytes of a live object are where its pointer says.\<close>

lemma obj_bytes:
  assumes "mem_inv m" and "mem_obj m h = Some (t, bytes)"
  obtains p where "mem2_vp_get_ptr h m = Some p" and "p + length bytes \<le> length (mem_heap m)"
    and "take (length bytes) (drop p (mem_heap m)) = bytes"
proof -
  obtain p hdr where hdr: "header_of m (unswizzle h) = Some (p, hdr)"
    and bytes: "bytes = take (unat (hdr_size hdr) - unat (hdr_padding_len hdr)) (drop (p + HDR) (mem_heap m))"
    using assms(2) by (auto simp: mem_obj_def split: option.splits)
  have ptr: "mem2_vp_get_ptr h m = Some (p + HDR)"
    using hdr by (auto simp: header_of_def mem2_vp_get_ptr_def opt_simps)
  have "p + HDR \<le> length (mem_heap m)"
    using hdr by (auto simp: header_of_def opt_simps dest: rd_header_Some_length)
  moreover have "take (length bytes) (drop (p + HDR) (mem_heap m)) = bytes"
    unfolding bytes by (simp add: min_def)
  ultimately show thesis using bytes by (intro that [OF ptr]) simp_all
qed

lemma rd16_take_drop:
  assumes "take n (drop p xs) = bytes" and "a + 2 \<le> length bytes"
  shows "rd16 xs (p + a) = rd16 bytes a"
  using assms by (auto simp: rd16_at add.assoc)

lemma node_fields:
  assumes "mem_inv m" and "links m h = Some (p, n)" and "mem2_vp_get_ptr h m = Some q"
  shows "node_prev q m = Some p" and "node_next q m = Some n"
proof -
  obtain t bytes where obj: "mem_obj m h = Some (t, bytes)" "5 \<le> length bytes" "rd16 bytes 0 = Some p" "rd16 bytes 2 = Some n"
    by (rule links_obj [OF assms(2)])
  have at: "take (length bytes) (drop q (mem_heap m)) = bytes"
    using obj_bytes [OF assms(1) obj(1)] assms(3) by (metis option.inject)
  show "node_prev q m = Some p" "node_next q m = Some n"
    using rd16_take_drop [OF at, of 0] rd16_take_drop [OF at, of 2] obj by (simp_all add: node_prev_def node_next_def)
qed

text \<open>What a change of links leaves alone, \<open>N\<close> being the nodes whose links may change.\<close>

definition relinked :: "i16 set \<Rightarrow> mem_state \<Rightarrow> mem_state \<Rightarrow> bool" where
  "relinked N m m' \<longleftrightarrow> mem_inv m' \<and> (\<forall>k. mem2_vp_get_ptr k m' = mem2_vp_get_ptr k m)
     \<and> payload m' = payload m \<and> (\<forall>k. k \<notin> N \<longrightarrow> mem_obj m' k = mem_obj m k)"

lemma relinked_trans: "relinked N m m' \<Longrightarrow> relinked N' m' m'' \<Longrightarrow> relinked (N \<union> N') m m''"
  by (auto simp: relinked_def)

lemma relinked_mono: "relinked N m m' \<Longrightarrow> N \<subseteq> N' \<Longrightarrow> relinked N' m m'"
  by (auto simp: relinked_def)

lemma relinked_refl: "mem_inv m \<Longrightarrow> relinked N m m"
  by (auto simp: relinked_def)

lemma store_link:
  assumes "mem_inv m" and "links m h = Some (p, n)" and "mem2_vp_get_ptr h m = Some q" and "off = 0 \<or> off = 2"
  shows "\<exists>m'. store_at h off (bytes16 v) m = Some m' \<and> relinked {h} m m'
    \<and> links m' = (links m)(h \<mapsto> (if off = 0 then (v, n) else (p, v)))"
proof -
  obtain t bytes where obj: "mem_obj m h = Some (t, bytes)" "5 \<le> length bytes" "rd16 bytes 0 = Some p" "rd16 bytes 2 = Some n"
    by (rule links_obj [OF assms(2)])
  have "off + length (bytes16 v) \<le> length bytes" using assms(4) obj(2) by auto
  then obtain m' where m': "store_at h off (bytes16 v) m = Some m'" "mem_inv m'" "m' = m\<lparr>mem_heap := mem_heap m'\<rparr>"
      "mem_obj m' = (mem_obj m)(h \<mapsto> (t, put_bytes bytes off (bytes16 v)))"
    using store_object [OF assms(1) obj(1)] by blast
  let ?new = "put_bytes bytes off (bytes16 v)"
  have len: "length ?new = length bytes" using assms(4) obj(2) by auto
  have rest: "drop 4 ?new = drop 4 bytes"
    using assms(4) obj(2) by (intro nth_equalityI) (auto simp: nth_put_bytes)
  have "rd16 ?new 0 = Some (if off = 0 then v else p)" "rd16 ?new 2 = Some (if off = 0 then n else v)"
    using assms(4) obj
    by (auto simp: rd16_at nth_put_bytes bytes16_def bytes16_join)
  then have "links m' h = Some (if off = 0 then (v, n) else (p, v))"
    using obj(2) len by (simp add: links_def m'(4))
  moreover have "links m' k = links m k" if "k \<noteq> h" for k using that by (simp add: links_def m'(4))
  moreover have "payload m' k = payload m k" for k
    using obj(1,2) len rest by (cases "k = h") (simp_all add: payload_def m'(4))
  moreover have "mem2_vp_get_ptr k m' = mem2_vp_get_ptr k m" for k
    by (subst m'(3)) (simp add: mem2_vp_get_ptr_def)
  moreover have "mem_obj m' k = mem_obj m k" if "k \<noteq> h" for k using that by (simp add: m'(4))
  ultimately show ?thesis using m'(1,2) by (intro exI [of _ m']) (auto simp: relinked_def)
qed

lemma set_link:
  assumes "mem_inv m" and "links m h = Some (p, n)" and "mem2_vp_get_ptr h m = Some q"
  shows "\<exists>m'. set_node_prev q v m = Some m' \<and> relinked {h} m m' \<and> links m' = (links m)(h \<mapsto> (v, n))"
    and "\<exists>m'. set_node_next q v m = Some m' \<and> relinked {h} m m' \<and> links m' = (links m)(h \<mapsto> (p, v))"
proof -
  have "store_at h off (bytes16 v) m = Some m' \<Longrightarrow> wr16 (mem_heap m) (q + off) v = Some (mem_heap m')
      \<and> m' = m\<lparr>mem_heap := mem_heap m'\<rparr>" for off m'
    using assms(3) by (auto simp: store_at_def opt_simps)
  note eq = this
  show "\<exists>m'. set_node_prev q v m = Some m' \<and> relinked {h} m m' \<and> links m' = (links m)(h \<mapsto> (v, n))"
    using store_link [OF assms, of 0 v] eq [of 0] by (fastforce simp: set_node_prev_def)
  show "\<exists>m'. set_node_next q v m = Some m' \<and> relinked {h} m m' \<and> links m' = (links m)(h \<mapsto> (p, v))"
    using store_link [OF assms, of 2 v] eq [of 2] by (fastforce simp: set_node_next_def)
qed

lemma node_ptr:
  assumes "mem_inv m" and "links m h = Some (p, n)"
  obtains q where "mem2_vp_get_ptr h m = Some q"
  using assms links_obj obj_bytes by metis

lemma node_pos: "mem_inv m \<Longrightarrow> links m h \<noteq> None \<Longrightarrow> 0 < sint h \<and> sint h \<le> 256"
  by (metis links_obj live_handle(3,4) not_None_eq surj_pair)

section \<open>Chains of nodes\<close>

text \<open>
  \<open>chained L p ns n\<close>: the nodes \<open>ns\<close> are linked in order, with \<open>p\<close> in front and \<open>n\<close> behind them.
\<close>

fun chained :: "(i16 \<Rightarrow> (i16 \<times> i16) option) \<Rightarrow> i16 \<Rightarrow> i16 list \<Rightarrow> i16 \<Rightarrow> bool" where
  "chained L p [] n = True"
| "chained L p (x # xs) n = (L x = Some (p, hd (xs @ [n])) \<and> chained L x xs n)"

lemma hd_app: "hd (xs @ ys @ zs) = hd (xs @ [hd (ys @ zs)])"
  by (cases xs) simp_all

lemma chained_append:
  "chained L p (xs @ ys) n \<longleftrightarrow> chained L p xs (hd (ys @ [n])) \<and> chained L (last (p # xs)) ys n"
proof (induction xs arbitrary: p)
  case Nil
  then show ?case by simp
next
  case (Cons x xs)
  have "hd ((xs @ ys) @ [n]) = hd (xs @ [hd (ys @ [n])])" by (cases xs) simp_all
  then show ?case using Cons by auto
qed

lemma chained_cong:
  assumes "\<And>x. x \<in> set ns \<Longrightarrow> L' x = L x"
  shows "chained L' p ns n = chained L p ns n"
  using assms by (induction ns arbitrary: p) simp_all

lemma chained_upd: "x \<notin> set ns \<Longrightarrow> chained (L(x := v)) p ns n = chained L p ns n"
  by (rule chained_cong) auto

lemma chained_dom: "chained L p ns n \<Longrightarrow> x \<in> set ns \<Longrightarrow> L x \<noteq> None"
  by (induction ns arbitrary: p) auto

definition list_rep :: "list_t \<Rightarrow> mem_state \<Rightarrow> i16 list \<Rightarrow> bool" where
  "list_rep l m ns \<longleftrightarrow> mem_inv m \<and> chained (links m) (- 1) ns (- 1) \<and> distinct ns \<and> list_init l = 1
     \<and> list_head l = hd (ns @ [- 1]) \<and> list_tail l = last (- 1 # ns)"

lemma minus_one_neg: "sint (- 1 :: i16) < 0"
  by simp

lemma list_rep_node:
  assumes "list_rep l m ns" and "x \<in> set ns"
  shows "links m x \<noteq> None" and "0 < sint x"
  using assms chained_dom node_pos unfolding list_rep_def by blast+

lemma list_rep_length: "list_rep l m ns \<Longrightarrow> length ns \<le> 256"
proof -
  assume rep: "list_rep l m ns"
  have "set ns \<subseteq> word_of_int ` {1..256 :: int}"
  proof
    fix x assume "x \<in> set ns"
    then have "0 < sint x \<and> sint x \<le> 256" using rep chained_dom node_pos unfolding list_rep_def by blast
    then show "x \<in> word_of_int ` {1..256 :: int}" by (intro image_eqI [of _ _ "sint x"]) simp_all
  qed
  then have "card (set ns) \<le> card (word_of_int ` {1..256 :: int} :: i16 set)" by (intro card_mono) auto
  also have "\<dots> \<le> 256" using card_image_le [of "{1..256 :: int}" "word_of_int :: int \<Rightarrow> i16"] by simp
  finally show ?thesis using rep by (simp add: list_rep_def distinct_card)
qed

section \<open>The operations on well-formed lists\<close>

lemmas relinked_simps = relinked_def [THEN iffD1, THEN conjunct1]
  relinked_def [THEN iffD1, THEN conjunct2, THEN conjunct1, rule_format]

lemma link_lone:
  assumes "mem_inv m" and "links m h \<noteq> None" and "mem2_vp_get_ptr h m = Some q"
  obtains m1 m2 where "set_node_prev q a m = Some m1" and "set_node_next q b m1 = Some m2"
    and "relinked {h} m m1" and "relinked {h} m m2" and "links m2 = (links m)(h \<mapsto> (a, b))"
proof -
  obtain p n where h: "links m h = Some (p, n)" using assms(2) by auto
  obtain m1 where m1: "set_node_prev q a m = Some m1" "relinked {h} m m1" "links m1 = (links m)(h \<mapsto> (a, n))"
    using set_link(1) [OF assms(1) h assms(3)] by blast
  have "links m1 h = Some (a, n)" "mem2_vp_get_ptr h m1 = Some q"
    using m1 assms(3) relinked_simps(2) by simp_all
  then obtain m2 where m2: "set_node_next q b m1 = Some m2" "relinked {h} m1 m2" "links m2 = (links m1)(h \<mapsto> (a, b))"
    using set_link(2) [OF relinked_simps(1) [OF m1(2)]] by blast
  show thesis
    using that [OF m1(1) m2(1) m1(2)] relinked_trans [OF m1(2) m2(2)] m1(3) m2(3) by simp
qed

lemma insert_empty_rep:
  assumes "list_rep l m []" and "links m h \<noteq> None"
  shows "\<exists>l' m'. list_v_insert_head l h m = Some (l', m') \<and> list_v_insert_tail l h m = Some (l', m')
    \<and> list_rep l' m' [h] \<and> relinked {h} m m'"
proof -
  have inv: "mem_inv m" and l: "list_head l = - 1" "list_tail l = - 1" "list_init l = 1"
    using assms(1) by (simp_all add: list_rep_def)
  obtain q where q: "mem2_vp_get_ptr h m = Some q" using node_ptr [OF inv] assms(2) by fastforce
  obtain m1 m2 where m2: "set_node_prev q (- 1) m = Some m1" "set_node_next q (- 1) m1 = Some m2"
      "relinked {h} m m2" "links m2 = (links m)(h \<mapsto> (- 1, - 1))"
    by (rule link_lone [OF inv assms(2) q])
  have "list_rep (l\<lparr>list_head := h, list_tail := h\<rparr>) m2 [h]"
    using relinked_simps(1) [OF m2(3)] m2(4) l by (simp add: list_rep_def)
  then show ?thesis
    using m2 q l by (simp add: list_v_insert_head_def list_v_insert_tail_def)
qed

lemma insert_head_rep:
  assumes rep: "list_rep l m ns" and h: "h \<notin> set ns" "links m h \<noteq> None"
  shows "\<exists>l' m'. list_v_insert_head l h m = Some (l', m') \<and> list_rep l' m' (h # ns)
    \<and> relinked (insert h (set ns)) m m'"
proof (cases ns)
  case Nil
  then show ?thesis using insert_empty_rep [of l m h] assms by auto
next
  case (Cons x xs)
  note ns = this
  have inv: "mem_inv m" and l: "list_head l = x" "list_init l = 1" "list_tail l = last (x # xs)"
    and x: "links m x = Some (- 1, hd (xs @ [- 1]))" "chained (links m) x xs (- 1)" "distinct (x # xs)"
    using rep ns by (simp_all add: list_rep_def)
  have pos: "0 < sint x" using list_rep_node(2) [OF rep, of x] ns by simp
  obtain q r where q: "mem2_vp_get_ptr h m = Some q" and r: "mem2_vp_get_ptr x m = Some r"
    using node_ptr [OF inv] h(2) x(1) by (metis option.exhaust surj_pair)
  obtain m1 where m1: "set_node_prev r h m = Some m1" "relinked {x} m m1"
      "links m1 = (links m)(x \<mapsto> (h, hd (xs @ [- 1])))"
    using set_link(1) [OF inv x(1) r] by blast
  have "links m1 h \<noteq> None" "mem2_vp_get_ptr h m1 = Some q"
    using h ns m1(3) q relinked_simps(2) [OF m1(2)] by simp_all
  then obtain m2 m3 where m3: "set_node_prev q (- 1) m1 = Some m2" "set_node_next q x m2 = Some m3"
      "relinked {h} m1 m3" "links m3 = (links m1)(h \<mapsto> (- 1, x))"
    using link_lone [OF relinked_simps(1) [OF m1(2)]] by metis
  have "chained (links m3) (- 1) (h # ns) (- 1)"
    using x h ns by (auto simp: m1(3) m3(4) chained_upd)
  then have "list_rep (l\<lparr>list_head := h\<rparr>) m3 (h # ns)"
    using relinked_simps(1) [OF m3(3)] l h ns rep by (simp add: list_rep_def)
  moreover have "relinked (insert h (set ns)) m m3"
    using relinked_trans [OF m1(2) m3(3)] ns by (auto intro: relinked_mono)
  ultimately show ?thesis using m1 m3 q r l pos by (simp add: list_v_insert_head_def)
qed

lemma insert_after_rep:
  assumes rep: "list_rep l m (xs @ k # ys)" and h: "h \<notin> set (xs @ k # ys)" "links m h \<noteq> None"
  shows "\<exists>l' m'. list_v_insert_after l k h m = Some (l', m') \<and> list_rep l' m' (xs @ k # h # ys)
    \<and> relinked (insert h (set (xs @ k # ys))) m m'"
proof -
  let ?nx = "hd (ys @ [- 1])"
  have inv: "mem_inv m" and d: "distinct (xs @ k # ys)" and l: "list_init l = 1" "list_head l = hd (xs @ [k])"
      "list_tail l = last (k # ys)"
    and ch: "chained (links m) (- 1) xs k" "links m k = Some (last (- 1 # xs), ?nx)" "chained (links m) k ys (- 1)"
    using rep hd_app [of xs "[k]" "ys @ [- 1]"] by (simp_all add: list_rep_def chained_append)
  obtain a b where ab: "links m h = Some (a, b)" using h(2) by auto
  obtain q r where q: "mem2_vp_get_ptr k m = Some q" and r: "mem2_vp_get_ptr h m = Some r"
    using node_ptr [OF inv] ch(2) ab by metis
  obtain m1 where m1: "set_node_prev r k m = Some m1" "relinked {h} m m1" "links m1 = (links m)(h \<mapsto> (k, b))"
    using set_link(1) [OF inv ab r] by blast
  note inv1 = relinked_simps(1) [OF m1(2)] and ptr1 = relinked_simps(2) [OF m1(2)]
  have k1: "node_next q m1 = Some ?nx"
    by (rule node_fields(2) [OF inv1, of k "last (- 1 # xs)"]) (use ch h m1(3) ptr1 q in \<open>auto simp: ptr1\<close>)
  obtain m2 where m2: "set_node_next r ?nx m1 = Some m2" "relinked {h} m1 m2" "links m2 = (links m)(h \<mapsto> (k, ?nx))"
    using set_link(2) [OF inv1, of h k b r ?nx] r ptr1 m1(3) by auto
  note rel2 = relinked_trans [OF m1(2) m2(2), simplified]
  note inv2 = relinked_simps(1) [OF rel2] and ptr2 = relinked_simps(2) [OF rel2]
  have k2: "node_next q m2 = Some ?nx"
    by (rule node_fields(2) [OF inv2, of k "last (- 1 # xs)"]) (use ch h m2(3) q in \<open>auto simp: ptr2\<close>)
  obtain l' m3 where m3: "(if sint ?nx < 0 then Some (l\<lparr>list_tail := h\<rparr>, m2)
        else do { s \<leftarrow> mem2_vp_get_ptr ?nx m2; m \<leftarrow> set_node_prev s h m2; Some (l, m) }) = Some (l', m3)"
      "relinked (insert h (set ys)) m m3" "links m3 k = links m k" "chained (links m3) h ys (- 1)"
      "chained (links m3) (- 1) xs k" "links m3 h = Some (k, ?nx)"
      "list_init l' = 1" "list_head l' = hd (xs @ [k])" "list_tail l' = last (h # ys)"
  proof (cases ys)
    case Nil
    then show thesis using ch h d l
      by (intro that [of "l\<lparr>list_tail := h\<rparr>" m2]) (auto simp: m2(3) chained_upd intro: relinked_mono [OF rel2])
  next
    case (Cons y zs)
    have y: "links m2 y = Some (k, hd (zs @ [- 1]))" "chained (links m) y zs (- 1)" using ch(3) Cons h(1) m2(3) by auto
    obtain s where s: "mem2_vp_get_ptr y m2 = Some s" by (rule node_ptr [OF inv2 y(1)])
    obtain m3 where m3: "set_node_prev s h m2 = Some m3" "relinked {y} m2 m3"
        "links m3 = (links m2)(y \<mapsto> (h, hd (zs @ [- 1])))"
      using set_link(1) [OF inv2 y(1) s] by blast
    have pos: "0 < sint y" using list_rep_node(2) [OF rep, of y] Cons by simp
    have "relinked (insert h (set ys)) m m3"
      by (rule relinked_mono [OF relinked_trans [OF rel2 m3(2)]]) (auto simp: Cons)
    then show thesis
      using that [of l m3] Cons m3 s pos l d h ch y(2) by (auto simp: m2(3) chained_upd)
  qed
  note inv3 = relinked_simps(1) [OF m3(2)] and ptr3 = relinked_simps(2) [OF m3(2)]
  obtain m4 where m4: "set_node_next q h m3 = Some m4" "relinked {k} m3 m4"
      "links m4 = (links m3)(k \<mapsto> (last (- 1 # xs), h))"
    using set_link(2) [OF inv3, of k "last (- 1 # xs)" ?nx q h] m3(3) ch(2) q ptr3 by auto
  have "list_v_insert_after l k h m = Some (l', m4)"
    using q r m1(1) k1 m2(1) k2 m3(1) m4(1) by (simp add: list_v_insert_after_def)
  moreover have "list_rep l' m4 (xs @ k # h # ys)"
    using relinked_simps(1) [OF m4(2)] d h not_sym [of h k] m3 hd_app [of xs "[k]" "h # ys @ [- 1]"]
    by (simp add: list_rep_def chained_append m4(3) chained_upd)
  moreover have "relinked (insert h (set (xs @ k # ys))) m m4"
    by (rule relinked_mono [OF relinked_trans [OF m3(2) m4(2)]]) auto
  ultimately show ?thesis by blast
qed

lemma insert_tail_rep:
  assumes rep: "list_rep l m ns" and h: "h \<notin> set ns" "links m h \<noteq> None"
  shows "\<exists>l' m'. list_v_insert_tail l h m = Some (l', m') \<and> list_rep l' m' (ns @ [h])
    \<and> relinked (insert h (set ns)) m m'"
proof (cases ns rule: rev_cases)
  case Nil
  then show ?thesis using insert_empty_rep [of l m h] assms by auto
next
  case (snoc xs k)
  have tail: "list_tail l = k" using rep snoc by (simp add: list_rep_def)
  have pos: "0 < sint k" using list_rep_node(2) [OF rep, of k] snoc by simp
  obtain q where q: "mem2_vp_get_ptr h m = Some q"
    using node_ptr [of m h] rep h(2) unfolding list_rep_def by (metis option.exhaust surj_pair)
  show ?thesis
    using insert_after_rep [of l m xs k "[]" h] rep h snoc q tail pos by (auto simp: list_v_insert_tail_def)
qed

lemma remove_rep:
  assumes rep: "list_rep l m (xs @ h # ys)"
  shows "\<exists>l' m'. list_v_remove l h m = Some (l', m') \<and> list_rep l' m' (xs @ ys)
    \<and> relinked (set (xs @ ys)) m m'"
proof -
  let ?nx = "hd (ys @ [- 1])" and ?pv = "last (- 1 # xs)"
  have inv: "mem_inv m" and d: "distinct (xs @ h # ys)" and l: "list_init l = 1" "list_head l = hd (xs @ [h])"
      "list_tail l = last (h # ys)"
    and ch: "chained (links m) (- 1) xs h" "links m h = Some (?pv, ?nx)" "chained (links m) h ys (- 1)"
    using rep hd_app [of xs "[h]" "ys @ [- 1]"] by (simp_all add: list_rep_def chained_append)
  obtain q where q: "mem2_vp_get_ptr h m = Some q" by (rule node_ptr [OF inv ch(2)])
  note f = node_fields [OF inv ch(2) q]
  obtain l1 m1 where m1: "(if sint ?pv < 0 then do { nx \<leftarrow> node_next q m; Some (l\<lparr>list_head := nx\<rparr>, m) }
        else do { s \<leftarrow> mem2_vp_get_ptr ?pv m; nx \<leftarrow> node_next q m; m \<leftarrow> set_node_next s nx m; Some (l, m) }) = Some (l1, m1)"
      "relinked (set xs) m m1" "links m1 h = links m h" "chained (links m1) h ys (- 1)" "chained (links m1) (- 1) xs ?nx"
      "list_init l1 = 1" "list_head l1 = hd (xs @ [?nx])" "list_tail l1 = last (h # ys)"
  proof (cases xs rule: rev_cases)
    case Nil
    then show thesis using that [of "l\<lparr>list_head := ?nx\<rparr>" m] ch d l f relinked_refl [OF inv] by simp
  next
    case (snoc zs x)
    have x: "links m x = Some (last (- 1 # zs), h)" "chained (links m) (- 1) zs x"
      using ch(1) snoc by (simp_all add: chained_append)
    obtain s where s: "mem2_vp_get_ptr x m = Some s" by (rule node_ptr [OF inv x(1)])
    obtain m1 where m1: "set_node_next s ?nx m = Some m1" "relinked {x} m m1"
        "links m1 = (links m)(x \<mapsto> (last (- 1 # zs), ?nx))"
      using set_link(2) [OF inv x(1) s] by blast
    have pos: "0 < sint x" using list_rep_node(2) [OF rep, of x] snoc by simp
    have "relinked (set xs) m m1" by (rule relinked_mono [OF m1(2)]) (simp add: snoc)
    moreover have "chained (links m1) h ys (- 1)" "chained (links m1) (- 1) xs ?nx" "links m1 h = links m h"
      using d ch(3) x(2) snoc by (auto simp: m1(3) chained_append chained_upd)
    ultimately show thesis
      using that [of l m1] snoc m1(1) s pos l f(2) hd_app [of zs "[x]" "[?nx]"] hd_app [of zs "[x]" "[h]"] by simp
  qed
  note inv1 = relinked_simps(1) [OF m1(2)] and ptr1 = relinked_simps(2) [OF m1(2)]
  have h1: "links m1 h = Some (?pv, ?nx)" "mem2_vp_get_ptr h m1 = Some q" using m1(3) ch(2) q ptr1 by simp_all
  note f1 = node_fields [OF inv1 h1]
  obtain l2 m2 where m2: "(if sint ?nx < 0 then do { pv \<leftarrow> node_prev q m1; Some (l1\<lparr>list_tail := pv\<rparr>, m1) }
        else do { s \<leftarrow> mem2_vp_get_ptr ?nx m1; pv \<leftarrow> node_prev q m1; m \<leftarrow> set_node_prev s pv m1; Some (l1, m) }) = Some (l2, m2)"
      "relinked (set ys) m1 m2" "chained (links m2) ?pv ys (- 1)" "chained (links m2) (- 1) xs ?nx"
      "list_init l2 = 1" "list_head l2 = list_head l1" "list_tail l2 = last (- 1 # xs @ ys)"
  proof (cases ys)
    case Nil
    then show thesis using that [of "l1\<lparr>list_tail := ?pv\<rparr>" m1] m1 f1 relinked_refl [OF inv1] by simp
  next
    case (Cons y zs)
    have y: "links m1 y = Some (h, hd (zs @ [- 1]))" "chained (links m1) y zs (- 1)" using m1(4) Cons by simp_all
    obtain s where s: "mem2_vp_get_ptr y m1 = Some s" by (rule node_ptr [OF inv1 y(1)])
    obtain m2 where m2: "set_node_prev s ?pv m1 = Some m2" "relinked {y} m1 m2"
        "links m2 = (links m1)(y \<mapsto> (?pv, hd (zs @ [- 1])))"
      using set_link(1) [OF inv1 y(1) s] by blast
    have pos: "0 < sint y" using list_rep_node(2) [OF rep, of y] Cons by simp
    have "relinked (set ys) m1 m2" by (rule relinked_mono [OF m2(2)]) (simp add: Cons)
    then show thesis
      using that [of l1 m2] Cons m2(1) s pos m1 f1(1) d y(2) by (simp add: m2(3) chained_upd)
  qed
  have "list_v_remove l h m = Some (l2, m2)"
    by (simp only: list_v_remove_def q f(1) bind.simps m1(1) prod.case f1(2) m2(1))
  moreover have "list_rep l2 m2 (xs @ ys)"
    using relinked_simps(1) [OF m2(2)] d m2 m1(7) hd_app [of xs ys "[- 1]"]
    by (simp add: list_rep_def chained_append)
  moreover have "relinked (set (xs @ ys)) m m2"
    using relinked_trans [OF m1(2) m2(2)] by simp
  ultimately show ?thesis by blast
qed

lemma remove_tail_rep:
  assumes "list_rep l m ns"
  shows "\<exists>l' m'. list_ln_remove_tail l m = Some (last (- 1 # ns), l', m') \<and> list_rep l' m' (butlast ns)
    \<and> relinked (set ns) m m'"
proof (cases ns rule: rev_cases)
  case Nil
  then show ?thesis using assms relinked_refl by (simp add: list_ln_remove_tail_def list_rep_def)
next
  case (snoc xs h)
  obtain l' m' where m': "list_v_remove l h m = Some (l', m')" "list_rep l' m' xs" "relinked (set xs) m m'"
    using remove_rep [of l m xs h "[]"] assms snoc by auto
  have "list_tail l = h" "0 < sint h" using assms snoc list_rep_node(2) [OF assms, of h] by (simp_all add: list_rep_def)
  then show ?thesis
    using m' snoc by (auto simp: list_ln_remove_tail_def intro: relinked_mono)
qed

section \<open>Walks\<close>

lemma next_chained:
  assumes "mem_inv m" and "chained (links m) p (x # xs) (- 1)"
  shows "list_ln_next x m = Some (hd (xs @ [- 1]))" and "list_ln_prev x m = Some p"
proof -
  have x: "links m x = Some (p, hd (xs @ [- 1]))" using assms(2) by simp
  obtain q where q: "mem2_vp_get_ptr x m = Some q" by (rule node_ptr [OF assms(1) x])
  show "list_ln_next x m = Some (hd (xs @ [- 1]))" "list_ln_prev x m = Some p"
    using node_fields [OF assms(1) x q] q by (simp_all add: list_ln_next_def list_ln_prev_def)
qed

lemma chained_pos: "mem_inv m \<Longrightarrow> chained (links m) p (x # xs) n \<Longrightarrow> 0 < sint x"
  using node_pos by fastforce

lemma walk_end: "count_from m (- 1) n = Some n" "size_from m (- 1) s = Some s" "destroy_from (- 1) m = Some m"
    "flatten_from m (- 1) pos len cur cp out = Some (cp, out)"
  by (simp_all add: count_from.simps size_from.simps destroy_from.simps flatten_from.simps)

lemma count_chained:
  assumes "mem_inv m" and "chained (links m) p ns (- 1)"
  shows "count_from m (hd (ns @ [- 1])) n = Some (n + word_of_nat (length ns))"
  using assms(2)
proof (induction ns arbitrary: p n)
  case Nil
  then show ?case by (simp add: walk_end)
next
  case (Cons x xs)
  have "0 \<le> sint x" using chained_pos [OF assms(1) Cons.prems] by simp
  then show ?case
    using next_chained(1) [OF assms(1) Cons.prems] Cons.IH [of x "n + 1"] Cons.prems
    by (subst count_from.simps) (simp add: add.assoc)
qed

lemma index_chained:
  assumes "mem_inv m" and "chained (links m) p ns (- 1)"
  shows "index_from m (hd (ns @ [- 1])) k = Some (if k < length ns then ns ! k else - 1)"
  using assms(2)
proof (induction ns arbitrary: p k)
  case Nil
  then show ?case by (cases k) simp_all
next
  case (Cons x xs)
  have "0 \<le> sint x" using chained_pos [OF assms(1) Cons.prems] by simp
  then show ?case
    using next_chained(1) [OF assms(1) Cons.prems] Cons.IH [of x "k - 1"] Cons.prems by (cases k) simp_all
qed

section \<open>The data of the nodes\<close>

abbreviation node_data :: "mem_state \<Rightarrow> i16 \<Rightarrow> u8 list" where
  "node_data m x \<equiv> snd (the (payload m x))"

lemma payload_bytes:
  assumes "mem_inv m" and "links m x \<noteq> None"
  obtains t bytes p where "mem_obj m x = Some (t, bytes)" and "5 \<le> length bytes" and "length (node_data m x) = length bytes - 5"
    and "list_vp_get_data x m = Some p" and "take (length (node_data m x)) (drop p (mem_heap m)) = node_data m x"
    and "p + length (node_data m x) \<le> length (mem_heap m)"
proof -
  obtain t bytes where obj: "mem_obj m x = Some (t, bytes)" "5 \<le> length bytes"
    using assms(2) links_obj by (metis option.exhaust surj_pair)
  obtain q where q: "mem2_vp_get_ptr x m = Some q" "q + length bytes \<le> length (mem_heap m)"
      "take (length bytes) (drop q (mem_heap m)) = bytes"
    by (rule obj_bytes [OF assms(1) obj(1)])
  have d: "node_data m x = take (length bytes - 5) (drop 4 bytes)" using obj by (simp add: payload_def)
  then have len: "length (node_data m x) = length bytes - 5" using obj(2) by simp
  have "drop 4 bytes = take (length bytes - 4) (drop (q + 4) (mem_heap m))"
    by (subst q(3) [symmetric]) (simp add: drop_take add.commute)
  then have "take (length (node_data m x)) (drop (q + 4) (mem_heap m)) = node_data m x"
    unfolding len by (simp add: d min_def)
  then show thesis
    using that [OF obj len] q len obj(2) by (simp add: list_vp_get_data_def)
qed

lemma node_size:
  assumes "mem_inv m" and "links m x \<noteq> None"
  shows "list_u16_node_size x m = Some (word_of_nat (length (node_data m x)))"
proof -
  obtain t bytes where obj: "mem_obj m x = Some (t, bytes)" "5 \<le> length bytes" "length (node_data m x) = length bytes - 5"
    by (rule payload_bytes [OF assms])
  then show ?thesis
    using live_handle(1) [OF assms(1) obj(1)] by (simp add: list_u16_node_size_def)
qed

lemma size_chained:
  assumes "mem_inv m" and "chained (links m) p ns (- 1)"
  shows "size_from m (hd (ns @ [- 1])) s = Some (s + word_of_nat (length (concat (map (node_data m) ns))))"
  using assms(2)
proof (induction ns arbitrary: p s)
  case Nil
  then show ?case by (simp add: walk_end)
next
  case (Cons x xs)
  have "0 \<le> sint x" using chained_pos [OF assms(1) Cons.prems] by simp
  moreover have "links m x \<noteq> None" using Cons.prems by simp
  ultimately show ?case
    using next_chained(1) [OF assms(1) Cons.prems] node_size [OF assms(1), of x] Cons.prems
      Cons.IH [of x "s + word_of_nat (length (node_data m x))"]
    by (subst size_from.simps) (simp add: add.assoc)
qed

text \<open>The nodes lie in one heap of less than 32768 bytes, and so does their data.\<close>

definition obj_len :: "mem_block list \<Rightarrow> nat \<Rightarrow> nat" where
  "obj_len bs j = (case find_obj bs j of None \<Rightarrow> 0 | Some x \<Rightarrow> length (snd x))"

lemma sum_obj_len:
  assumes "finite J"
  shows "(\<Sum>j \<in> J. obj_len bs j) \<le> sum_list (map (\<lambda>b. length (snd (blk_obj b))) bs)"
proof (induction bs)
  case Nil
  then show ?case by (simp add: obj_len_def)
next
  case (Cons b bs)
  let ?n = "length (snd (blk_obj b))"
  have "(\<Sum>j \<in> J. obj_len (b # bs) j) \<le> (\<Sum>j \<in> J. (if j = blk_handle b then ?n else 0) + obj_len bs j)"
    by (rule sum_mono) (simp add: obj_len_def find_obj_Cons)
  also have "\<dots> \<le> ?n + (\<Sum>j \<in> J. obj_len bs j)" using assms by (simp add: sum.distrib sum.delta)
  finally show ?case using Cons by simp
qed

lemma data_total:
  assumes "mem_inv m" and "distinct ns" and "\<And>x. x \<in> set ns \<Longrightarrow> links m x \<noteq> None"
  shows "length (concat (map (node_data m) ns)) < 32768"
proof -
  obtain bs where rep: "mem_rep bs m" using assms(1) by (auto simp: mem_inv_def)
  let ?j = "\<lambda>x :: i16. nat (sint (unswizzle x))"
  have le: "length (node_data m x) \<le> obj_len bs (?j x)" "0 \<le> sint (unswizzle x)" if x: "x \<in> set ns" for x
  proof -
    obtain t bytes where obj: "mem_obj m x = Some (t, bytes)" "length (node_data m x) = length bytes - 5"
      by (rule payload_bytes [OF assms(1) assms(3) [OF x]])
    then show "length (node_data m x) \<le> obj_len bs (?j x)" "0 \<le> sint (unswizzle x)"
      using obj(1) unfolding mem_obj_find [OF rep] by (simp_all add: obj_len_def obj(2) split: if_splits)
  qed
  have inj: "inj_on ?j (set ns)"
  proof (rule inj_onI)
    fix x y assume "x \<in> set ns" "y \<in> set ns" "?j x = ?j y"
    then have "sint (unswizzle x) = sint (unswizzle y)" using le(2) by (metis eq_nat_nat_iff)
    from arg_cong [OF this, of "word_of_int :: int \<Rightarrow> i16"] show "x = y" by (simp add: unswizzle_def)
  qed
  have blk: "length (snd (blk_obj b)) \<le> block_len b" if "b \<in> set bs" for b
    using rep that blk_obj_length [of b] by (simp add: mem_rep_def block_len_def)
  have "length (concat (map (node_data m) ns)) = (\<Sum>x \<in> set ns. length (node_data m x))"
    using assms(2) by (simp add: length_concat sum_list_distinct_conv_sum_set comp_def)
  also have "\<dots> \<le> (\<Sum>x \<in> set ns. obj_len bs (?j x))" using le(1) by (rule sum_mono)
  also have "\<dots> = (\<Sum>j \<in> ?j ` set ns. obj_len bs j)" by (simp add: sum.reindex [OF inj])
  also have "\<dots> \<le> sum_list (map (\<lambda>b. length (snd (blk_obj b))) bs)" by (rule sum_obj_len) simp
  also have "\<dots> \<le> sizes bs" using blk by (rule sum_list_mono)
  also have "\<dots> < 32768"
    using rep length_layout [of bs] unfolding mem_rep_def by linarith
  finally show ?thesis .
qed

lemma flatten_chained:
  assumes "mem_inv m" and "chained (links m) p ns (- 1)"
    and "unat cur + length (concat (map (node_data m) ns)) < 65536" and "cur \<le> pos \<or> len = 0"
  shows "flatten_from m (hd (ns @ [- 1])) pos len cur cp out
    = (let r = take (unat len) (drop (unat pos - unat cur) (concat (map (node_data m) ns)))
       in Some (cp + word_of_nat (length r), out @ r))"
  using assms(2-)
proof (induction ns arbitrary: p pos len cur cp out)
  case Nil
  then show ?case by (simp add: walk_end)
next
  case (Cons x xs)
  let ?d = "node_data m x" and ?rest = "concat (map (node_data m) xs)"
  show ?case
  proof (cases "len = 0")
    case True
    then show ?thesis by (simp add: flatten_from.simps)
  next
    case False
    then have cur: "unat cur \<le> unat pos" using Cons.prems(3) by (simp add: word_le_nat_alt)
    have x: "0 \<le> sint x" "links m x \<noteq> None" using chained_pos [OF assms(1) Cons.prems(1)] Cons.prems(1) by simp_all
    obtain q where q: "list_vp_get_data x m = Some q" "take (length ?d) (drop q (mem_heap m)) = ?d"
        "q + length ?d \<le> length (mem_heap m)"
      by (rule payload_bytes [OF assms(1) x(2)])
    have nxt: "list_ln_next x m = Some (hd (xs @ [- 1]))" "chained (links m) x xs (- 1)"
      using next_chained(1) [OF assms(1) Cons.prems(1)] Cons.prems(1) by simp_all
    have small: "unat cur + length ?d + length ?rest < 65536" using Cons.prems(2) by simp
    then have n: "unat (word_of_nat (length ?d) :: u16) = length ?d" by (simp add: unat_of_nat16)
    then have cur': "unat (cur + word_of_nat (length ?d)) = unat cur + length ?d"
      using small by (subst unat_add16) simp_all
    note size = node_size [OF assms(1) x(2)]
    let ?o = "unat pos - unat cur"
    show ?thesis
    proof (cases "unat pos < unat cur + length ?d")
      case False
      then have "flatten_from m x pos len cur cp out
          = flatten_from m (hd (xs @ [- 1])) pos len (cur + word_of_nat (length ?d)) cp out"
        using x(1) \<open>len \<noteq> 0\<close> nxt(1) size n by (subst flatten_from.simps) (simp add: word_gt_0)
      then show ?thesis
        using Cons.IH [OF nxt(2), of "cur + word_of_nat (length ?d)" pos len cp out] False small cur'
        by (simp add: word_le_nat_alt)
    next
      case True
      define off c where "off = pos - cur" and "c = (if word_of_nat (length ?d) - off > len then len else word_of_nat (length ?d) - off)"
      have off: "unat off = ?o" using cur by (simp add: off_def unat_diff16)
      have left: "unat (word_of_nat (length ?d) - off) = length ?d - ?o"
        using True cur n off by (subst unat_diff16) simp_all
      have c: "unat c = min (length ?d - ?o) (unat len)"
        using left by (auto simp: c_def word_less_nat_alt)
      have "?o + unat c \<le> length ?d" using True cur c by simp
      then have fit: "q + unat off + unat c \<le> length (mem_heap m)" using q(3) off by simp
      have got: "take (unat c) (drop (q + unat off) (mem_heap m)) = take (unat c) (drop ?o ?d)"
      proof -
        have "drop ?o ?d = take (length ?d - ?o) (drop (q + ?o) (mem_heap m))"
          by (subst q(2) [symmetric]) (simp add: drop_take add.commute)
        then show ?thesis using c off by simp
      qed
      have step: "flatten_from m x pos len cur cp out
          = flatten_from m (hd (xs @ [- 1])) (pos + c) (len - c) (cur + word_of_nat (length ?d)) (cp + c)
              (out @ take (unat c) (drop ?o ?d))"
        using x(1) \<open>len \<noteq> 0\<close> nxt(1) size n q(1) True cur fit
        by (subst flatten_from.simps) (simp add: word_gt_0 word_le_nat_alt Let_def require_def flip: off_def c_def got)
      have pos': "unat (pos + c) = unat pos + unat c"
        using True cur c small by (subst unat_add16) auto
      have len': "unat (len - c) = unat len - unat c" using c by (subst unat_diff16) simp_all
      have le: "cur + word_of_nat (length ?d) \<le> pos + c \<or> len - c = 0"
        using c True cur len' pos' cur' by (auto simp: word_le_nat_alt min_def word_unat_eq_iff split: if_splits)
      have drop: "take (unat len - unat c) (drop (unat pos + unat c - (unat cur + length ?d)) ?rest)
          = take (unat len - (length ?d - ?o)) ?rest" "take (unat c) (drop ?o ?d) = take (unat len) (drop ?o ?d)"
        using c True cur by (auto simp: min_def)
      define r1 r2 where "r1 = take (unat len) (drop ?o ?d)" and "r2 = take (unat len - (length ?d - ?o)) ?rest"
      have r: "take (unat len) (drop ?o (concat (map (node_data m) (x # xs)))) = r1 @ r2"
        using True cur by (simp add: r1_def r2_def)
      have "length r1 = unat c" using c by (simp add: r1_def min.commute)
      then have "c = word_of_nat (length r1)" by simp
      moreover have room: "unat (cur + word_of_nat (length ?d)) + length ?rest < 65536" using small cur' by simp
      have "flatten_from m (hd (xs @ [- 1])) (pos + c) (len - c) (cur + word_of_nat (length ?d)) (cp + c) (out @ r1)
          = Some (cp + c + word_of_nat (length r2), (out @ r1) @ r2)"
        unfolding Cons.IH [OF nxt(2) room le] pos' len' cur' drop(1) Let_def r2_def by (rule refl)
      ultimately show ?thesis
        unfolding r Let_def using step unfolding drop(2) r1_def [symmetric] by (simp add: add.assoc)
    qed
  qed
qed

end
