(* ===== verification/Node_List_Props.thy ===== *)
theory Node_List_Props
  imports Node_List_Spec
begin

text \<open>
  The properties of the linked lists: runs of operations refine operations on sequences, the walks
  compute what they should, nodes are created and released without touching any other object.
\<close>

section \<open>Runs of operations\<close>

text \<open>Every operation of a run is allowed where it is performed.\<close>

fun all_allowed :: "('op \<Rightarrow> 'a \<Rightarrow> bool) \<Rightarrow> ('op \<Rightarrow> 'a \<Rightarrow> 'a) \<Rightarrow> 'op list \<Rightarrow> 'a \<Rightarrow> bool" where
  "all_allowed allowed spec [] a = True"
| "all_allowed allowed spec (op # ops) a = (allowed op a \<and> all_allowed allowed spec ops (spec op a))"

text \<open>
  A concrete machine whose operations simulate operations on abstract values, one step at a time,
  simulates their sequences.
\<close>

locale simulated =
  fixes rep :: "'c \<Rightarrow> 'a \<Rightarrow> bool"
    and run :: "'op \<Rightarrow> 'c \<Rightarrow> 'c option"
    and spec :: "'op \<Rightarrow> 'a \<Rightarrow> 'a"
    and allowed :: "'op \<Rightarrow> 'a \<Rightarrow> bool"
  assumes step: "rep c a \<Longrightarrow> allowed op a \<Longrightarrow> \<exists>c'. run op c = Some c' \<and> rep c' (spec op a)"
begin

lemma runs:
  assumes "rep c a" and "all_allowed allowed spec ops a"
  shows "\<exists>c'. for_each run ops c = Some c' \<and> rep c' (fold spec ops a)"
  using assms
proof (induction ops arbitrary: c a)
  case Nil
  then show ?case by simp
next
  case (Cons op ops)
  then obtain c1 where c1: "run op c = Some c1" "rep c1 (spec op a)" using step [of c a op] by auto
  then show ?case using Cons.IH [OF c1(2)] Cons.prems(2) by simp
qed

end

datatype list_op = Insert_Head i16 | Insert_Tail i16 | Insert_After i16 i16 | Remove i16 | Remove_Tail

fun run_list_op :: "list_op \<Rightarrow> list_t \<times> mem_state \<Rightarrow> (list_t \<times> mem_state) option" where
  "run_list_op (Insert_Head h) (l, m) = list_v_insert_head l h m"
| "run_list_op (Insert_Tail h) (l, m) = list_v_insert_tail l h m"
| "run_list_op (Insert_After k h) (l, m) = list_v_insert_after l k h m"
| "run_list_op (Remove h) (l, m) = list_v_remove l h m"
| "run_list_op Remove_Tail (l, m) = map_option snd (list_ln_remove_tail l m)"

text \<open>The same operations on the sequence of nodes.\<close>

fun insert_behind :: "'a \<Rightarrow> 'a \<Rightarrow> 'a list \<Rightarrow> 'a list" where
  "insert_behind k h [] = []"
| "insert_behind k h (x # xs) = (if x = k then x # h # xs else x # insert_behind k h xs)"

fun list_op_spec :: "list_op \<Rightarrow> i16 list \<Rightarrow> i16 list" where
  "list_op_spec (Insert_Head h) ns = h # ns"
| "list_op_spec (Insert_Tail h) ns = ns @ [h]"
| "list_op_spec (Insert_After k h) ns = insert_behind k h ns"
| "list_op_spec (Remove h) ns = remove1 h ns"
| "list_op_spec Remove_Tail ns = butlast ns"

text \<open>A node is inserted only while it is in no list, and removed only from its own list.\<close>

fun list_op_allowed :: "i16 set \<Rightarrow> list_op \<Rightarrow> i16 list \<Rightarrow> bool" where
  "list_op_allowed N (Insert_Head h) ns = (h \<in> N \<and> h \<notin> set ns)"
| "list_op_allowed N (Insert_Tail h) ns = (h \<in> N \<and> h \<notin> set ns)"
| "list_op_allowed N (Insert_After k h) ns = (h \<in> N \<and> h \<notin> set ns \<and> k \<in> set ns)"
| "list_op_allowed N (Remove h) ns = (h \<in> set ns)"
| "list_op_allowed N Remove_Tail ns = True"

lemma insert_behind_at: "k \<notin> set xs \<Longrightarrow> insert_behind k h (xs @ k # ys) = xs @ k # h # ys"
  by (induction xs) auto

text \<open>The list after some operations that began in \<open>m0\<close>.\<close>

definition list_from :: "mem_state \<Rightarrow> list_t \<times> mem_state \<Rightarrow> i16 list \<Rightarrow> bool" where
  "list_from m0 = (\<lambda>(l, m) ns. list_rep l m ns \<and> relinked (dom (links m0)) m0 m)"

lemma relinked_dom: "relinked N m m' \<Longrightarrow> dom (links m') = dom (links m)"
  using links_payload by (auto simp: relinked_def dom_def)

lemma list_from_step:
  assumes "list_rep l m ns" and "relinked (dom (links m0)) m0 m"
    and "\<exists>l' m'. f = Some (l', m') \<and> list_rep l' m' ns' \<and> relinked N m m'" and "N \<subseteq> dom (links m)"
  shows "\<exists>c. f = Some c \<and> list_from m0 c ns'"
proof -
  obtain l' m' where "f = Some (l', m')" "list_rep l' m' ns'" "relinked N m m'" using assms(3) by blast
  moreover have "dom (links m0) \<union> N = dom (links m0)" using assms(4) relinked_dom [OF assms(2)] by auto
  ultimately show ?thesis
    using relinked_trans [OF assms(2), of N m'] by (simp add: list_from_def)
qed

lemma list_op_simulated:
  assumes "list_from m0 c ns" and "list_op_allowed (dom (links m0)) op ns"
  shows "\<exists>c'. run_list_op op c = Some c' \<and> list_from m0 c' (list_op_spec op ns)"
proof -
  obtain l m where c: "c = (l, m)" by (cases c)
  have rep: "list_rep l m ns" and rel: "relinked (dom (links m0)) m0 m"
    using assms(1) by (simp_all add: list_from_def c)
  have dom: "dom (links m0) = dom (links m)" using relinked_dom [OF rel] by simp
  have sub: "set ns \<subseteq> dom (links m)" using list_rep_node(1) [OF rep] by auto
  note step = list_from_step [OF rep rel]
  show ?thesis
  proof (cases op)
    case (Insert_Head h)
    then have h: "h \<notin> set ns" "links m h \<noteq> None" using assms(2) dom by auto
    then show ?thesis using step [OF insert_head_rep [OF rep h]] Insert_Head sub by (simp add: c domIff)
  next
    case (Insert_Tail h)
    then have h: "h \<notin> set ns" "links m h \<noteq> None" using assms(2) dom by auto
    then show ?thesis using step [OF insert_tail_rep [OF rep h]] Insert_Tail sub by (simp add: c domIff)
  next
    case (Insert_After k h)
    then have h: "h \<notin> set ns" "links m h \<noteq> None" "k \<in> set ns" using assms(2) dom by auto
    from h(3) obtain xs ys where ns: "ns = xs @ k # ys" by (auto simp: in_set_conv_decomp)
    then have "k \<notin> set xs" using rep by (auto simp: list_rep_def)
    then show ?thesis
      using step [OF insert_after_rep [OF rep [unfolded ns] h(1,2) [unfolded ns]]] h(2) Insert_After sub insert_behind_at [of k xs h ys]
      by (simp add: c ns domIff)
  next
    case (Remove h)
    then have "h \<in> set ns" using assms(2) by simp
    then obtain xs ys where ns: "ns = xs @ h # ys" by (auto simp: in_set_conv_decomp)
    then have "h \<notin> set xs" using rep by (auto simp: list_rep_def)
    then show ?thesis
      using step [OF remove_rep [OF rep [unfolded ns]]] Remove sub by (simp add: c ns remove1_append)
  next
    case Remove_Tail
    obtain l' m' where m': "list_ln_remove_tail l m = Some (last (- 1 # ns), l', m')" "list_rep l' m' (butlast ns)"
        "relinked (set ns) m m'"
      using remove_tail_rep [OF rep] by blast
    then show ?thesis using step [of "Some (l', m')" "butlast ns" "set ns"] sub Remove_Tail by (simp add: c)
  qed
qed

interpretation lists: simulated "list_from m0" run_list_op list_op_spec "list_op_allowed (dom (links m0))" for m0
  by unfold_locales (rule list_op_simulated)

section \<open>Creating and releasing nodes\<close>

lemma create_rep:
  assumes inv: "mem_inv m" and small: "unat len < 65527" and data: "\<forall>d. data = Some d \<longrightarrow> unat len \<le> length d"
    and ok: "\<not> alloc_fails (5 + len) m"
  shows "\<exists>h m'. list_ln_create_node2 data len t m = Some (h, m') \<and> mem_inv m' \<and> mem_obj m h = None
    \<and> links m' h = Some (- 1, - 1) \<and> (\<exists>bytes. payload m' h = Some (t, bytes) \<and> length bytes = unat len
        \<and> (\<forall>d. data = Some d \<longrightarrow> bytes = take (unat len) d))
    \<and> (\<forall>k. k \<noteq> h \<longrightarrow> mem_obj m' k = mem_obj m k)"
proof -
  have size: "unat (5 + len) = unat len + 5" using small unat_add16 [of 5 len] by simp
  obtain h m0 bytes where m0: "mem2_h_alloc2 (5 + len) t m = Some (h, m0)" "mem_inv m0" "mem_obj m h = None"
      "length bytes = unat len + 5" "mem_obj m0 = (mem_obj m)(h \<mapsto> (t, bytes))"
    using alloc_object [OF inv, of "5 + len" t] small ok by (auto simp: mem2_h_alloc2_def size)
  have obj0: "mem_obj m0 h = Some (t, bytes)" by (simp add: m0(5))
  have pos: "\<not> sint h < 0" using live_handle(3) [OF m0(2) obj0] by simp
  have l0: "links m0 h \<noteq> None" using m0(4) by (simp add: links_def obj0 rd16_at)
  obtain q where q: "mem2_vp_get_ptr h m0 = Some q" by (rule obj_bytes [OF m0(2) obj0])
  obtain m1 m2 where m2: "set_node_prev q (- 1) m0 = Some m1" "set_node_next q (- 1) m1 = Some m2"
      "relinked {h} m0 m2" "links m2 = (links m0)(h \<mapsto> (- 1, - 1))"
    by (rule link_lone [OF m0(2) l0 q])
  note inv2 = relinked_simps(1) [OF m2(3)] and ptr2 = relinked_simps(2) [OF m2(3)]
  obtain bytes2 where b2: "mem_obj m2 h = Some (t, bytes2)" "length bytes2 = unat len + 5" "links m2 h = Some (- 1, - 1)"
  proof -
    have "payload m2 h = Some (t, take (unat len) (drop 4 bytes))"
      using m2(3) m0(4) by (simp add: relinked_def payload_def obj0)
    moreover have "links m2 h = Some (- 1, - 1)" by (simp add: m2(4))
    moreover from this obtain t' b where "mem_obj m2 h = Some (t', b)" "5 \<le> length b" by (rule links_obj)
    ultimately show thesis
      using that [of b] m0(4) by (auto simp: payload_def min_def split: if_splits dest!: arg_cong [where f = length and 'a = "u8 list"])
  qed
  have others: "k \<noteq> h \<Longrightarrow> mem_obj m2 k = mem_obj m k" for k using m2(3) m0(5) by (simp add: relinked_def)
  show ?thesis
  proof (cases data)
    case None
    then show ?thesis
      using m0(1,3) pos q m2(1,2) b2 others inv2
      by (intro exI [of _ h] exI [of _ m2]) (simp add: list_ln_create_node2_def payload_def)
  next
    case (Some d)
    then have d: "unat len \<le> length d" using data by simp
    then have fits: "4 + length (take (unat len) d) \<le> length bytes2" by (simp add: b2(2))
    obtain m3 where m3: "store_at h 4 (take (unat len) d) m2 = Some m3" "mem_inv m3"
        "mem_obj m3 = (mem_obj m2)(h \<mapsto> (t, put_bytes bytes2 4 (take (unat len) d)))"
      using store_object [OF inv2 b2(1) fits] by blast
    let ?new = "put_bytes bytes2 4 (take (unat len) d)"
    have "rd16 ?new 0 = rd16 bytes2 0" "rd16 ?new 2 = rd16 bytes2 2"
      using fits by (simp_all add: rd16_at nth_put_bytes)
    then have "links m3 h = links m2 h" using fits by (simp add: links_def m3(3) b2(1))
    moreover have "payload m3 h = Some (t, take (unat len) d)"
      using d b2(2) by (simp add: payload_def m3(3) put_bytes_def)
    moreover have "list_ln_create_node2 data len t m = Some (h, m3)"
      using m0(1) pos q m2(1,2) m3(1) ptr2 d Some
      by (auto simp: list_ln_create_node2_def store_at_def require_def opt_simps split: if_splits)
    ultimately show ?thesis
      using m0(3) m3(2) b2(3) others Some d by (intro exI [of _ h] exI [of _ m3]) (auto simp: m3(3))
  qed
qed

lemma create_failed:
  assumes "mem_inv m" and "unat len < 65527" and "alloc_fails (5 + len) m"
  shows "\<exists>m'. list_ln_create_node2 data len t m = Some (- 1, m') \<and> mem_inv m' \<and> mem_obj m' = mem_obj m"
proof -
  have "unat (5 + len) < 65532" using assms(2) unat_add16 [of 5 len] by simp
  from alloc_object [OF assms(1) this, of t] assms(3) show ?thesis
    by (auto simp: list_ln_create_node2_def mem2_h_alloc2_def)
qed

lemma list_rep_other:
  assumes "list_rep l m ns" and "mem_inv m'" and "\<And>k. k \<in> set ns \<Longrightarrow> mem_obj m' k = mem_obj m k"
  shows "list_rep l m' ns"
proof -
  have "chained (links m') (- 1) ns (- 1) = chained (links m) (- 1) ns (- 1)"
    by (rule chained_cong) (simp add: links_def assms(3))
  then show ?thesis using assms(1,2) by (simp add: list_rep_def)
qed

text \<open>A node is created beside a list, which stays as it is.\<close>

lemma create_beside:
  assumes rep: "list_rep l m ns" and len: "unat len < 65527" "\<forall>d. data = Some d \<longrightarrow> unat len \<le> length d"
  obtains h m' where "list_ln_create_node2 data len t m = Some (h, m')" and "list_rep l m' ns"
    and "0 \<le> sint h \<Longrightarrow> h \<notin> set ns \<and> links m' h \<noteq> None"
proof -
  have inv: "mem_inv m" using rep by (simp add: list_rep_def)
  show thesis
  proof (cases "alloc_fails (5 + len) m")
    case True
    then obtain m' where m': "list_ln_create_node2 data len t m = Some (- 1, m')" "mem_inv m'" "mem_obj m' = mem_obj m"
      using create_failed [OF inv len(1)] by blast
    show thesis by (rule that [OF m'(1)]) (use list_rep_other [OF rep m'(2)] m'(3) in auto)
  next
    case False
    then obtain h m' where m': "list_ln_create_node2 data len t m = Some (h, m')" "mem_inv m'" "mem_obj m h = None"
        "links m' h = Some (- 1, - 1)" "\<forall>k. k \<noteq> h \<longrightarrow> mem_obj m' k = mem_obj m k"
      using create_rep [OF inv len] by blast
    have "h \<notin> set ns" using list_rep_node(1) [OF rep, of h] m'(3) by (auto simp: links_def)
    moreover have "list_rep l m' ns"
      by (rule list_rep_other [OF rep m'(2)]) (use m'(5) \<open>h \<notin> set ns\<close> in metis)
    ultimately show thesis using that [OF m'(1)] m'(4) by simp
  qed
qed

lemma destroy_chained:
  assumes "mem_inv m" and "chained (links m) p ns (- 1)" and "distinct ns"
  shows "\<exists>m'. destroy_from (hd (ns @ [- 1])) m = Some m' \<and> mem_inv m' \<and> mem_obj m' = mem_obj m |` (- set ns)"
  using assms
proof (induction ns arbitrary: m p)
  case Nil
  then show ?case by (simp add: walk_end)
next
  case (Cons x xs)
  have x: "0 \<le> sint x" using chained_pos [OF Cons.prems(1,2)] by simp
  obtain obj where "mem_obj m x = Some obj" using Cons.prems(2) links_obj by (metis chained.simps(2))
  then obtain m1 where m1: "mem2_v_free x m = Some m1" "mem_inv m1" "mem_obj m1 = (mem_obj m)(x := None)"
    using free_object [OF Cons.prems(1)] by blast
  have "chained (links m1) x xs (- 1) = chained (links m) x xs (- 1)"
    using Cons.prems(3) by (intro chained_cong) (auto simp: links_def m1(3))
  then obtain m' where m': "destroy_from (hd (xs @ [- 1])) m1 = Some m'" "mem_inv m'" "mem_obj m' = mem_obj m1 |` (- set xs)"
    using Cons.IH [OF m1(2)] Cons.prems(2,3) by auto
  have "mem_obj m' = mem_obj m |` (- set (x # xs))" unfolding m'(3) m1(3) by (rule ext) (simp add: restrict_map_def)
  then show ?case
    using m' m1(1) x next_chained(1) [OF Cons.prems(1,2)]
    by (subst destroy_from.simps) (simp add: list_v_release_node_def)
qed

lemma empty_list: "mem_inv m \<Longrightarrow> list_rep (list_v_init l) m []"
  by (simp add: list_rep_def list_v_init_def)

lemma destroy_rep:
  assumes "list_rep l m ns"
  obtains m' where "list_v_destroy l m = Some (list_v_init l, m')" and "list_rep (list_v_init l) m' []"
    and "mem_obj m' = mem_obj m |` (- set ns)"
proof -
  have inv: "mem_inv m" "chained (links m) (- 1) ns (- 1)" "list_head l = hd (ns @ [- 1])" "distinct ns" "list_init l = 1"
    using assms by (simp_all add: list_rep_def)
  from destroy_chained [OF inv(1,2,4)] show thesis
    using inv(3,5) empty_list that by (auto simp: list_v_destroy_def)
qed

section \<open>Properties\<close>

text \<open>
  C38 Every run of insertions and removals on a well-formed list of pool objects is defined and
  does to the list what the same operations do to the sequence of its nodes; the data of all nodes,
  and every object that is not a node, stay as they are.
\<close>

theorem list_ops_refine:
  assumes "list_rep l m ns" and "all_allowed (list_op_allowed (dom (links m))) list_op_spec ops ns"
  shows "\<exists>l' m'. for_each run_list_op ops (l, m) = Some (l', m') \<and> list_rep l' m' (fold list_op_spec ops ns)
    \<and> payload m' = payload m \<and> (\<forall>k. links m k = None \<longrightarrow> mem_obj m' k = mem_obj m k)"
proof -
  have "list_from m (l, m) ns" using assms(1) relinked_refl by (simp add: list_from_def list_rep_def)
  from lists.runs [OF this assms(2)] show ?thesis by (auto simp: list_from_def relinked_def domIff)
qed

text \<open>A pool with two nodes.\<close>

definition sample_node :: mem_state where
  "sample_node = snd (the (list_ln_create_node2 (Some [1, 2]) 2 0 sample_pool))"

lemma sample_node_free: "free_space (mem_rt sample_node) = 48" "mem_handles sample_node ! 1 = None"
  by code_simp+


lemma sample_nodes:
  obtains m h k where "mem_inv m" and "links m h \<noteq> None" and "links m k \<noteq> None" and "h \<noteq> k"
    and "payload m h = Some (0, [1, 2])" and "payload m k = Some (0, [3, 4])"
proof -
  have "\<not> alloc_fails (5 + 2) sample_pool" using sample_pool_free [of 7] by simp
  then obtain h m1 where m1: "list_ln_create_node2 (Some [1, 2]) 2 0 sample_pool = Some (h, m1)" "mem_inv m1"
      "links m1 h = Some (- 1, - 1)" "payload m1 h = Some (0, [1, 2])"
    using create_rep [OF sample_pool_inv, of 2 "Some [1, 2]" 0] by fastforce
  then have "m1 = sample_node" by (simp add: sample_node_def)
  then have "\<not> alloc_fails (5 + 2) m1"
    using sample_node_free padding_bounds(2) [of 7] by (auto simp: alloc_fails_def intro!: exI [of _ 1])
  then obtain k m2 where m2: "mem_inv m2" "mem_obj m1 k = None" "links m2 k = Some (- 1, - 1)" "payload m2 k = Some (0, [3, 4])"
      "\<forall>j. j \<noteq> k \<longrightarrow> mem_obj m2 j = mem_obj m1 j"
    using create_rep [OF m1(2), of 2 "Some [3, 4]" 0] by fastforce
  have "mem_obj m1 h \<noteq> None" using m1(3) by (auto elim: links_obj)
  then have "h \<noteq> k" using m2(2) by auto
  moreover have "links m2 h = links m1 h" "payload m2 h = payload m1 h"
    using m2(5) \<open>h \<noteq> k\<close> by (simp_all add: links_def payload_def)
  ultimately show thesis using that [of m2 h k] m1 m2 by simp
qed

lemma sample_list:
  obtains l m h k where "list_rep l m [k, h]" and "h \<noteq> k" and "node_data m h = [1, 2]" and "node_data m k = [3, 4]"
proof -
  obtain m h k where m: "mem_inv m" "links m h \<noteq> None" "links m k \<noteq> None" "h \<noteq> k"
      "payload m h = Some (0, [1, 2])" "payload m k = Some (0, [3, 4])"
    by (rule sample_nodes)
  let ?l = "list_v_init \<lparr>list_init = 0, list_head = 0, list_tail = 0\<rparr>"
  obtain l1 m1 where m1: "list_rep l1 m1 [h]" "relinked {h} m m1"
    using insert_empty_rep [OF empty_list [OF m(1)] m(2)] by blast
  have "links m1 k \<noteq> None" using m(3) m1(2) links_payload by (simp add: relinked_def)
  then obtain l2 m2 where m2: "list_rep l2 m2 [k, h]" "relinked (insert k {h}) m1 m2"
    using insert_head_rep [OF m1(1), of k] m(4) by auto
  have "payload m2 = payload m" using m1(2) m2(2) by (simp add: relinked_def)
  then show thesis using that [OF m2(1) m(4)] m(5,6) by simp
qed

lemma list_ops_refine_witness:
  "\<exists>l m h k l' m'. for_each run_list_op [Insert_Tail h, Insert_Head k, Remove h] (l, m) = Some (l', m') \<and> list_rep l' m' [k]"
proof -
  obtain m h k where m: "mem_inv m" "links m h \<noteq> None" "links m k \<noteq> None" "h \<noteq> k" by (rule sample_nodes)
  let ?ops = "[Insert_Tail h, Insert_Head k, Remove h]"
  have "all_allowed (list_op_allowed (dom (links m))) list_op_spec ?ops []" using m(2-4) by auto
  then obtain l' m' where "for_each run_list_op ?ops (list_v_init \<lparr>list_init = 0, list_head = 0, list_tail = 0\<rparr>, m) = Some (l', m')"
      "list_rep l' m' [k]"
    using list_ops_refine [OF empty_list [OF m(1)]] m(4) by fastforce
  then show ?thesis by blast
qed

text \<open>
  What the readers of a list report: the number of its nodes - but modulo 256, so that a
  list of 256 nodes counts 0 -, the bytes of data in it, its nth node or -1 behind the end, and
  whether it is empty.
\<close>

theorem list_readers:
  assumes "list_rep l m ns"
  shows "list_u8_count l m = Some (word_of_nat (length ns)) \<and> length ns \<le> 256
    \<and> (\<exists>n. list_u16_size l m = Some n \<and> unat n = (\<Sum>x \<leftarrow> ns. length (node_data m x)))
    \<and> list_ln_index l i m = Some (if unat i < length ns then ns ! unat i else - 1)
    \<and> list_b_is_empty l = (ns = [])"
proof -
  have inv: "mem_inv m" "chained (links m) (- 1) ns (- 1)" "list_head l = hd (ns @ [- 1])" "distinct ns"
    using assms by (simp_all add: list_rep_def)
  have "length (concat (map (node_data m) ns)) < 32768"
    using data_total [OF inv(1,4)] list_rep_node(1) [OF assms] by blast
  then have "unat (word_of_nat (length (concat (map (node_data m) ns))) :: u16) = (\<Sum>x \<leftarrow> ns. length (node_data m x))"
    by (simp add: unat_of_nat16 length_concat comp_def)
  moreover have "list_b_is_empty l = (ns = [])"
    using inv(3) list_rep_node(2) [OF assms, of "hd ns"] by (cases ns) (auto simp: list_b_is_empty_def)
  ultimately show ?thesis
    using count_chained [OF inv(1,2), of 0] size_chained [OF inv(1,2), of 0] index_chained [OF inv(1,2)]
      list_rep_length [OF assms] inv(3)
    by (simp add: list_u8_count_def list_u16_size_def list_ln_index_def)
qed

lemma list_readers_witness:
  "\<exists>l m h. list_u8_count l m = Some 2 \<and> list_u16_size l m = Some 4 \<and> list_ln_index l 1 m = Some h \<and> list_ln_index l 2 m = Some (- 1)"
proof -
  obtain l m h k where l: "list_rep l m [k, h]" "node_data m h = [1, 2]" "node_data m k = [3, 4]" by (rule sample_list)
  from list_readers [OF l(1), of 1] list_readers [OF l(1), of 2] show ?thesis
    by (intro exI [of _ l] exI [of _ m] exI [of _ h]) (auto simp: l(2,3) word_unat_eq_iff)
qed

text \<open>
  C39 \<open>list_u16_flatten\<close> copies, across the borders of the nodes, exactly the bytes from
  \<open>pos\<close> on of all data of the list put together, at most \<open>len\<close> of them, and returns their number.
\<close>

theorem list_flatten_correct:
  assumes "list_rep l m ns"
  shows "\<exists>n out. list_u16_flatten l pos len m = Some (n, out) \<and> unat n = length out
    \<and> out = take (unat len) (drop (unat pos) (concat (map (node_data m) ns)))"
proof -
  have inv: "mem_inv m" "chained (links m) (- 1) ns (- 1)" "list_head l = hd (ns @ [- 1])" "distinct ns"
    using assms by (simp_all add: list_rep_def)
  have total: "length (concat (map (node_data m) ns)) < 32768"
    using data_total [OF inv(1,4)] list_rep_node(1) [OF assms] by blast
  let ?out = "take (unat len) (drop (unat pos) (concat (map (node_data m) ns)))"
  have "list_u16_flatten l pos len m = Some (word_of_nat (length ?out), ?out)"
    using flatten_chained [OF inv(1,2), of 0 pos len 0 "[]"] total inv(3) by (simp add: list_u16_flatten_def Let_def)
  moreover have "unat (word_of_nat (length ?out) :: u16) = length ?out"
    using total by (intro unat_of_nat16) simp
  ultimately show ?thesis by blast
qed

lemma list_flatten_correct_witness:
  "\<exists>l m. list_u16_flatten l 1 2 m = Some (2, [4, 1])"
proof -
  obtain l m h k where l: "list_rep l m [k, h]" "node_data m h = [1, 2]" "node_data m k = [3, 4]" by (rule sample_list)
  from list_flatten_correct [OF l(1), of 1 2] obtain n where "list_u16_flatten l 1 2 m = Some (n, [4, 1])" "unat n = 2"
    using l(2,3) by (auto simp: drop_Cons' take_Cons')
  moreover from this have "n = 2" by (simp add: word_unat_eq_iff)
  ultimately show ?thesis by blast
qed

text \<open>
  Creating a node: if the pool has room, the handle is fresh, the node is in no list, and
  its data are the given bytes; if not, -1 is returned; in both cases every other object stays.
\<close>

theorem list_create_node_correct:
  assumes "mem_inv m" and "unat len < 65527" and "\<forall>d. data = Some d \<longrightarrow> unat len \<le> length d"
  shows "\<exists>h m'. list_ln_create_node2 data len t m = Some (h, m') \<and> mem_inv m'
    \<and> (if alloc_fails (5 + len) m then h = - 1 \<and> mem_obj m' = mem_obj m
       else mem_obj m h = None \<and> links m' h = Some (- 1, - 1)
          \<and> (\<exists>bytes. payload m' h = Some (t, bytes) \<and> length bytes = unat len
              \<and> (\<forall>d. data = Some d \<longrightarrow> bytes = take (unat len) d))
          \<and> (\<forall>k. k \<noteq> h \<longrightarrow> mem_obj m' k = mem_obj m k))"
proof (cases "alloc_fails (5 + len) m")
  case True
  from create_failed [OF assms(1,2) True, of data t] True show ?thesis by auto
next
  case False
  from create_rep [OF assms False, of t] show ?thesis by (simp add: False)
qed

lemma list_create_node_correct_witness:
  "\<exists>h m'. list_ln_create_node2 (Some [1, 2, 3]) 2 9 sample_pool = Some (h, m') \<and> payload m' h = Some (9, [1, 2])"
proof -
  have "\<not> alloc_fails (5 + 2) sample_pool" using sample_pool_free [of 7] by simp
  then show ?thesis
    using list_create_node_correct [OF sample_pool_inv, of 2 "Some [1, 2, 3]" 9] by fastforce
qed

text \<open>
  C40 Destroying a list releases every one of its nodes and nothing else, and leaves an
  empty list; an uninitialised list is left alone.
\<close>

theorem list_destroy_correct:
  assumes "list_rep l m ns"
  shows "\<exists>l' m'. list_v_destroy l m = Some (l', m') \<and> list_rep l' m' [] \<and> mem_obj m' = mem_obj m |` (- set ns)
    \<and> list_v_destroy (l\<lparr>list_init := 0\<rparr>) m = Some (l\<lparr>list_init := 0\<rparr>, m)"
proof -
  obtain m' where "list_v_destroy l m = Some (list_v_init l, m')" "list_rep (list_v_init l) m' []"
      "mem_obj m' = mem_obj m |` (- set ns)"
    by (rule destroy_rep [OF assms])
  then show ?thesis by (auto simp: list_v_destroy_def [of "l\<lparr>list_init := 0\<rparr>"])
qed

lemma list_destroy_correct_witness:
  "\<exists>l m h k l' m'. list_rep l m [k, h] \<and> list_v_destroy l m = Some (l', m') \<and> mem_obj m' k = None"
proof -
  obtain l m h k where l: "list_rep l m [k, h]" by (rule sample_list)
  from list_destroy_correct [OF this] obtain l' m' where "list_v_destroy l m = Some (l', m')" "mem_obj m' = mem_obj m |` (- {k, h})"
    by auto
  then show ?thesis using l by (intro exI) auto
qed

end
