(* ===== verification/Gfx_State.thy ===== *)
theory Gfx_State
  imports Util Rand Kvdb
begin

text \<open>
  The state of the pixel library, \<open>src/src/lib_chromatron/gfx_lib.c\<close>, and the operations on its
  parameters: the error check, the master dimmer's fader, the copy of the parameters in the
  key/value database, the parameter block, reset and initialisation.  (The remaining operations
  are in the theories \<open>Gfx_Pixels\<close>, \<open>Gfx_Fader\<close> and \<open>Gfx_Color\<close>.)

  Every file-level variable of \<open>gfx_lib.c\<close> is a field of the record \<open>gfx_state\<close>.
  \<open>pix_arrays\<close> points into the image of the running program; it is the table of pixel objects,
  \<^term>\<open>None\<close> while the pointer is null.

  Parameters of the model: \<open>pw\<close>, the dimmer curve (the C library's \<open>pow\<close> in floating point:
  \<open>pw curve i\<close> is the 16 bit table entry), \<open>KV\<close>, the hash that the build writes for a
  \<open>__KV__\<close> name, and \<open>grown\<close>, what the allocator gives at each insertion into the database.
\<close>

section \<open>State\<close>

record gfx_pixel_array =
  pa_index :: u16
  pa_count :: u16
  pa_size_x :: u16
  pa_size_y :: u16
  pa_reverse :: bool

record gfx_state =
  array_red :: "u8 list"
  array_green :: "u8 list"
  array_blue :: "u8 list"
  array_misc :: "u8 list"
  pix0_16bit_red :: u16
  pix0_16bit_green :: u16
  pix0_16bit_blue :: u16
  hue :: "u16 list"
  sat :: "u16 list"
  val :: "u16 list"
  target_hue :: "u16 list"
  target_sat :: "u16 list"
  target_val :: "u16 list"
  global_hs_fade :: u16
  global_v_fade :: u16
  hs_fade :: "u16 list"
  v_fade :: "u16 list"
  hue_step :: "i16 list"
  sat_step :: "i16 list"
  val_step :: "i16 list"
  pix_master_dimmer :: u16
  pix_sub_dimmer :: u16
  target_dimmer :: u16
  current_dimmer :: u16
  dimmer_step :: i16
  pix_mode :: u8
  pix_count :: u16
  pix_size_x :: u16
  pix_size_y :: u16
  pix_interleave_x :: bool
  pix_transpose :: bool
  pix_array_count :: u8
  pix_arrays :: "gfx_pixel_array list option"
  virtual_array_start :: u16
  virtual_array_length :: u16
  virtual_array_sub_position :: u8
  scaled_pix_count :: u32
  scaled_virtual_array_length :: u32
  gfx_frame_rate :: u16
  dimmer_curve :: u8
  dimmer_lookup :: "u16 list"
  noise_table :: "u8 list"

record gfx_params =
  par_version :: u8
  par_pix_count :: u16
  par_pix_size_x :: u16
  par_pix_size_y :: u16
  par_pix_mode :: u8
  par_interleave_x :: bool
  par_transpose :: bool
  par_hs_fade :: u16
  par_v_fade :: u16
  par_master_dimmer :: u16
  par_sub_dimmer :: u16
  par_frame_rate :: u16
  par_dimmer_curve :: u16
  par_virtual_array_start :: u16
  par_virtual_array_length :: u16

abbreviation (input) MAX_PIXELS :: u16 where "MAX_PIXELS \<equiv> 320"
abbreviation (input) FADER_RATE :: u16 where "FADER_RATE \<equiv> 20"
abbreviation (input) GFX_VERSION :: u8 where "GFX_VERSION \<equiv> 1"
abbreviation (input) GFX_DIMMER_CURVE_DEFAULT :: u8 where "GFX_DIMMER_CURVE_DEFAULT \<equiv> 128"
abbreviation (input) DIMMER_LOOKUP_SIZE :: nat where "DIMMER_LOOKUP_SIZE \<equiv> 256"
abbreviation (input) NOISE_TABLE_SIZE :: nat where "NOISE_TABLE_SIZE \<equiv> 256"
abbreviation (input) PIX_MODE_SK6812_RGBW :: u8 where "PIX_MODE_SK6812_RGBW \<equiv> 5"

abbreviation (input) ARRAY_OBJ_TYPE :: u8 where "ARRAY_OBJ_TYPE \<equiv> 0"
abbreviation (input) PIX_OBJ_TYPE :: u8 where "PIX_OBJ_TYPE \<equiv> 1"
abbreviation (input) PIX_ATTR_HUE :: u8 where "PIX_ATTR_HUE \<equiv> 0"
abbreviation (input) PIX_ATTR_SAT :: u8 where "PIX_ATTR_SAT \<equiv> 1"
abbreviation (input) PIX_ATTR_VAL :: u8 where "PIX_ATTR_VAL \<equiv> 2"
abbreviation (input) PIX_ATTR_HS_FADE :: u8 where "PIX_ATTR_HS_FADE \<equiv> 3"
abbreviation (input) PIX_ATTR_V_FADE :: u8 where "PIX_ATTR_V_FADE \<equiv> 4"
abbreviation (input) PIX_ATTR_COUNT :: u8 where "PIX_ATTR_COUNT \<equiv> 5"
abbreviation (input) PIX_ATTR_SIZE_X :: u8 where "PIX_ATTR_SIZE_X \<equiv> 6"
abbreviation (input) PIX_ATTR_SIZE_Y :: u8 where "PIX_ATTR_SIZE_Y \<equiv> 7"
abbreviation (input) PIX_ATTR_INDEX :: u8 where "PIX_ATTR_INDEX \<equiv> 8"

abbreviation pixel_zeros :: "'a::len word list" where "pixel_zeros \<equiv> replicate 320 0"

text \<open>The statics as the program starts: zero except where an initialiser says otherwise.\<close>

definition gfx_initial :: gfx_state where
  "gfx_initial =
     \<lparr>array_red = pixel_zeros, array_green = pixel_zeros, array_blue = pixel_zeros,
      array_misc = pixel_zeros, pix0_16bit_red = 0, pix0_16bit_green = 0, pix0_16bit_blue = 0,
      hue = pixel_zeros, sat = pixel_zeros, val = pixel_zeros,
      target_hue = pixel_zeros, target_sat = pixel_zeros, target_val = pixel_zeros,
      global_hs_fade = 1000, global_v_fade = 1000, hs_fade = pixel_zeros, v_fade = pixel_zeros,
      hue_step = pixel_zeros, sat_step = pixel_zeros, val_step = pixel_zeros,
      pix_master_dimmer = 0, pix_sub_dimmer = 0, target_dimmer = 0, current_dimmer = 0,
      dimmer_step = 0, pix_mode = 0, pix_count = 0, pix_size_x = 0, pix_size_y = 0,
      pix_interleave_x = False, pix_transpose = False, pix_array_count = 0, pix_arrays = None,
      virtual_array_start = 0, virtual_array_length = 0, virtual_array_sub_position = 0,
      scaled_pix_count = 0, scaled_virtual_array_length = 0, gfx_frame_rate = 100,
      dimmer_curve = GFX_DIMMER_CURVE_DEFAULT, dimmer_lookup = replicate 256 0,
      noise_table = replicate 256 0\<rparr>"

section \<open>Internal helpers\<close>

definition compute_dimmer_lookup :: "(u8 \<Rightarrow> nat \<Rightarrow> u16) \<Rightarrow> gfx_state \<Rightarrow> gfx_state" where
  "compute_dimmer_lookup pw g =
     g\<lparr>dimmer_lookup := map (pw (dimmer_curve g)) [0..<DIMMER_LOOKUP_SIZE]\<rparr>"

text \<open>Object 0 is overwritten in place; a table without an object 0 is written out of bounds.\<close>

definition setup_master_array :: "gfx_state \<Rightarrow> gfx_state option" where
  "setup_master_array g =
     (case pix_arrays g of
        None \<Rightarrow> Some g
      | Some arrays \<Rightarrow>
          do { a0 \<leftarrow> rd arrays 0;
               arrays \<leftarrow> wr arrays 0 (a0\<lparr>pa_index := 0, pa_count := pix_count g,
                                     pa_size_x := pix_size_x g, pa_size_y := pix_size_y g\<rparr>);
               Some (g\<lparr>pix_arrays := Some arrays\<rparr>) })"

text \<open>
  A fader's step for a distance to cover in a number of steps: the \<open>int32_t\<close> computation that
  \<open>update_master_fader\<close> and \<open>gfx_v_process_faders\<close> repeat.  The result is stored in an
  \<open>int16_t\<close>.
\<close>

definition fade_steps_of :: "u16 \<Rightarrow> u16" where
  "fade_steps_of fade = (let fade_steps = fade div FADER_RATE in if fade_steps \<le> 1 then 2 else fade_steps)"

definition limit_step :: "int \<Rightarrow> int \<Rightarrow> int" where
  "limit_step diff step =
     (if step > 32768 then 32768
      else if step < - 32767 then - 32767
      else if step = 0 then (if diff \<ge> 0 then 1 else - 1)
      else step)"

definition update_master_fader :: "gfx_state \<Rightarrow> gfx_state" where
  "update_master_fader g =
     (let fade_steps = fade_steps_of (global_v_fade g);
          target = (ucast ((ucast (pix_master_dimmer g) * ucast (pix_sub_dimmer g) :: u32)
                           div 65536) :: u16);
          diff = uint target - uint (current_dimmer g);
          step = diff sdiv uint fade_steps
      in g\<lparr>target_dimmer := target, dimmer_step := word_of_int (limit_step diff step)\<rparr>)"

text \<open>The thirteen insertions of \<open>sync_db\<close>, in order, and the loop-free body as a fold.\<close>

definition sync_db_entries :: "gfx_state \<Rightarrow> (string \<times> i32) list" where
  "sync_db_entries g =
     [(''pix_count'', ucast (pix_count g)),
      (''pix_size_x'', ucast (pix_size_x g)),
      (''pix_size_y'', ucast (pix_size_y g)),
      (''pix_mode'', ucast (pix_mode g)),
      (''gfx_hsfade'', ucast (global_hs_fade g)),
      (''gfx_vfade'', ucast (global_v_fade g)),
      (''gfx_interleave_x'', of_bool (pix_interleave_x g)),
      (''gfx_transpose'', of_bool (pix_transpose g)),
      (''gfx_master_dimmer'', ucast (pix_master_dimmer g)),
      (''gfx_sub_dimmer'', ucast (pix_sub_dimmer g)),
      (''gfx_frame_rate'', ucast (gfx_frame_rate g)),
      (''gfx_virtual_array_start'', ucast (virtual_array_start g)),
      (''gfx_virtual_array_length'', ucast (virtual_array_length g))]"

definition sync_db ::
    "(string \<Rightarrow> u32) \<Rightarrow> (string \<Rightarrow> db_entry32 list option) \<Rightarrow> gfx_state \<Rightarrow> kvdb_state \<Rightarrow> kvdb_state"
  where
  "sync_db KV grown g db =
     foldl (\<lambda>db (name, v). snd (kvdb_i8_add (KV name) v 0 (grown name) db)) db (sync_db_entries g)"

definition param_error_check :: "gfx_state \<Rightarrow> gfx_state" where
  "param_error_check g =
     (let g = (if pix_count g > MAX_PIXELS then g\<lparr>pix_count := MAX_PIXELS\<rparr>
               else if pix_count g = 0 then g\<lparr>pix_count := 1\<rparr>
               else g);
          g = (if (ucast (pix_size_x g) * ucast (pix_size_y g) :: u32) > ucast (pix_count g)
               then g\<lparr>pix_size_x := pix_count g, pix_size_y := 1\<rparr>
               else g);
          g = (if pix_size_x g > pix_count g then g\<lparr>pix_size_x := 1\<rparr> else g);
          g = (if pix_size_y g > pix_count g then g\<lparr>pix_size_y := 1\<rparr> else g);
          g = (if pix_count g > 0
               then (let g = (if pix_size_x g = 0 then g\<lparr>pix_size_x := 1\<rparr> else g)
                     in if pix_size_y g = 0 then g\<lparr>pix_size_y := 1\<rparr> else g)
               else g)
      in if gfx_frame_rate g < 10 then g\<lparr>gfx_frame_rate := 10\<rparr> else g)"

section \<open>Parameters\<close>

definition gfx_u16_get_vm_frame_rate :: "gfx_state \<Rightarrow> u16" where
  "gfx_u16_get_vm_frame_rate g = gfx_frame_rate g"

definition gfx_v_set_params ::
    "(u8 \<Rightarrow> nat \<Rightarrow> u16) \<Rightarrow> (string \<Rightarrow> u32) \<Rightarrow> (string \<Rightarrow> db_entry32 list option) \<Rightarrow> gfx_params
      \<Rightarrow> gfx_state \<times> kvdb_state \<Rightarrow> (gfx_state \<times> kvdb_state) option" where
  "gfx_v_set_params pw KV grown params st =
     (let (g, db) = st
      in if par_version params \<noteq> GFX_VERSION then Some (g, db)
         else do {
           let old_dimmer_curve = dimmer_curve g;
           let g = g\<lparr>dimmer_curve := ucast (par_dimmer_curve params),
                     pix_count := par_pix_count params,
                     pix_size_x := par_pix_size_x params,
                     pix_size_y := par_pix_size_y params,
                     pix_interleave_x := par_interleave_x params,
                     pix_transpose := par_transpose params,
                     pix_mode := par_pix_mode params,
                     global_hs_fade := par_hs_fade params,
                     global_v_fade := par_v_fade params,
                     pix_master_dimmer := par_master_dimmer params,
                     pix_sub_dimmer := par_sub_dimmer params,
                     gfx_frame_rate := par_frame_rate params,
                     virtual_array_start := par_virtual_array_start params,
                     virtual_array_length := par_virtual_array_length params\<rparr>;
           let g = param_error_check g;
           g \<leftarrow> setup_master_array g;
           let g = (if old_dimmer_curve \<noteq> dimmer_curve g then compute_dimmer_lookup pw g else g);
           let g = update_master_fader g;
           let db = sync_db KV grown g db;
           sub \<leftarrow> u_div (virtual_array_start g) (pix_count g);
           Some (g\<lparr>virtual_array_sub_position := ucast sub,
                   scaled_pix_count := ucast (pix_count g) * 65536,
                   scaled_virtual_array_length := ucast (virtual_array_length g) * 65536\<rparr>, db) })"

definition gfx_v_get_params :: "gfx_state \<Rightarrow> gfx_params" where
  "gfx_v_get_params g =
     \<lparr>par_version = GFX_VERSION, par_pix_count = pix_count g, par_pix_size_x = pix_size_x g,
      par_pix_size_y = pix_size_y g, par_pix_mode = pix_mode g,
      par_interleave_x = pix_interleave_x g, par_transpose = pix_transpose g,
      par_hs_fade = global_hs_fade g, par_v_fade = global_v_fade g,
      par_master_dimmer = pix_master_dimmer g, par_sub_dimmer = pix_sub_dimmer g,
      par_frame_rate = gfx_frame_rate g, par_dimmer_curve = ucast (dimmer_curve g),
      par_virtual_array_start = virtual_array_start g,
      par_virtual_array_length = virtual_array_length g\<rparr>"

definition gfx_v_set_pix_count :: "u16 \<Rightarrow> gfx_state \<Rightarrow> gfx_state" where
  "gfx_v_set_pix_count setting g = g\<lparr>pix_count := setting\<rparr>"

definition gfx_u16_get_pix_count :: "gfx_state \<Rightarrow> u16" where
  "gfx_u16_get_pix_count g = pix_count g"

definition gfx_v_set_master_dimmer :: "u16 \<Rightarrow> gfx_state \<Rightarrow> gfx_state" where
  "gfx_v_set_master_dimmer setting g = update_master_fader (g\<lparr>pix_master_dimmer := setting\<rparr>)"

definition gfx_u16_get_master_dimmer :: "gfx_state \<Rightarrow> u16" where
  "gfx_u16_get_master_dimmer g = pix_master_dimmer g"

definition gfx_v_set_submaster_dimmer :: "u16 \<Rightarrow> gfx_state \<Rightarrow> gfx_state" where
  "gfx_v_set_submaster_dimmer setting g = update_master_fader (g\<lparr>pix_sub_dimmer := setting\<rparr>)"

definition gfx_u16_get_submaster_dimmer :: "gfx_state \<Rightarrow> u16" where
  "gfx_u16_get_submaster_dimmer g = pix_sub_dimmer g"

definition gfx_v_set_size_x :: "u16 \<Rightarrow> gfx_state \<Rightarrow> gfx_state" where
  "gfx_v_set_size_x sz g = g\<lparr>pix_size_x := sz\<rparr>"

definition gfx_u16_get_size_x :: "gfx_state \<Rightarrow> u16" where
  "gfx_u16_get_size_x g = pix_size_x g"

definition gfx_v_set_size_y :: "u16 \<Rightarrow> gfx_state \<Rightarrow> gfx_state" where
  "gfx_v_set_size_y sz g = g\<lparr>pix_size_y := sz\<rparr>"

definition gfx_u16_get_size_y :: "gfx_state \<Rightarrow> u16" where
  "gfx_u16_get_size_y g = pix_size_y g"

definition gfx_v_set_interleave_x :: "bool \<Rightarrow> gfx_state \<Rightarrow> gfx_state" where
  "gfx_v_set_interleave_x setting g = g\<lparr>pix_interleave_x := setting\<rparr>"

definition gfx_b_get_interleave_x :: "gfx_state \<Rightarrow> bool" where
  "gfx_b_get_interleave_x g = pix_interleave_x g"

definition gfx_v_set_transpose :: "bool \<Rightarrow> gfx_state \<Rightarrow> gfx_state" where
  "gfx_v_set_transpose setting g = g\<lparr>pix_transpose := setting\<rparr>"

definition gfx_b_get_transpose :: "gfx_state \<Rightarrow> bool" where
  "gfx_b_get_transpose g = pix_transpose g"

definition gfx_v_set_hsfade :: "u16 \<Rightarrow> gfx_state \<Rightarrow> gfx_state" where
  "gfx_v_set_hsfade setting g = g\<lparr>global_hs_fade := setting\<rparr>"

definition gfx_u16_get_hsfade :: "gfx_state \<Rightarrow> u16" where
  "gfx_u16_get_hsfade g = global_hs_fade g"

definition gfx_v_set_vfade :: "u16 \<Rightarrow> gfx_state \<Rightarrow> gfx_state" where
  "gfx_v_set_vfade setting g = g\<lparr>global_v_fade := setting\<rparr>"

definition gfx_u16_get_vfade :: "gfx_state \<Rightarrow> u16" where
  "gfx_u16_get_vfade g = global_v_fade g"

section \<open>Reset and initialisation\<close>

fun fill_noise :: "nat \<Rightarrow> rnd_state \<Rightarrow> u8 list \<times> rnd_state" where
  "fill_noise 0 rnd = ([], rnd)"
| "fill_noise (Suc n) rnd =
     (let (b, rnd) = rnd_u8_get_int rnd; (bs, rnd) = fill_noise n rnd in (b # bs, rnd))"

definition gfx_v_init_noise :: "gfx_state \<times> rnd_state \<Rightarrow> gfx_state \<times> rnd_state" where
  "gfx_v_init_noise st =
     (let (g, rnd) = st; (bs, rnd) = fill_noise NOISE_TABLE_SIZE rnd in (g\<lparr>noise_table := bs\<rparr>, rnd))"

definition gfx_v_reset :: "gfx_state \<times> rnd_state \<Rightarrow> gfx_state \<times> rnd_state" where
  "gfx_v_reset st =
     (let (g, rnd) = st;
          g = g\<lparr>hue := pixel_zeros, sat := replicate 320 65535, val := pixel_zeros,
                target_hue := pixel_zeros, target_sat := replicate 320 65535,
                target_val := pixel_zeros,
                hue_step := pixel_zeros, sat_step := pixel_zeros, val_step := pixel_zeros,
                hs_fade := replicate 320 (global_hs_fade g),
                v_fade := replicate 320 (global_v_fade g)\<rparr>;
          g = g\<lparr>pix_array_count := 0\<rparr>
      in gfx_v_init_noise (g, rnd))"

definition gfx_v_init_pixel_arrays ::
    "gfx_pixel_array list option \<Rightarrow> u8 \<Rightarrow> gfx_state \<Rightarrow> gfx_state option" where
  "gfx_v_init_pixel_arrays array_ptr cnt g =
     setup_master_array (g\<lparr>pix_arrays := array_ptr, pix_array_count := cnt\<rparr>)"

definition gfxlib_v_init ::
    "(u8 \<Rightarrow> nat \<Rightarrow> u16) \<Rightarrow> gfx_state \<times> rnd_state \<Rightarrow> gfx_state \<times> rnd_state" where
  "gfxlib_v_init pw st =
     (let (g, rnd) = st;
          g = param_error_check g;
          g = compute_dimmer_lookup pw g;
          (g, rnd) = gfx_v_reset (g, rnd)
      in (update_master_fader g, rnd))"

section \<open>Well-formed states\<close>

text \<open>Every pixel array has the length it is declared with.\<close>

definition gfx_wf :: "gfx_state \<Rightarrow> bool" where
  "gfx_wf g \<longleftrightarrow>
     length (hue g) = 320 \<and> length (sat g) = 320 \<and> length (val g) = 320
     \<and> length (target_hue g) = 320 \<and> length (target_sat g) = 320 \<and> length (target_val g) = 320
     \<and> length (hs_fade g) = 320 \<and> length (v_fade g) = 320
     \<and> length (hue_step g) = 320 \<and> length (sat_step g) = 320 \<and> length (val_step g) = 320
     \<and> length (array_red g) = 320 \<and> length (array_green g) = 320
     \<and> length (array_blue g) = 320 \<and> length (array_misc g) = 320
     \<and> length (dimmer_lookup g) = 256 \<and> length (noise_table g) = 256"

text \<open>What the error check establishes, and the rest of the library relies on.\<close>

definition params_ok :: "gfx_state \<Rightarrow> bool" where
  "params_ok g \<longleftrightarrow>
     0 < pix_count g \<and> pix_count g \<le> MAX_PIXELS
     \<and> 0 < pix_size_x g \<and> 0 < pix_size_y g
     \<and> unat (pix_size_x g) * unat (pix_size_y g) \<le> unat (pix_count g)
     \<and> 10 \<le> gfx_frame_rate g"

lemma gfx_wf_initial: "gfx_wf gfx_initial"
  by (simp add: gfx_wf_def gfx_initial_def)

lemma unat_prod_u16: "unat (ucast (x :: u16) * ucast (y :: u16) :: u32) = unat x * unat y"
proof -
  have "unat x * unat y \<le> 65535 * 65535"
    using unat16_less [of x] unat16_less [of y] by (intro mult_le_mono) simp_all
  then show ?thesis by (simp add: unat_word_ariths(2))
qed

lemma uint_scaled_product:
  "uint (ucast ((ucast (a :: u16) * ucast (b :: u16) :: u32) div 65536) :: u16) = uint a * uint b div 65536"
proof -
  have "unat a * unat b \<le> 65535 * 65535"
    using unat16_less [of a] unat16_less [of b] by (intro mult_le_mono) simp_all
  then have lt: "unat a * unat b div 65536 < 65536" by auto
  have "unat ((ucast a * ucast b :: u32) div 65536) = unat a * unat b div 65536"
    by (simp add: unat_div unat_prod_u16)
  then have "unat (ucast ((ucast a * ucast b :: u32) div 65536) :: u16) = unat a * unat b div 65536"
    using lt by (simp add: unsigned_ucast_eq unsigned_take_bit_eq take_bit_nat_eq_self)
  then have "int (unat (ucast ((ucast a * ucast b :: u32) div 65536) :: u16)) = int (unat a * unat b div 65536)"
    by (simp only: )
  then show ?thesis by (simp only: of_nat_div of_nat_mult of_nat_unat of_nat_numeral)
qed

text \<open>The four fields after the check, as functions of what they were.\<close>

definition clamp_count :: "u16 \<Rightarrow> u16" where
  "clamp_count c = (if c > MAX_PIXELS then MAX_PIXELS else if c = 0 then 1 else c)"

definition clamp_size :: "u16 \<Rightarrow> u16 \<Rightarrow> u16" where
  "clamp_size c s = (if s > c then 1 else if s = 0 then 1 else s)"

lemma clamp_count_bounds: "0 < clamp_count c" "clamp_count c \<le> MAX_PIXELS"
  by (auto simp: clamp_count_def word_gt_0)

lemma param_error_check_fields:
  fixes g
  defines "c \<equiv> clamp_count (pix_count g)"
    and "over \<equiv> unat (pix_size_x g) * unat (pix_size_y g) > unat (clamp_count (pix_count g))"
  shows "param_error_check g =
    g\<lparr>pix_count := c, pix_size_x := clamp_size c (if over then c else pix_size_x g),
      pix_size_y := clamp_size c (if over then 1 else pix_size_y g),
      gfx_frame_rate := (if gfx_frame_rate g < 10 then 10 else gfx_frame_rate g)\<rparr>"
proof -
  define g1 where "g1 = (if pix_count g > MAX_PIXELS then g\<lparr>pix_count := MAX_PIXELS\<rparr>
               else if pix_count g = 0 then g\<lparr>pix_count := 1\<rparr> else g)"
  define g2 where "g2 = (if (ucast (pix_size_x g1) * ucast (pix_size_y g1) :: u32) > ucast (pix_count g1)
               then g1\<lparr>pix_size_x := pix_count g1, pix_size_y := 1\<rparr> else g1)"
  define g3 where "g3 = (if pix_size_x g2 > pix_count g2 then g2\<lparr>pix_size_x := 1\<rparr> else g2)"
  define g4 where "g4 = (if pix_size_y g3 > pix_count g3 then g3\<lparr>pix_size_y := 1\<rparr> else g3)"
  define g5 where "g5 = (if pix_count g4 > 0
               then (let g = (if pix_size_x g4 = 0 then g4\<lparr>pix_size_x := 1\<rparr> else g4)
                     in if pix_size_y g = 0 then g\<lparr>pix_size_y := 1\<rparr> else g)
               else g4)"
  let ?x = "if over then c else pix_size_x g" and ?y = "if over then 1 else pix_size_y g"
  have g1: "g1 = g\<lparr>pix_count := c\<rparr>"
    by (simp add: g1_def c_def clamp_count_def)
  have "(ucast (pix_size_x g1) * ucast (pix_size_y g1) :: u32) > ucast (pix_count g1) \<longleftrightarrow> over"
    by (simp add: g1 over_def c_def word_less_nat_alt unat_prod_u16)
  then have g2: "g2 = g\<lparr>pix_count := c, pix_size_x := ?x, pix_size_y := ?y\<rparr>"
    by (simp add: g2_def g1)
  have g3: "g3 = g\<lparr>pix_count := c, pix_size_x := (if ?x > c then 1 else ?x), pix_size_y := ?y\<rparr>"
    by (simp add: g3_def g2)
  have g4: "g4 = g\<lparr>pix_count := c, pix_size_x := (if ?x > c then 1 else ?x),
                  pix_size_y := (if ?y > c then 1 else ?y)\<rparr>"
    by (simp add: g4_def g3)
  have "0 < c" by (simp add: c_def clamp_count_bounds)
  then have g5: "g5 = g\<lparr>pix_count := c, pix_size_x := clamp_size c ?x, pix_size_y := clamp_size c ?y\<rparr>"
    by (simp add: g5_def g4 clamp_size_def)
  have "param_error_check g
      = (if gfx_frame_rate g5 < 10 then g5\<lparr>gfx_frame_rate := 10\<rparr> else g5)"
    by (simp only: param_error_check_def Let_def g1_def g2_def g3_def g4_def g5_def)
  also have "\<dots> = g\<lparr>pix_count := c, pix_size_x := clamp_size c ?x, pix_size_y := clamp_size c ?y,
      gfx_frame_rate := (if gfx_frame_rate g < 10 then 10 else gfx_frame_rate g)\<rparr>"
    by (simp add: g5)
  finally show ?thesis .
qed

lemma clamp_size_pos [simp]: "0 < clamp_size c x"
  by (auto simp: clamp_size_def word_gt_0)

lemma clamp_size_product:
  assumes "0 < c" and "unat x * unat y \<le> unat c \<or> x = 1 \<or> y = 1"
  shows "unat (clamp_size c x) * unat (clamp_size c y) \<le> unat c"
proof -
  have c: "1 \<le> unat c" using assms(1) by (simp add: word_less_nat_alt)
  have le: "unat (clamp_size c z) \<le> unat c" for z
    using c by (auto simp: clamp_size_def word_less_nat_alt)
  show "unat (clamp_size c x) * unat (clamp_size c y) \<le> unat c"
  proof (cases "clamp_size c x = 1 \<or> clamp_size c y = 1")
    case True
    then show ?thesis using le [of x] le [of y] by auto
  next
    case False
    then have "clamp_size c x = x" "clamp_size c y = y" "x \<noteq> 1" "y \<noteq> 1"
      by (auto simp: clamp_size_def split: if_splits)
    then show ?thesis using assms(2) by simp
  qed
qed

lemma param_error_check_ok: "params_ok (param_error_check g)"
  using clamp_count_bounds [of "pix_count g"]
  by (auto simp: param_error_check_fields params_ok_def clamp_size_product not_less)

lemma params_ok_sizes:
  assumes "params_ok g"
  shows "pix_size_x g \<le> pix_count g" "pix_size_y g \<le> pix_count g"
proof -
  have pos: "1 \<le> unat (pix_size_x g)" "1 \<le> unat (pix_size_y g)"
    using assms by (simp_all add: params_ok_def word_less_nat_alt)
  then have "unat (pix_size_x g) * 1 \<le> unat (pix_size_x g) * unat (pix_size_y g)"
    "1 * unat (pix_size_y g) \<le> unat (pix_size_x g) * unat (pix_size_y g)"
    by (intro mult_le_mono; simp)+
  then show "pix_size_x g \<le> pix_count g" "pix_size_y g \<le> pix_count g"
    using assms unfolding params_ok_def word_le_nat_alt by linarith+
qed

lemma param_error_check_id:
  assumes "params_ok g"
  shows "param_error_check g = g"
proof -
  have "clamp_count (pix_count g) = pix_count g"
    "\<not> unat (pix_count g) < unat (pix_size_x g) * unat (pix_size_y g)"
    "clamp_size (pix_count g) (pix_size_x g) = pix_size_x g"
    "clamp_size (pix_count g) (pix_size_y g) = pix_size_y g"
    "\<not> gfx_frame_rate g < 10"
    using assms params_ok_sizes [OF assms]
    by (auto simp: params_ok_def clamp_count_def clamp_size_def not_less)
  then show ?thesis by (simp add: param_error_check_fields)
qed

section \<open>What the operations keep\<close>

lemma update_master_fader_keeps [keeps]:
  "gfx_wf (update_master_fader g) = gfx_wf g"
  "params_ok (update_master_fader g) = params_ok g"
  "gfx_v_get_params (update_master_fader g) = gfx_v_get_params g"
  by (simp_all add: update_master_fader_def Let_def gfx_wf_def params_ok_def gfx_v_get_params_def)

lemma compute_dimmer_lookup_keeps [keeps]:
  "gfx_wf g \<Longrightarrow> gfx_wf (compute_dimmer_lookup pw g)"
  "params_ok (compute_dimmer_lookup pw g) = params_ok g"
  "gfx_v_get_params (compute_dimmer_lookup pw g) = gfx_v_get_params g"
  by (simp_all add: compute_dimmer_lookup_def gfx_wf_def params_ok_def gfx_v_get_params_def)

lemma param_error_check_keeps [keeps]: "gfx_wf (param_error_check g) = gfx_wf g"
  by (simp add: param_error_check_fields gfx_wf_def)

text \<open>The table of pixel objects, if there is one, has an object 0.\<close>

definition has_master :: "gfx_state \<Rightarrow> bool" where
  "has_master g \<longleftrightarrow> pix_arrays g \<noteq> Some []"

definition master_covers :: "gfx_state \<Rightarrow> bool" where
  "master_covers g \<longleftrightarrow>
     (\<forall>arrays. pix_arrays g = Some arrays \<longrightarrow>
        arrays \<noteq> [] \<and> pa_index (hd arrays) = 0 \<and> pa_count (hd arrays) = pix_count g
        \<and> pa_size_x (hd arrays) = pix_size_x g \<and> pa_size_y (hd arrays) = pix_size_y g)"

lemma setup_master_array_ok:
  assumes "has_master g"
  obtains g' where "setup_master_array g = Some g'" and "master_covers g'"
    and "gfx_wf g' = gfx_wf g" and "params_ok g' = params_ok g"
    and "gfx_v_get_params g' = gfx_v_get_params g" and "dimmer_curve g' = dimmer_curve g"
    and "virtual_array_start g' = virtual_array_start g"
    and "virtual_array_length g' = virtual_array_length g" and "pix_count g' = pix_count g"
    and "map_option length (pix_arrays g') = map_option length (pix_arrays g)"
    and "map_option tl (pix_arrays g') = map_option tl (pix_arrays g)"
proof (cases "pix_arrays g")
  case None
  then show ?thesis
    by (intro that [of g]) (simp_all add: setup_master_array_def master_covers_def)
next
  case (Some arrays)
  then obtain a as where as: "arrays = a # as"
    using assms by (cases arrays) (auto simp: has_master_def)
  let ?m = "a\<lparr>pa_index := 0, pa_count := pix_count g,
             pa_size_x := pix_size_x g, pa_size_y := pix_size_y g\<rparr>"
  have "setup_master_array g = Some (g\<lparr>pix_arrays := Some (?m # as)\<rparr>)"
    by (simp add: setup_master_array_def Some as)
  then show ?thesis
    by (rule that)
      (simp_all add: master_covers_def gfx_wf_def params_ok_def gfx_v_get_params_def Some as)
qed

text \<open>Reading the parameters back.\<close>

definition valid_params :: "gfx_params \<Rightarrow> bool" where
  "valid_params p \<longleftrightarrow>
     par_version p = GFX_VERSION \<and> 0 < par_pix_count p \<and> par_pix_count p \<le> MAX_PIXELS
     \<and> 0 < par_pix_size_x p \<and> 0 < par_pix_size_y p
     \<and> unat (par_pix_size_x p) * unat (par_pix_size_y p) \<le> unat (par_pix_count p)
     \<and> 10 \<le> par_frame_rate p \<and> par_dimmer_curve p < 256"

lemma ucast_u8_roundtrip: "x < 256 \<Longrightarrow> ucast (ucast x :: u8) = x" for x :: u16
  by (rule word_unat_eq_iff [THEN iffD2])
    (simp add: unsigned_ucast_eq word_less_nat_alt take_bit_nat_eq_self unsigned_take_bit_eq)

lemma gfx_v_set_params_result:
  assumes "gfx_wf g" and "has_master g" and v: "par_version p = GFX_VERSION"
  obtains g' where "gfx_v_set_params pw KV grown p (g, db) = Some (g', sync_db KV grown g' db)"
    and "gfx_wf g'" and "params_ok g'" and "master_covers g'"
    and "unat (scaled_pix_count g') = 65536 * unat (pix_count g')"
    and "unat (scaled_virtual_array_length g') = 65536 * unat (virtual_array_length g')"
    and "virtual_array_sub_position g' = ucast (virtual_array_start g' div pix_count g')"
    and "valid_params p \<Longrightarrow> gfx_v_get_params g' = p"
proof -
  define g1 where "g1 = g\<lparr>dimmer_curve := ucast (par_dimmer_curve p),
                     pix_count := par_pix_count p, pix_size_x := par_pix_size_x p,
                     pix_size_y := par_pix_size_y p, pix_interleave_x := par_interleave_x p,
                     pix_transpose := par_transpose p, pix_mode := par_pix_mode p,
                     global_hs_fade := par_hs_fade p, global_v_fade := par_v_fade p,
                     pix_master_dimmer := par_master_dimmer p, pix_sub_dimmer := par_sub_dimmer p,
                     gfx_frame_rate := par_frame_rate p,
                     virtual_array_start := par_virtual_array_start p,
                     virtual_array_length := par_virtual_array_length p\<rparr>"
  define g2 where "g2 = param_error_check g1"
  have g2: "gfx_wf g2" "params_ok g2" "has_master g2"
    using assms(1,2)
    by (simp_all add: g2_def keeps param_error_check_ok)
      (simp_all add: g1_def gfx_wf_def has_master_def param_error_check_fields)
  have valid: "gfx_v_get_params g2 = p" if "valid_params p"
  proof -
    have "params_ok g1" using that by (simp add: g1_def valid_params_def params_ok_def)
    then show ?thesis
      using that
      by (simp add: g2_def param_error_check_id g1_def gfx_v_get_params_def valid_params_def
          ucast_u8_roundtrip)
  qed
  obtain g3 where g3: "setup_master_array g2 = Some g3" "master_covers g3" "gfx_wf g3 = gfx_wf g2"
    "params_ok g3 = params_ok g2" "gfx_v_get_params g3 = gfx_v_get_params g2"
    "dimmer_curve g3 = dimmer_curve g2"
    "virtual_array_start g3 = virtual_array_start g2"
    "virtual_array_length g3 = virtual_array_length g2" "pix_count g3 = pix_count g2"
    by (rule setup_master_array_ok [OF g2(3)], rule that)
  define g4 where "g4 = (if dimmer_curve g \<noteq> dimmer_curve g3 then compute_dimmer_lookup pw g3 else g3)"
  define g5 where "g5 = update_master_fader g4"
  have g5: "gfx_wf g5" "params_ok g5" "gfx_v_get_params g5 = gfx_v_get_params g2"
    using g2 g3 by (simp_all add: g5_def g4_def keeps)
  have cov: "master_covers g5" "pix_count g5 = pix_count g2"
    using g3(2,9)
    by (simp_all add: g5_def g4_def master_covers_def update_master_fader_def Let_def
        compute_dimmer_lookup_def)
  have nz: "pix_count g5 \<noteq> 0" using g5(2) by (auto simp: params_ok_def)
  define g' where "g' = g5\<lparr>virtual_array_sub_position := ucast (virtual_array_start g5 div pix_count g5),
      scaled_pix_count := ucast (pix_count g5) * 65536,
      scaled_virtual_array_length := ucast (virtual_array_length g5) * 65536\<rparr>"
  have "gfx_v_set_params pw KV grown p (g, db) = Some (g', sync_db KV grown g5 db)"
    using v nz g3(1)
    by (simp add: gfx_v_set_params_def Let_def u_div_def g'_def g5_def g4_def g2_def g1_def)
  moreover have "sync_db KV grown g5 db = sync_db KV grown g' db"
    by (simp add: sync_db_def sync_db_entries_def g'_def)
  moreover have "gfx_wf g'" "params_ok g'" "master_covers g'" "gfx_v_get_params g' = gfx_v_get_params g2"
    using g5 cov by (simp_all add: g'_def gfx_wf_def params_ok_def master_covers_def gfx_v_get_params_def)
  moreover have "unat (ucast (x :: u16) * 65536 :: u32) = 65536 * unat x" for x
    using unat16_less [of x] by (simp add: unat_word_ariths(2))
  ultimately show ?thesis
    using valid by (intro that [of g']) (simp_all add: g'_def)
qed

section \<open>The parameters in the database\<close>

lemma kvdb_i8_add_present:
  assumes "kvdb_inv db" and "kvdb_abs db h = Some v"
  shows "kvdb_inv (snd (kvdb_i8_add h w tag grown db))
    \<and> kvdb_abs (snd (kvdb_i8_add h w tag grown db)) = (kvdb_abs db)(h \<mapsto> w)"
proof -
  obtain db' where "kvdb_i8_set h w db = (KVDB_STATUS_OK, db')" "kvdb_inv db'"
    "kvdb_abs db' = (kvdb_abs db)(h \<mapsto> w)"
    using kvdb.put_present [OF assms, of w] by blast
  then show ?thesis by (simp add: kvdb_i8_add_def)
qed

lemma kv_count_larger: "kvdb_wf db \<Longrightarrow>
    unat (kv_count db) = length (filter (\<lambda>e. de_hash e > 0) (kv_entries db))"
  by (simp add: kvdb_wf_def kv_live_def word_gt_0)

text \<open>Insertion into a database with an empty cache.\<close>

lemma kvdb_i8_add_fresh:
  fixes w :: i32 and tag :: u8
  assumes inv: "kvdb_inv db" and "kvdb_abs db h = None" and "h \<noteq> 0"
    and n: "unat (kv_count db) < 128" and grow: "\<exists>raw. grown = Some raw \<and> length raw = 4"
    and c: "cached_index db < 0"
  defines "db' \<equiv> snd (kvdb_i8_add h w tag grown db)"
  shows "kvdb_inv db' \<and> kvdb_abs db' = (kvdb_abs db)(h \<mapsto> w)
    \<and> cached_index db' < 0 \<and> unat (kv_count db') = Suc (unat (kv_count db))"
proof -
  have room: "kv_count db < KVDB_MAX_ENTRIES" "grow_ok grown db"
    using n grow by (auto simp: grow_ok_def word_less_nat_alt)
  obtain st' where st': "kvdb_i8_add h w tag grown db = (KVDB_STATUS_OK, st')" "kvdb_wf st'"
    "kvdb_abs st' = (kvdb_abs db)(h \<mapsto> w)" "cached_index st' = cached_index db"
    and larger: "\<And>c. length (filter (\<lambda>e. de_hash e > c) (kv_entries st'))
          = length (filter (\<lambda>e. de_hash e > c) (kv_entries db)) + (if h > c then 1 else 0)"
    by (rule kvdb_i8_add_absent [OF inv assms(2,3) room, where v = w and tag = tag], rule that)
  have "kvdb_wf db" using inv by (simp add: kvdb_inv_def)
  then have "unat (kv_count st') = Suc (unat (kv_count db))"
    using larger [of 0] assms(3) st'(2) by (simp add: kv_count_larger word_gt_0)
  then show ?thesis
    using st' c by (simp add: db'_def kvdb_inv_def cache_ok_def)
qed

definition published :: "(u32 \<times> i32) list \<Rightarrow> (u32 \<rightharpoonup> i32) \<Rightarrow> u32 \<rightharpoonup> i32" where
  "published kvs m = (\<lambda>h. case map_of kvs h of None \<Rightarrow> m h | Some v \<Rightarrow> Some v)"

lemma published_Cons:
  "k \<notin> fst ` set kvs \<Longrightarrow> published kvs (m(k \<mapsto> v)) = published ((k, v) # kvs) m"
proof (rule ext)
  fix h
  assume "k \<notin> fst ` set kvs"
  then have "map_of kvs k = None" by (simp add: map_of_eq_None_iff)
  then show "published kvs (m(k \<mapsto> v)) h = published ((k, v) # kvs) m h"
    by (cases "h = k") (simp_all add: published_def split: option.split)
qed

lemma adds_present:
  assumes "kvdb_inv db" and "distinct (map fst kvs)" and "\<forall>k \<in> fst ` set kvs. kvdb_abs db k \<noteq> None"
  shows "kvdb_inv (foldl (\<lambda>db (k, v). snd (kvdb_i8_add k v tag (grown k) db)) db kvs)
    \<and> kvdb_abs (foldl (\<lambda>db (k, v). snd (kvdb_i8_add k v tag (grown k) db)) db kvs)
        = published kvs (kvdb_abs db)"
  using assms
proof (induction kvs arbitrary: db)
  case (Cons kv kvs)
  obtain k v where kv: "kv = (k, v)" by fastforce
  obtain u where "kvdb_abs db k = Some u" using Cons.prems(3) kv by auto
  from kvdb_i8_add_present [OF Cons.prems(1) this, of v tag "grown k"]
  have step: "kvdb_inv (snd (kvdb_i8_add k v tag (grown k) db))"
    "kvdb_abs (snd (kvdb_i8_add k v tag (grown k) db)) = (kvdb_abs db)(k \<mapsto> v)" by simp_all
  let ?db = "snd (kvdb_i8_add k v tag (grown k) db)"
  have "distinct (map fst kvs)" "k \<notin> fst ` set kvs" using Cons.prems(2) kv by auto
  moreover from this have "published kvs (kvdb_abs ?db) = published (kv # kvs) (kvdb_abs db)"
    unfolding step(2) kv by (intro published_Cons)
  moreover have "\<forall>x \<in> fst ` set kvs. kvdb_abs ?db x \<noteq> None"
    using Cons.prems(3) kv by (simp add: step(2))
  ultimately show ?case
    using Cons.IH [OF step(1)] kv by simp
qed (simp add: published_def)

lemma adds_fresh:
  assumes "kvdb_inv db" and "distinct (map fst kvs)"
    and "\<forall>k \<in> fst ` set kvs. k \<noteq> 0 \<and> kvdb_abs db k = None"
    and "cached_index db < 0" and "unat (kv_count db) + length kvs \<le> 128"
    and grow: "\<And>k. \<exists>raw. grown k = Some raw \<and> length raw = 4"
  shows "kvdb_inv (foldl (\<lambda>db (k, v). snd (kvdb_i8_add k v tag (grown k) db)) db kvs)
    \<and> kvdb_abs (foldl (\<lambda>db (k, v). snd (kvdb_i8_add k v tag (grown k) db)) db kvs)
        = published kvs (kvdb_abs db)"
  using assms(1-5)
proof (induction kvs arbitrary: db)
  case (Cons kv kvs)
  obtain k v where kv: "kv = (k, v)" by fastforce
  have pre: "kvdb_abs db k = None" "k \<noteq> 0" "unat (kv_count db) < 128"
    using Cons.prems(3,5) kv by auto
  from kvdb_i8_add_fresh [OF Cons.prems(1) pre grow Cons.prems(4), of v tag k]
  have step: "kvdb_inv (snd (kvdb_i8_add k v tag (grown k) db))"
    "kvdb_abs (snd (kvdb_i8_add k v tag (grown k) db)) = (kvdb_abs db)(k \<mapsto> v)"
    "cached_index (snd (kvdb_i8_add k v tag (grown k) db)) < 0"
    "unat (kv_count (snd (kvdb_i8_add k v tag (grown k) db))) = Suc (unat (kv_count db))"
    by simp_all
  let ?db = "snd (kvdb_i8_add k v tag (grown k) db)"
  have d: "distinct (map fst kvs)" "k \<notin> fst ` set kvs" using Cons.prems(2) kv by auto
  then have "published kvs (kvdb_abs ?db) = published (kv # kvs) (kvdb_abs db)"
    unfolding step(2) kv by (intro published_Cons)
  moreover have "\<forall>x \<in> fst ` set kvs. x \<noteq> 0 \<and> kvdb_abs ?db x = None"
    using Cons.prems(3) d(2) kv by (auto simp: step(2))
  moreover have "unat (kv_count ?db) + length kvs \<le> 128" using step(4) Cons.prems(5) by simp
  ultimately show ?case
    using Cons.IH [OF step(1) d(1) _ step(3)] kv by simp
qed (simp add: published_def)

definition sync_db_names :: "string list" where
  "sync_db_names = [''pix_count'', ''pix_size_x'', ''pix_size_y'', ''pix_mode'', ''gfx_hsfade'',
     ''gfx_vfade'', ''gfx_interleave_x'', ''gfx_transpose'', ''gfx_master_dimmer'',
     ''gfx_sub_dimmer'', ''gfx_frame_rate'', ''gfx_virtual_array_start'',
     ''gfx_virtual_array_length'']"

lemma sync_db_entries_names: "map fst (sync_db_entries g) = sync_db_names"
  by (simp add: sync_db_entries_def sync_db_names_def)

definition hashed_entries :: "(string \<Rightarrow> u32) \<Rightarrow> gfx_state \<Rightarrow> (u32 \<times> i32) list" where
  "hashed_entries KV g = map (\<lambda>(name, v). (KV name, v)) (sync_db_entries g)"

lemma hashed_entries_keys: "map fst (hashed_entries KV g) = map KV sync_db_names"
  by (simp add: hashed_entries_def sync_db_entries_def sync_db_names_def)

lemma sync_db_fold:
  assumes "inj_on KV (set sync_db_names)"
  shows "sync_db KV grown g db
    = foldl (\<lambda>db (k, v). snd (kvdb_i8_add k v 0 (grown (inv_into (set sync_db_names) KV k)) db))
        db (hashed_entries KV g)"
proof -
  have "grown (inv_into (set sync_db_names) KV (KV n)) = grown n" if "n \<in> set sync_db_names" for n
    using assms that by simp
  moreover have "\<forall>x \<in> set (sync_db_entries g). fst x \<in> set sync_db_names"
    by (metis sync_db_entries_names image_eqI list.set_map)
  ultimately have
    "foldl (\<lambda>db (name, v). snd (kvdb_i8_add (KV name) v 0 (grown name) db)) db xs
     = foldl (\<lambda>db (k, v). snd (kvdb_i8_add k v 0 (grown (inv_into (set sync_db_names) KV k)) db))
        db (map (\<lambda>(name, v). (KV name, v)) xs)" if "set xs \<subseteq> set (sync_db_entries g)" for xs
    using that by (induction xs arbitrary: db) (auto simp: split_beta)
  then show ?thesis by (simp add: sync_db_def hashed_entries_def)
qed

lemma length_fill_noise: "length (fst (fill_noise n rnd)) = n"
  by (induction n arbitrary: rnd) (simp_all add: split_beta Let_def)

lemma gfx_v_reset_keeps:
  assumes "length (array_red g) = 320" "length (array_green g) = 320" "length (array_blue g) = 320"
    "length (array_misc g) = 320" "length (dimmer_lookup g) = 256"
  shows "gfx_wf (fst (gfx_v_reset (g, rnd)))"
    and "params_ok (fst (gfx_v_reset (g, rnd))) = params_ok g"
  using assms length_fill_noise [of 256]
  by (simp_all add: gfx_v_reset_def gfx_v_init_noise_def Let_def split_beta gfx_wf_def params_ok_def)

section \<open>Properties\<close>

definition sample_KV :: "string \<Rightarrow> u32" where
  "sample_KV n =
     (if n = ''pix_count'' then 1 else if n = ''pix_size_x'' then 2
      else if n = ''pix_size_y'' then 3 else if n = ''pix_mode'' then 4 else if n = ''gfx_hsfade'' then 5
      else if n = ''gfx_vfade'' then 6 else if n = ''gfx_interleave_x'' then 7
      else if n = ''gfx_transpose'' then 8 else if n = ''gfx_master_dimmer'' then 9
      else if n = ''gfx_sub_dimmer'' then 10 else if n = ''gfx_frame_rate'' then 11
      else if n = ''gfx_virtual_array_start'' then 12 else 13)"

definition sample_params :: gfx_params where
  "sample_params = \<lparr>par_version = 1, par_pix_count = 16, par_pix_size_x = 4, par_pix_size_y = 4,
     par_pix_mode = 1, par_interleave_x = False, par_transpose = False, par_hs_fade = 1000,
     par_v_fade = 1000, par_master_dimmer = 65535, par_sub_dimmer = 65535, par_frame_rate = 100,
     par_dimmer_curve = 64, par_virtual_array_start = 0, par_virtual_array_length = 0\<rparr>"

text \<open>
  C20 Installing a parameter block of the right version never fails (no division by zero,
  no write outside the object table) as long as the table has an object 0: it leaves between 1 and
  320 pixels, a grid that fits in them, a frame rate of at least 10 and an object 0 that covers
  exactly the strip, whatever the block asks for; the scaled lengths are exact, without wrap-around;
  and when the block itself is within those bounds it reads back unchanged.
\<close>

theorem gfx_v_set_params_ok:
  assumes "gfx_wf g" and "has_master g" and "par_version p = GFX_VERSION"
  shows "\<exists>g'. gfx_v_set_params pw KV grown p (g, db) = Some (g', sync_db KV grown g' db)
           \<and> gfx_wf g' \<and> params_ok g' \<and> master_covers g'
           \<and> unat (scaled_pix_count g') = 65536 * unat (gfx_u16_get_pix_count g')
           \<and> unat (scaled_virtual_array_length g') = 65536 * unat (virtual_array_length g')
           \<and> (valid_params p \<longrightarrow> gfx_v_get_params g' = p)"
proof -
  obtain g' where "gfx_v_set_params pw KV grown p (g, db) = Some (g', sync_db KV grown g' db)"
    "gfx_wf g'" "params_ok g'" "master_covers g'"
    "unat (scaled_pix_count g') = 65536 * unat (pix_count g')"
    "unat (scaled_virtual_array_length g') = 65536 * unat (virtual_array_length g')"
    "valid_params p \<Longrightarrow> gfx_v_get_params g' = p"
    by (rule gfx_v_set_params_result [OF assms], rule that)
  then show ?thesis by (auto simp: gfx_u16_get_pix_count_def)
qed

lemma gfx_v_set_params_ok_witness:
  "\<exists>g'. gfx_v_set_params (\<lambda>_ i. word_of_nat (256 * i)) (\<lambda>_. 1) (\<lambda>_. None) sample_params
            (gfx_initial, kvdb_initial False)
          = Some (g', sync_db (\<lambda>_. 1) (\<lambda>_. None) g' (kvdb_initial False))
      \<and> gfx_wf g' \<and> params_ok g' \<and> master_covers g' \<and> gfx_v_get_params g' = sample_params"
proof -
  have "has_master gfx_initial" "par_version sample_params = GFX_VERSION" "valid_params sample_params"
    by (simp_all add: has_master_def gfx_initial_def sample_params_def valid_params_def)
  then show ?thesis using gfx_v_set_params_ok [OF gfx_wf_initial] by blast
qed

text \<open>
  Publishing the parameters makes the database bind exactly the thirteen parameter
  hashes to the current values and leaves every other binding alone, provided the hashes differ,
  when the keys are all present already, or when none is, the search cache is empty, there is
  room for thirteen more entries and the allocator grows the block; the cache is right afterwards.
\<close>

theorem sync_db_publishes:
  assumes inv: "kvdb_inv db" and inj: "inj_on KV (set sync_db_names)"
    and keys: "(\<forall>n \<in> set sync_db_names. kvdb_abs db (KV n) \<noteq> None)
       \<or> (\<forall>n \<in> set sync_db_names. KV n \<noteq> 0 \<and> kvdb_abs db (KV n) = None)
         \<and> cached_index db < 0 \<and> unat (kv_count db) + 13 \<le> 128
         \<and> (\<forall>n. \<exists>raw. grown n = Some raw \<and> length raw = 4)"
  shows "kvdb_inv (sync_db KV grown g db)
    \<and> kvdb_abs (sync_db KV grown g db) = published (hashed_entries KV g) (kvdb_abs db)"
proof -
  have "distinct (map KV sync_db_names)"
    using inj by (simp add: distinct_map) (simp add: sync_db_names_def)
  then have d: "distinct (map fst (hashed_entries KV g))" by (simp add: hashed_entries_keys)
  have ks: "fst ` set (hashed_entries KV g) = KV ` set sync_db_names"
    by (metis hashed_entries_keys list.set_map)
  have "length (hashed_entries KV g) = 13" by (simp add: hashed_entries_def sync_db_entries_def)
  then show ?thesis
    using keys adds_present [OF inv d] adds_fresh [OF inv d] unfolding sync_db_fold [OF inj] ks
    by auto
qed

lemma sync_db_publishes_witness:
  "kvdb_abs (sync_db sample_KV (\<lambda>_. Some (replicate 4 zero_entry)) gfx_initial
            (kvdb_v_init 0 (kvdb_initial False))) (sample_KV ''gfx_frame_rate'') = Some 100"
proof -
  define db where "db = kvdb_v_init 0 (kvdb_initial False)"
  have inj: "inj_on sample_KV (set sync_db_names)" by (simp add: inj_on_def sync_db_names_def sample_KV_def)
  have nz: "\<forall>n \<in> set sync_db_names. sample_KV n \<noteq> 0" by (simp add: sync_db_names_def sample_KV_def)
  have db: "kvdb_inv db" "kvdb_abs db = Map.empty" "cached_index db < 0" "kv_count db = 0"
    unfolding db_def by (simp_all add: kvdb_v_init_inv)
      (simp_all add: kvdb_v_init_def kvdb_initial_def)
  have "kvdb_abs (sync_db sample_KV (\<lambda>_. Some (replicate 4 zero_entry)) gfx_initial db)
      = published (hashed_entries sample_KV gfx_initial) (kvdb_abs db)"
    using sync_db_publishes [OF db(1) inj, of "\<lambda>_. Some (replicate 4 zero_entry)" gfx_initial]
      db nz by simp
  then show ?thesis
    by (simp add: db_def published_def hashed_entries_def sync_db_entries_def sample_KV_def gfx_initial_def)
qed

text \<open>
  Initialising the library gives a well-formed state within the parameter bounds, with
  every pixel black, at rest and fully saturated, no pixel objects, and full lookup tables.
\<close>

theorem gfxlib_v_init_ok:
  assumes "gfx_wf g"
  shows "let g' = fst (gfxlib_v_init pw (g, rnd))
         in gfx_wf g' \<and> params_ok g' \<and> pix_array_count g' = 0
            \<and> (\<forall>i < 320. hue g' ! i = target_hue g' ! i \<and> sat g' ! i = target_sat g' ! i
                  \<and> val g' ! i = 0 \<and> target_val g' ! i = 0 \<and> sat g' ! i = 65535
                  \<and> hs_fade g' ! i = gfx_u16_get_hsfade g \<and> v_fade g' ! i = gfx_u16_get_vfade g)
            \<and> (\<forall>i < 256. dimmer_lookup g' ! i = pw (dimmer_curve g) i)"
proof -
  define g1 where "g1 = compute_dimmer_lookup pw (param_error_check g)"
  define g2 where "g2 = fst (gfx_v_reset (g1, rnd))"
  have g': "fst (gfxlib_v_init pw (g, rnd)) = update_master_fader g2"
    by (simp add: gfxlib_v_init_def g1_def g2_def split_beta Let_def)
  have g1: "gfx_wf g1" "params_ok g1"
    using assms by (simp_all add: g1_def keeps param_error_check_ok)
  then have "gfx_wf g2" "params_ok g2"
    using gfx_v_reset_keeps [of g1 rnd] by (simp_all add: g2_def gfx_wf_def)
  moreover have "pix_array_count g2 = 0 \<and> hue g2 = pixel_zeros \<and> target_hue g2 = pixel_zeros
      \<and> sat g2 = replicate 320 65535 \<and> target_sat g2 = replicate 320 65535
      \<and> val g2 = pixel_zeros \<and> target_val g2 = pixel_zeros
      \<and> hs_fade g2 = replicate 320 (global_hs_fade g) \<and> v_fade g2 = replicate 320 (global_v_fade g)
      \<and> dimmer_lookup g2 = map (pw (dimmer_curve g)) [0..<256]"
    by (simp add: g2_def g1_def gfx_v_reset_def gfx_v_init_noise_def split_beta Let_def
        compute_dimmer_lookup_def param_error_check_fields)
  moreover define u where "u = update_master_fader g2"
  moreover have "gfx_wf u = gfx_wf g2" "params_ok u = params_ok g2" by (simp_all add: u_def keeps)
  moreover have "pix_array_count u = pix_array_count g2" "hue u = hue g2" "sat u = sat g2"
    "val u = val g2" "target_hue u = target_hue g2" "target_sat u = target_sat g2"
    "target_val u = target_val g2" "hs_fade u = hs_fade g2" "v_fade u = v_fade g2"
    "dimmer_lookup u = dimmer_lookup g2"
    by (simp_all add: u_def update_master_fader_def Let_def)
  ultimately show ?thesis
    unfolding g' u_def [symmetric] Let_def
    by (simp add: gfx_u16_get_hsfade_def gfx_u16_get_vfade_def)
qed

lemma gfxlib_v_init_ok_witness:
  "gfx_wf (fst (gfxlib_v_init (\<lambda>_ i. word_of_nat (256 * i)) (gfx_initial, rnd_v_init)))
   \<and> sat (fst (gfxlib_v_init (\<lambda>_ i. word_of_nat (256 * i)) (gfx_initial, rnd_v_init))) ! 7 = 65535"
proof -
  have "(7 :: nat) < 320" by simp
  then show ?thesis
    using gfxlib_v_init_ok [OF gfx_wf_initial, of "\<lambda>_ i. word_of_nat (256 * i)" rnd_v_init]
    unfolding Let_def by blast
qed

end
