(* ===== verification/Gfx_Pixels.thy ===== *)
theory Gfx_Pixels
  imports Gfx_State
begin

text \<open>
  Addressing pixels: the operations of \<open>src/src/lib_chromatron/gfx_lib.c\<close> that set and read the
  targets of the pixels, one by one, through the coordinates of a pixel object, or for all pixels
  of an object.  A null object table, an object number outside the table and a division by zero
  are \<^term>\<open>None\<close>; signed additions and multiplications wrap.
\<close>

section \<open>Single pixels\<close>

definition gfx_v_set_hue_1d :: "u16 \<Rightarrow> u16 \<Rightarrow> gfx_state \<Rightarrow> gfx_state" where
  "gfx_v_set_hue_1d h index g =
     (if index \<ge> MAX_PIXELS then g
      else g\<lparr>target_hue := (target_hue g)[unat index := h],
             hue_step := (hue_step g)[unat index := 0]\<rparr>)"

definition gfx_v_set_sat_1d :: "u16 \<Rightarrow> u16 \<Rightarrow> gfx_state \<Rightarrow> gfx_state" where
  "gfx_v_set_sat_1d s index g =
     (if index \<ge> MAX_PIXELS then g
      else g\<lparr>target_sat := (target_sat g)[unat index := s],
             sat_step := (sat_step g)[unat index := 0]\<rparr>)"

definition gfx_v_set_val_1d :: "u16 \<Rightarrow> u16 \<Rightarrow> gfx_state \<Rightarrow> gfx_state" where
  "gfx_v_set_val_1d v index g =
     (if index \<ge> MAX_PIXELS then g
      else g\<lparr>target_val := (target_val g)[unat index := v],
             val_step := (val_step g)[unat index := 0]\<rparr>)"

definition gfx_v_set_hs_fade_1d :: "u16 \<Rightarrow> u16 \<Rightarrow> gfx_state \<Rightarrow> gfx_state" where
  "gfx_v_set_hs_fade_1d a index g =
     (if index \<ge> MAX_PIXELS then g
      else g\<lparr>hs_fade := (hs_fade g)[unat index := a],
             hue_step := (hue_step g)[unat index := 0],
             sat_step := (sat_step g)[unat index := 0]\<rparr>)"

definition gfx_v_set_v_fade_1d :: "u16 \<Rightarrow> u16 \<Rightarrow> gfx_state \<Rightarrow> gfx_state" where
  "gfx_v_set_v_fade_1d a index g =
     (if index \<ge> MAX_PIXELS then g
      else g\<lparr>v_fade := (v_fade g)[unat index := a],
             val_step := (val_step g)[unat index := 0]\<rparr>)"

definition gfx_v_set_hsv :: "i32 \<Rightarrow> i32 \<Rightarrow> i32 \<Rightarrow> u16 \<Rightarrow> gfx_state \<Rightarrow> gfx_state" where
  "gfx_v_set_hsv h s v index g =
     (let g = (if sint h \<ge> 0 then gfx_v_set_hue_1d (ucast h) index g else g);
          g = (if sint s \<ge> 0 then gfx_v_set_sat_1d (ucast s) index g else g)
      in if sint v \<ge> 0 then gfx_v_set_val_1d (ucast v) index g else g)"

section \<open>Array operations on a pixel object\<close>

definition pixel_obj :: "u8 \<Rightarrow> gfx_state \<Rightarrow> gfx_pixel_array option" where
  "pixel_obj obj g = (case pix_arrays g of None \<Rightarrow> None | Some arrays \<Rightarrow> rd arrays (unat obj))"

definition gfx_u16p_get_array_ptr :: "u8 \<Rightarrow> gfx_state \<Rightarrow> u16 list" where
  "gfx_u16p_get_array_ptr attr g =
     (if attr = PIX_ATTR_HUE then target_hue g
      else if attr = PIX_ATTR_SAT then target_sat g
      else if attr = PIX_ATTR_VAL then target_val g
      else if attr = PIX_ATTR_HS_FADE then hs_fade g
      else if attr = PIX_ATTR_V_FADE then v_fade g
      else target_val g)"

text \<open>
  The two \<open>if\<close> chains that end the loop body of each array operation: a hue wraps around (by
  C's truncating remainder), any other value saturates; then the setter of the attribute is called.
\<close>

definition array_limit :: "u8 \<Rightarrow> i32 \<Rightarrow> i32" where
  "array_limit attr a =
     (if attr = PIX_ATTR_HUE then word_of_int (sint a smod 65536)
      else if sint a > 65535 then 65535
      else if sint a < 0 then 0
      else a)"

definition array_store :: "u8 \<Rightarrow> i32 \<Rightarrow> u16 \<Rightarrow> gfx_state \<Rightarrow> gfx_state" where
  "array_store attr a index g =
     (if attr = PIX_ATTR_HUE then gfx_v_set_hue_1d (ucast a) index g
      else if attr = PIX_ATTR_SAT then gfx_v_set_sat_1d (ucast a) index g
      else if attr = PIX_ATTR_HS_FADE then gfx_v_set_hs_fade_1d (ucast a) index g
      else if attr = PIX_ATTR_V_FADE then gfx_v_set_v_fade_1d (ucast a) index g
      else gfx_v_set_val_1d (ucast a) index g)"

definition gfx_v_array_move :: "u8 \<Rightarrow> u8 \<Rightarrow> i32 \<Rightarrow> gfx_state \<Rightarrow> gfx_state option" where
  "gfx_v_array_move obj attr src g =
     (if obj \<ge> pix_array_count g then Some g
      else do {
        pa \<leftarrow> pixel_obj obj g;
        for_each (\<lambda>i g. do {
            let index = word_of_nat i + pa_index pa;
            index \<leftarrow> u_mod index (pix_count g);
            let a = src;
            let a = array_limit attr a;
            Some (array_store attr a index g) })
          [0..<unat (pa_count pa)] g })"

definition gfx_v_array_add :: "u8 \<Rightarrow> u8 \<Rightarrow> i32 \<Rightarrow> gfx_state \<Rightarrow> gfx_state option" where
  "gfx_v_array_add obj attr src g =
     (if obj \<ge> pix_array_count g then Some g
      else do {
        pa \<leftarrow> pixel_obj obj g;
        for_each (\<lambda>i g. do {
            let index = word_of_nat i + pa_index pa;
            index \<leftarrow> u_mod index (pix_count g);
            a \<leftarrow> rd (gfx_u16p_get_array_ptr attr g) (unat index);
            let a = (ucast a :: i32);
            let a = a + src;
            let a = array_limit attr a;
            Some (array_store attr a index g) })
          [0..<unat (pa_count pa)] g })"

definition gfx_v_array_sub :: "u8 \<Rightarrow> u8 \<Rightarrow> i32 \<Rightarrow> gfx_state \<Rightarrow> gfx_state option" where
  "gfx_v_array_sub obj attr src g =
     (if obj \<ge> pix_array_count g then Some g
      else do {
        pa \<leftarrow> pixel_obj obj g;
        for_each (\<lambda>i g. do {
            let index = word_of_nat i + pa_index pa;
            index \<leftarrow> u_mod index (pix_count g);
            a \<leftarrow> rd (gfx_u16p_get_array_ptr attr g) (unat index);
            let a = (ucast a :: i32);
            let a = a - src;
            let a = array_limit attr a;
            Some (array_store attr a index g) })
          [0..<unat (pa_count pa)] g })"

definition gfx_v_array_mul :: "u8 \<Rightarrow> u8 \<Rightarrow> i32 \<Rightarrow> gfx_state \<Rightarrow> gfx_state option" where
  "gfx_v_array_mul obj attr src g =
     (if obj \<ge> pix_array_count g then Some g
      else do {
        pa \<leftarrow> pixel_obj obj g;
        for_each (\<lambda>i g. do {
            let index = word_of_nat i + pa_index pa;
            index \<leftarrow> u_mod index (pix_count g);
            a \<leftarrow> rd (gfx_u16p_get_array_ptr attr g) (unat index);
            let a = (ucast a :: i32);
            let a = a * src;
            let a = array_limit attr a;
            Some (array_store attr a index g) })
          [0..<unat (pa_count pa)] g })"

definition gfx_v_array_div :: "u8 \<Rightarrow> u8 \<Rightarrow> i32 \<Rightarrow> gfx_state \<Rightarrow> gfx_state option" where
  "gfx_v_array_div obj attr src g =
     (if obj \<ge> pix_array_count g then Some g
      else do {
        pa \<leftarrow> pixel_obj obj g;
        for_each (\<lambda>i g. do {
            let index = word_of_nat i + pa_index pa;
            index \<leftarrow> u_mod index (pix_count g);
            a \<leftarrow> rd (gfx_u16p_get_array_ptr attr g) (unat index);
            let a = (ucast a :: i32);
            a \<leftarrow> c_div a src;
            let a = array_limit attr a;
            Some (array_store attr a index g) })
          [0..<unat (pa_count pa)] g })"

definition gfx_v_array_mod :: "u8 \<Rightarrow> u8 \<Rightarrow> i32 \<Rightarrow> gfx_state \<Rightarrow> gfx_state option" where
  "gfx_v_array_mod obj attr src g =
     (if obj \<ge> pix_array_count g then Some g
      else do {
        pa \<leftarrow> pixel_obj obj g;
        for_each (\<lambda>i g. do {
            let index = word_of_nat i + pa_index pa;
            index \<leftarrow> u_mod index (pix_count g);
            a \<leftarrow> rd (gfx_u16p_get_array_ptr attr g) (unat index);
            let a = (ucast a :: i32);
            a \<leftarrow> c_mod a src;
            let a = array_limit attr a;
            Some (array_store attr a index g) })
          [0..<unat (pa_count pa)] g })"

section \<open>Coordinates\<close>

text \<open>
  \<open>calc_index\<close>.  The local \<open>i\<close> is an \<open>int16_t\<close>: it is read with its sign in the comparisons and
  the remainders, which C computes in \<open>int\<close>.
\<close>

definition virtual_index :: "gfx_pixel_array \<Rightarrow> u16 \<Rightarrow> gfx_state \<Rightarrow> i16 option option" where
  "virtual_index pa x g = do {
     let sub_array_offset = (pix_count g - pa_count pa) * ucast (virtual_array_sub_position g);
     let adjusted_virtual_array_start = virtual_array_start g - sub_array_offset;
     sub_len \<leftarrow> u_div (scaled_pix_count g) (ucast (pa_count pa));
     len \<leftarrow> u_div (scaled_virtual_array_length g) sub_len;
     let adjusted_virtual_array_len = (ucast len :: u16);
     i \<leftarrow> u_mod x adjusted_virtual_array_len;
     if sint i < uint adjusted_virtual_array_start
        \<or> sint i \<ge> uint adjusted_virtual_array_start + uint (pa_count pa)
     then Some None
     else do {
       let i = i - adjusted_virtual_array_start;
       require (pa_count pa \<noteq> 0);
       Some (Some (word_of_int (sint i smod uint (pa_count pa)))) } }"

definition calc_index :: "u8 \<Rightarrow> u16 \<Rightarrow> u16 \<Rightarrow> gfx_state \<Rightarrow> u16 option" where
  "calc_index obj x y g =
     (if obj \<ge> pix_array_count g then Some 0xffff
      else do {
        pa \<leftarrow> pixel_obj obj g;
        let (x, y) = (if pix_transpose g then (y, x) else (x, y));
        let x = (if pix_interleave_x g \<and> y AND 1 \<noteq> 0 then (pa_size_x pa - 1) - x else x);
        i \<leftarrow> (if y = 65535
              then (if virtual_array_length g > 0 then virtual_index pa x g
                    else do { i \<leftarrow> u_mod x (pa_count pa); Some (Some i) })
              else do {
                x \<leftarrow> u_mod x (pa_size_x pa);
                y \<leftarrow> u_mod y (pa_size_y pa);
                Some (Some (x + y * pa_size_x pa)) });
        (case i of
           None \<Rightarrow> Some 0xffff
         | Some i \<Rightarrow> do {
             let i = (if pa_reverse pa then (pa_count pa - 1) - i else i);
             if pa_reverse pa \<and> sint i < 0 then Some 0xffff
             else do {
               require (pix_count g \<noteq> 0);
               Some (word_of_int ((sint i + uint (pa_index pa)) smod uint (pix_count g))) } }) })"

definition gfx_v_set_hsv_2d :: "i32 \<Rightarrow> i32 \<Rightarrow> i32 \<Rightarrow> u16 \<Rightarrow> u16 \<Rightarrow> gfx_state \<Rightarrow> gfx_state option" where
  "gfx_v_set_hsv_2d h s v x y g = do {
     index \<leftarrow> calc_index 0 x y g;
     Some (if index \<ge> MAX_PIXELS then g else gfx_v_set_hsv h s v index g) }"

definition gfx_v_set_hue :: "u16 \<Rightarrow> u16 \<Rightarrow> u16 \<Rightarrow> u8 \<Rightarrow> gfx_state \<Rightarrow> gfx_state option" where
  "gfx_v_set_hue h x y obj g = do {
     index \<leftarrow> calc_index obj x y g;
     Some (if index \<ge> MAX_PIXELS then g else gfx_v_set_hue_1d h index g) }"

definition gfx_u16_get_hue :: "u16 \<Rightarrow> u16 \<Rightarrow> u8 \<Rightarrow> gfx_state \<Rightarrow> u16 option" where
  "gfx_u16_get_hue x y obj g = do {
     index \<leftarrow> calc_index obj x y g;
     rd (target_hue g) (unat (index mod MAX_PIXELS)) }"

definition gfx_v_set_sat :: "u16 \<Rightarrow> u16 \<Rightarrow> u16 \<Rightarrow> u8 \<Rightarrow> gfx_state \<Rightarrow> gfx_state option" where
  "gfx_v_set_sat s x y obj g = do {
     index \<leftarrow> calc_index obj x y g;
     Some (if index \<ge> MAX_PIXELS then g else gfx_v_set_sat_1d s index g) }"

definition gfx_u16_get_sat :: "u16 \<Rightarrow> u16 \<Rightarrow> u8 \<Rightarrow> gfx_state \<Rightarrow> u16 option" where
  "gfx_u16_get_sat x y obj g = do {
     index \<leftarrow> calc_index obj x y g;
     rd (target_sat g) (unat (index mod MAX_PIXELS)) }"

definition gfx_v_set_val :: "u16 \<Rightarrow> u16 \<Rightarrow> u16 \<Rightarrow> u8 \<Rightarrow> gfx_state \<Rightarrow> gfx_state option" where
  "gfx_v_set_val v x y obj g = do {
     index \<leftarrow> calc_index obj x y g;
     Some (if index \<ge> MAX_PIXELS then g else gfx_v_set_val_1d v index g) }"

definition gfx_u16_get_val :: "u16 \<Rightarrow> u16 \<Rightarrow> u8 \<Rightarrow> gfx_state \<Rightarrow> u16 option" where
  "gfx_u16_get_val x y obj g = do {
     index \<leftarrow> calc_index obj x y g;
     rd (target_val g) (unat (index mod MAX_PIXELS)) }"

definition gfx_v_set_hs_fade :: "u16 \<Rightarrow> u16 \<Rightarrow> u16 \<Rightarrow> u8 \<Rightarrow> gfx_state \<Rightarrow> gfx_state option" where
  "gfx_v_set_hs_fade a x y obj g = do {
     index \<leftarrow> calc_index obj x y g;
     Some (if index \<ge> MAX_PIXELS then g
           else g\<lparr>hs_fade := (hs_fade g)[unat index := a],
                  hue_step := (hue_step g)[unat index := 0],
                  sat_step := (sat_step g)[unat index := 0]\<rparr>) }"

definition gfx_u16_get_hs_fade :: "u16 \<Rightarrow> u16 \<Rightarrow> u8 \<Rightarrow> gfx_state \<Rightarrow> u16 option" where
  "gfx_u16_get_hs_fade x y obj g = do {
     index \<leftarrow> calc_index obj x y g;
     rd (hs_fade g) (unat (index mod MAX_PIXELS)) }"

definition gfx_v_set_v_fade :: "u16 \<Rightarrow> u16 \<Rightarrow> u16 \<Rightarrow> u8 \<Rightarrow> gfx_state \<Rightarrow> gfx_state option" where
  "gfx_v_set_v_fade a x y obj g = do {
     index \<leftarrow> calc_index obj x y g;
     Some (if index \<ge> MAX_PIXELS then g
           else g\<lparr>v_fade := (v_fade g)[unat index := a],
                  val_step := (val_step g)[unat index := 0]\<rparr>) }"

definition gfx_u16_get_v_fade :: "u16 \<Rightarrow> u16 \<Rightarrow> u8 \<Rightarrow> gfx_state \<Rightarrow> u16 option" where
  "gfx_u16_get_v_fade x y obj g = do {
     index \<leftarrow> calc_index obj x y g;
     rd (v_fade g) (unat (index mod MAX_PIXELS)) }"

text \<open>
  \<open>gfx_u16_get_is_fading\<close>.  The loop over an object computes \<open>index\<close>, which can divide by zero,
  but reads the arrays at the loop counter \<open>i\<close>.
\<close>

fun is_fading_loop :: "gfx_pixel_array \<Rightarrow> gfx_state \<Rightarrow> nat list \<Rightarrow> u16 option" where
  "is_fading_loop pa g [] = Some 0"
| "is_fading_loop pa g (i # is) = do {
     index \<leftarrow> u_mod (word_of_nat i + pa_index pa) (pix_count g);
     th \<leftarrow> rd (target_hue g) i; h \<leftarrow> rd (hue g) i;
     ts \<leftarrow> rd (target_sat g) i; s \<leftarrow> rd (sat g) i;
     tv \<leftarrow> rd (target_val g) i; v \<leftarrow> rd (val g) i;
     if th \<noteq> h \<or> ts \<noteq> s \<or> tv \<noteq> v then Some 1 else is_fading_loop pa g is }"

definition gfx_u16_get_is_fading :: "u16 \<Rightarrow> u16 \<Rightarrow> u8 \<Rightarrow> gfx_state \<Rightarrow> u16 option" where
  "gfx_u16_get_is_fading x y obj g =
     (if x = 65535 \<and> y = 65535
      then do {
        pa \<leftarrow> pixel_obj obj g;
        is_fading_loop pa g [0..<unat (pa_count pa)] }
      else do {
        i \<leftarrow> calc_index obj x y g;
        if i < MAX_PIXELS then do {
          th \<leftarrow> rd (target_hue g) (unat i); h \<leftarrow> rd (hue g) (unat i);
          ts \<leftarrow> rd (target_sat g) (unat i); s \<leftarrow> rd (sat g) (unat i);
          tv \<leftarrow> rd (target_val g) (unat i); v \<leftarrow> rd (val g) (unat i);
          Some (if th = h \<and> ts = s \<and> tv = v then 0 else 1) }
        else Some 1 })"

section \<open>All pixels, and object attributes\<close>

definition gfx_v_set_background_hsv :: "i32 \<Rightarrow> i32 \<Rightarrow> i32 \<Rightarrow> gfx_state \<Rightarrow> gfx_state" where
  "gfx_v_set_background_hsv h s v g =
     foldl (\<lambda>g i. gfx_v_set_hsv h s v (word_of_nat i) g) g [0..<unat MAX_PIXELS]"

definition gfx_v_clear :: "gfx_state \<Rightarrow> gfx_state" where
  "gfx_v_clear g =
     foldl (\<lambda>g i. gfx_v_set_hsv (- 1) (- 1) 0 (word_of_nat i) g) g [0..<unat (pix_count g)]"

definition gfx_i32_get_obj_attr :: "u8 \<Rightarrow> u8 \<Rightarrow> u8 \<Rightarrow> gfx_state \<Rightarrow> i32 option" where
  "gfx_i32_get_obj_attr obj attr addr g =
     (if obj = PIX_OBJ_TYPE
      then (if attr = PIX_ATTR_INDEX then map_option (\<lambda>pa. ucast (pa_index pa)) (pixel_obj addr g)
            else if attr = PIX_ATTR_COUNT
            then (if addr = 0 \<and> virtual_array_length g > 0
                  then Some (ucast (virtual_array_length g))
                  else map_option (\<lambda>pa. ucast (pa_count pa)) (pixel_obj addr g))
            else if attr = PIX_ATTR_SIZE_X
            then map_option (\<lambda>pa. ucast (pa_size_x pa)) (pixel_obj addr g)
            else if attr = PIX_ATTR_SIZE_Y
            then map_option (\<lambda>pa. ucast (pa_size_y pa)) (pixel_obj addr g)
            else Some 0)
      else Some 0)"

section \<open>What the setters keep\<close>

text \<open>The state without the pixels' targets, fade times and steps.\<close>

definition gfx_frame :: "gfx_state \<Rightarrow> gfx_state" where
  "gfx_frame g =
     g\<lparr>target_hue := [], target_sat := [], target_val := [], hs_fade := [], v_fade := [],
       hue_step := [], sat_step := [], val_step := []\<rparr>"

lemma gfx_frame_config:
  assumes "gfx_frame g' = gfx_frame g"
  shows "pix_count g' = pix_count g" "pix_arrays g' = pix_arrays g"
    "pix_array_count g' = pix_array_count g" "params_ok g' = params_ok g"
    "hue g' = hue g" "sat g' = sat g" "val g' = val g"
proof -
  have eq: "f (gfx_frame g') = f (gfx_frame g)" for f :: "gfx_state \<Rightarrow> 'a" using assms by simp
  show "pix_count g' = pix_count g" using eq [of pix_count] by (simp add: gfx_frame_def)
  show "pix_arrays g' = pix_arrays g" using eq [of pix_arrays] by (simp add: gfx_frame_def)
  show "pix_array_count g' = pix_array_count g" using eq [of pix_array_count] by (simp add: gfx_frame_def)
  show "params_ok g' = params_ok g" using eq [of params_ok] by (simp add: gfx_frame_def params_ok_def)
  show "hue g' = hue g" using eq [of hue] by (simp add: gfx_frame_def)
  show "sat g' = sat g" using eq [of sat] by (simp add: gfx_frame_def)
  show "val g' = val g" using eq [of val] by (simp add: gfx_frame_def)
qed

lemmas setters_1d = gfx_v_set_hue_1d_def gfx_v_set_sat_1d_def gfx_v_set_val_1d_def
  gfx_v_set_hs_fade_1d_def gfx_v_set_v_fade_1d_def

lemma setters_1d_frame [keeps]:
  "gfx_frame (gfx_v_set_hue_1d h i g) = gfx_frame g"
  "gfx_frame (gfx_v_set_sat_1d h i g) = gfx_frame g"
  "gfx_frame (gfx_v_set_val_1d h i g) = gfx_frame g"
  "gfx_frame (gfx_v_set_hs_fade_1d h i g) = gfx_frame g"
  "gfx_frame (gfx_v_set_v_fade_1d h i g) = gfx_frame g"
  by (simp_all add: setters_1d gfx_frame_def)

lemma setters_1d_wf [keeps]:
  "gfx_wf (gfx_v_set_hue_1d h i g) = gfx_wf g"
  "gfx_wf (gfx_v_set_sat_1d h i g) = gfx_wf g"
  "gfx_wf (gfx_v_set_val_1d h i g) = gfx_wf g"
  "gfx_wf (gfx_v_set_hs_fade_1d h i g) = gfx_wf g"
  "gfx_wf (gfx_v_set_v_fade_1d h i g) = gfx_wf g"
  by (simp_all add: setters_1d gfx_wf_def)

lemma array_store_keeps [keeps]:
  "gfx_frame (array_store attr a i g) = gfx_frame g"
  "gfx_wf (array_store attr a i g) = gfx_wf g"
  by (simp_all add: array_store_def keeps)

lemma gfx_v_set_hsv_keeps [keeps]:
  "gfx_frame (gfx_v_set_hsv h s v i g) = gfx_frame g"
  "gfx_wf (gfx_v_set_hsv h s v i g) = gfx_wf g"
  by (simp_all add: gfx_v_set_hsv_def Let_def keeps)

section \<open>The index of a pixel\<close>

lemma smod_index_range:
  fixes a c :: int
  assumes "0 < c" and "c \<le> 320"
  shows "unat (word_of_int (a smod c) :: u16) < nat c \<or> unat (word_of_int (a smod c) :: u16) > 65216"
proof -
  have r: "- c < a smod c" "a smod c < c" using smod_bounds [OF assms(1)] by auto
  show ?thesis
  proof (cases "0 \<le> a smod c")
    case True
    then show ?thesis using r assms by (simp add: unat_word_of_int16)
  next
    case False
    have wrap: "(word_of_int (a smod c) :: u16) = word_of_int (a smod c + 65536)" by simp
    have "unat (word_of_int (a smod c) :: u16) = nat (a smod c + 65536)"
      unfolding wrap using False r assms by (intro unat_word_of_int16) auto
    then show ?thesis using r(1) assms by simp
  qed
qed

lemma calc_index_range:
  assumes "calc_index obj x y g = Some i" and "0 < pix_count g" and "pix_count g \<le> MAX_PIXELS"
  shows "i < pix_count g \<or> unat i > 65216"
proof -
  have c: "0 < uint (pix_count g)" "uint (pix_count g) \<le> 320"
    using assms(2,3) by (simp_all add: word_less_def word_le_def)
  have u: "unat j < nat (uint (pix_count g)) \<longleftrightarrow> j < pix_count g" for j
    by (simp add: word_less_nat_alt)
  have "i = 0xffff \<or> (\<exists>a. i = word_of_int (a smod uint (pix_count g)))"
    using assms(1) unfolding calc_index_def
    by (auto simp: opt_simps Let_def split_beta split: if_splits option.splits)
  then show ?thesis
    using smod_index_range [OF c] u by fastforce
qed

text \<open>So no setter reaches a pixel outside the strip: the index is valid or rejected.\<close>

lemma calc_index_setter:
  assumes "calc_index obj x y g = Some i" and "params_ok g"
  shows "i \<ge> MAX_PIXELS \<longleftrightarrow> \<not> i < pix_count g"
  using calc_index_range [OF assms(1)] assms(2)
  by (auto simp: params_ok_def word_less_nat_alt word_le_nat_alt)

section \<open>One contract for the six array operations\<close>

lemma array_store_other:
  assumes "gfx_wf g" and "unat index < 320"
  shows "gfx_u16p_get_array_ptr attr (array_store attr a index g)
    = (gfx_u16p_get_array_ptr attr g)[unat index := ucast a]"
  using assms
  by (simp add: array_store_def setters_1d gfx_u16p_get_array_ptr_def word_le_nat_alt gfx_wf_def)

lemma length_array_ptr: "gfx_wf g \<Longrightarrow> length (gfx_u16p_get_array_ptr attr g) = 320"
  by (simp add: gfx_u16p_get_array_ptr_def gfx_wf_def)

lemma mod_distinct:
  fixes i j k c :: nat
  assumes "j < k" and "k < c"
  shows "(i + j) mod c \<noteq> (i + k) mod c"
proof
  assume "(i + j) mod c = (i + k) mod c"
  then have "c dvd (i + k) - (i + j)"
    using assms mod_eq_dvd_iff_nat [of "i + j" "i + k" c] by simp
  then show False using assms by (auto dest: dvd_imp_le)
qed

lemma map_update_insert:
  assumes "p < n" and "p \<notin> S"
  shows "(map (\<lambda>k. if k \<in> S then F k else G k) [0..<n])[p := F p]
    = map (\<lambda>k. if k \<in> insert p S then F k else G k) [0..<n]"
  using assms by (intro nth_equalityI) (auto simp: nth_list_update)

text \<open>The pixels of an object, in the order the loops visit them.\<close>

definition obj_pixel :: "gfx_pixel_array \<Rightarrow> gfx_state \<Rightarrow> nat \<Rightarrow> nat" where
  "obj_pixel pa g j = (unat (pa_index pa) + j) mod unat (pix_count g)"

text \<open>An object that visits no pixel twice and whose index does not wrap at 16 bits.\<close>

definition obj_fits :: "gfx_pixel_array \<Rightarrow> gfx_state \<Rightarrow> bool" where
  "obj_fits pa g \<longleftrightarrow>
     pa_count pa \<le> pix_count g \<and> unat (pa_index pa) + unat (pa_count pa) \<le> 65536"

text \<open>
  \<open>run\<close> is the operation, \<open>body\<close> its loop body and \<open>arith\<close> what it computes from the old value and
  the operand.  The client is what every caller sees: each pixel of the object, once, is replaced
  by the limited result, and nothing else changes.
\<close>

locale array_operation =
  fixes run :: "u8 \<Rightarrow> u8 \<Rightarrow> i32 \<Rightarrow> gfx_state \<Rightarrow> gfx_state option"
    and body :: "u8 \<Rightarrow> i32 \<Rightarrow> gfx_pixel_array \<Rightarrow> nat \<Rightarrow> gfx_state \<Rightarrow> gfx_state option"
    and arith :: "i32 \<Rightarrow> i32 \<Rightarrow> i32 option"
  assumes run_skip: "obj \<ge> pix_array_count g \<Longrightarrow> run obj attr src g = Some g"
    and run_loop: "obj < pix_array_count g \<Longrightarrow> run obj attr src g =
      Option.bind (pixel_obj obj g) (\<lambda>pa. for_each (body attr src pa) [0..<unat (pa_count pa)] g)"
    and body_step: "gfx_wf g \<Longrightarrow> params_ok g \<Longrightarrow>
      index = (word_of_nat i + pa_index pa) mod pix_count g \<Longrightarrow>
      body attr src pa i g = map_option (\<lambda>a. array_store attr (array_limit attr a) index g)
          (arith (ucast (gfx_u16p_get_array_ptr attr g ! unat index)) src)"
begin

lemma index_nat:
  assumes "obj_fits pa g" and "i < unat (pa_count pa)"
  shows "unat ((word_of_nat i + pa_index pa) mod pix_count g) = obj_pixel pa g i"
proof -
  have "unat (pa_index pa) + unat (pa_count pa) \<le> 65536"
    using assms(1) by (simp add: obj_fits_def)
  then have i: "i < 65536" "i + unat (pa_index pa) < 65536" using assms(2) by linarith+
  have "unat (word_of_nat i + pa_index pa) = i + unat (pa_index pa)"
    using i(2) by (subst unat_word_ariths(1)) (simp add: unat_of_nat16 [OF i(1)])
  then show ?thesis
    unfolding obj_pixel_def unat_mod_distrib by (simp only: add.commute)
qed

lemma loop_spec:
  assumes wf: "gfx_wf g" and ok: "params_ok g" and fits: "obj_fits pa g"
    and total: "\<And>a. arith a src \<noteq> None" and n: "n \<le> unat (pa_count pa)"
  shows "\<exists>g'. for_each (body attr src pa) [0..<n] g = Some g' \<and> gfx_wf g' \<and> gfx_frame g' = gfx_frame g
    \<and> gfx_u16p_get_array_ptr attr g' = map (\<lambda>k. if k \<in> obj_pixel pa g ` {..<n}
          then ucast (array_limit attr (the (arith (ucast (gfx_u16p_get_array_ptr attr g ! k)) src)))
          else gfx_u16p_get_array_ptr attr g ! k) [0..<320]"
  using n
proof (induction n)
  case 0
  show ?case using wf length_array_ptr [OF wf, of attr] by (auto intro!: nth_equalityI)
next
  case (Suc n)
  let ?arr = "gfx_u16p_get_array_ptr attr"
  define F where "F k = (ucast (array_limit attr (the (arith (ucast (?arr g ! k)) src))) :: u16)" for k
  obtain g1 where g1: "for_each (body attr src pa) [0..<n] g = Some g1" "gfx_wf g1"
    "gfx_frame g1 = gfx_frame g"
    and arr: "?arr g1 = map (\<lambda>k. if k \<in> obj_pixel pa g ` {..<n} then F k else ?arr g ! k) [0..<320]"
    using Suc unfolding F_def by auto
  note cfg = gfx_frame_config [OF g1(3)]
  define index where "index = (word_of_nat n + pa_index pa) mod pix_count g1"
  have ix: "unat index = obj_pixel pa g n"
    using index_nat [OF fits, of n] Suc.prems by (simp add: index_def cfg)
  have c: "unat (pa_count pa) \<le> unat (pix_count g)" "0 < unat (pix_count g)" "unat (pix_count g) \<le> 320"
    using fits ok by (simp_all add: obj_fits_def params_ok_def word_le_nat_alt word_less_nat_alt)
  have lt: "obj_pixel pa g n < 320"
    using c(2,3) by (auto simp: obj_pixel_def intro: less_le_trans [OF mod_less_divisor])
  have "obj_pixel pa g n \<noteq> obj_pixel pa g j" if "j < n" for j
    using mod_distinct [OF that, of "unat (pix_count g)" "unat (pa_index pa)"] c(1) Suc.prems
    by (auto simp: obj_pixel_def)
  then have new: "obj_pixel pa g n \<notin> obj_pixel pa g ` {..<n}" by auto
  have old: "?arr g1 ! obj_pixel pa g n = ?arr g ! obj_pixel pa g n"
    using lt new by (simp add: arr)
  obtain r where r: "arith (ucast (?arr g ! obj_pixel pa g n)) src = Some r" using total by fastforce
  define g2 where "g2 = array_store attr (array_limit attr r) index g1"
  have "body attr src pa n g1 = Some g2"
    using body_step [OF g1(2) _ index_def, of attr src] ok r old ix by (simp add: g2_def cfg)
  then have "for_each (body attr src pa) [0..<Suc n] g = Some g2"
    by (simp add: for_each_append g1(1))
  moreover have "gfx_wf g2" "gfx_frame g2 = gfx_frame g" using g1(2,3) by (simp_all add: g2_def keeps)
  moreover have "?arr g2 = (?arr g1)[obj_pixel pa g n := ucast (array_limit attr r)]"
    unfolding g2_def using array_store_other [OF g1(2), of index] ix lt by simp
  then have "?arr g2 = map (\<lambda>k. if k \<in> insert (obj_pixel pa g n) (obj_pixel pa g ` {..<n})
          then F k else ?arr g ! k) [0..<320]"
    using map_update_insert [OF lt new, of F "\<lambda>k. ?arr g ! k"] r by (simp add: arr F_def)
  then have "?arr g2 = map (\<lambda>k. if k \<in> obj_pixel pa g ` {..<Suc n} then F k else ?arr g ! k) [0..<320]"
    by (simp only: lessThan_Suc image_insert)
  ultimately show ?case unfolding F_def by blast
qed

lemma spec:
  assumes "gfx_wf g" and "params_ok g" and "obj < pix_array_count g"
    and "pixel_obj obj g = Some pa" and "obj_fits pa g" and "\<And>a. arith a src \<noteq> None"
  shows "\<exists>g'. run obj attr src g = Some g' \<and> gfx_wf g' \<and> gfx_frame g' = gfx_frame g
    \<and> gfx_u16p_get_array_ptr attr g' = map (\<lambda>k. if k \<in> obj_pixel pa g ` {..<unat (pa_count pa)}
          then ucast (array_limit attr (the (arith (ucast (gfx_u16p_get_array_ptr attr g ! k)) src)))
          else gfx_u16p_get_array_ptr attr g ! k) [0..<320]"
  using loop_spec [OF assms(1,2,5,6) order_refl, of attr] assms(3,4) by (simp add: run_loop)

lemma run_keeps:
  assumes "gfx_wf g" and "params_ok g" and "run obj attr src g = Some g'"
  shows "gfx_wf g' \<and> gfx_frame g' = gfx_frame g"
proof (cases "obj < pix_array_count g")
  case True
  then obtain pa where "for_each (body attr src pa) [0..<unat (pa_count pa)] g = Some g'"
    using assms(3) by (auto simp: run_loop opt_simps)
  then show ?thesis
  proof (rule for_each_inv [where I = "\<lambda>h. gfx_wf h \<and> gfx_frame h = gfx_frame g"])
    fix i h h'
    assume h: "gfx_wf h \<and> gfx_frame h = gfx_frame g" and s: "body attr src pa i h = Some h'"
    then have "params_ok h" using assms(2) gfx_frame_config(4) by blast
    then show "gfx_wf h' \<and> gfx_frame h' = gfx_frame g"
      using h s body_step [OF _ _ refl, of h attr src pa i] by (auto simp: keeps)
  qed (use assms(1) in simp)
next
  case False
  then show ?thesis using assms by (simp add: run_skip not_less)
qed

end

text \<open>The loop body that the five operations reading the old value share.\<close>

definition array_body ::
    "(i32 \<Rightarrow> i32 \<Rightarrow> i32 option) \<Rightarrow> u8 \<Rightarrow> i32 \<Rightarrow> gfx_pixel_array \<Rightarrow> nat \<Rightarrow> gfx_state
      \<Rightarrow> gfx_state option" where
  "array_body arith attr src pa i g = do {
     index \<leftarrow> u_mod (word_of_nat i + pa_index pa) (pix_count g);
     a \<leftarrow> rd (gfx_u16p_get_array_ptr attr g) (unat index);
     a \<leftarrow> arith (ucast a) src;
     Some (array_store attr (array_limit attr a) index g) }"

lemma u_mod_pix_count: "params_ok g \<Longrightarrow> u_mod x (pix_count g) = Some (x mod pix_count g)"
  by (auto simp: u_mod_def params_ok_def)

lemma pix_mod_less:
  assumes "params_ok g"
  shows "unat (x mod pix_count g) < 320" and "unat (x mod pix_count g) < unat (pix_count g)"
proof -
  have "0 < unat (pix_count g)" "unat (pix_count g) \<le> 320"
    using assms by (simp_all add: params_ok_def word_less_nat_alt word_le_nat_alt)
  then show "unat (x mod pix_count g) < unat (pix_count g)" "unat (x mod pix_count g) < 320"
    by (simp_all add: unat_mod_distrib less_le_trans [OF mod_less_divisor])
qed

lemma array_body_step:
  assumes "gfx_wf g" and "params_ok g" and "index = (word_of_nat i + pa_index pa) mod pix_count g"
  shows "array_body arith attr src pa i g = map_option (\<lambda>a. array_store attr (array_limit attr a) index g)
          (arith (ucast (gfx_u16p_get_array_ptr attr g ! unat index)) src)"
  using assms pix_mod_less [OF assms(2), of "word_of_nat i + pa_index pa"]
  by (simp add: array_body_def u_mod_pix_count length_array_ptr map_option_case
      split: option.split)

interpretation arr_add: array_operation gfx_v_array_add
    "array_body (\<lambda>a src. Some (a + src))" "\<lambda>a src. Some (a + src)"
  by unfold_locales
    (simp_all add: gfx_v_array_add_def array_body_step,
      simp add: array_body_def [abs_def] Let_def flip: not_le)

interpretation arr_sub: array_operation gfx_v_array_sub
    "array_body (\<lambda>a src. Some (a - src))" "\<lambda>a src. Some (a - src)"
  by unfold_locales
    (simp_all add: gfx_v_array_sub_def array_body_step,
      simp add: array_body_def [abs_def] Let_def flip: not_le)

interpretation arr_mul: array_operation gfx_v_array_mul
    "array_body (\<lambda>a src. Some (a * src))" "\<lambda>a src. Some (a * src)"
  by unfold_locales
    (simp_all add: gfx_v_array_mul_def array_body_step,
      simp add: array_body_def [abs_def] Let_def flip: not_le)

interpretation arr_div: array_operation gfx_v_array_div "array_body c_div" c_div
  by unfold_locales
    (simp_all add: gfx_v_array_div_def array_body_step,
      simp add: array_body_def [abs_def] Let_def flip: not_le)

interpretation arr_mod: array_operation gfx_v_array_mod "array_body c_mod" c_mod
  by unfold_locales
    (simp_all add: gfx_v_array_mod_def array_body_step,
      simp add: array_body_def [abs_def] Let_def flip: not_le)

definition move_body :: "u8 \<Rightarrow> i32 \<Rightarrow> gfx_pixel_array \<Rightarrow> nat \<Rightarrow> gfx_state \<Rightarrow> gfx_state option" where
  "move_body attr src pa i g = do {
     index \<leftarrow> u_mod (word_of_nat i + pa_index pa) (pix_count g);
     Some (array_store attr (array_limit attr src) index g) }"

interpretation arr_move: array_operation gfx_v_array_move move_body "\<lambda>a src. Some src"
  by unfold_locales
    (simp_all add: gfx_v_array_move_def, 
      simp_all add: move_body_def [abs_def] Let_def u_mod_pix_count flip: not_le)

section \<open>Every setter keeps the configuration\<close>

text \<open>The bounds checks of the setters are those of the setters they call.\<close>

lemma gfx_v_set_eq:
  "gfx_v_set_hue h x y obj g = map_option (\<lambda>i. gfx_v_set_hue_1d h i g) (calc_index obj x y g)"
  "gfx_v_set_sat h x y obj g = map_option (\<lambda>i. gfx_v_set_sat_1d h i g) (calc_index obj x y g)"
  "gfx_v_set_val h x y obj g = map_option (\<lambda>i. gfx_v_set_val_1d h i g) (calc_index obj x y g)"
  "gfx_v_set_hs_fade h x y obj g = map_option (\<lambda>i. gfx_v_set_hs_fade_1d h i g) (calc_index obj x y g)"
  "gfx_v_set_v_fade h x y obj g = map_option (\<lambda>i. gfx_v_set_v_fade_1d h i g) (calc_index obj x y g)"
  by (cases "calc_index obj x y g"; simp add: gfx_v_set_hue_def gfx_v_set_sat_def gfx_v_set_val_def
      gfx_v_set_hs_fade_def gfx_v_set_v_fade_def setters_1d)+

lemma gfx_v_set_keeps:
  "gfx_wf g \<Longrightarrow> gfx_v_set_hue h x y obj g = Some g' \<Longrightarrow> gfx_wf g' \<and> gfx_frame g' = gfx_frame g"
  "gfx_wf g \<Longrightarrow> gfx_v_set_sat h x y obj g = Some g' \<Longrightarrow> gfx_wf g' \<and> gfx_frame g' = gfx_frame g"
  "gfx_wf g \<Longrightarrow> gfx_v_set_val h x y obj g = Some g' \<Longrightarrow> gfx_wf g' \<and> gfx_frame g' = gfx_frame g"
  "gfx_wf g \<Longrightarrow> gfx_v_set_hs_fade h x y obj g = Some g' \<Longrightarrow> gfx_wf g' \<and> gfx_frame g' = gfx_frame g"
  "gfx_wf g \<Longrightarrow> gfx_v_set_v_fade h x y obj g = Some g' \<Longrightarrow> gfx_wf g' \<and> gfx_frame g' = gfx_frame g"
  unfolding gfx_v_set_eq by (auto simp only: map_option_eq_Some keeps)

text \<open>Setting then reading the same coordinates.\<close>

lemma frame_fields:
  "pix_count (gfx_frame g) = pix_count g" "pix_arrays (gfx_frame g) = pix_arrays g"
  "pix_array_count (gfx_frame g) = pix_array_count g" "pix_transpose (gfx_frame g) = pix_transpose g"
  "pix_interleave_x (gfx_frame g) = pix_interleave_x g"
  "virtual_array_start (gfx_frame g) = virtual_array_start g"
  "virtual_array_length (gfx_frame g) = virtual_array_length g"
  "virtual_array_sub_position (gfx_frame g) = virtual_array_sub_position g"
  "scaled_pix_count (gfx_frame g) = scaled_pix_count g"
  "scaled_virtual_array_length (gfx_frame g) = scaled_virtual_array_length g"
  by (simp_all add: gfx_frame_def)

lemma calc_index_frame:
  assumes "gfx_frame g' = gfx_frame g"
  shows "calc_index obj x y g' = calc_index obj x y g"
proof -
  have "calc_index obj x y (gfx_frame h) = calc_index obj x y h" for h
    unfolding calc_index_def virtual_index_def pixel_obj_def frame_fields ..
  then show ?thesis using assms by metis
qed

section \<open>The grid of an object\<close>

text \<open>
  The pixel of the coordinates \<open>x\<close>, \<open>y\<close>, on natural numbers: transposition, then interleaving of
  the odd rows, then row-major order, then reversal.
\<close>

definition grid_offset :: "gfx_pixel_array \<Rightarrow> gfx_state \<Rightarrow> nat \<Rightarrow> nat \<Rightarrow> nat" where
  "grid_offset pa g x y =
     (let (x, y) = (if pix_transpose g then (y, x) else (x, y));
          x = (if pix_interleave_x g \<and> odd y then unat (pa_size_x pa) - 1 - x else x);
          i = x + y * unat (pa_size_x pa)
      in if pa_reverse pa then unat (pa_count pa) - 1 - i else i)"

definition in_grid :: "gfx_pixel_array \<Rightarrow> gfx_state \<Rightarrow> nat \<Rightarrow> nat \<Rightarrow> bool" where
  "in_grid pa g x y \<longleftrightarrow>
     (if pix_transpose g then y < unat (pa_size_x pa) \<and> x < unat (pa_size_y pa)
      else x < unat (pa_size_x pa) \<and> y < unat (pa_size_y pa))"

definition grid_ok :: "gfx_pixel_array \<Rightarrow> gfx_state \<Rightarrow> bool" where
  "grid_ok pa g \<longleftrightarrow>
     unat (pa_size_x pa) * unat (pa_size_y pa) \<le> unat (pa_count pa) \<and> pa_count pa \<le> pix_count g"

lemma row_major_less:
  fixes x y sx sy :: nat
  assumes "x < sx" and "y < sy"
  shows "x + y * sx < sx * sy"
proof -
  have "x + y * sx < Suc y * sx" using assms(1) by simp
  also have "\<dots> \<le> sy * sx" using assms(2) by (intro mult_le_mono1) simp
  finally show ?thesis by (simp add: mult.commute)
qed

lemma row_major_inj:
  fixes x y x' y' sx :: nat
  assumes "x < sx" and "x' < sx" and "x + y * sx = x' + y' * sx"
  shows "x = x' \<and> y = y'"
proof -
  have "(x + y * sx) div sx = y" "(x + y * sx) mod sx = x" using assms(1) by simp_all
  moreover have "(x' + y' * sx) div sx = y'" "(x' + y' * sx) mod sx = x'" using assms(2) by simp_all
  ultimately show ?thesis using assms(3) by metis
qed

lemma grid_offset_less:
  assumes "grid_ok pa g" and "in_grid pa g x y"
  shows "grid_offset pa g x y < unat (pa_count pa)"
proof -
  let ?sx = "unat (pa_size_x pa)" and ?sy = "unat (pa_size_y pa)"
  define f where "f a b = (if pix_interleave_x g \<and> odd b then ?sx - 1 - a else a)" for a b :: nat
  define a where "a = (if pix_transpose g then y else x)"
  define b where "b = (if pix_transpose g then x else y)"
  have ab: "a < ?sx" "b < ?sy"
    using assms(2) by (auto simp: in_grid_def a_def b_def split: if_splits)
  then have "f a b + b * ?sx < ?sx * ?sy"
    by (intro row_major_less) (auto simp: f_def)
  then have less: "f a b + b * ?sx < unat (pa_count pa)"
    using assms(1) by (simp add: grid_ok_def)
  have "grid_offset pa g x y = (if pa_reverse pa then unat (pa_count pa) - 1 - (f a b + b * ?sx)
        else f a b + b * ?sx)"
    by (simp add: grid_offset_def Let_def f_def a_def b_def)
  then show ?thesis using less by auto
qed

lemma grid_offset_inj:
  assumes "grid_ok pa g" and "in_grid pa g x y" and "in_grid pa g x' y'"
    and "grid_offset pa g x y = grid_offset pa g x' y'"
  shows "x = x' \<and> y = y'"
proof -
  let ?sx = "unat (pa_size_x pa)" and ?sy = "unat (pa_size_y pa)"
  define f where "f a b = (if pix_interleave_x g \<and> odd b then ?sx - 1 - a else a)" for a b :: nat
  have less: "f a b + b * ?sx < unat (pa_count pa)" if "a < ?sx" "b < ?sy" for a b
    using row_major_less [of "f a b" ?sx b ?sy] that assms(1) by (auto simp: grid_ok_def f_def)
  have inj: "a = a' \<and> b = b'"
    if ab: "a < ?sx" "b < ?sy" "a' < ?sx" "b' < ?sy" and eq: "f a b + b * ?sx = f a' b' + b' * ?sx"
    for a b a' b'
  proof -
    have "f a b < ?sx" "f a' b' < ?sx" using ab by (auto simp: f_def)
    from row_major_inj [OF this eq] have "f a b = f a' b'" "b = b'" by blast+
    then show ?thesis using ab by (auto simp: f_def split: if_splits)
  qed
  define a where "a = (if pix_transpose g then y else x)"
  define b where "b = (if pix_transpose g then x else y)"
  define a' where "a' = (if pix_transpose g then y' else x')"
  define b' where "b' = (if pix_transpose g then x' else y')"
  have in_range: "a < ?sx" "b < ?sy" "a' < ?sx" "b' < ?sy"
    using assms(2,3) by (auto simp: in_grid_def a_def b_def a'_def b'_def split: if_splits)
  have off: "grid_offset pa g x y = (if pa_reverse pa then unat (pa_count pa) - 1 - (f a b + b * ?sx)
        else f a b + b * ?sx)"
    "grid_offset pa g x' y' = (if pa_reverse pa then unat (pa_count pa) - 1 - (f a' b' + b' * ?sx)
        else f a' b' + b' * ?sx)"
    by (simp_all add: grid_offset_def Let_def f_def a_def b_def a'_def b'_def)
  have "f a b + b * ?sx = f a' b' + b' * ?sx"
    using assms(4) less [OF in_range(1,2)] less [OF in_range(3,4)] unfolding off
    by (auto split: if_splits)
  from inj [OF in_range this] show ?thesis
    by (auto simp: a_def b_def a'_def b'_def split: if_splits)
qed

lemma sint_small16: "unat (i :: i16) < 32768 \<Longrightarrow> sint i = int (unat i)"
  using uint_eq_sint16 [of i] sint16_bounds [of i] by (auto simp: unat_eq_nat_uint split: if_splits)

lemma and_1_odd: "(y :: u16) AND 1 \<noteq> 0 \<longleftrightarrow> odd (unat y)"
proof -
  have "odd (unat y) \<longleftrightarrow> bit (unat y) 0" by (simp add: bit_0)
  also have "\<dots> \<longleftrightarrow> bit y 0" by (simp add: bit_unsigned_iff del: bit_0)
  finally show ?thesis by (simp add: and_one_eq odd_iff_mod_2_eq_one bit_0)
qed

lemma u_mod_less: "x < y \<Longrightarrow> u_mod x y = Some x" for x y :: u16
  by (auto simp: u_mod_def word_unat_eq_iff unat_mod_distrib word_less_nat_alt)

lemma unat_grid:
  assumes "unat a + unat b * unat s < 65536"
  shows "unat (a + b * s) = unat a + unat b * unat (s :: u16)"
proof -
  have "unat (b * s) = unat b * unat s"
    using assms by (subst unat_word_ariths(2)) simp
  then show ?thesis using assms by (subst unat_word_ariths(1)) simp
qed

lemma calc_index_flat:
  assumes "\<not> obj \<ge> pix_array_count g" and "pixel_obj obj g = Some pa"
    and xy: "(if pix_transpose g then (y, x) else (x, y)) = (px, py)"
    and "py \<noteq> 65535" and ix: "ix < pa_size_x pa" and "py < pa_size_y pa" and "pix_count g \<noteq> 0"
    and ix_def: "ix = (if pix_interleave_x g \<and> py AND 1 \<noteq> 0 then (pa_size_x pa - 1) - px else px)"
    and i0_def: "i0 = ix + py * pa_size_x pa"
    and i1_def: "i1 = (if pa_reverse pa then (pa_count pa - 1) - i0 else i0)" and "\<not> sint i1 < 0"
  shows "calc_index obj x y g
      = Some (word_of_int ((sint i1 + uint (pa_index pa)) smod uint (pix_count g)))"
proof (cases "pix_interleave_x g \<and> py AND 1 \<noteq> 0")
  case True
  then have "ix = (pa_size_x pa - 1) - px" by (simp add: ix_def)
  then show ?thesis
    using assms(1,2,4,6,7,11) ix True unfolding calc_index_def xy i1_def i0_def
    by (cases "pa_reverse pa") (simp_all add: u_mod_less)
next
  case False
  then have "ix = px" unfolding ix_def by (rule if_not_P)
  then show ?thesis
    using assms(1,2,4,6,7,11) ix False unfolding calc_index_def xy i1_def i0_def
    by (cases "pa_reverse pa") (auto simp: u_mod_less)
qed

lemma calc_index_grid:
  assumes ok: "params_ok g" and obj: "obj < pix_array_count g" "pixel_obj obj g = Some pa"
    and grid: "grid_ok pa g" "in_grid pa g (unat x) (unat y)"
  shows "\<exists>i. calc_index obj x y g = Some i
    \<and> unat i = (unat (pa_index pa) + grid_offset pa g (unat x) (unat y)) mod unat (pix_count g)"
proof -
  let ?sx = "unat (pa_size_x pa)" and ?sy = "unat (pa_size_y pa)" and ?c = "unat (pix_count g)"
  define px where "px = (if pix_transpose g then y else x)"
  define py where "py = (if pix_transpose g then x else y)"
  define ix where "ix = (if pix_interleave_x g \<and> py AND 1 \<noteq> 0 then (pa_size_x pa - 1) - px else px)"
  define i0 where "i0 = ix + py * pa_size_x pa"
  define i1 where "i1 = (if pa_reverse pa then (pa_count pa - 1) - i0 else i0)"
  have p: "unat px < ?sx" "unat py < ?sy"
    using grid(2) by (auto simp: in_grid_def px_def py_def split: if_splits)
  have cnt: "?sx * ?sy \<le> unat (pa_count pa)" "unat (pa_count pa) \<le> ?c" "?c \<le> 320" "0 < ?c"
    using grid(1) ok by (simp_all add: grid_ok_def params_ok_def word_le_nat_alt word_less_nat_alt)
  have "1 \<le> ?sy" "1 \<le> ?sx" using p by linarith+
  then have "1 * ?sy \<le> ?sx * ?sy" "?sx * 1 \<le> ?sx * ?sy" by (intro mult_le_mono; simp)+
  then have sy: "?sy \<le> 320" "?sx \<le> 320" using cnt by linarith+
  have nm: "unat (pa_size_x pa - 1 - px) = ?sx - 1 - unat px"
  proof -
    have "unat (pa_size_x pa - 1) = ?sx - 1"
      using p(1) by (subst unat_sub) (auto simp: word_le_nat_alt)
    then show ?thesis using p(1) by (subst unat_sub) (auto simp: word_le_nat_alt)
  qed
  then have uix: "unat ix = (if pix_interleave_x g \<and> odd (unat py) then ?sx - 1 - unat px else unat px)"
    unfolding ix_def and_1_odd by simp
  then have ix: "unat ix < ?sx" using p(1) by auto
  have less: "unat ix + unat py * ?sx < unat (pa_count pa)"
    using row_major_less [OF ix p(2)] cnt(1) by linarith
  then have ui0: "unat i0 = unat ix + unat py * ?sx"
    unfolding i0_def using cnt by (intro unat_grid) linarith
  have "unat (pa_count pa - 1 - i0) = unat (pa_count pa) - 1 - unat i0"
  proof -
    have "unat (pa_count pa - 1) = unat (pa_count pa) - 1"
      using less by (subst unat_sub) (auto simp: word_le_nat_alt)
    then show ?thesis using less ui0 by (subst unat_sub) (auto simp: word_le_nat_alt)
  qed
  then have ui1: "unat i1 = grid_offset pa g (unat x) (unat y)"
    using ui0 uix unfolding grid_offset_def Let_def i1_def px_def py_def by auto
  have "unat i1 < unat (pa_count pa)"
    unfolding ui1 by (rule grid_offset_less [OF grid])
  then have s1: "sint i1 = int (unat i1)" using cnt by (intro sint_small16) linarith
  have py: "py \<noteq> 65535" using p(2) sy by auto
  have ixy: "ix < pa_size_x pa" "py < pa_size_y pa" using ix p(2) by (simp_all add: word_less_nat_alt)
  have nz: "pix_count g \<noteq> 0" using cnt(4) by auto
  have xy: "(if pix_transpose g then (y, x) else (x, y)) = (px, py)"
    by (simp add: px_def py_def)
  have obj': "\<not> obj \<ge> pix_array_count g" using obj(1) by simp
  have pos: "\<not> sint i1 < 0" by (simp add: s1)
  have "calc_index obj x y g
      = Some (word_of_int ((sint i1 + uint (pa_index pa)) smod uint (pix_count g)))"
    by (rule calc_index_flat [OF obj' obj(2) xy py ixy nz ix_def i0_def i1_def pos])
  moreover have "unat (word_of_int ((sint i1 + uint (pa_index pa)) smod uint (pix_count g)) :: u16)
      = (unat (pa_index pa) + unat i1) mod ?c"
  proof -
    have c: "0 < uint (pix_count g)" "uint (pix_count g) \<le> 320"
      using cnt(3,4) of_nat_unat [of "pix_count g", where 'a = int] by linarith+
    have "(sint i1 + uint (pa_index pa)) smod uint (pix_count g)
        = (int (unat i1) + uint (pa_index pa)) mod uint (pix_count g)"
      unfolding s1 using c by (intro smod_nonneg) simp_all
    also have "\<dots> = int ((unat (pa_index pa) + unat i1) mod ?c)"
      by (simp add: zmod_int add.commute)
    finally have "(sint i1 + uint (pa_index pa)) smod uint (pix_count g)
        = int ((unat (pa_index pa) + unat i1) mod ?c)" .
    moreover have "(unat (pa_index pa) + unat i1) mod ?c < 65536"
      using cnt by (intro less_le_trans [OF mod_less_divisor]) simp_all
    ultimately show ?thesis by (simp add: unat_of_nat16)
  qed
  ultimately show ?thesis by (simp add: ui1)
qed

section \<open>What a limited value is\<close>

lemma uint_ucast_i32_u16: "uint (ucast x :: u16) = uint (x :: i32) mod 65536"
  by (simp add: unsigned_ucast_eq unsigned_take_bit_eq take_bit_eq_mod)

lemma uint_ucast_u16_i32: "uint (ucast (a :: u16) :: i32) = uint a"
  using uint16_bounds [of a] by (simp add: unsigned_ucast_eq take_bit_int_eq_self)

lemma sint_ucast_u16_i32: "sint (ucast (a :: u16) :: i32) = uint a"
  using uint_eq_sint32 [of "ucast a"] sint32_bounds [of "ucast a"] uint16_bounds [of a]
    uint_ucast_u16_i32 [of a]
  by (auto split: if_splits)

lemma array_limit_hue: "ucast (array_limit PIX_ATTR_HUE a) = (ucast a :: u16)"
proof -
  have "65536 dvd sint a smod 65536 - sint a"
  proof -
    have "sint a = 65536 * (sint a sdiv 65536) + sint a smod 65536"
      by (simp only: mult_sdiv_smod_eq)
    then have "sint a smod 65536 - sint a = 65536 * (- (sint a sdiv 65536))" by linarith
    then show ?thesis by (metis dvd_triv_left)
  qed
  then have m: "(sint a smod 65536) mod 65536 = sint a mod 65536" by (simp add: mod_eq_dvd_iff)
  have us: "uint x mod 65536 = sint x mod 65536" for x :: i32
    by (simp add: uint_sint take_bit_eq_mod mod_mod_cancel)
  have "- 65536 < sint a smod 65536" "sint a smod 65536 < 65536" using smod_bounds [of 65536] by auto
  then have "sint (word_of_int (sint a smod 65536) :: i32) = sint a smod 65536"
    by (intro sint_word_of_int32) linarith+
  then have "uint (ucast (array_limit PIX_ATTR_HUE a) :: u16) = uint (ucast a :: u16)"
    by (simp only: array_limit_def uint_ucast_i32_u16 us m simp_thms if_True)
  then show ?thesis by (simp add: word_uint_eq_iff)
qed

lemma array_limit_clamp:
  assumes "attr \<noteq> PIX_ATTR_HUE"
  shows "ucast (array_limit attr a) = (word_of_int (max 0 (min 65535 (sint a))) :: u16)"
proof -
  consider "65535 < sint a" | "sint a < 0" | "0 \<le> sint a" "sint a \<le> 65535" by linarith
  then show ?thesis
  proof cases
    case 3
    then have "uint a = sint a" using uint_eq_sint32 [of a] by simp
    then have "uint (ucast a :: u16) = sint a" unfolding uint_ucast_i32_u16 using 3 by simp
    moreover have "uint (word_of_int (sint a) :: u16) = sint a"
      using 3 by (intro uint_word_of_int16) simp_all
    ultimately have "ucast a = (word_of_int (sint a) :: u16)" by (simp only: word_uint_eq_iff)
    then show ?thesis using 3 assms by (simp add: array_limit_def)
  qed (use assms in \<open>simp_all add: array_limit_def\<close>)
qed

section \<open>Properties\<close>

text \<open>A strip of 16 pixels as a 4 by 4 grid, with a second object on pixels 10 to 13.\<close>

definition sample_gfx :: gfx_state where
  "sample_gfx = gfx_initial
     \<lparr>pix_count := 16, pix_size_x := 4, pix_size_y := 4, gfx_frame_rate := 100,
      pix_array_count := 2, pix_interleave_x := True,
      pix_arrays := Some
        [\<lparr>pa_index = 0, pa_count = 16, pa_size_x = 4, pa_size_y = 4, pa_reverse = False\<rparr>,
         \<lparr>pa_index = 10, pa_count = 4, pa_size_x = 4, pa_size_y = 1, pa_reverse = True\<rparr>]\<rparr>"

lemma sample_gfx_ok:
  "gfx_wf sample_gfx" "params_ok sample_gfx" "0 < pix_array_count sample_gfx"
  "1 < pix_array_count sample_gfx"
  "pixel_obj 0 sample_gfx =
     Some \<lparr>pa_index = 0, pa_count = 16, pa_size_x = 4, pa_size_y = 4, pa_reverse = False\<rparr>"
  "pixel_obj 1 sample_gfx =
     Some \<lparr>pa_index = 10, pa_count = 4, pa_size_x = 4, pa_size_y = 1, pa_reverse = True\<rparr>"
  by (simp_all add: sample_gfx_def gfx_wf_def gfx_initial_def params_ok_def pixel_obj_def)

text \<open>
  C24 Whatever the pixel object holds and whatever the coordinates are, an index that
  \<open>calc_index\<close> returns is a pixel of the strip or is rejected by the bounds check of every setter:
  the five setters change the addressed pixel inside the strip and nothing otherwise.
\<close>

theorem calc_index_in_strip:
  assumes ok: "params_ok g" and i: "calc_index obj x y g = Some i"
  shows "(i < pix_count g \<or> i \<ge> MAX_PIXELS)
    \<and> gfx_v_set_hue v x y obj g = Some (if i < pix_count g then gfx_v_set_hue_1d v i g else g)
    \<and> gfx_v_set_sat v x y obj g = Some (if i < pix_count g then gfx_v_set_sat_1d v i g else g)
    \<and> gfx_v_set_val v x y obj g = Some (if i < pix_count g then gfx_v_set_val_1d v i g else g)
    \<and> gfx_v_set_hs_fade v x y obj g = Some (if i < pix_count g then gfx_v_set_hs_fade_1d v i g else g)
    \<and> gfx_v_set_v_fade v x y obj g = Some (if i < pix_count g then gfx_v_set_v_fade_1d v i g else g)"
proof -
  have iff: "i \<ge> MAX_PIXELS \<longleftrightarrow> \<not> i < pix_count g" by (rule calc_index_setter [OF i ok])
  show ?thesis
    by (cases "i < pix_count g") (simp_all only: gfx_v_set_eq i option.map setters_1d iff if_True
        if_False simp_thms)
qed

lemma calc_index_in_strip_witness:
  "calc_index 0 1 2 sample_gfx = Some 9
   \<and> gfx_v_set_val 7 1 2 0 sample_gfx = Some (gfx_v_set_val_1d 7 9 sample_gfx)"
proof -
  have i: "calc_index 0 1 2 sample_gfx = Some 9" by code_simp
  have "pix_count sample_gfx = 16" by (simp add: sample_gfx_def)
  then show ?thesis
    using calc_index_in_strip [OF sample_gfx_ok(2) i] i by simp
qed

text \<open>
  C23 The coordinates of a grid address its pixels one to one.  For an object whose grid fits
  in its count and whose count fits in the strip, under any combination of transposition,
  interleaving and reversal, every coordinate pair of the grid has an index, it is the object's
  offset for these coordinates, and different pairs have different indices.
\<close>

theorem calc_index_bijective:
  assumes ok: "params_ok g" and obj: "obj < pix_array_count g" "pixel_obj obj g = Some pa"
    and grid: "grid_ok pa g" "in_grid pa g (unat x) (unat y)" "in_grid pa g (unat x') (unat y')"
  shows "\<exists>i. calc_index obj x y g = Some i
    \<and> unat i = (unat (pa_index pa) + grid_offset pa g (unat x) (unat y)) mod unat (pix_count g)
    \<and> (calc_index obj x' y' g = Some i \<longrightarrow> x' = x \<and> y' = y)"
proof -
  let ?o = "grid_offset pa g (unat x) (unat y)" and ?o' = "grid_offset pa g (unat x') (unat y')"
  let ?c = "unat (pix_count g)"
  obtain i where i: "calc_index obj x y g = Some i" "unat i = (unat (pa_index pa) + ?o) mod ?c"
    using calc_index_grid [OF ok obj grid(1,2)] by blast
  obtain i' where i': "calc_index obj x' y' g = Some i'"
    "unat i' = (unat (pa_index pa) + ?o') mod ?c"
    using calc_index_grid [OF ok obj grid(1,3)] by blast
  have "?o < ?c" "?o' < ?c"
    using grid_offset_less [OF grid(1,2)] grid_offset_less [OF grid(1,3)] grid(1)
    by (simp_all add: grid_ok_def word_le_nat_alt)
  moreover have "(unat (pa_index pa) + ?o) mod ?c = (unat (pa_index pa) + ?o') mod ?c" if "i' = i"
    using i(2) i'(2) that by simp
  ultimately have "?o = ?o'" if "i' = i"
    using mod_distinct [of ?o ?o' ?c "unat (pa_index pa)"] mod_distinct [of ?o' ?o ?c "unat (pa_index pa)"]
      that by (metis linorder_neqE_nat)
  then have "x' = x \<and> y' = y" if "i' = i"
    using grid_offset_inj [OF grid] that by (auto simp: word_unat_eq_iff)
  then show ?thesis using i i' by auto
qed

lemma calc_index_bijective_witness:
  "\<exists>i. calc_index 0 1 3 sample_gfx = Some i \<and> unat i = 14
     \<and> (calc_index 0 2 3 sample_gfx = Some i \<longrightarrow> (2 :: u16) = 1 \<and> (3 :: u16) = 3)"
proof -
  have "pix_count sample_gfx = 16" "pix_transpose sample_gfx = False"
    "pix_interleave_x sample_gfx = True"
    by (simp_all add: sample_gfx_def gfx_initial_def)
  then show ?thesis
    using calc_index_bijective [OF sample_gfx_ok(2,3,5), of 1 3 2 3]
    by (simp add: grid_ok_def in_grid_def grid_offset_def)
qed

text \<open>
  Adding to an attribute of a whole object adds to each of its pixels once: a hue wraps
  around at 65536, any other attribute saturates at 0 and 65535, pixels outside the object keep
  their value, and nothing else of the configuration changes.
\<close>

theorem gfx_v_array_add_pixels:
  assumes "gfx_wf g" and "params_ok g" and "obj < pix_array_count g"
    and "pixel_obj obj g = Some pa" and "obj_fits pa g" and "sint src < 1073741824" and "- 1073741824 < sint src"
  shows "\<exists>g'. gfx_v_array_add obj attr src g = Some g' \<and> gfx_wf g' \<and> gfx_frame g' = gfx_frame g
    \<and> (\<forall>k < 320. let a = gfx_u16p_get_array_ptr attr g ! k in
          gfx_u16p_get_array_ptr attr g' ! k =
            (if k \<in> obj_pixel pa g ` {..<unat (pa_count pa)}
             then (if attr = PIX_ATTR_HUE then a + ucast src
                   else word_of_int (max 0 (min 65535 (uint a + sint src))))
             else a))"
proof -
  have "ucast (array_limit attr (ucast a + src)) = (if attr = PIX_ATTR_HUE then a + ucast src
                   else word_of_int (max 0 (min 65535 (uint a + sint src))) :: u16)" for a :: u16
  proof (cases "attr = PIX_ATTR_HUE")
    case True
    have "ucast (ucast a + src :: i32) = a + (ucast src :: u16)"
      by (rule word_uint_eq_iff [THEN iffD2])
        (simp add: uint_ucast_i32_u16 uint_word_ariths mod_mod_cancel mod_add_right_eq uint_ucast_u16_i32)
    then show ?thesis using True array_limit_hue by simp
  next
    case False
    have "sint (ucast a :: i32) = uint a" by (rule sint_ucast_u16_i32)
    moreover have "sint (ucast a + src) = sint (ucast a :: i32) + sint src"
      using assms(6,7) uint16_bounds [of a] calculation by (intro sint_add32) (linarith | simp)+
    ultimately show ?thesis using False array_limit_clamp [OF False] by simp
  qed
  then show ?thesis
    using arr_add.spec [OF assms(1-5), of src attr] by (fastforce simp: Let_def)
qed

lemma gfx_v_array_add_pixels_witness:
  "\<exists>g'. gfx_v_array_add 1 PIX_ATTR_SAT 70000 sample_gfx = Some g'
     \<and> target_sat g' ! 12 = 65535 \<and> target_sat g' ! 14 = target_sat sample_gfx ! 14"
proof -
  have fits: "obj_fits \<lparr>pa_index = 10, pa_count = 4, pa_size_x = 4, pa_size_y = 1, pa_reverse = True\<rparr> sample_gfx"
    by (simp add: obj_fits_def sample_gfx_def)
  have px: "obj_pixel \<lparr>pa_index = 10, pa_count = 4, pa_size_x = 4, pa_size_y = 1, pa_reverse = True\<rparr>
      sample_gfx ` {..<4} = {10, 11, 12, 13}"
  proof -
    have "{..<4 :: nat} = {0, 1, 2, 3}" by auto
    then show ?thesis by (simp add: obj_pixel_def sample_gfx_def)
  qed
  have lt: "(12 :: nat) < 320" "(14 :: nat) < 320" by simp_all
  have old: "target_sat sample_gfx ! 12 = 0" by (simp add: sample_gfx_def gfx_initial_def)
  obtain g' where g': "gfx_v_array_add 1 PIX_ATTR_SAT 70000 sample_gfx = Some g'"
    and all: "\<forall>k < 320. target_sat g' ! k =
        (if k \<in> {10, 11, 12, 13}
         then word_of_int (max 0 (min 65535 (uint (target_sat sample_gfx ! k) + 70000)))
         else target_sat sample_gfx ! k)"
    using gfx_v_array_add_pixels [OF sample_gfx_ok(1,2,4,6) fits, of 70000 PIX_ATTR_SAT]
    by (auto simp: px gfx_u16p_get_array_ptr_def Let_def)
  show ?thesis using g' all [rule_format, OF lt(1)] all [rule_format, OF lt(2)] old by auto
qed

text \<open>
  Dividing an attribute of a whole object: with a divisor other than zero every pixel of
  the object gets the truncated quotient, and with a divisor of zero the operation divides by zero
  as soon as the object has a pixel, for there is no guard as there is in the divide instruction.
\<close>

theorem gfx_v_array_div_pixels:
  assumes "gfx_wf g" and "params_ok g" and "obj < pix_array_count g"
    and "pixel_obj obj g = Some pa" and "obj_fits pa g" and "pa_count pa \<noteq> 0"
  shows "(gfx_v_array_div obj attr src g = None \<longleftrightarrow> src = 0)
    \<and> (gfx_v_array_mod obj attr src g = None \<longleftrightarrow> src = 0)
    \<and> (src \<noteq> 0 \<longrightarrow> (\<exists>g'. gfx_v_array_div obj attr src g = Some g' \<and> gfx_wf g' \<and> gfx_frame g' = gfx_frame g
         \<and> (\<forall>k < 320. gfx_u16p_get_array_ptr attr g' ! k =
             (if k \<in> obj_pixel pa g ` {..<unat (pa_count pa)}
              then ucast (array_limit attr
                     (word_of_int (uint (gfx_u16p_get_array_ptr attr g ! k) sdiv sint src)))
              else gfx_u16p_get_array_ptr attr g ! k))))"
proof -
  obtain n where n: "unat (pa_count pa) = Suc n" using assms(6) by (metis not0_implies_Suc unat_eq_zero)
  have "array_body arith attr 0 pa 0 g = None" if "\<And>a. arith a 0 = None" for arith
    using array_body_step [OF assms(1,2) refl] that by simp
  then have first: "for_each (array_body arith attr 0 pa) [0..<Suc n] g = None"
    if "\<And>a. arith a 0 = None" for arith
    using that by (simp add: upt_conv_Cons del: upt_Suc)
  have none: "gfx_v_array_div obj attr 0 g = None" "gfx_v_array_mod obj attr 0 g = None"
    using arr_div.run_loop [OF assms(3)] arr_mod.run_loop [OF assms(3)] assms(4) n
    by (simp_all add: first c_div_def c_mod_def del: upt_Suc)
  show ?thesis
  proof (cases "src = 0")
    case True
    then show ?thesis using none by simp
  next
    case False
    then have tot: "c_div a src \<noteq> None" "c_mod a src \<noteq> None" for a
      by (simp_all add: c_div_def c_mod_def)
    have "the (c_div (ucast a) src) = word_of_int (uint a sdiv sint src)" for a :: u16
      using False by (simp add: c_div_def sint_ucast_u16_i32)
    then show ?thesis
      using False arr_div.spec [OF assms(1-5) tot(1), of attr] arr_mod.spec [OF assms(1-5) tot(2), of attr]
      by fastforce
  qed
qed

lemma gfx_v_array_div_pixels_witness:
  "gfx_v_array_div 1 PIX_ATTR_VAL 0 sample_gfx = None
   \<and> gfx_v_array_div 1 PIX_ATTR_VAL 2 sample_gfx \<noteq> None"
proof -
  have "obj_fits \<lparr>pa_index = 10, pa_count = 4, pa_size_x = 4, pa_size_y = 1, pa_reverse = True\<rparr> sample_gfx"
    by (simp add: obj_fits_def sample_gfx_def)
  from gfx_v_array_div_pixels [OF sample_gfx_ok(1,2,4,6) this] show ?thesis by simp
qed

text \<open>
  C28 Setting an attribute of a pixel through its coordinates and reading it back through the
  same coordinates gives the value set, and the write restarts the pixel's fade.
\<close>

theorem gfx_v_set_get:
  assumes wf: "gfx_wf g" and ok: "params_ok g" and i: "calc_index obj x y g = Some i"
    and valid: "i < pix_count g"
  shows "(\<exists>g'. gfx_v_set_hue v x y obj g = Some g' \<and> gfx_u16_get_hue x y obj g' = Some v
            \<and> hue_step g' ! unat i = 0)
    \<and> (\<exists>g'. gfx_v_set_sat v x y obj g = Some g' \<and> gfx_u16_get_sat x y obj g' = Some v
            \<and> sat_step g' ! unat i = 0)
    \<and> (\<exists>g'. gfx_v_set_val v x y obj g = Some g' \<and> gfx_u16_get_val x y obj g' = Some v
            \<and> val_step g' ! unat i = 0)
    \<and> (\<exists>g'. gfx_v_set_hs_fade v x y obj g = Some g' \<and> gfx_u16_get_hs_fade x y obj g' = Some v)
    \<and> (\<exists>g'. gfx_v_set_v_fade v x y obj g = Some g' \<and> gfx_u16_get_v_fade x y obj g' = Some v)"
proof -
  have n: "i < MAX_PIXELS" "unat i < 320"
    using valid ok by (auto simp: params_ok_def word_less_nat_alt word_le_nat_alt)
  have n3: "\<not> i \<ge> MAX_PIXELS" using n(1) by simp
  have m: "i mod MAX_PIXELS = i" using n
    by (simp add: word_unat_eq_iff unat_mod_distrib)
  have len: "length (target_hue g) = 320" "length (hue_step g) = 320" "length (target_sat g) = 320"
    "length (sat_step g) = 320" "length (target_val g) = 320" "length (val_step g) = 320"
    "length (hs_fade g) = 320" "length (v_fade g) = 320"
    using wf by (simp_all add: gfx_wf_def)
  have same: "calc_index obj x y (gfx_v_set_hue_1d v i g) = Some i"
    "calc_index obj x y (gfx_v_set_sat_1d v i g) = Some i"
    "calc_index obj x y (gfx_v_set_val_1d v i g) = Some i"
    "calc_index obj x y (gfx_v_set_hs_fade_1d v i g) = Some i"
    "calc_index obj x y (gfx_v_set_v_fade_1d v i g) = Some i"
    using i by (simp_all only: setters_1d_frame [THEN calc_index_frame])
  have "gfx_u16_get_hue x y obj (gfx_v_set_hue_1d v i g) = Some v"
    "hue_step (gfx_v_set_hue_1d v i g) ! unat i = 0"
    unfolding gfx_u16_get_hue_def same bind.bind_lunit m
    using n3 n(2) len by (simp_all add: gfx_v_set_hue_1d_def)
  moreover have "gfx_u16_get_sat x y obj (gfx_v_set_sat_1d v i g) = Some v"
    "sat_step (gfx_v_set_sat_1d v i g) ! unat i = 0"
    unfolding gfx_u16_get_sat_def same bind.bind_lunit m
    using n3 n(2) len by (simp_all add: gfx_v_set_sat_1d_def)
  moreover have "gfx_u16_get_val x y obj (gfx_v_set_val_1d v i g) = Some v"
    "val_step (gfx_v_set_val_1d v i g) ! unat i = 0"
    unfolding gfx_u16_get_val_def same bind.bind_lunit m
    using n3 n(2) len by (simp_all add: gfx_v_set_val_1d_def)
  moreover have "gfx_u16_get_hs_fade x y obj (gfx_v_set_hs_fade_1d v i g) = Some v"
    unfolding gfx_u16_get_hs_fade_def same bind.bind_lunit m
    using n3 n(2) len by (simp add: gfx_v_set_hs_fade_1d_def)
  moreover have "gfx_u16_get_v_fade x y obj (gfx_v_set_v_fade_1d v i g) = Some v"
    unfolding gfx_u16_get_v_fade_def same bind.bind_lunit m
    using n3 n(2) len by (simp add: gfx_v_set_v_fade_1d_def)
  ultimately show ?thesis
    unfolding gfx_v_set_eq i option.map by blast
qed

lemma gfx_v_set_get_witness:
  "\<exists>g'. gfx_v_set_val 7 1 2 0 sample_gfx = Some g' \<and> gfx_u16_get_val 1 2 0 g' = Some 7"
proof -
  have i: "calc_index 0 1 2 sample_gfx = Some 9" by code_simp
  have "(9 :: u16) < pix_count sample_gfx" by (simp add: sample_gfx_def)
  from gfx_v_set_get [OF sample_gfx_ok(1,2) i this, of 7] show ?thesis by blast
qed

text \<open>
  Asking whether a whole object is fading looks at the first \<open>count\<close> pixels of the
  strip, wherever the object starts: the answer is 1 exactly when one of the pixels 0 to
  \<open>count - 1\<close> has not reached its target.  An object that starts elsewhere is answered for the
  wrong pixels.
\<close>

theorem gfx_u16_get_is_fading_object:
  assumes wf: "gfx_wf g" and ok: "params_ok g" and obj: "pixel_obj obj g = Some pa"
    and n: "unat (pa_count pa) \<le> 320"
  shows "gfx_u16_get_is_fading 65535 65535 obj g
    = Some (if \<exists>k < unat (pa_count pa). target_hue g ! k \<noteq> hue g ! k
                 \<or> target_sat g ! k \<noteq> sat g ! k \<or> target_val g ! k \<noteq> val g ! k
            then 1 else 0)"
proof -
  have "is_fading_loop pa g is
      = Some (if \<exists>k \<in> set is. target_hue g ! k \<noteq> hue g ! k
                 \<or> target_sat g ! k \<noteq> sat g ! k \<or> target_val g ! k \<noteq> val g ! k
              then 1 else 0)" if "\<forall>k \<in> set is. k < 320" for "is"
    using that wf by (induction "is") (auto simp: u_mod_pix_count [OF ok] gfx_wf_def)
  note loop = this [of "[0..<unat (pa_count pa)]"]
  have "(\<exists>k \<in> set [0..<unat (pa_count pa)]. P k) \<longleftrightarrow> (\<exists>k < unat (pa_count pa). P k)" for P
    by auto
  moreover have "\<forall>k \<in> set [0..<unat (pa_count pa)]. k < 320" using n by simp
  moreover have "gfx_u16_get_is_fading 65535 65535 obj g
      = is_fading_loop pa g [0..<unat (pa_count pa)]"
    using obj by (simp add: gfx_u16_get_is_fading_def)
  ultimately show ?thesis using loop by (simp only:)
qed

text \<open>Pixel 12, of the object on pixels 10 to 13, is fading; the object is reported as at rest.\<close>

lemma gfx_u16_get_is_fading_object_witness:
  "let g = gfx_v_set_val_1d 500 12 sample_gfx
   in target_val g ! 12 \<noteq> val g ! 12 \<and> gfx_u16_get_is_fading 65535 65535 1 g = Some 0"
proof -
  define g where "g = gfx_v_set_val_1d 500 12 sample_gfx"
  have wf: "gfx_wf g" by (simp add: g_def keeps sample_gfx_ok)
  have cfg: "gfx_frame g = gfx_frame sample_gfx" by (simp add: g_def keeps)
  have ok: "params_ok g" using gfx_frame_config(4) [OF cfg] sample_gfx_ok(2) by simp
  have obj: "pixel_obj 1 g =
     Some \<lparr>pa_index = 10, pa_count = 4, pa_size_x = 4, pa_size_y = 1, pa_reverse = True\<rparr>"
    using gfx_frame_config(2) [OF cfg] sample_gfx_ok(6) by (simp add: pixel_obj_def)
  have z: "k < 4 \<Longrightarrow> target_hue g ! k = 0 \<and> hue g ! k = 0 \<and> target_sat g ! k = 0 \<and> sat g ! k = 0
      \<and> target_val g ! k = 0 \<and> val g ! k = 0" for k
    by (simp add: g_def gfx_v_set_val_1d_def sample_gfx_def gfx_initial_def)
  have "target_val g ! 12 \<noteq> val g ! 12"
    by (simp add: g_def gfx_v_set_val_1d_def sample_gfx_def gfx_initial_def)
  then show ?thesis
    using gfx_u16_get_is_fading_object [OF wf ok obj] z by (simp flip: g_def)
qed

end
