(* ===== verification/Gfx_Fader.thy ===== *)
theory Gfx_Fader
  imports Gfx_State
begin

text \<open>
  The faders of \<open>src/src/lib_chromatron/gfx_lib.c\<close>: \<open>gfx_v_process_faders\<close>, which runs every
  \<open>FADER_RATE\<close> milliseconds and moves the master dimmer and each pixel's hue, saturation and value
  one step towards its target.  A step of 0 means that none is set: the next run computes it from
  the distance and the fade time.  The loop body treats the three channels alike, except that a hue
  takes the shorter way around the circle.
\<close>

section \<open>One channel of one pixel\<close>

text \<open>The distance a new step is computed from; for a hue it may wrap around the circle.\<close>

definition hue_diff :: "int \<Rightarrow> int" where
  "hue_diff diff = (if \<bar>diff\<bar> > 32768 then (if diff > 0 then diff - 65536 else diff + 65536) else diff)"

definition new_step :: "bool \<Rightarrow> u16 \<Rightarrow> u16 \<Rightarrow> u16 \<Rightarrow> i16" where
  "new_step circular target current fade =
     (let fade_steps = fade_steps_of fade;
          diff = uint target - uint current;
          diff = (if circular then hue_diff diff else diff);
          step = diff sdiv uint fade_steps
      in word_of_int (limit_step diff step))"

text \<open>Apply a step that is set: the channel and the step afterwards.\<close>

definition apply_step :: "u16 \<Rightarrow> u16 \<Rightarrow> i16 \<Rightarrow> u16 \<times> i16" where
  "apply_step target current step =
     (let diff = (ucast target - ucast current :: i32)
      in if abs32 diff < ucast (abs16 step) then (target, 0) else (current + step, step))"

text \<open>The two \<open>if\<close> statements of the loop body for one channel.\<close>

definition fade_channel :: "bool \<Rightarrow> u16 \<Rightarrow> u16 \<Rightarrow> u16 \<times> i16 \<Rightarrow> u16 \<times> i16" where
  "fade_channel circular target fade st =
     (let (current, step) = st;
          step = (if step = 0 \<and> target \<noteq> current then new_step circular target current fade else step)
      in if step \<noteq> 0 then apply_step target current step else (current, step))"

section \<open>The faders\<close>

definition fade_dimmer :: "gfx_state \<Rightarrow> gfx_state" where
  "fade_dimmer g =
     (if dimmer_step g \<noteq> 0
      then (let (d, step) = apply_step (target_dimmer g) (current_dimmer g) (dimmer_step g)
            in g\<lparr>current_dimmer := d, dimmer_step := step\<rparr>)
      else g)"

definition fade_pixel :: "nat \<Rightarrow> gfx_state \<Rightarrow> gfx_state option" where
  "fade_pixel i g = do {
     h \<leftarrow> rd (hue g) i; hs \<leftarrow> rd (hue_step g) i; th \<leftarrow> rd (target_hue g) i; hf \<leftarrow> rd (hs_fade g) i;
     let (h, hs) = fade_channel True th hf (h, hs);
     let g = g\<lparr>hue := (hue g)[i := h], hue_step := (hue_step g)[i := hs]\<rparr>;
     s \<leftarrow> rd (sat g) i; ss \<leftarrow> rd (sat_step g) i; ts \<leftarrow> rd (target_sat g) i;
     let (s, ss) = fade_channel False ts hf (s, ss);
     let g = g\<lparr>sat := (sat g)[i := s], sat_step := (sat_step g)[i := ss]\<rparr>;
     v \<leftarrow> rd (val g) i; vs \<leftarrow> rd (val_step g) i; tv \<leftarrow> rd (target_val g) i; vf \<leftarrow> rd (v_fade g) i;
     let (v, vs) = fade_channel False tv vf (v, vs);
     Some (g\<lparr>val := (val g)[i := v], val_step := (val_step g)[i := vs]\<rparr>) }"

definition gfx_v_process_faders :: "gfx_state \<Rightarrow> gfx_state option" where
  "gfx_v_process_faders g =
     (let g = fade_dimmer g in for_each fade_pixel [0..<unat (pix_count g)] g)"

section \<open>Steps\<close>

lemma fade_steps_of_bounds: "2 \<le> uint (fade_steps_of fade)" "uint (fade_steps_of fade) \<le> 3276"
proof -
  have "unat (fade div 20) = unat fade div 20" by (simp add: unat_div)
  then have u: "uint (fade div 20) = uint fade div 20"
    by (simp add: uint_div)
  have "uint fade div 20 \<le> 3276" using uint16_bounds [of fade] by auto
  moreover have "\<not> fade div 20 \<le> 1 \<Longrightarrow> 2 \<le> uint fade div 20"
    using u by (simp add: word_le_def)
  ultimately show "2 \<le> uint (fade_steps_of fade)" "uint (fade_steps_of fade) \<le> 3276"
    using u by (auto simp: fade_steps_of_def Let_def)
qed

text \<open>A step is never 0, has the sign of the distance and at most half its size (or is 1).\<close>

definition step_int :: "int \<Rightarrow> int \<Rightarrow> int" where
  "step_int steps diff = limit_step diff (diff sdiv steps)"

lemma step_int_pos:
  assumes "2 \<le> steps" and "0 < diff" and "diff \<le> 65535"
  shows "step_int steps diff = max 1 (diff div steps)" and "step_int steps diff \<le> 32767"
proof -
  have q: "diff sdiv steps = diff div steps" using assms by (intro sdiv_nonneg) auto
  have "0 \<le> diff div steps" using assms by (intro pos_imp_zdiv_nonneg_iff [THEN iffD2]) auto
  moreover have "diff div steps \<le> diff div 2" using assms by (intro zdiv_mono2) auto
  moreover have "diff div 2 \<le> 32767" using assms by auto
  ultimately show "step_int steps diff = max 1 (diff div steps)" "step_int steps diff \<le> 32767"
    using assms by (auto simp: step_int_def limit_step_def q)
qed

lemma step_int_neg:
  assumes "2 \<le> steps" and "0 < diff" and "diff \<le> 65535"
  shows "step_int steps (- diff) = - step_int steps diff"
proof -
  have "(- diff) sdiv steps = - (diff div steps)"
    using assms sdiv_nonneg [of diff steps] by (simp add: sdiv_minus_left)
  moreover have "diff sdiv steps = diff div steps" using assms by (intro sdiv_nonneg) auto
  moreover have "diff div steps \<le> 32767" "0 \<le> diff div steps"
    using step_int_pos [OF assms] assms by (auto simp: max_def pos_imp_zdiv_nonneg_iff split: if_splits)
  ultimately show ?thesis using assms by (auto simp: step_int_def limit_step_def)
qed

lemma new_step_eq:
  assumes "uint target \<noteq> uint current"
  defines "d \<equiv> uint target - uint current"
  shows "new_step False target current fade = word_of_int (step_int (uint (fade_steps_of fade)) d)"
    and "new_step True target current fade
           = word_of_int (step_int (uint (fade_steps_of fade)) (hue_diff d))"
  by (simp_all add: new_step_def step_int_def Let_def d_def)

lemma uint_diff_sint32:
  "sint (ucast (t :: u16) - ucast (c :: u16) :: i32) = uint t - uint c"
proof -
  have u: "sint (ucast x :: i32) = uint x" for x :: u16
  proof -
    have "uint (ucast x :: i32) = uint x"
      using uint16_bounds [of x] by (simp add: unsigned_ucast_eq take_bit_int_eq_self)
    then show ?thesis
      using uint_eq_sint32 [of "ucast x"] sint32_bounds [of "ucast x"] uint16_bounds [of x]
      by (auto split: if_splits)
  qed
  have "ucast t - ucast c = (word_of_int (sint (ucast t :: i32) - sint (ucast c :: i32)) :: i32)"
    by simp
  also have "\<dots> = word_of_int (uint t - uint c)" by (simp only: u)
  finally have eq: "ucast t - ucast c = (word_of_int (uint t - uint c) :: i32)" .
  show ?thesis unfolding eq using uint16_bounds [of t] uint16_bounds [of c]
    by (intro sint_word_of_int32) linarith+
qed

text \<open>One application of a step, on integers.\<close>

lemma apply_step_int:
  "apply_step t c s =
     (if \<bar>uint t - uint c\<bar> < \<bar>sint s\<bar> then (t, 0) else (word_of_int (uint c + sint s), s))"
proof -
  have a: "uint (abs32 (ucast t - ucast c)) = \<bar>uint t - uint c\<bar>"
    by (simp add: uint_abs32 uint_diff_sint32)
  have b: "uint (ucast (abs16 s) :: u32) = \<bar>sint s\<bar>"
  proof -
    have "uint (ucast (abs16 s) :: u32) = uint (abs16 s)"
      using uint16_bounds [of "abs16 s"] by (simp add: unsigned_ucast_eq take_bit_int_eq_self)
    then show ?thesis by (simp add: uint_abs16)
  qed
  have "word_of_int (uint c + sint s) = c + s" by simp
  then show ?thesis
    unfolding apply_step_def Let_def word_less_def a b by simp
qed

lemma fade_channel_rest [simp]: "fade_channel circ t f (t, 0) = (t, 0)"
  by (simp add: fade_channel_def)

lemma fade_channel_rest_funpow [simp]: "(fade_channel circ t f ^^ n) (t, 0) = (t, 0)"
  by (induction n) simp_all

lemma fade_channel_running:
  "s \<noteq> 0 \<Longrightarrow> fade_channel circ t f (c, s) = apply_step t c s"
  by (simp add: fade_channel_def)

section \<open>A fade is finite\<close>

text \<open>The number of full steps in a distance.\<close>

lemma full_steps_bound:
  fixes D steps :: int
  assumes "2 \<le> steps" and "0 < D"
  defines "S \<equiv> max 1 (D div steps)"
  shows "D div S < 2 * steps" and "S \<le> D" and "1 \<le> S"
proof -
  show "1 \<le> S" by (simp add: S_def)
  have "D div steps \<le> D div 1" using assms(1,2) by (intro zdiv_mono2) auto
  then show "S \<le> D" using assms by (simp add: S_def)
  have q: "0 \<le> D div steps" using assms(1,2) by (simp add: pos_imp_zdiv_nonneg_iff)
  have less: "D < (D div steps + 1) * steps"
  proof -
    have "D mod steps < steps" using assms(1) by simp
    moreover have "D = D div steps * steps + D mod steps" by simp
    ultimately show ?thesis unfolding distrib_right by linarith
  qed
  show "D div S < 2 * steps"
  proof (cases "D div steps \<ge> 1")
    case True
    have "(D div steps + 1) * steps \<le> (2 * S) * steps"
      using True assms(1) by (intro mult_right_mono) (auto simp: S_def)
    then have "D < (2 * steps) * S" using less by (simp only: mult_ac)
    show ?thesis
    proof (rule ccontr)
      assume "\<not> D div S < 2 * steps"
      then have "(2 * steps) * S \<le> D div S * S" using \<open>1 \<le> S\<close> by (intro mult_right_mono) auto
      moreover have "D = D div S * S + D mod S" by simp
      moreover have "0 \<le> D mod S" using \<open>1 \<le> S\<close> by simp
      ultimately show False using \<open>D < (2 * steps) * S\<close> by linarith
    qed
  next
    case False
    then have "D div steps = 0" using q by simp
    then show ?thesis using less assms(1) by (simp add: S_def)
  qed
qed

text \<open>
  A linear channel: the value moves in steps of one size and sign, never past the target, and lands
  on the target when less than a step is left.
\<close>

lemma linear_run:
  assumes D: "D = \<bar>uint t - uint c\<bar>" "0 < D"
    and S: "S = max 1 (D div uint (fade_steps_of f))"
    and sg: "\<sigma> = (if uint c < uint t then 1 else - 1)"
    and k: "1 \<le> k" "int k * S \<le> D"
  shows "(fade_channel False t f ^^ k) (c, 0) = (word_of_int (uint c + \<sigma> * (int k * S)), word_of_int (\<sigma> * S))"
  using k
proof (induction k rule: nat_induct_at_least [of 1])
  case base
  have bnd: "2 \<le> uint (fade_steps_of f)" "D \<le> 65535"
    using fade_steps_of_bounds [of f] uint16_bounds [of t] uint16_bounds [of c] unfolding D(1)
    by linarith+
  note sp = step_int_pos [OF bnd(1) D(2) bnd(2)]
  have diff: "uint t - uint c = \<sigma> * D" using D sg by auto
  have S': "1 \<le> S" "S \<le> 32767" using sp S by auto
  have "step_int (uint (fade_steps_of f)) (\<sigma> * D) = \<sigma> * S"
    using sp(1) step_int_neg [OF bnd(1) D(2) bnd(2)] S sg by auto
  moreover have "uint t \<noteq> uint c" using D by auto
  ultimately have ns: "new_step False t c f = word_of_int (\<sigma> * S)"
    using new_step_eq(1) [of t c f] unfolding diff by simp
  have si: "sint (word_of_int (\<sigma> * S) :: i16) = \<sigma> * S"
    using S' sg by (intro sint_word_of_int16) auto
  have nz: "word_of_int (\<sigma> * S) \<noteq> (0 :: i16)"
    using si S'(1) sg by (metis mult_eq_0_iff not_one_le_zero sint_0 zero_neq_neg_one zero_neq_one)
  have "t \<noteq> c" using D by auto
  then have "fade_channel False t f (c, 0) = apply_step t c (word_of_int (\<sigma> * S))"
    using nz by (simp add: fade_channel_def ns)
  moreover have "\<not> \<bar>uint t - uint c\<bar> < \<bar>\<sigma> * S\<bar>"
    using base S'(1) sg unfolding D(1) [symmetric] by auto
  ultimately have "fade_channel False t f (c, 0) = (word_of_int (uint c + \<sigma> * S), word_of_int (\<sigma> * S))"
    by (simp only: apply_step_int si if_False)
  then show ?case by simp
next
  case (Suc n)
  have bnd: "2 \<le> uint (fade_steps_of f)" "D \<le> 65535"
    using fade_steps_of_bounds [of f] uint16_bounds [of t] uint16_bounds [of c] unfolding D(1)
    by linarith+
  have S': "1 \<le> S" "S \<le> 32767" using step_int_pos [OF bnd(1) D(2) bnd(2)] S by auto
  have le: "int n * S \<le> D" "int (Suc n) * S \<le> D" "int (Suc n) * S = int n * S + S"
    using Suc.prems S'(1) by (simp_all add: distrib_right)
  define cur where "cur = (word_of_int (uint c + \<sigma> * (int n * S)) :: u16)"
  have IH: "(fade_channel False t f ^^ n) (c, 0) = (cur, word_of_int (\<sigma> * S))"
    using Suc.IH le(1) by (simp add: cur_def)
  have pos: "0 \<le> int n * S" using S'(1) by simp
  have ucur: "uint cur = uint c + \<sigma> * (int n * S)"
  proof (cases "uint c < uint t")
    case True
    then have "\<sigma> = 1" "D = uint t - uint c" using D sg by auto
    then show ?thesis
      unfolding cur_def using le(1) pos uint16_bounds [of t] uint16_bounds [of c]
      by (intro uint_word_of_int16; simp; linarith)
  next
    case False
    then have "\<sigma> = - 1" "D = uint c - uint t" using D sg by auto
    then show ?thesis
      unfolding cur_def using le(1) pos uint16_bounds [of t] uint16_bounds [of c]
      by (intro uint_word_of_int16; simp; linarith)
  qed
  have si: "sint (word_of_int (\<sigma> * S) :: i16) = \<sigma> * S"
    using S' sg by (intro sint_word_of_int16) auto
  have nz: "word_of_int (\<sigma> * S) \<noteq> (0 :: i16)"
    using si S'(1) sg by (metis mult_eq_0_iff not_one_le_zero sint_0 zero_neq_neg_one zero_neq_one)
  have "\<bar>uint t - uint cur\<bar> = D - int n * S"
  proof (cases "uint c < uint t")
    case True
    then have "\<sigma> = 1" "D = uint t - uint c" using D sg by auto
    then show ?thesis using le(1) by (simp add: ucur)
  next
    case False
    then have "\<sigma> = - 1" "D = uint c - uint t" using D sg by auto
    moreover have "uint cur = uint c - int n * S" using ucur \<open>\<sigma> = - 1\<close> by simp
    ultimately show ?thesis using le(1) by linarith
  qed
  then have "\<not> \<bar>uint t - uint cur\<bar> < \<bar>\<sigma> * S\<bar>" using le S'(1) sg by auto
  then have "fade_channel False t f (cur, word_of_int (\<sigma> * S))
      = (word_of_int (uint cur + \<sigma> * S), word_of_int (\<sigma> * S))"
    by (simp only: fade_channel_running [OF nz] apply_step_int si if_False)
  then show ?case
    using IH by (simp add: ucur algebra_simps)
qed

text \<open>A hue may run through 0; its steps are at most half the distance, so they stay short.\<close>

lemma hue_diff_facts:
  assumes "t \<noteq> (c :: u16)"
  defines "d \<equiv> hue_diff (uint t - uint c)"
  shows "d \<noteq> 0" and "\<bar>d\<bar> \<le> 32768" and "d = uint t - uint c \<or> \<bar>d - (uint t - uint c)\<bar> = 65536"
proof -
  define e where "e = uint t - uint c"
  have "e \<noteq> 0" "- 65535 \<le> e" "e \<le> 65535"
    using assms(1) uint16_bounds [of t] uint16_bounds [of c]
    unfolding e_def word_uint_eq_iff by linarith+
  then show "d \<noteq> 0" "\<bar>d\<bar> \<le> 32768" "d = uint t - uint c \<or> \<bar>d - (uint t - uint c)\<bar> = 65536"
    unfolding d_def e_def [symmetric] by (auto simp: hue_diff_def)
qed

text \<open>The value a hue has after \<open>k\<close> steps, and how far it then is from its target.\<close>

lemma hue_step_cases:
  fixes t cur :: u16
  assumes d: "d = \<sigma> * D" "\<sigma> = 1 \<or> \<sigma> = - 1" "0 < D" "D \<le> 32768" "1 \<le> S" "S \<le> 16384"
    and cur: "(uint t - uint cur) mod 65536 = (\<sigma> * r) mod 65536" and r: "0 \<le> r" "r \<le> D"
  shows "\<bar>uint t - uint cur\<bar> < S \<longleftrightarrow> r < S \<and> uint t - uint cur = \<sigma> * r"
    and "uint t - uint cur = \<sigma> * r \<or> uint t - uint cur = \<sigma> * r - \<sigma> * 65536"
proof -
  define e where "e = uint t - uint cur"
  have e: "- 65536 < e" "e < 65536"
    using uint16_bounds [of t] uint16_bounds [of cur] unfolding e_def by linarith+
  have "65536 dvd e - \<sigma> * r" using cur by (simp add: e_def mod_eq_dvd_iff)
  then obtain m where m: "e = \<sigma> * r + 65536 * m" by (auto simp: dvd_def algebra_simps)
  have cases: "m = 0 \<or> \<sigma> = 1 \<and> m = - 1 \<or> \<sigma> = - 1 \<and> m = 1"
    using d(2) e r d(4) unfolding m by auto
  then show "uint t - uint cur = \<sigma> * r \<or> uint t - uint cur = \<sigma> * r - \<sigma> * 65536"
    unfolding e_def [symmetric] m by auto
  show "\<bar>uint t - uint cur\<bar> < S \<longleftrightarrow> r < S \<and> uint t - uint cur = \<sigma> * r"
    unfolding e_def [symmetric] m using cases d r by auto
qed

lemma hue_remaining:
  assumes "(uint (t :: u16) - uint (c :: u16)) mod 65536 = (\<sigma> * D) mod 65536"
  shows "(uint t - uint (word_of_int (uint c + \<sigma> * x) :: u16)) mod 65536 = (\<sigma> * (D - x)) mod 65536"
proof -
  have "(uint t - uint (word_of_int (uint c + \<sigma> * x) :: u16)) mod 65536
      = (uint t - (uint c + \<sigma> * x) mod 65536) mod 65536"
    using uint_word_of_int [of "uint c + \<sigma> * x", where 'a = 16] by simp
  also have "\<dots> = (uint t - (uint c + \<sigma> * x)) mod 65536" by (simp add: mod_diff_right_eq)
  also have "\<dots> = ((uint t - uint c) - \<sigma> * x) mod 65536" by (simp only: diff_diff_add)
  also have "\<dots> = (\<sigma> * D - \<sigma> * x) mod 65536"
    using assms by (metis mod_diff_left_eq)
  finally show ?thesis by (simp only: right_diff_distrib)
qed

lemma hue_diff_mod: "e mod 65536 = hue_diff e mod 65536"
proof -
  have "hue_diff e = e \<or> hue_diff e = e + 65536 \<or> hue_diff e = e - 65536"
    by (auto simp: hue_diff_def)
  then show ?thesis by (elim disjE) (simp_all only: mod_add_self2 minus_mod_self2)
qed

text \<open>The set-up of a fade of a hue.\<close>

lemma hue_setup:
  assumes "t \<noteq> (c :: u16)"
  obtains \<sigma> D S :: int where "hue_diff (uint t - uint c) = \<sigma> * D" and "\<sigma> = 1 \<or> \<sigma> = - 1"
    and "0 < D" and "D \<le> 32768" and "S = max 1 (D div uint (fade_steps_of f))"
    and "1 \<le> S" and "S \<le> 16384" and "S \<le> D" and "D div S < 2 * uint (fade_steps_of f)"
    and "new_step True t c f = word_of_int (\<sigma> * S)" and "sint (word_of_int (\<sigma> * S) :: i16) = \<sigma> * S"
    and "word_of_int (\<sigma> * S) \<noteq> (0 :: i16)"
    and "(uint t - uint c) mod 65536 = (\<sigma> * D) mod 65536"
proof -
  define d where "d = hue_diff (uint t - uint c)"
  note dd = hue_diff_facts [OF assms, folded d_def]
  define D where "D = \<bar>d\<bar>"
  define \<sigma> :: int where "\<sigma> = (if d > 0 then 1 else - 1)"
  define steps where "steps = uint (fade_steps_of f)"
  define S where "S = max 1 (D div steps)"
  have steps: "2 \<le> steps" using fade_steps_of_bounds [of f] by (simp add: steps_def)
  have D: "d = \<sigma> * D" "\<sigma> = 1 \<or> \<sigma> = - 1" "0 < D" "D \<le> 32768" "D \<le> 65535"
    using dd(1,2) by (auto simp: D_def \<sigma>_def)
  note sp = step_int_pos [OF steps D(3,5)]
  note full = full_steps_bound [OF steps D(3), folded S_def]
  have "D div steps \<le> D div 2" using steps D(3) by (intro zdiv_mono2) auto
  then have S: "S \<le> 16384" using D(4) by (auto simp: S_def)
  have "uint t \<noteq> uint c" using assms by (simp add: word_uint_eq_iff)
  then have "new_step True t c f = word_of_int (step_int steps (\<sigma> * D))"
    using new_step_eq(2) [of t c f, OF \<open>uint t \<noteq> uint c\<close>] D(1) by (simp only: steps_def d_def)
  moreover have "step_int steps (\<sigma> * D) = \<sigma> * S"
    using sp(1) step_int_neg [OF steps D(3,5)] D(2) by (auto simp: S_def)
  ultimately have ns: "new_step True t c f = word_of_int (\<sigma> * S)" by simp
  have si: "sint (word_of_int (\<sigma> * S) :: i16) = \<sigma> * S"
    using full(3) S D(2) by (intro sint_word_of_int16) auto
  have nz: "word_of_int (\<sigma> * S) \<noteq> (0 :: i16)"
    using si full(3) D(2) by (metis mult_eq_0_iff not_one_le_zero sint_0 zero_neq_neg_one zero_neq_one)
  have "(uint t - uint c) mod 65536 = d mod 65536"
    unfolding d_def by (rule hue_diff_mod)
  then have m: "(uint t - uint c) mod 65536 = (\<sigma> * D) mod 65536" using D(1) by simp
  show thesis
  proof (rule that [of \<sigma> D S])
    show "hue_diff (uint t - uint c) = \<sigma> * D" using D(1) by (simp only: d_def)
    show "S = max 1 (D div uint (fade_steps_of f))" by (simp only: S_def steps_def)
    show "1 \<le> S" by (simp add: S_def)
    show "S \<le> D" by (rule full(2))
    show "D div S < 2 * uint (fade_steps_of f)" using full(1) by (simp only: steps_def)
  qed (fact D(2-4) S ns si nz m)+
qed

lemma hue_run:
  assumes h: "(uint t - uint c) mod 65536 = (\<sigma> * D) mod 65536" "\<sigma> = 1 \<or> \<sigma> = - 1"
    "0 < D" "D \<le> 32768" "1 \<le> S" "S \<le> 16384"
    and ns: "new_step True t c f = word_of_int (\<sigma> * S)"
    and si: "sint (word_of_int (\<sigma> * S) :: i16) = \<sigma> * S" and nz: "word_of_int (\<sigma> * S) \<noteq> (0 :: i16)"
    and tc: "t \<noteq> c" and k: "1 \<le> k" "int k * S \<le> D"
  shows "(fade_channel True t f ^^ k) (c, 0) = (word_of_int (uint c + \<sigma> * (int k * S)), word_of_int (\<sigma> * S))"
  using k
proof (induction k rule: nat_induct_at_least [of 1])
  case base
  have "fade_channel True t f (c, 0) = apply_step t c (word_of_int (\<sigma> * S))"
    using nz tc by (simp add: fade_channel_def ns del: of_int_mult)
  moreover have "\<not> \<bar>uint t - uint c\<bar> < \<bar>\<sigma> * S\<bar>"
    using hue_step_cases(1) [OF refl h(2-6), of t c D] h base by (auto simp: abs_mult)
  ultimately have "fade_channel True t f (c, 0) = (word_of_int (uint c + \<sigma> * S), word_of_int (\<sigma> * S))"
    by (simp only: apply_step_int si if_False)
  then show ?case by simp
next
  case (Suc n)
  have le: "int n * S \<le> D" "S \<le> D - int n * S" "0 \<le> int n * S" "D - int n * S \<le> D"
    using Suc.prems h(5) by (simp_all add: distrib_right)
  define cur where "cur = (word_of_int (uint c + \<sigma> * (int n * S)) :: u16)"
  have IH: "(fade_channel True t f ^^ n) (c, 0) = (cur, word_of_int (\<sigma> * S))"
    using Suc.IH le(1) by (simp only: cur_def)
  have cm: "(uint t - uint cur) mod 65536 = (\<sigma> * (D - int n * S)) mod 65536"
    unfolding cur_def by (rule hue_remaining [OF h(1)])
  have "\<not> \<bar>uint t - uint cur\<bar> < \<bar>\<sigma> * S\<bar>"
    using hue_step_cases(1) [OF refl h(2-6) cm] h(2,5) le by (auto simp: abs_mult)
  then have "fade_channel True t f (cur, word_of_int (\<sigma> * S))
      = (word_of_int (uint cur + \<sigma> * S), word_of_int (\<sigma> * S))"
    by (simp only: fade_channel_running [OF nz] apply_step_int si if_False)
  then show ?case
    using IH by (simp add: cur_def algebra_simps)
qed

text \<open>Once the rest is smaller than a step, the fade ends; a hue may first pass its target by less
  than a step.\<close>

lemma linear_ends:
  assumes "t \<noteq> (c :: u16)"
  shows "\<exists>k \<le> nat (2 * uint (fade_steps_of f)). (fade_channel False t f ^^ k) (c, 0) = (t, 0)"
proof -
  define steps where "steps = uint (fade_steps_of f)"
  define D where "D = \<bar>uint t - uint c\<bar>"
  define S where "S = max 1 (D div steps)"
  define \<sigma> :: int where "\<sigma> = (if uint c < uint t then 1 else - 1)"
  have D: "0 < D" "D \<le> 65535" using assms uint16_bounds [of t] uint16_bounds [of c]
    unfolding D_def word_uint_eq_iff by linarith+
  have steps: "2 \<le> steps" using fade_steps_of_bounds [of f] by (simp add: steps_def)
  note full = full_steps_bound [OF steps D(1), folded S_def]
  define K where "K = nat (D div S)"
  have q: "1 \<le> D div S" using full by (simp add: int_one_le_iff_zero_less pos_imp_zdiv_pos_iff)
  have r: "0 \<le> D mod S" "D mod S < S" "D = D div S * S + D mod S" using full(3) by simp_all
  have K2: "1 \<le> K" "int K = D div S" using q by (simp_all add: K_def)
  have KS: "int K * S = D - D mod S" unfolding K2(2) using r(3) by linarith
  have "int K * S \<le> D" using KS r(1) by linarith
  note K = K2 this
  have run: "(fade_channel False t f ^^ K) (c, 0)
      = (word_of_int (uint c + \<sigma> * (int K * S)), word_of_int (\<sigma> * S))"
    by (rule linear_run [OF D_def D(1) _ \<sigma>_def K(1,3)]) (simp add: S_def steps_def)
  define cur where "cur = (word_of_int (uint c + \<sigma> * (int K * S)) :: u16)"
  have pos: "0 \<le> int K * S" using full(3) by simp
  have near: "\<bar>uint t - uint cur\<bar> < S"
  proof (cases "uint c < uint t")
    case True
    then have \<sigma>: "\<sigma> = 1" "D = uint t - uint c" by (auto simp: D_def \<sigma>_def)
    have "uint cur = uint c + \<sigma> * (int K * S)"
      unfolding cur_def using K(3) pos uint16_bounds [of t] uint16_bounds [of c] \<sigma>
      by (intro uint_word_of_int16; simp; linarith)
    then have "uint cur = uint c + int K * S" using \<sigma>(1) by simp
    then show ?thesis using \<sigma> r(1,2) KS by linarith
  next
    case False
    then have \<sigma>: "\<sigma> = - 1" "D = uint c - uint t" by (auto simp: D_def \<sigma>_def)
    have "uint cur = uint c + \<sigma> * (int K * S)"
      unfolding cur_def using K(3) pos uint16_bounds [of t] uint16_bounds [of c] \<sigma>
      by (intro uint_word_of_int16; simp; linarith)
    then have "uint cur = uint c - int K * S" using \<sigma>(1) by simp
    then show ?thesis using \<sigma> r(1,2) KS by linarith
  qed
  have S: "S \<le> 32767" using step_int_pos [OF steps D] by (simp add: S_def)
  have si: "sint (word_of_int (\<sigma> * S) :: i16) = \<sigma> * S"
    using full(3) S by (intro sint_word_of_int16) (auto simp: \<sigma>_def)
  have nz: "word_of_int (\<sigma> * S) \<noteq> (0 :: i16)"
    using si full(3) by (metis \<sigma>_def mult_eq_0_iff not_one_le_zero sint_0 zero_neq_neg_one zero_neq_one)
  have "\<bar>uint t - uint cur\<bar> < \<bar>\<sigma> * S\<bar>" using near full(3) by (auto simp: \<sigma>_def)
  then have "fade_channel False t f (cur, word_of_int (\<sigma> * S)) = (t, 0)"
    by (simp only: fade_channel_running [OF nz] apply_step_int si if_True)
  then have "(fade_channel False t f ^^ Suc K) (c, 0) = (t, 0)"
    using run by (simp add: cur_def)
  moreover have "Suc K \<le> nat (2 * steps)" using full(1) K(2) by linarith
  ultimately show ?thesis unfolding steps_def by blast
qed

lemma hue_ends:
  assumes tc: "t \<noteq> (c :: u16)"
  shows "\<exists>k \<le> nat (2 * uint (fade_steps_of f)) + 1. (fade_channel True t f ^^ k) (c, 0) = (t, 0)"
proof -
  obtain \<sigma> D S where h: "hue_diff (uint t - uint c) = \<sigma> * D" "\<sigma> = 1 \<or> \<sigma> = - 1"
    "0 < D" "D \<le> 32768" "S = max 1 (D div uint (fade_steps_of f))"
    "1 \<le> S" "S \<le> 16384" "S \<le> D" "D div S < 2 * uint (fade_steps_of f)"
    "new_step True t c f = word_of_int (\<sigma> * S)" "sint (word_of_int (\<sigma> * S) :: i16) = \<sigma> * S"
    "word_of_int (\<sigma> * S) \<noteq> (0 :: i16)" "(uint t - uint c) mod 65536 = (\<sigma> * D) mod 65536"
    by (rule hue_setup [OF tc, of f], rule that)
  define K where "K = nat (D div S)"
  have q: "1 \<le> D div S" using h by (simp add: int_one_le_iff_zero_less pos_imp_zdiv_pos_iff)
  have r: "0 \<le> D mod S" "D mod S < S" "D = D div S * S + D mod S" using h(6) by simp_all
  have K2: "1 \<le> K" "int K = D div S" using q by (simp_all add: K_def)
  have "int K * S \<le> D" "D - int K * S = D mod S" unfolding K2(2) using r(1,3) by linarith+
  note K = K2 this
  have run: "(fade_channel True t f ^^ K) (c, 0)
      = (word_of_int (uint c + \<sigma> * (int K * S)), word_of_int (\<sigma> * S))"
    by (rule hue_run [OF h(13,2,3,4,6,7,10,11,12) tc K(1,3)])
  define cur where "cur = (word_of_int (uint c + \<sigma> * (int K * S)) :: u16)"
  have cm: "(uint t - uint cur) mod 65536 = (\<sigma> * (D mod S)) mod 65536"
    using hue_remaining [OF h(13), of "int K * S"] by (simp only: cur_def K(4))
  have rD: "D mod S \<le> D" using h(3,6) by (simp add: zmod_le_nonneg_dividend)
  note cases = hue_step_cases [OF refl h(2,3,4,6,7) cm r(1) rD]
  have abs: "\<bar>\<sigma> * S\<bar> = S" using h(2,6) by auto
  have K3: "Suc K \<le> nat (2 * uint (fade_steps_of f))" using h(9) K(2) by linarith
  show ?thesis
  proof (cases "uint t - uint cur = \<sigma> * (D mod S)")
    case True
    then have "\<bar>uint t - uint cur\<bar> < \<bar>\<sigma> * S\<bar>" using cases(1) r(2) abs by simp
    then have "fade_channel True t f (cur, word_of_int (\<sigma> * S)) = (t, 0)"
      by (simp only: fade_channel_running [OF h(12)] apply_step_int h(11) if_True)
    then have "(fade_channel True t f ^^ Suc K) (c, 0) = (t, 0)" using run by (simp add: cur_def)
    then show ?thesis using K3 by (intro exI [of _ "Suc K"]) simp
  next
    case False
    then have wrap: "uint t - uint cur = \<sigma> * (D mod S) - \<sigma> * 65536" using cases(2) by blast
    have "\<not> \<bar>uint t - uint cur\<bar> < \<bar>\<sigma> * S\<bar>" using cases(1) False abs by simp
    then have s1: "fade_channel True t f (cur, word_of_int (\<sigma> * S))
        = (word_of_int (uint cur + \<sigma> * S), word_of_int (\<sigma> * S))"
      by (simp only: fade_channel_running [OF h(12)] apply_step_int h(11) if_False)
    define nxt where "nxt = (word_of_int (uint cur + \<sigma> * S) :: u16)"
    have "uint nxt = uint t + \<sigma> * (S - D mod S)"
    proof -
      have "uint cur + \<sigma> * S = (uint t + \<sigma> * (S - D mod S)) + \<sigma> * 65536"
        using wrap h(2) by auto
      then have "nxt = word_of_int (uint t + \<sigma> * (S - D mod S))"
        using h(2) by (auto simp: nxt_def)
      moreover have "0 \<le> uint t + \<sigma> * (S - D mod S) \<and> uint t + \<sigma> * (S - D mod S) < 65536"
        using h(2)
      proof
        assume \<sigma>: "\<sigma> = 1"
        have "uint t - uint cur = D mod S - 65536" using wrap \<sigma> by simp
        then have "0 \<le> uint t + (S - D mod S)" "uint t + (S - D mod S) < 65536"
          using h(7) r(1,2) uint16_bounds [of t] uint16_bounds [of cur] by linarith+
        then show ?thesis using \<sigma> by simp
      next
        assume \<sigma>: "\<sigma> = - 1"
        have "uint t - uint cur = 65536 - D mod S" using wrap \<sigma> by simp
        then have "0 \<le> uint t - (S - D mod S)" "uint t - (S - D mod S) < 65536"
          using h(7) r(1,2) uint16_bounds [of t] uint16_bounds [of cur] by linarith+
        then show ?thesis using \<sigma> by simp
      qed
      ultimately show ?thesis using uint_word_of_int16 by (simp only:)
    qed
    then have "uint t - uint nxt = - (\<sigma> * (S - D mod S))" by simp
    moreover have "0 < D mod S"
      using False wrap h(2) r(1) uint16_bounds [of t] uint16_bounds [of cur]
      by (cases "D mod S = 0") auto
    ultimately have "\<bar>uint t - uint nxt\<bar> < \<bar>\<sigma> * S\<bar>" using h(2) r(2) abs by auto
    then have "fade_channel True t f (nxt, word_of_int (\<sigma> * S)) = (t, 0)"
      by (simp only: fade_channel_running [OF h(12)] apply_step_int h(11) if_True)
    then have "(fade_channel True t f ^^ Suc (Suc K)) (c, 0) = (t, 0)"
      using run s1 by (simp add: cur_def nxt_def)
    then show ?thesis using K3 by (intro exI [of _ "Suc (Suc K)"]) simp
  qed
qed

lemma fade_reaches:
  assumes "nat (2 * uint (fade_steps_of f)) + 1 \<le> n"
  shows "(fade_channel circ t f ^^ n) (c, 0) = (t, 0)"
proof (cases "t = c")
  case False
  have "\<exists>k \<le> nat (2 * uint (fade_steps_of f)) + 1. (fade_channel circ t f ^^ k) (c, 0) = (t, 0)"
    using hue_ends [OF False, of f] linear_ends [OF False, of f]
    by (cases circ) (auto intro: le_SucI)
  then obtain k where k: "k \<le> n" "(fade_channel circ t f ^^ k) (c, 0) = (t, 0)"
    using assms le_trans by blast
  have "(fade_channel circ t f ^^ n) (c, 0)
      = (fade_channel circ t f ^^ (n - k)) ((fade_channel circ t f ^^ k) (c, 0))"
    using k(1) by (metis comp_apply funpow_add le_add_diff_inverse2)
  then show ?thesis by (simp add: k(2))
qed simp

section \<open>The whole strip\<close>

text \<open>A channel on its way: it was at rest some runs ago, with the same target and fade time.\<close>

definition fading :: "bool \<Rightarrow> u16 \<Rightarrow> u16 \<Rightarrow> u16 \<times> i16 \<Rightarrow> bool" where
  "fading circ t f st \<longleftrightarrow> (\<exists>k c. (fade_channel circ t f ^^ k) (c, 0) = st)"

lemma fading_rest: "fading circ t f (c, 0)"
  unfolding fading_def by (intro exI [of _ 0] exI [of _ c]) simp

lemma fading_step: "fading circ t f st \<Longrightarrow> fading circ t f (fade_channel circ t f st)"
  unfolding fading_def by (metis comp_apply funpow.simps(2))

lemma fading_ends:
  assumes "fading circ t f st" and "nat (2 * uint (fade_steps_of f)) + 1 \<le> n"
  shows "(fade_channel circ t f ^^ n) st = (t, 0)"
proof -
  obtain k c where "st = (fade_channel circ t f ^^ k) (c, 0)" using assms(1) by (auto simp: fading_def)
  then have "(fade_channel circ t f ^^ n) st = (fade_channel circ t f ^^ (n + k)) (c, 0)"
    by (simp add: funpow_add)
  also have "\<dots> = (t, 0)" using assms(2) by (intro fade_reaches) simp
  finally show ?thesis .
qed

text \<open>The three channels of pixel \<open>k\<close>, and what a run does not touch.\<close>

definition chan_h :: "gfx_state \<Rightarrow> nat \<Rightarrow> u16 \<times> i16" where
  "chan_h g k = (hue g ! k, hue_step g ! k)"

definition chan_s :: "gfx_state \<Rightarrow> nat \<Rightarrow> u16 \<times> i16" where
  "chan_s g k = (sat g ! k, sat_step g ! k)"

definition chan_v :: "gfx_state \<Rightarrow> nat \<Rightarrow> u16 \<times> i16" where
  "chan_v g k = (val g ! k, val_step g ! k)"

definition fade_frame :: "gfx_state \<Rightarrow> gfx_state" where
  "fade_frame g = g\<lparr>hue := [], sat := [], val := [], hue_step := [], sat_step := [], val_step := [],
     current_dimmer := 0, dimmer_step := 0\<rparr>"

lemma fade_frame_fields:
  assumes "fade_frame g' = fade_frame g"
  shows "target_hue g' = target_hue g" "target_sat g' = target_sat g" "target_val g' = target_val g"
    "hs_fade g' = hs_fade g" "v_fade g' = v_fade g" "pix_count g' = pix_count g"
    "params_ok g' = params_ok g"
proof -
  have eq: "f (fade_frame g') = f (fade_frame g)" for f :: "gfx_state \<Rightarrow> 'a" using assms by simp
  show "target_hue g' = target_hue g" using eq [of target_hue] by (simp add: fade_frame_def)
  show "target_sat g' = target_sat g" using eq [of target_sat] by (simp add: fade_frame_def)
  show "target_val g' = target_val g" using eq [of target_val] by (simp add: fade_frame_def)
  show "hs_fade g' = hs_fade g" using eq [of hs_fade] by (simp add: fade_frame_def)
  show "v_fade g' = v_fade g" using eq [of v_fade] by (simp add: fade_frame_def)
  show "pix_count g' = pix_count g" using eq [of pix_count] by (simp add: fade_frame_def)
  show "params_ok g' = params_ok g" using eq [of params_ok] by (simp add: fade_frame_def params_ok_def)
qed

lemma fade_pixel_eq:
  assumes "gfx_wf g" and "i < 320"
  shows "\<exists>g'. fade_pixel i g = Some g' \<and> gfx_wf g' \<and> fade_frame g' = fade_frame g
    \<and> (\<forall>k. chan_h g' k = (if k = i then fade_channel True (target_hue g ! i) (hs_fade g ! i) (chan_h g i) else chan_h g k))
    \<and> (\<forall>k. chan_s g' k = (if k = i then fade_channel False (target_sat g ! i) (hs_fade g ! i) (chan_s g i) else chan_s g k))
    \<and> (\<forall>k. chan_v g' k = (if k = i then fade_channel False (target_val g ! i) (v_fade g ! i) (chan_v g i) else chan_v g k))"
proof -
  obtain h hs where h: "fade_channel True (target_hue g ! i) (hs_fade g ! i) (hue g ! i, hue_step g ! i) = (h, hs)"
    by fastforce
  obtain s ss where s: "fade_channel False (target_sat g ! i) (hs_fade g ! i) (sat g ! i, sat_step g ! i) = (s, ss)"
    by fastforce
  obtain v vs where v: "fade_channel False (target_val g ! i) (v_fade g ! i) (val g ! i, val_step g ! i) = (v, vs)"
    by fastforce
  let ?g = "g\<lparr>hue := (hue g)[i := h], hue_step := (hue_step g)[i := hs], sat := (sat g)[i := s],
      sat_step := (sat_step g)[i := ss], val := (val g)[i := v], val_step := (val_step g)[i := vs]\<rparr>"
  have len: "length (hue g) = 320" "length (sat g) = 320" "length (val g) = 320"
    "length (target_hue g) = 320" "length (target_sat g) = 320" "length (target_val g) = 320"
    "length (hs_fade g) = 320" "length (v_fade g) = 320"
    "length (hue_step g) = 320" "length (sat_step g) = 320" "length (val_step g) = 320"
    using assms(1) by (simp_all add: gfx_wf_def)
  have "fade_pixel i g = Some ?g"
    using len assms(2) by (simp add: fade_pixel_def h s v)
  moreover have "gfx_wf ?g" using assms(1) by (simp add: gfx_wf_def)
  moreover have "fade_frame ?g = fade_frame g" by (simp add: fade_frame_def)
  moreover have "chan_h ?g k = (if k = i then (h, hs) else chan_h g k)"
    "chan_s ?g k = (if k = i then (s, ss) else chan_s g k)"
    "chan_v ?g k = (if k = i then (v, vs) else chan_v g k)" for k
    using len assms(2) by (simp_all add: chan_h_def chan_s_def chan_v_def)
  ultimately show ?thesis
    using h s v by (intro exI [of _ ?g]) (simp add: chan_h_def chan_s_def chan_v_def)
qed

text \<open>One run is one step of every channel of every pixel of the strip, and of the dimmer.\<close>

definition ticked :: "nat \<Rightarrow> gfx_state \<Rightarrow> gfx_state \<Rightarrow> bool" where
  "ticked n g g' \<longleftrightarrow> (\<forall>k. if k < n
     then chan_h g' k = fade_channel True (target_hue g ! k) (hs_fade g ! k) (chan_h g k)
        \<and> chan_s g' k = fade_channel False (target_sat g ! k) (hs_fade g ! k) (chan_s g k)
        \<and> chan_v g' k = fade_channel False (target_val g ! k) (v_fade g ! k) (chan_v g k)
     else chan_h g' k = chan_h g k \<and> chan_s g' k = chan_s g k \<and> chan_v g' k = chan_v g k)"

lemma fade_loop:
  assumes "gfx_wf g" and "n \<le> 320"
  shows "\<exists>g'. for_each fade_pixel [0..<n] g = Some g' \<and> gfx_wf g' \<and> fade_frame g' = fade_frame g
    \<and> ticked n g g'"
  using assms(2)
proof (induction n)
  case 0
  then show ?case using assms(1) by (simp add: ticked_def)
next
  case (Suc n)
  then obtain g1 where g1: "for_each fade_pixel [0..<n] g = Some g1" "gfx_wf g1"
    "fade_frame g1 = fade_frame g" "ticked n g g1" by auto
  note fr = fade_frame_fields [OF g1(3)]
  obtain g2 where g2: "fade_pixel n g1 = Some g2" "gfx_wf g2" "fade_frame g2 = fade_frame g1"
    "\<forall>k. chan_h g2 k = (if k = n then fade_channel True (target_hue g ! n) (hs_fade g ! n) (chan_h g1 n) else chan_h g1 k)"
    "\<forall>k. chan_s g2 k = (if k = n then fade_channel False (target_sat g ! n) (hs_fade g ! n) (chan_s g1 n) else chan_s g1 k)"
    "\<forall>k. chan_v g2 k = (if k = n then fade_channel False (target_val g ! n) (v_fade g ! n) (chan_v g1 n) else chan_v g1 k)"
    using fade_pixel_eq [OF g1(2), of n] Suc.prems unfolding fr by auto
  have "ticked (Suc n) g g2"
    using g1(4) g2(4-6) unfolding ticked_def by (auto simp: less_Suc_eq split: if_splits)
  then show ?case using g1(1,3) g2(1-3) by (auto simp: for_each_append)
qed

fun run_faders :: "nat \<Rightarrow> gfx_state \<Rightarrow> gfx_state option" where
  "run_faders 0 g = Some g"
| "run_faders (Suc n) g = Option.bind (gfx_v_process_faders g) (run_faders n)"

definition all_fading :: "gfx_state \<Rightarrow> bool" where
  "all_fading g \<longleftrightarrow> (\<forall>k < unat (pix_count g).
      fading True (target_hue g ! k) (hs_fade g ! k) (chan_h g k)
    \<and> fading False (target_sat g ! k) (hs_fade g ! k) (chan_s g k)
    \<and> fading False (target_val g ! k) (v_fade g ! k) (chan_v g k))"

lemma process_faders_tick:
  assumes wf: "gfx_wf g" and ok: "params_ok g"
  obtains g' where "gfx_v_process_faders g = Some g'" and "gfx_wf g'" and "fade_frame g' = fade_frame g"
    and "ticked (unat (pix_count g)) g g'"
proof -
  let ?d = "fade_dimmer g"
  have d: "gfx_wf ?d" "fade_frame ?d = fade_frame g" "pix_count ?d = pix_count g"
    "ticked n ?d h = ticked n g h" for n h
    using wf by (simp_all add: fade_dimmer_def split_beta Let_def gfx_wf_def fade_frame_def ticked_def
        chan_h_def chan_s_def chan_v_def)
  have "unat (pix_count g) \<le> 320" using ok by (simp add: params_ok_def word_le_nat_alt)
  from fade_loop [OF d(1) this] show thesis
    using that d by (auto simp: gfx_v_process_faders_def)
qed

text \<open>After \<open>n\<close> runs every channel has made \<open>n\<close> steps.\<close>

lemma run_faders_channels:
  assumes "gfx_wf g" and "params_ok g"
  shows "\<exists>g'. run_faders n g = Some g' \<and> gfx_wf g' \<and> fade_frame g' = fade_frame g
    \<and> (\<forall>k < unat (pix_count g).
         chan_h g' k = (fade_channel True (target_hue g ! k) (hs_fade g ! k) ^^ n) (chan_h g k)
       \<and> chan_s g' k = (fade_channel False (target_sat g ! k) (hs_fade g ! k) ^^ n) (chan_s g k)
       \<and> chan_v g' k = (fade_channel False (target_val g ! k) (v_fade g ! k) ^^ n) (chan_v g k))"
  using assms
proof (induction n arbitrary: g)
  case (Suc n)
  obtain g1 where g1: "gfx_v_process_faders g = Some g1" "gfx_wf g1" "fade_frame g1 = fade_frame g"
    "ticked (unat (pix_count g)) g g1"
    by (rule process_faders_tick [OF Suc.prems])
  note fr = fade_frame_fields [OF g1(3)]
  obtain g2 where g2: "run_faders n g1 = Some g2" "gfx_wf g2" "fade_frame g2 = fade_frame g1"
    "\<forall>k < unat (pix_count g).
         chan_h g2 k = (fade_channel True (target_hue g ! k) (hs_fade g ! k) ^^ n) (chan_h g1 k)
       \<and> chan_s g2 k = (fade_channel False (target_sat g ! k) (hs_fade g ! k) ^^ n) (chan_s g1 k)
       \<and> chan_v g2 k = (fade_channel False (target_val g ! k) (v_fade g ! k) ^^ n) (chan_v g1 k)"
    using Suc.IH [OF g1(2)] Suc.prems(2) unfolding fr by auto
  have "run_faders (Suc n) g = Some g2" by (simp add: g1(1) g2(1))
  then show ?case
    using g1(3,4) g2(2-4) by (auto simp: ticked_def funpow_swap1)
qed simp

text \<open>A linear channel stays between where it started and its target.\<close>

definition on_way :: "u16 \<Rightarrow> u16 \<Rightarrow> u16 \<times> i16 \<Rightarrow> bool" where
  "on_way c t st \<longleftrightarrow>
     (min (uint c) (uint t) \<le> uint (fst st) \<and> uint (fst st) \<le> max (uint c) (uint t))
     \<and> (0 < sint (snd st) \<longrightarrow> uint c \<le> uint t) \<and> (sint (snd st) < 0 \<longrightarrow> uint t \<le> uint c)"

lemma on_way_apply:
  assumes "on_way c t (cur, s)" and "s \<noteq> 0"
  shows "on_way c t (apply_step t cur s)"
proof (cases "\<bar>uint t - uint cur\<bar> < \<bar>sint s\<bar>")
  case True
  then show ?thesis by (simp add: apply_step_int on_way_def)
next
  case False
  have rng: "min (uint c) (uint t) \<le> uint cur + sint s \<and> uint cur + sint s \<le> max (uint c) (uint t)"
    using False assms(1) by (auto simp: on_way_def min_def max_def abs_if split: if_splits)
  then have "0 \<le> uint cur + sint s \<and> uint cur + sint s < 65536"
    using uint16_bounds [of t] uint16_bounds [of c] by linarith
  then have "0 \<le> uint cur + sint s" "uint cur + sint s < 65536" by blast+
  then have "uint (word_of_int (uint cur + sint s) :: u16) = uint cur + sint s"
    by (rule uint_word_of_int16)
  then show ?thesis
    using False rng assms(1) by (simp add: apply_step_int on_way_def)
qed

lemma new_step_sign:
  assumes "t \<noteq> (cur :: u16)"
  shows "0 < sint (new_step False t cur f) \<longleftrightarrow> uint cur < uint t"
    and "sint (new_step False t cur f) < 0 \<longleftrightarrow> uint t < uint cur"
proof -
  define D where "D = \<bar>uint t - uint cur\<bar>"
  have D: "0 < D" "D \<le> 65535" using assms uint16_bounds [of t] uint16_bounds [of cur]
    unfolding D_def word_uint_eq_iff by linarith+
  have steps: "2 \<le> uint (fade_steps_of f)" by (rule fade_steps_of_bounds)
  note sp = step_int_pos [OF steps D] and sn = step_int_neg [OF steps D]
  have nt: "uint t \<noteq> uint cur" using assms by (simp add: word_uint_eq_iff)
  have p: "1 \<le> step_int (uint (fade_steps_of f)) D" using sp(1) by simp
  have "sint (new_step False t cur f)
      = (if uint cur < uint t then step_int (uint (fade_steps_of f)) D
         else - step_int (uint (fade_steps_of f)) D)"
  proof (cases "uint cur < uint t")
    case True
    then have "uint t - uint cur = D" by (simp add: D_def)
    then show ?thesis using True new_step_eq(1) [OF nt, of f] p sp(2) by (simp add: sint_word_of_int16)
  next
    case False
    then have "uint t - uint cur = - D" by (simp add: D_def)
    then have "sint (new_step False t cur f) = sint (word_of_int (- step_int (uint (fade_steps_of f)) D) :: i16)"
      using new_step_eq(1) [OF nt, of f] sn by simp
    also have "\<dots> = - step_int (uint (fade_steps_of f)) D"
      using p sp(2) by (intro sint_word_of_int16) linarith+
    finally show ?thesis using False by (simp only: if_False)
  qed
  then show "0 < sint (new_step False t cur f) \<longleftrightarrow> uint cur < uint t"
    and "sint (new_step False t cur f) < 0 \<longleftrightarrow> uint t < uint cur"
    using p nt by auto
qed

lemma new_step_nonzero: "t \<noteq> cur \<Longrightarrow> new_step False t cur f \<noteq> 0"
proof
  assume tc: "t \<noteq> cur" and "new_step False t cur f = 0"
  then have "\<not> uint cur < uint t" "\<not> uint t < uint cur"
    using new_step_sign [OF tc, of f] by simp_all
  then show False using tc by (simp add: word_uint_eq_iff)
qed

lemma on_way_fade: "on_way c t st \<Longrightarrow> on_way c t (fade_channel False t f st)"
proof -
  assume st: "on_way c t st"
  obtain cur s where cs: "st = (cur, s)" by fastforce
  consider "s = 0" "t = cur" | "s = 0" "t \<noteq> cur" | "s \<noteq> 0" by blast
  then show "on_way c t (fade_channel False t f st)"
  proof cases
    case 1
    then show ?thesis using st cs by simp
  next
    case 2
    let ?n = "new_step False t cur f"
    have nz: "?n \<noteq> 0"
      by (rule new_step_nonzero [OF 2(2)])
    have "on_way c t (cur, ?n)"
      using st cs new_step_sign [OF 2(2), of f] by (auto simp: on_way_def min_def max_def split: if_splits)
    then show ?thesis using on_way_apply nz 2 cs by (simp add: fade_channel_def)
  next
    case 3
    then show ?thesis using on_way_apply [of c t cur s] st cs by (simp add: fade_channel_running)
  qed
qed

lemma on_way_run: "on_way c t ((fade_channel False t f ^^ n) (c, 0))"
  by (induction n) (simp_all add: on_way_fade, simp add: on_way_def)

section \<open>The dimmer\<close>

text \<open>The dimmer's fader runs like a linear channel with the global value fade.\<close>

lemma update_master_fader_new_step:
  fixes g :: gfx_state
  defines "t \<equiv> target_dimmer (update_master_fader g)"
  assumes "t \<noteq> current_dimmer g"
  shows "dimmer_step (update_master_fader g) = new_step False t (current_dimmer g) (global_v_fade g)"
  by (simp add: t_def update_master_fader_def new_step_def Let_def)

lemma fade_dimmer_channel:
  assumes "dimmer_step g = 0 \<Longrightarrow> current_dimmer g = target_dimmer g"
  shows "(current_dimmer (fade_dimmer g), dimmer_step (fade_dimmer g))
      = fade_channel False (target_dimmer g) f (current_dimmer g, dimmer_step g)"
    and "target_dimmer (fade_dimmer g) = target_dimmer g"
  using assms by (auto simp: fade_dimmer_def fade_channel_def split_beta Let_def)

lemma fade_channel_stopped: "snd (fade_channel circ t f st) = 0 \<Longrightarrow> fst (fade_channel circ t f st) = t"
proof -
  assume stop: "snd (fade_channel circ t f st) = 0"
  obtain cur s where st: "st = (cur, s)" by fastforce
  define s' where "s' = (if s = 0 \<and> t \<noteq> cur then new_step circ t cur f else s)"
  have eq: "fade_channel circ t f st = (if s' \<noteq> 0 then apply_step t cur s' else (cur, s'))"
    by (simp add: fade_channel_def st s'_def Let_def)
  show "fst (fade_channel circ t f st) = t"
  proof (cases "s' = 0")
    case True
    have "t = cur"
    proof (rule ccontr)
      assume tc: "t \<noteq> cur"
      then have "new_step circ t cur f = 0" using True by (auto simp: s'_def split: if_splits)
      moreover have "new_step True t cur f \<noteq> 0"
        by (rule hue_setup [OF tc, of f]) simp
      moreover have "new_step False t cur f \<noteq> 0"
        by (rule new_step_nonzero [OF tc])
      ultimately show False by (cases circ) auto
    qed
    then show ?thesis using eq True by simp
  next
    case False
    then show ?thesis using stop eq by (simp add: apply_step_int split: if_splits)
  qed
qed

lemma dimmer_run:
  fixes g :: gfx_state
  assumes "1 \<le> n"
  defines "g0 \<equiv> update_master_fader g"
  shows "(current_dimmer ((fade_dimmer ^^ n) g0), dimmer_step ((fade_dimmer ^^ n) g0))
      = (fade_channel False (target_dimmer g0) (global_v_fade g) ^^ n) (current_dimmer g, 0)
    \<and> target_dimmer ((fade_dimmer ^^ n) g0) = target_dimmer g0"
  using assms(1)
proof (induction n rule: nat_induct_at_least [of 1])
  case base
  have cur: "current_dimmer g0 = current_dimmer g" by (simp add: g0_def update_master_fader_def Let_def)
  show ?case
  proof (cases "target_dimmer g0 = current_dimmer g")
    case True
    have "dimmer_step g0 = 1"
      using True by (simp add: g0_def update_master_fader_def Let_def limit_step_def)
    then show ?thesis using True cur by (simp add: fade_dimmer_def apply_step_int Let_def)
  next
    case False
    then have "dimmer_step g0 = new_step False (target_dimmer g0) (current_dimmer g) (global_v_fade g)"
      using update_master_fader_new_step [of g] by (simp add: g0_def)
    moreover have "new_step False (target_dimmer g0) (current_dimmer g) (global_v_fade g) \<noteq> 0"
      by (rule new_step_nonzero [OF False])
    ultimately show ?thesis
      using False cur by (simp add: fade_dimmer_def fade_channel_def split_beta Let_def)
  qed
next
  case (Suc n)
  let ?g = "(fade_dimmer ^^ n) g0"
  have IH: "(current_dimmer ?g, dimmer_step ?g)
      = (fade_channel False (target_dimmer g0) (global_v_fade g) ^^ n) (current_dimmer g, 0)"
    "target_dimmer ?g = target_dimmer g0" using Suc by auto
  obtain m where m: "n = Suc m" using Suc.hyps by (cases n) auto
  have "current_dimmer ?g = target_dimmer ?g" if "dimmer_step ?g = 0"
    using fade_channel_stopped [of False "target_dimmer g0" "global_v_fade g"
        "(fade_channel False (target_dimmer g0) (global_v_fade g) ^^ m) (current_dimmer g, 0)"] that IH
    unfolding m by (metis comp_apply fst_conv funpow.simps(2) snd_conv)
  from fade_dimmer_channel(1) [where f = "global_v_fade g", OF this] fade_dimmer_channel(2) [OF this] show ?case using IH by simp
qed

section \<open>Properties\<close>

text \<open>
  C29 Fading always ends.  From a state in which every channel is at rest or on its way,
  6553 runs of the faders (131 seconds) bring every pixel of the strip to its target hue,
  saturation and value, whatever the fade times are; a channel with a given fade time needs at
  most twice the number of steps that its fade time asks for, and one run more.  No run fails, and
  the targets are untouched.
\<close>

theorem faders_reach_targets:
  assumes "gfx_wf g" and "params_ok g" and "all_fading g" and "6553 \<le> n"
  shows "\<exists>g'. run_faders n g = Some g' \<and> gfx_wf g'
    \<and> target_hue g' = target_hue g \<and> target_sat g' = target_sat g \<and> target_val g' = target_val g
    \<and> (\<forall>k < unat (pix_count g). hue g' ! k = target_hue g ! k \<and> sat g' ! k = target_sat g ! k
          \<and> val g' ! k = target_val g ! k)"
proof -
  have bound: "nat (2 * uint (fade_steps_of f)) + 1 \<le> n" for f
    using fade_steps_of_bounds(2) [of f] assms(4) by linarith
  obtain g' where g': "run_faders n g = Some g'" "gfx_wf g'" "fade_frame g' = fade_frame g"
    and ch: "\<forall>k < unat (pix_count g).
         chan_h g' k = (fade_channel True (target_hue g ! k) (hs_fade g ! k) ^^ n) (chan_h g k)
       \<and> chan_s g' k = (fade_channel False (target_sat g ! k) (hs_fade g ! k) ^^ n) (chan_s g k)
       \<and> chan_v g' k = (fade_channel False (target_val g ! k) (v_fade g ! k) ^^ n) (chan_v g k)"
    using run_faders_channels [OF assms(1,2)] by blast
  have "chan_h g' k = (target_hue g ! k, 0) \<and> chan_s g' k = (target_sat g ! k, 0)
      \<and> chan_v g' k = (target_val g ! k, 0)" if "k < unat (pix_count g)" for k
    using ch assms(3) that fading_ends [OF _ bound] by (auto simp: all_fading_def)
  then show ?thesis
    using g' fade_frame_fields [OF g'(3)] by (auto simp: chan_h_def chan_s_def chan_v_def)
qed

lemma all_fading_rest:
  assumes "hue_step g = pixel_zeros" "sat_step g = pixel_zeros" "val_step g = pixel_zeros"
    and "unat (pix_count g) \<le> 320"
  shows "all_fading g"
  using assms fading_rest by (auto simp: all_fading_def chan_h_def chan_s_def chan_v_def)

text \<open>A strip told to go from black to a hue at partial brightness.\<close>

definition sample_fade :: gfx_state where
  "sample_fade = gfx_initial\<lparr>pix_count := 16, pix_size_x := 16, pix_size_y := 1,
     target_hue := replicate 320 65000, target_val := replicate 320 40000,
     hs_fade := replicate 320 1000, v_fade := replicate 320 65535\<rparr>"

lemma sample_fade_ok: "gfx_wf sample_fade" "params_ok sample_fade" "all_fading sample_fade"
  by (simp_all add: sample_fade_def gfx_wf_def gfx_initial_def params_ok_def all_fading_rest)

lemma faders_reach_targets_witness:
  "\<exists>g'. run_faders 7000 sample_fade = Some g' \<and> hue g' ! 3 = 65000 \<and> val g' ! 3 = 40000"
proof -
  have n: "(6553 :: nat) \<le> 7000" by simp
  have k: "3 < unat (pix_count sample_fade)" "target_hue sample_fade ! 3 = 65000"
    "target_val sample_fade ! 3 = 40000" by (simp_all add: sample_fade_def)
  show ?thesis using faders_reach_targets [OF sample_fade_ok n] k by metis
qed

text \<open>
  A saturation or value never overshoots: after any number of runs it lies between
  where it was at rest and its target.
\<close>

theorem linear_fade_between:
  assumes "gfx_wf g" and "params_ok g" and "k < unat (pix_count g)"
    and "sat_step g ! k = 0" and "val_step g ! k = 0"
  shows "\<exists>g'. run_faders n g = Some g'
    \<and> min (uint (sat g ! k)) (uint (target_sat g ! k)) \<le> uint (sat g' ! k)
    \<and> uint (sat g' ! k) \<le> max (uint (sat g ! k)) (uint (target_sat g ! k))
    \<and> min (uint (val g ! k)) (uint (target_val g ! k)) \<le> uint (val g' ! k)
    \<and> uint (val g' ! k) \<le> max (uint (val g ! k)) (uint (target_val g ! k))"
proof -
  obtain g' where g': "run_faders n g = Some g'"
    and ch: "chan_s g' k = (fade_channel False (target_sat g ! k) (hs_fade g ! k) ^^ n) (chan_s g k)"
      "chan_v g' k = (fade_channel False (target_val g ! k) (v_fade g ! k) ^^ n) (chan_v g k)"
    using run_faders_channels [OF assms(1,2)] assms(3) by blast
  have "on_way (sat g ! k) (target_sat g ! k) (chan_s g' k)"
    "on_way (val g ! k) (target_val g ! k) (chan_v g' k)"
    unfolding ch using assms(4,5) on_way_run by (simp_all add: chan_s_def chan_v_def)
  then show ?thesis using g' by (auto simp: on_way_def chan_s_def chan_v_def)
qed

lemma linear_fade_between_witness:
  "\<exists>g'. run_faders 5 sample_fade = Some g' \<and> uint (val g' ! 2) \<le> 40000"
proof -
  have "2 < unat (pix_count sample_fade)" "sat_step sample_fade ! 2 = 0" "val_step sample_fade ! 2 = 0"
    "target_val sample_fade ! 2 = 40000" "val sample_fade ! 2 = 0"
    by (simp_all add: sample_fade_def gfx_initial_def)
  then show ?thesis using linear_fade_between [OF sample_fade_ok(1,2), of 2 5] by auto
qed

text \<open>
  C30 Setting the master or the submaster dimmer starts a fade that ends at their product
  scaled to 16 bits, after at most 6553 runs, without passing it.
\<close>

theorem master_dimmer_fade:
  assumes "g' = gfx_v_set_master_dimmer m g \<or> g' = gfx_v_set_submaster_dimmer m g"
  shows "uint (target_dimmer g') = uint (pix_master_dimmer g') * uint (pix_sub_dimmer g') div 65536
    \<and> on_way (current_dimmer g) (target_dimmer g')
        (current_dimmer ((fade_dimmer ^^ Suc n) g'), dimmer_step ((fade_dimmer ^^ Suc n) g'))
    \<and> (6552 \<le> n \<longrightarrow> current_dimmer ((fade_dimmer ^^ Suc n) g') = target_dimmer g'
          \<and> dimmer_step ((fade_dimmer ^^ Suc n) g') = 0)"
proof -
  obtain h where h: "g' = update_master_fader h" "current_dimmer h = current_dimmer g"
    "pix_master_dimmer h = pix_master_dimmer g'" "pix_sub_dimmer h = pix_sub_dimmer g'"
    using assms
  proof (elim disjE)
    assume "g' = gfx_v_set_master_dimmer m g"
    then show thesis
      by (intro that [of "g\<lparr>pix_master_dimmer := m\<rparr>"])
        (simp_all add: gfx_v_set_master_dimmer_def update_master_fader_def Let_def)
  next
    assume "g' = gfx_v_set_submaster_dimmer m g"
    then show thesis
      by (intro that [of "g\<lparr>pix_sub_dimmer := m\<rparr>"])
        (simp_all add: gfx_v_set_submaster_dimmer_def update_master_fader_def Let_def)
  qed
  have target: "uint (target_dimmer g') = uint (pix_master_dimmer g') * uint (pix_sub_dimmer g') div 65536"
    unfolding h(3,4) [symmetric] unfolding h(1)
    using uint_scaled_product [of "pix_master_dimmer h" "pix_sub_dimmer h"]
    by (simp add: update_master_fader_def Let_def)
  have bound: "nat (2 * uint (fade_steps_of (global_v_fade h))) + 1 \<le> Suc n" if "6552 \<le> n"
    using fade_steps_of_bounds(2) [of "global_v_fade h"] that by linarith
  define st where "st = (fade_channel False (target_dimmer g') (global_v_fade h) ^^ Suc n) (current_dimmer g, 0)"
  have "1 \<le> Suc n" by simp
  from dimmer_run [OF this, of h]
  have run: "(current_dimmer ((fade_dimmer ^^ Suc n) g'), dimmer_step ((fade_dimmer ^^ Suc n) g')) = st"
    unfolding h(1) [symmetric] h(2) st_def by (rule conjunct1)
  have "on_way (current_dimmer g) (target_dimmer g') st" unfolding st_def by (rule on_way_run)
  moreover have "current_dimmer ((fade_dimmer ^^ Suc n) g') = target_dimmer g'
      \<and> dimmer_step ((fade_dimmer ^^ Suc n) g') = 0" if "6552 \<le> n"
  proof -
    have "st = (target_dimmer g', 0)"
      unfolding st_def by (rule fade_reaches [OF bound [OF that]])
    from run [unfolded this] show ?thesis by (rule prod.inject [THEN iffD1])
  qed
  ultimately show ?thesis
    unfolding run by (rule conjI [OF target conjI [OF _ impI]])
qed

definition sample_dimmer :: gfx_state where
  "sample_dimmer = gfx_v_set_master_dimmer 30000 (gfx_initial\<lparr>pix_sub_dimmer := 65535\<rparr>)"

lemma master_dimmer_fade_witness:
  "uint (target_dimmer sample_dimmer) = 29999
   \<and> current_dimmer ((fade_dimmer ^^ Suc 6552) sample_dimmer) = target_dimmer sample_dimmer"
proof -
  have "uint (pix_master_dimmer sample_dimmer) * uint (pix_sub_dimmer sample_dimmer) div 65536 = 29999"
    by (simp add: sample_dimmer_def gfx_v_set_master_dimmer_def update_master_fader_def Let_def)
  then show ?thesis
    using master_dimmer_fade [of sample_dimmer 30000 "gfx_initial\<lparr>pix_sub_dimmer := 65535\<rparr>" 6552]
    by (simp only: sample_dimmer_def simp_thms order_refl)
qed

end
