(* ===== verification/Gfx_Color.thy ===== *)
theory Gfx_Color
  imports Gfx_State
begin

text \<open>
  The output side of \<open>src/src/lib_chromatron/gfx_lib.c\<close>: the dimmer curve, the conversion of hue,
  saturation and value to the colour channels of the strip, \<open>gfx_v_sync_array\<close>, which fills the
  output arrays with 8 bits per channel and 2 bits of dither, and the value noise with the library
  call that offers it to scripts.
\<close>

section \<open>The dimmer curve\<close>

text \<open>
  The table is the one of the state; its last segment ends in (65535, 65535).  The conversions
  round by \<open>/ 65536\<close>.
\<close>

definition linterp_table_lookup :: "u16 \<Rightarrow> u16 list \<Rightarrow> u16 option" where
  "linterp_table_lookup x table = do {
     let index = (ucast (drop_bit 8 x) :: u8);
     y0 \<leftarrow> rd table (unat index);
     let x0 = push_bit 8 (ucast index :: u16);
     (y1, x1) \<leftarrow> (if index < 255
                   then do { y1 \<leftarrow> rd table (unat index + 1); Some (y1, push_bit 8 (ucast index + 1 :: u16)) }
                   else Some (65535, 65535));
     Some (util_u16_linear_interp x x0 y0 x1 y1) }"

abbreviation scaled :: "u16 \<Rightarrow> u16 \<Rightarrow> u16" where
  "scaled a b \<equiv> ucast ((ucast a * ucast b :: u32) div 65536)"

definition gfx_u16_get_dimmed_val :: "u16 \<Rightarrow> gfx_state \<Rightarrow> u16 option" where
  "gfx_u16_get_dimmed_val v g =
     (let x = scaled v (current_dimmer g) in linterp_table_lookup x (dimmer_lookup g))"

section \<open>Colour conversion\<close>

definition gfx_v_hsv_to_rgb :: "u16 \<Rightarrow> u16 \<Rightarrow> u16 \<Rightarrow> u16 \<times> u16 \<times> u16" where
  "gfx_v_hsv_to_rgb h s v =
     (let temp_s = 65535 - s;
          (temp_r, temp_g, temp_b) =
            (if h \<le> 21845
             then (let temp_r = (21845 - h) * 3; temp_g = 65535 - temp_r in (temp_r, temp_g, 0))
             else if h \<le> 43690
             then (let temp_g = (43690 - h) * 3; temp_b = 65535 - temp_g in (0, temp_g, temp_b))
             else (let temp_b = (65535 - h) * 3; temp_r = 65535 - temp_b in (temp_r, 0, temp_b)));
          temp_r = (if temp_r < temp_s then temp_s else temp_r);
          temp_g = (if temp_g < temp_s then temp_s else temp_g);
          temp_b = (if temp_b < temp_s then temp_s else temp_b)
      in (scaled temp_r v, scaled temp_g v, scaled temp_b v))"

definition gfx_v_hsv_to_rgbw :: "u16 \<Rightarrow> u16 \<Rightarrow> u16 \<Rightarrow> u16 \<times> u16 \<times> u16 \<times> u16" where
  "gfx_v_hsv_to_rgbw h s v =
     (let temp_s = 65535 - s;
          (temp_r, temp_g, temp_b) =
            (if h \<le> 21845
             then (let temp_r = (21845 - h) * 3; temp_g = 65535 - temp_r
                   in (scaled temp_r s, scaled temp_g s, 0))
             else if h \<le> 43690
             then (let temp_g = (43690 - h) * 3; temp_b = 65535 - temp_g
                   in (0, scaled temp_g s, scaled temp_b s))
             else (let temp_b = (65535 - h) * 3; temp_r = 65535 - temp_b
                   in (scaled temp_r s, 0, scaled temp_b s)))
      in (scaled temp_r v, scaled temp_g v, scaled temp_b v, scaled temp_s v))"

section \<open>The output arrays\<close>

definition store_pixel :: "nat \<Rightarrow> u8 \<times> u8 \<times> u8 \<times> u8 \<Rightarrow> gfx_state \<Rightarrow> gfx_state option" where
  "store_pixel i c st = do {
     let (r, g, b, m) = c;
     reds \<leftarrow> wr (array_red st) i r;
     greens \<leftarrow> wr (array_green st) i g;
     blues \<leftarrow> wr (array_blue st) i b;
     miscs \<leftarrow> wr (array_misc st) i m;
     Some (st\<lparr>array_red := reds, array_green := greens, array_blue := blues, array_misc := miscs\<rparr>) }"

text \<open>The bytes of one pixel: 8 bits of each of four channels, or of three with 2 bits of dither each.\<close>

definition pack_rgbw :: "u16 \<times> u16 \<times> u16 \<times> u16 \<Rightarrow> u8 \<times> u8 \<times> u8 \<times> u8" where
  "pack_rgbw c = (let (r, g, b, w) = c
     in (ucast (r div 256), ucast (g div 256), ucast (b div 256), ucast (w div 256)))"

definition pack_rgb :: "u16 \<times> u16 \<times> u16 \<Rightarrow> u8 \<times> u8 \<times> u8 \<times> u8" where
  "pack_rgb c =
     (let (r, g, b) = c;
          r = r div 64;
          g = g div 64;
          b = b div 64;
          dither = push_bit 4 (ucast (r AND 3) :: u8);
          dither = dither OR push_bit 2 (ucast (g AND 3));
          dither = dither OR ucast (b AND 3)
      in (ucast (r div 4), ucast (g div 4), ucast (b div 4), dither))"

definition sync_pixel :: "(u16 \<Rightarrow> u16 \<Rightarrow> u16 \<Rightarrow> u8 \<times> u8 \<times> u8 \<times> u8) \<Rightarrow> nat \<Rightarrow> gfx_state \<Rightarrow> gfx_state option" where
  "sync_pixel channels i st = do {
     v \<leftarrow> rd (val st) i;
     dimmed_val \<leftarrow> gfx_u16_get_dimmed_val v st;
     h \<leftarrow> rd (hue st) i;
     s \<leftarrow> rd (sat st) i;
     store_pixel i (channels h s dimmed_val) st }"

definition sync_channels :: "u8 \<Rightarrow> u16 \<Rightarrow> u16 \<Rightarrow> u16 \<Rightarrow> u8 \<times> u8 \<times> u8 \<times> u8" where
  "sync_channels mode h s v =
     (if mode = PIX_MODE_SK6812_RGBW then pack_rgbw (gfx_v_hsv_to_rgbw h s v)
      else pack_rgb (gfx_v_hsv_to_rgb h s v))"

definition gfx_v_sync_array :: "gfx_state \<Rightarrow> gfx_state option" where
  "gfx_v_sync_array st = do {
     v0 \<leftarrow> rd (val st) 0;
     dimmed_val \<leftarrow> gfx_u16_get_dimmed_val v0 st;
     h0 \<leftarrow> rd (hue st) 0;
     s0 \<leftarrow> rd (sat st) 0;
     let (r, g, b) = gfx_v_hsv_to_rgb h0 s0 dimmed_val;
     let st = st\<lparr>pix0_16bit_red := r, pix0_16bit_green := g, pix0_16bit_blue := b\<rparr>;
     for_each (sync_pixel (sync_channels (pix_mode st))) [0..<unat (pix_count st)] st }"

definition gfx_u16_get_pix0_red :: "gfx_state \<Rightarrow> u16" where
  "gfx_u16_get_pix0_red st = pix0_16bit_red st"

definition gfx_u16_get_pix0_green :: "gfx_state \<Rightarrow> u16" where
  "gfx_u16_get_pix0_green st = pix0_16bit_green st"

definition gfx_u16_get_pix0_blue :: "gfx_state \<Rightarrow> u16" where
  "gfx_u16_get_pix0_blue st = pix0_16bit_blue st"

section \<open>Value noise\<close>

text \<open>The contents of \<open>src/src/lib_chromatron/smootherstep.csv\<close>, which the array includes.\<close>

definition smootherstep_lookup :: "u8 list" where
  "smootherstep_lookup =
  [0, 0, 0, 0, 0, 0, 0, 0, 0, 0, 0, 0, 0, 0, 0, 0,
   0, 0, 0, 0, 1, 1, 1, 1, 1, 2, 2, 2, 2, 3, 3, 3,
   4, 4, 4, 5, 5, 6, 6, 7, 7, 8, 8, 9, 9, 10, 11, 11,
   12, 13, 14, 14, 15, 16, 17, 18, 18, 19, 20, 21, 22, 23, 24, 25,
   26, 27, 28, 29, 31, 32, 33, 34, 35, 37, 38, 39, 40, 42, 43, 44,
   46, 47, 49, 50, 52, 53, 55, 56, 58, 59, 61, 62, 64, 65, 67, 69,
   70, 72, 74, 75, 77, 79, 80, 82, 84, 86, 87, 89, 91, 93, 95, 96,
   98, 100, 102, 104, 106, 107, 109, 111, 113, 115, 117, 119, 120, 122, 124, 126,
   128, 130, 132, 134, 135, 137, 139, 141, 143, 145, 147, 148, 150, 152, 154, 156,
   158, 159, 161, 163, 165, 167, 168, 170, 172, 174, 175, 177, 179, 180, 182, 184,
   185, 187, 189, 190, 192, 193, 195, 196, 198, 199, 201, 202, 204, 205, 207, 208,
   210, 211, 212, 214, 215, 216, 217, 219, 220, 221, 222, 223, 225, 226, 227, 228,
   229, 230, 231, 232, 233, 234, 235, 236, 236, 237, 238, 239, 240, 240, 241, 242,
   243, 243, 244, 245, 245, 246, 246, 247, 247, 248, 248, 249, 249, 250, 250, 250,
   251, 251, 251, 252, 252, 252, 252, 253, 253, 253, 253, 253, 254, 254, 254, 254,
   254, 254, 254, 254, 254, 254, 254, 254, 254, 254, 254, 254, 254, 254, 254, 255]"

definition lerp :: "u8 \<Rightarrow> u8 \<Rightarrow> u8 \<Rightarrow> u16" where
  "lerp low high t = word_of_int (uint low * (256 - uint t) + uint high * uint t)"

definition gfx_u16_noise :: "u16 \<Rightarrow> gfx_state \<Rightarrow> u16 option" where
  "gfx_u16_noise x st = do {
     let x_min = (ucast (drop_bit 8 x) :: u8);
     let t = (ucast (x AND 0xff) :: u8);
     t \<leftarrow> rd smootherstep_lookup (unat t);
     low \<leftarrow> rd (noise_table st) (unat x_min);
     high \<leftarrow> rd (noise_table st) (unat x_min + 1);
     Some (lerp low high t) }"

text \<open>
  The library calls of scripts.  \<open>KV\<close> gives the hashes that the build generates for the names; a
  parameter that the caller never stored is \<^term>\<open>None\<close>, and reading it is undefined.
\<close>

definition gfx_i32_lib_call :: "(string \<Rightarrow> u32) \<Rightarrow> u32 \<Rightarrow> i32 option list \<Rightarrow> gfx_state \<Rightarrow> i32 option" where
  "gfx_i32_lib_call KV func_hash params st =
     (if func_hash = KV ''test_lib_call'' then do {
        p0 \<leftarrow> rd params 0; p0 \<leftarrow> p0;
        p1 \<leftarrow> rd params 1; p1 \<leftarrow> p1;
        Some (p0 + p1) }
      else if func_hash = KV ''noise'' then do {
        p0 \<leftarrow> rd params 0; p0 \<leftarrow> p0;
        map_option ucast (gfx_u16_noise (word_of_int (sint p0 smod 65536)) st) }
      else Some 0)"

section \<open>The dimmer curve never reorders brightness\<close>

lemma unat_high_byte: "unat (ucast (drop_bit 8 (x :: u16)) :: u8) = unat x div 256"
proof -
  have "unat (drop_bit 8 x) = unat x div 256"
    by (simp add: drop_bit_eq_div unat_div)
  then show ?thesis using unat16_less [of x]
    by (simp add: unsigned_ucast_eq unsigned_take_bit_eq take_bit_nat_eq_self)
qed

lemma unat_scaled: "unat (scaled a b) = unat a * unat b div 65536"
proof -
  have "uint (scaled a b) = uint a * uint b div 65536" by (rule uint_scaled_product)
  then have "int (unat (scaled a b)) = int (unat a * unat b div 65536)"
    by (simp only: of_nat_div of_nat_mult of_nat_unat of_nat_numeral)
  then show ?thesis by (simp only: of_nat_eq_iff)
qed

text \<open>The segment of the table that \<open>x\<close> lies in, as numbers.\<close>

definition seg_end :: "u16 list \<Rightarrow> nat \<Rightarrow> u16 \<times> u16" where
  "seg_end table i = (if i < 255 then (table ! (i + 1), word_of_nat (256 * (i + 1))) else (65535, 65535))"

lemma seg_end_bounds:
  assumes "length table = 256" and "i < 256"
  shows "256 * i < unat (snd (seg_end table i))"
    and "unat x div 256 = i \<Longrightarrow> x \<le> snd (seg_end table i)"
    and "sorted table \<Longrightarrow> table ! i \<le> fst (seg_end table i)"
proof -
  have e: "unat (snd (seg_end table i)) = (if i < 255 then 256 * (i + 1) else 65535)"
    by (simp add: seg_end_def unat_of_nat16 del: of_nat_mult of_nat_add)
  show "256 * i < unat (snd (seg_end table i))" using assms(2) e by (auto split: if_splits)
  show "x \<le> snd (seg_end table i)" if "unat x div 256 = i"
    using that e unat16_less [of x] by (auto simp: word_le_nat_alt split: if_splits)
  show "table ! i \<le> fst (seg_end table i)" if "sorted table"
    using that assms sorted_nth_mono [of table i "i + 1"] unat16_less [of "table ! i"]
    by (auto simp: seg_end_def word_le_nat_alt)
qed

lemma linterp_table_lookup_eq:
  assumes "length table = 256" and "unat (x :: u16) div 256 = i"
  shows "linterp_table_lookup x table =
     Some (util_u16_linear_interp x (word_of_nat (256 * i)) (table ! i)
             (snd (seg_end table i)) (fst (seg_end table i)))"
proof -
  let ?k = "ucast (drop_bit 8 x) :: u8"
  have k: "unat ?k = i" by (simp add: unat_high_byte assms(2))
  then have i: "i < 256" using unat8_less [of ?k] by simp
  have w: "(ucast ?k :: u16) = word_of_nat i"
    using k i by (simp add: word_unat_eq_iff unat_of_nat16 del: unat_ucast_u8_u16 flip: k)
  have "?k < 255 \<longleftrightarrow> i < 255" using k by (simp add: word_less_nat_alt)
  then show ?thesis
    using assms(1) i k w by (auto simp: linterp_table_lookup_def seg_end_def Let_def push_bit_eq_mult algebra_simps)
qed

lemma linterp_table_lookup_mono:
  assumes "length table = 256" and "sorted table" and "x \<le> x'"
  shows "\<exists>y y'. linterp_table_lookup x table = Some y \<and> linterp_table_lookup x' table = Some y'
    \<and> y \<le> y'"
proof -
  define i where "i = unat x div 256"
  define i' where "i' = unat x' div 256"
  have le: "i \<le> i'" using assms(3) by (auto simp: i_def i'_def word_le_nat_alt div_le_mono)
  have lt: "i < 256" "i' < 256" using unat16_less [of x] unat16_less [of x'] by (auto simp: i_def i'_def)
  have start: "unat (word_of_nat (256 * j) :: u16) = 256 * j" if "j < 256" for j
    using that by (simp add: unat_of_nat16 del: of_nat_mult)
  have seg: "word_of_nat (256 * (unat z div 256)) \<le> z"
    "z \<le> snd (seg_end table (unat z div 256))"
    "word_of_nat (256 * (unat z div 256)) < snd (seg_end table (unat z div 256))"
    "table ! (unat z div 256) \<le> fst (seg_end table (unat z div 256))" for z :: u16
  proof -
    have z: "unat z div 256 < 256" using unat16_less [of z] by auto
    show "word_of_nat (256 * (unat z div 256)) \<le> z" unfolding word_le_nat_alt start [OF z] by simp
    show "z \<le> snd (seg_end table (unat z div 256))" by (rule seg_end_bounds(2) [OF assms(1) z refl])
    show "word_of_nat (256 * (unat z div 256)) < snd (seg_end table (unat z div 256))"
      unfolding word_less_nat_alt start [OF z] by (rule seg_end_bounds(1) [OF assms(1) z])
    show "table ! (unat z div 256) \<le> fst (seg_end table (unat z div 256))"
      by (rule seg_end_bounds(3) [OF assms(1) z assms(2)])
  qed
  define y where "y = util_u16_linear_interp x (word_of_nat (256 * i)) (table ! i)
             (snd (seg_end table i)) (fst (seg_end table i))"
  define y' where "y' = util_u16_linear_interp x' (word_of_nat (256 * i')) (table ! i')
             (snd (seg_end table i')) (fst (seg_end table i'))"
  have lookups: "linterp_table_lookup x table = Some y" "linterp_table_lookup x' table = Some y'"
    using linterp_table_lookup_eq [OF assms(1)] by (simp_all add: y_def y'_def i_def i'_def)
  have "y \<le> y'"
  proof (cases "i = i'")
    case True
    have s: "unat (word_of_nat (256 * i) :: u16) = 256 * i" by (rule start [OF lt(1)])
    have m: "(unat x - 256 * i) * (unat (fst (seg_end table i)) - unat (table ! i))
        div (unat (snd (seg_end table i)) - 256 * i)
      \<le> (unat x' - 256 * i) * (unat (fst (seg_end table i)) - unat (table ! i))
        div (unat (snd (seg_end table i)) - 256 * i)"
      using assms(3) by (intro div_le_mono mult_right_mono diff_le_mono) (simp_all add: word_le_nat_alt)
    show ?thesis
      using m util_u16_linear_interp_eq [OF seg [of x, folded i_def]]
        util_u16_linear_interp_eq [OF seg [of x', folded i'_def]]
      unfolding word_le_nat_alt y_def y'_def True [symmetric] s by simp
  next
    case False
    then have lt': "i < i'" using le by simp
    then have "i < 255" using lt by simp
    then have "fst (seg_end table i) = table ! (i + 1)" by (simp add: seg_end_def)
    moreover have "table ! (i + 1) \<le> table ! i'"
      using sorted_nth_mono [OF assms(2)] lt' lt(2) assms(1) by simp
    moreover have "y \<le> fst (seg_end table i)"
      unfolding y_def using util_u16_linear_interp_between [OF seg [of x, folded i_def]] by simp
    moreover have "table ! i' \<le> y'"
      unfolding y'_def using util_u16_linear_interp_between [OF seg [of x', folded i'_def]] by simp
    ultimately show ?thesis by simp
  qed
  then show ?thesis using lookups by blast
qed

lemma util_u16_linear_interp_start: "util_u16_linear_interp x x y0 x1 y1 = y0"
proof -
  have "ucast (ucast y0 :: u32) = y0"
    by (simp add: word_unat_eq_iff unsigned_ucast_eq unsigned_take_bit_eq take_bit_nat_eq_self
        less_trans [OF unat16_less])
  then show ?thesis by (simp add: util_u16_linear_interp_def Let_def)
qed

section \<open>The colour wheel\<close>

lemma uint_scaled: "uint (scaled a b) = uint a * uint b div 65536"
  by (rule uint_scaled_product)

lemma uint_ramp:
  assumes "(h :: u16) \<le> c" and "uint c - uint h \<le> 21845"
  shows "uint ((c - h) * 3) = 3 * (uint c - uint h)" and "uint (65535 - (c - h) * 3) = 65535 - 3 * (uint c - uint h)"
proof -
  have d: "uint (c - h) = uint c - uint h" and nn: "0 \<le> uint c - uint h"
    using assms(1) by (simp_all add: uint_sub_if_size word_le_def)
  have "uint ((c - h) * 3) = (uint (c - h) * 3) mod 65536"
    by (simp only: uint_word_ariths(3)) simp
  also have "\<dots> = 3 * (uint c - uint h)"
    unfolding d using nn assms(2) by simp
  finally show r: "uint ((c - h) * 3) = 3 * (uint c - uint h)" .
  define p where "p = (c - h) * 3"
  have "uint p \<le> 65535" using uint16_bounds [of p] by simp
  then have "uint (65535 - p) = 65535 - uint p" by (simp add: uint_sub_if_size)
  then show "uint (65535 - (c - h) * 3) = 65535 - 3 * (uint c - uint h)"
    unfolding p_def r .
qed

text \<open>Before saturation and brightness one channel of the wheel is 0 and the others sum to 65535.\<close>

definition wheel :: "u16 \<Rightarrow> int \<times> int \<times> int" where
  "wheel h = (if uint h \<le> 21845 then (3 * (21845 - uint h), 65535 - 3 * (21845 - uint h), 0)
     else if uint h \<le> 43690 then (0, 3 * (43690 - uint h), 65535 - 3 * (43690 - uint h))
     else (65535 - 3 * (65535 - uint h), 0, 3 * (65535 - uint h)))"

lemma wheel_cases:
  assumes "wheel h = (R, G, B)"
  shows "0 \<le> R" and "0 \<le> G" and "0 \<le> B" and "R + G + B = 65535" and "R = 0 \<or> G = 0 \<or> B = 0"
  using assms uint16_bounds [of h] by (auto simp: wheel_def split: if_splits)

text \<open>The channels of the wheel as the code computes them, in words.\<close>

definition wheel_words :: "u16 \<Rightarrow> u16 \<times> u16 \<times> u16" where
  "wheel_words h = (if h \<le> 21845 then ((21845 - h) * 3, 65535 - (21845 - h) * 3, 0)
     else if h \<le> 43690 then (0, (43690 - h) * 3, 65535 - (43690 - h) * 3)
     else (65535 - (65535 - h) * 3, 0, (65535 - h) * 3))"

lemma wheel_words_wheel:
  "wheel_words h = (r, g, b) \<Longrightarrow> wheel h = (uint r, uint g, uint b)"
proof -
  assume w: "wheel_words h = (r, g, b)"
  consider "h \<le> 21845" | "\<not> h \<le> 21845" "h \<le> 43690" | "\<not> h \<le> 21845" "\<not> h \<le> 43690" by blast
  then show ?thesis
  proof cases
    case 1
    then have u: "uint h \<le> 21845" by (simp add: word_le_def)
    then show ?thesis using w 1 uint_ramp [OF 1] unfolding wheel_words_def wheel_def
      by (simp only: if_True prod.inject) (auto simp del: right_diff_distrib_numeral)
  next
    case 2
    then have u: "\<not> uint h \<le> 21845" "uint h \<le> 43690" by (simp_all add: word_le_def)
    then show ?thesis using w 2 uint_ramp [OF 2(2)] unfolding wheel_words_def wheel_def
      by (simp only: if_True if_False prod.inject) (auto simp del: right_diff_distrib_numeral)
  next
    case 3
    then have u: "\<not> uint h \<le> 21845" "\<not> uint h \<le> 43690" by (simp_all add: word_le_def)
    have le: "h \<le> 65535" using uint16_bounds [of h] by (simp add: word_le_def)
    show ?thesis using w 3 u uint_ramp [OF le] unfolding wheel_words_def wheel_def
      by (simp only: if_False prod.inject) (auto simp del: right_diff_distrib_numeral)
  qed
qed

lemma uint_max_word: "uint (if t < u then u else t) = max (uint t) (uint u)" for t u :: u16
  by (simp add: word_less_def max_def)

lemma uint_inverse16: "uint (65535 - s :: u16) = 65535 - uint s"
  using uint16_bounds [of s] by (simp add: uint_sub_if_size)

lemma hsv_to_rgb_wheel:
  assumes "wheel h = (R, G, B)"
  shows "\<exists>r g b. gfx_v_hsv_to_rgb h s v = (r, g, b)
    \<and> uint r = max R (65535 - uint s) * uint v div 65536
    \<and> uint g = max G (65535 - uint s) * uint v div 65536
    \<and> uint b = max B (65535 - uint s) * uint v div 65536"
proof -
  obtain r g b where w: "wheel_words h = (r, g, b)" by (cases "wheel_words h") auto
  have "gfx_v_hsv_to_rgb h s v = (case wheel_words h of (r, g, b) \<Rightarrow>
      (scaled (if r < 65535 - s then 65535 - s else r) v, scaled (if g < 65535 - s then 65535 - s else g) v,
       scaled (if b < 65535 - s then 65535 - s else b) v))"
    unfolding gfx_v_hsv_to_rgb_def wheel_words_def Let_def
    by (cases "h \<le> 21845"; cases "h \<le> 43690") (simp_all only: if_True if_False prod.case)
  moreover have "R = uint r" "G = uint g" "B = uint b"
    using wheel_words_wheel [OF w] assms by simp_all
  ultimately show ?thesis unfolding w by (simp add: uint_scaled uint_max_word uint_inverse16)
qed

lemma hsv_to_rgbw_wheel:
  assumes "wheel h = (R, G, B)"
  shows "\<exists>r g b w. gfx_v_hsv_to_rgbw h s v = (r, g, b, w)
    \<and> uint r = (R * uint s div 65536) * uint v div 65536
    \<and> uint g = (G * uint s div 65536) * uint v div 65536
    \<and> uint b = (B * uint s div 65536) * uint v div 65536
    \<and> uint w = (65535 - uint s) * uint v div 65536"
proof -
  obtain r g b where w: "wheel_words h = (r, g, b)" by (cases "wheel_words h") auto
  have z: "scaled 0 s = 0" by simp
  have "gfx_v_hsv_to_rgbw h s v = (case wheel_words h of (r, g, b) \<Rightarrow>
      (scaled (scaled r s) v, scaled (scaled g s) v, scaled (scaled b s) v, scaled (65535 - s) v))"
    unfolding gfx_v_hsv_to_rgbw_def wheel_words_def Let_def
    by (cases "h \<le> 21845"; cases "h \<le> 43690") (simp_all only: if_True if_False prod.case z)
  moreover have "R = uint r" "G = uint g" "B = uint b"
    using wheel_words_wheel [OF w] assms by simp_all
  ultimately show ?thesis unfolding w by (simp add: uint_scaled uint_inverse16)
qed

text \<open>Sums of rounded products.\<close>

lemma div_add_le: "(a :: int) div m + b div m \<le> (a + b) div m" if "0 < m"
proof -
  have "a div m * m + b div m * m \<le> a + b"
    using pos_mod_sign [OF that, of a] pos_mod_sign [OF that, of b]
    by (simp add: div_mult_mod_eq [symmetric] minus_mod_eq_div_mult [symmetric])
  then have "(a div m + b div m) * m \<le> a + b" by (simp add: distrib_right)
  then show ?thesis using that by (metis div_le_mono nonzero_mult_div_cancel_right less_irrefl zdiv_mono1)
qed

lemma div_add_le4:
  assumes "0 < (m :: int)"
  shows "a div m + b div m + c div m \<le> (a + b + c) div m"
    and "a div m + b div m + c div m + d div m \<le> (a + b + c + d) div m"
  using div_add_le [OF assms, of a b] div_add_le [OF assms, of "a + b" c]
    div_add_le [OF assms, of "a + b + c" d] by linarith+

lemma add_div_le: "((a :: int) + b) div m \<le> a div m + b div m + 1" if "0 < m"
proof -
  have "a < (a div m + 1) * m" "b < (b div m + 1) * m"
    using pos_mod_bound [OF that, of a] pos_mod_bound [OF that, of b]
    by (simp_all add: distrib_right minus_mod_eq_div_mult [symmetric])
  then have "a + b < (a div m + b div m + 2) * m" by (simp add: distrib_right)
  then have "(a + b) div m < a div m + b div m + 2"
    by (rule mult_less_cancel_right_pos [OF that, THEN iffD1, OF le_less_trans [rotated]])
      (use pos_mod_sign [OF that, of "a + b"] in \<open>simp add: minus_mod_eq_div_mult [symmetric]\<close>)
  then show ?thesis by simp
qed

section \<open>Noise\<close>

lemma uint8_bounds: "0 \<le> uint (x :: u8)" "uint (x :: u8) \<le> 255"
  using unsigned_less [of x, where ?'a = int] by simp_all

lemma uint_lerp: "uint (lerp low high t) = uint low * (256 - uint t) + uint high * uint t"
  "256 * min (uint low) (uint high) \<le> uint (lerp low high t)"
  "uint (lerp low high t) \<le> 256 * max (uint low) (uint high)"
proof -
  let ?m = "min (uint low) (uint high)" and ?M = "max (uint low) (uint high)"
  have t: "0 \<le> uint t" "0 \<le> 256 - uint t" using uint8_bounds [of t] by simp_all
  have lo: "?m * (256 - uint t) + ?m * uint t \<le> uint low * (256 - uint t) + uint high * uint t"
    using t by (intro add_mono mult_right_mono) simp_all
  have hi: "uint low * (256 - uint t) + uint high * uint t \<le> ?M * (256 - uint t) + ?M * uint t"
    using t by (intro add_mono mult_right_mono) simp_all
  have eqs: "?m * (256 - uint t) + ?m * uint t = 256 * ?m" "?M * (256 - uint t) + ?M * uint t = 256 * ?M"
    by (simp_all add: right_diff_distrib)
  have "0 \<le> ?m" "?M \<le> 255" using uint8_bounds [of low] uint8_bounds [of high] by auto
  then have r: "0 \<le> uint low * (256 - uint t) + uint high * uint t"
    "uint low * (256 - uint t) + uint high * uint t < 65536"
    using lo hi unfolding eqs by linarith+
  show eq: "uint (lerp low high t) = uint low * (256 - uint t) + uint high * uint t"
    unfolding lerp_def by (rule uint_word_of_int16 [OF r])
  show "256 * ?m \<le> uint (lerp low high t)" "uint (lerp low high t) \<le> 256 * ?M"
    unfolding eq using lo hi unfolding eqs .
qed

lemma uint_lerp_0: "uint (lerp low high 0) = 256 * uint low"
  by (simp add: uint_lerp(1))

lemma length_smootherstep [simp]: "length smootherstep_lookup = 256"
  by (simp add: smootherstep_lookup_def)

section \<open>The output arrays after a run\<close>

definition out_bytes :: "gfx_state \<Rightarrow> nat \<Rightarrow> u8 \<times> u8 \<times> u8 \<times> u8" where
  "out_bytes st k = (array_red st ! k, array_green st ! k, array_blue st ! k, array_misc st ! k)"

definition out_frame :: "gfx_state \<Rightarrow> gfx_state" where
  "out_frame st = st\<lparr>array_red := [], array_green := [], array_blue := [], array_misc := []\<rparr>"

lemma out_frame_fields:
  assumes "out_frame st' = out_frame st"
  shows "val st' = val st" "hue st' = hue st" "sat st' = sat st"
    "current_dimmer st' = current_dimmer st" "dimmer_lookup st' = dimmer_lookup st"
    "pix_count st' = pix_count st" "noise_table st' = noise_table st"
proof -
  have eq: "f (out_frame st') = f (out_frame st)" for f :: "gfx_state \<Rightarrow> 'a" using assms by simp
  show "val st' = val st" using eq [of val] by (simp add: out_frame_def)
  show "hue st' = hue st" using eq [of hue] by (simp add: out_frame_def)
  show "sat st' = sat st" using eq [of sat] by (simp add: out_frame_def)
  show "current_dimmer st' = current_dimmer st" using eq [of current_dimmer] by (simp add: out_frame_def)
  show "dimmer_lookup st' = dimmer_lookup st" using eq [of dimmer_lookup] by (simp add: out_frame_def)
  show "pix_count st' = pix_count st" using eq [of pix_count] by (simp add: out_frame_def)
  show "noise_table st' = noise_table st" using eq [of noise_table] by (simp add: out_frame_def)
qed

text \<open>The brightness of a pixel after dimming, a total function on well-formed states.\<close>

definition dimmed :: "gfx_state \<Rightarrow> u16 \<Rightarrow> u16" where
  "dimmed st v = the (gfx_u16_get_dimmed_val v st)"

lemma dimmed_val_total: "gfx_wf st \<Longrightarrow> gfx_u16_get_dimmed_val v st = Some (dimmed st v)"
  by (simp add: dimmed_def gfx_u16_get_dimmed_val_def Let_def gfx_wf_def linterp_table_lookup_eq)

lemma dimmed_frame: "out_frame st' = out_frame st \<Longrightarrow> dimmed st' v = dimmed st v"
  using out_frame_fields [of st' st] by (simp add: dimmed_def gfx_u16_get_dimmed_val_def Let_def)

lemma sync_pixel_eq:
  assumes "gfx_wf st" and "i < 320"
  shows "\<exists>st'. sync_pixel f i st = Some st' \<and> gfx_wf st' \<and> out_frame st' = out_frame st
    \<and> (\<forall>k. out_bytes st' k = (if k = i then f (hue st ! i) (sat st ! i) (dimmed st (val st ! i)) else out_bytes st k))"
proof -
  obtain r g b m where c: "f (hue st ! i) (sat st ! i) (dimmed st (val st ! i)) = (r, g, b, m)"
    by (cases "f (hue st ! i) (sat st ! i) (dimmed st (val st ! i))") auto
  have len: "length (hue st) = 320" "length (sat st) = 320" "length (val st) = 320"
    "length (array_red st) = 320" "length (array_green st) = 320" "length (array_blue st) = 320"
    "length (array_misc st) = 320"
    using assms(1) by (simp_all add: gfx_wf_def)
  have "sync_pixel f i st = Some (st\<lparr>array_red := (array_red st)[i := r], array_green := (array_green st)[i := g],
      array_blue := (array_blue st)[i := b], array_misc := (array_misc st)[i := m]\<rparr>)"
    using assms(2) len by (simp add: sync_pixel_def store_pixel_def dimmed_val_total [OF assms(1)] c)
  then show ?thesis
    using assms c len by (auto simp: gfx_wf_def out_frame_def out_bytes_def)
qed

lemma sync_pixels:
  assumes "gfx_wf st" and "n \<le> 320"
  shows "\<exists>st'. for_each (sync_pixel f) [0..<n] st = Some st' \<and> gfx_wf st' \<and> out_frame st' = out_frame st
    \<and> (\<forall>k. out_bytes st' k = (if k < n then f (hue st ! k) (sat st ! k) (dimmed st (val st ! k)) else out_bytes st k))"
  using assms(2)
proof (induction n)
  case 0
  show ?case using assms(1) by simp
next
  case (Suc n)
  then obtain s1 where s1: "for_each (sync_pixel f) [0..<n] st = Some s1" "gfx_wf s1" "out_frame s1 = out_frame st"
    "\<forall>k. out_bytes s1 k = (if k < n then f (hue st ! k) (sat st ! k) (dimmed st (val st ! k)) else out_bytes st k)"
    by auto
  note fr = out_frame_fields [OF s1(3)] dimmed_frame [OF s1(3)]
  have "n < 320" using Suc.prems by simp
  from sync_pixel_eq [OF s1(2) this, of f, unfolded fr] obtain s2
    where s2: "sync_pixel f n s1 = Some s2" "gfx_wf s2" "out_frame s2 = out_frame s1"
    "\<forall>k. out_bytes s2 k = (if k = n then f (hue st ! n) (sat st ! n) (dimmed st (val st ! n)) else out_bytes s1 k)"
    by blast
  have "for_each (sync_pixel f) [0..<Suc n] st = Some s2"
    by (simp add: for_each_append s1(1) s2(1))
  then show ?case using s1(3,4) s2(2,3,4) by (auto simp: less_Suc_eq)
qed

section \<open>Properties\<close>

text \<open>
  The dimmer never reorders brightness: on a well-formed state whose curve is
  non-decreasing, dimming is defined for every value, a larger value is dimmed to a larger or equal
  one, and with the dimmer at 0 every value is dimmed to the first entry of the curve.
\<close>

theorem dimmed_val_mono:
  assumes "gfx_wf st" and "sorted (dimmer_lookup st)" and "v \<le> v'"
  shows "\<exists>y y'. gfx_u16_get_dimmed_val v st = Some y \<and> gfx_u16_get_dimmed_val v' st = Some y' \<and> y \<le> y'
    \<and> (current_dimmer st = 0 \<longrightarrow> y = dimmer_lookup st ! 0)"
proof -
  let ?d = "current_dimmer st"
  have len: "length (dimmer_lookup st) = 256" using assms(1) by (simp add: gfx_wf_def)
  have "unat v * unat ?d div 65536 \<le> unat v' * unat ?d div 65536"
    using assms(3) by (intro div_le_mono mult_right_mono) (simp_all add: word_le_nat_alt)
  then have "scaled v ?d \<le> scaled v' ?d" by (simp only: word_le_nat_alt unat_scaled)
  from linterp_table_lookup_mono [OF len assms(2) this] obtain y y' where
    y: "linterp_table_lookup (scaled v ?d) (dimmer_lookup st) = Some y"
    "linterp_table_lookup (scaled v' ?d) (dimmer_lookup st) = Some y'" "y \<le> y'" by blast
  have "y = dimmer_lookup st ! 0" if "?d = 0"
  proof -
    have "scaled v ?d = 0" by (simp add: that)
    moreover have "linterp_table_lookup 0 (dimmer_lookup st) = Some (dimmer_lookup st ! 0)"
      using linterp_table_lookup_eq [OF len, of 0 0] by (simp add: util_u16_linear_interp_start)
    ultimately show ?thesis using y(1) by simp
  qed
  then show ?thesis using y by (simp add: gfx_u16_get_dimmed_val_def Let_def)
qed

definition sample_curve :: gfx_state where
  "sample_curve = gfx_initial\<lparr>dimmer_lookup := map (\<lambda>i. word_of_nat i) [0..<256], current_dimmer := 65535\<rparr>"

lemma sample_curve_ok: "gfx_wf sample_curve" "sorted (dimmer_lookup sample_curve)"
proof -
  show "gfx_wf sample_curve" by (simp add: sample_curve_def gfx_wf_def gfx_initial_def)
  show "sorted (dimmer_lookup sample_curve)"
    by (simp add: sample_curve_def sorted_iff_nth_mono word_le_nat_alt unat_of_nat16)
qed

lemma dimmed_val_mono_witness:
  "\<exists>y y'. gfx_u16_get_dimmed_val 100 sample_curve = Some y
     \<and> gfx_u16_get_dimmed_val 40000 sample_curve = Some y' \<and> y \<le> y'"
proof -
  have "(100 :: u16) \<le> 40000" by simp
  from dimmed_val_mono [OF sample_curve_ok this] show ?thesis by blast
qed

text \<open>A channel at full scale: what the rounding leaves of the value.\<close>

definition full_channel :: "u16 \<Rightarrow> int" where
  "full_channel v = 65535 * uint v div 65536"

text \<open>
  Colours keep their brightness.  Whatever hue and saturation are, no channel is brighter than
  the value asks for and none is darker than the white that the saturation leaves; without
  saturation the colour is grey; at full saturation one channel is off and the two others share the
  value, up to one unit of rounding, all around the wheel.
\<close>

theorem hsv_to_rgb_brightness:
  assumes "gfx_v_hsv_to_rgb h s v = (r, g, b)"
  shows "(65535 - uint s) * uint v div 65536 \<le> min (uint r) (min (uint g) (uint b))
    \<and> max (uint r) (max (uint g) (uint b)) \<le> full_channel v
    \<and> (s = 0 \<longrightarrow> uint r = full_channel v \<and> g = r \<and> b = r)
    \<and> (s = 65535 \<longrightarrow> min (uint r) (min (uint g) (uint b)) = 0
          \<and> full_channel v - 1 \<le> uint r + uint g + uint b \<and> uint r + uint g + uint b \<le> full_channel v)"
proof -
  define full where "full = full_channel v"
  note full_def = full_def [unfolded full_channel_def]
  obtain R G B where w: "wheel h = (R, G, B)" by (cases "wheel h") auto
  note c = wheel_cases [OF w]
  have e: "uint r = max R (65535 - uint s) * uint v div 65536"
    "uint g = max G (65535 - uint s) * uint v div 65536"
    "uint b = max B (65535 - uint s) * uint v div 65536"
    using hsv_to_rgb_wheel [OF w, of s v] assms(1) by auto
  have v: "0 \<le> uint v" and s: "0 \<le> uint s" by simp_all
  have lo: "(65535 - uint s) * uint v div 65536 \<le> max X (65535 - uint s) * uint v div 65536" for X
    using v by (intro zdiv_mono1 mult_right_mono) simp_all
  have hi: "max X (65535 - uint s) * uint v div 65536 \<le> full" if "X \<le> 65535" for X
    unfolding full_def using v s that by (intro zdiv_mono1 mult_right_mono) simp_all
  have le: "R \<le> 65535" "G \<le> 65535" "B \<le> 65535" using c by linarith+
  have grey: "uint r = full \<and> g = r \<and> b = r" if "s = 0"
    using that le unfolding word_uint_eq_iff e full_def by (simp add: max_def)
  have rainbow: "min (uint r) (min (uint g) (uint b)) = 0
        \<and> full - 1 \<le> uint r + uint g + uint b \<and> uint r + uint g + uint b \<le> full" if "s = 65535"
  proof -
    have e': "uint r = R * uint v div 65536" "uint g = G * uint v div 65536" "uint b = B * uint v div 65536"
      using that c(1-3) unfolding e by simp_all
    have sums: "X * uint v div 65536 + Y * uint v div 65536 \<le> full
        \<and> full \<le> X * uint v div 65536 + Y * uint v div 65536 + 1" if "X + Y = 65535" for X Y
    proof -
      have eq: "X * uint v + Y * uint v = 65535 * uint v" using that by (metis distrib_right)
      show ?thesis unfolding full_def eq [symmetric]
        by (intro conjI div_add_le add_div_le zero_less_numeral)
    qed
    have nn: "0 \<le> uint r" "0 \<le> uint g" "0 \<le> uint b" by simp_all
    from c(5) show ?thesis
    proof (elim disjE)
      assume "R = 0"
      then have "G + B = 65535" "uint r = 0" using c(4) e'(1) by simp_all
      then show ?thesis using sums [of G B, folded e'] nn by auto
    next
      assume "G = 0"
      then have "R + B = 65535" "uint g = 0" using c(4) e'(2) by simp_all
      then show ?thesis using sums [of R B, folded e'] nn by auto
    next
      assume "B = 0"
      then have "R + G = 65535" "uint b = 0" using c(4) e'(3) by simp_all
      then show ?thesis using sums [of R G, folded e'] nn by auto
    qed
  qed
  have "(65535 - uint s) * uint v div 65536 \<le> min (uint r) (min (uint g) (uint b))"
    unfolding e by (intro min.boundedI lo)
  moreover have "max (uint r) (max (uint g) (uint b)) \<le> full"
    unfolding e by (intro max.boundedI hi le)
  ultimately show ?thesis
    using grey rainbow unfolding full_channel_def full_def by blast
qed

lemma hsv_to_rgb_brightness_witness:
  "uint (42127 :: u16) + uint (17872 :: u16) + uint (0 :: u16) \<le> full_channel 60000"
proof -
  have c: "gfx_v_hsv_to_rgb 6507 65535 60000 = (42127, 17872, 0)" by (simp add: gfx_v_hsv_to_rgb_def)
  from hsv_to_rgb_brightness [OF this] show ?thesis by simp
qed

text \<open>
  The four-channel conversion never lights more than the value: red, green, blue and white
  add up to at most the full channel, the white is what the saturation leaves, and without
  saturation only the white is lit.
\<close>

theorem hsv_to_rgbw_power:
  assumes "gfx_v_hsv_to_rgbw h s v = (r, g, b, w)"
  shows "uint r + uint g + uint b + uint w \<le> full_channel v
    \<and> uint w = (65535 - uint s) * uint v div 65536
    \<and> (s = 0 \<longrightarrow> r = 0 \<and> g = 0 \<and> b = 0 \<and> uint w = full_channel v)"
proof -
  obtain R G B where wh: "wheel h = (R, G, B)" by (cases "wheel h") auto
  note c = wheel_cases [OF wh]
  have e: "uint r = (R * uint s div 65536) * uint v div 65536"
    "uint g = (G * uint s div 65536) * uint v div 65536"
    "uint b = (B * uint s div 65536) * uint v div 65536"
    "uint w = (65535 - uint s) * uint v div 65536"
    using hsv_to_rgbw_wheel [OF wh, of s v] assms by auto
  define x where "x = R * uint s div 65536"
  define y where "y = G * uint s div 65536"
  define z where "z = B * uint s div 65536"
  have "x + y + z \<le> (R * uint s + G * uint s + B * uint s) div 65536"
    unfolding x_def y_def z_def by (rule div_add_le4) simp
  also have "\<dots> = 65535 * uint s div 65536"
    using c(4) by (metis distrib_right)
  also have "\<dots> \<le> 65536 * uint s div 65536" by (intro zdiv_mono1 mult_right_mono) simp_all
  finally have xyz: "x + y + z \<le> uint s" by simp
  have "uint r + uint g + uint b + uint w
      \<le> (x * uint v + y * uint v + z * uint v + (65535 - uint s) * uint v) div 65536"
    unfolding e x_def [symmetric] y_def [symmetric] z_def [symmetric] by (rule div_add_le4) simp
  also have "\<dots> = (x + y + z + (65535 - uint s)) * uint v div 65536" by (simp only: distrib_right)
  also have "\<dots> \<le> full_channel v"
    unfolding full_channel_def using xyz by (intro zdiv_mono1 mult_right_mono) simp_all
  finally have total: "uint r + uint g + uint b + uint w \<le> full_channel v" .
  have "r = 0 \<and> g = 0 \<and> b = 0 \<and> uint w = full_channel v" if "s = 0"
    using e that by (simp add: word_uint_eq_iff full_channel_def)
  then show ?thesis using total e(4) by blast
qed

lemma hsv_to_rgbw_power_witness:
  "uint (1854 :: u16) + uint (20115 :: u16) + uint (0 :: u16) + uint (38026 :: u16) \<le> full_channel 60000"
proof -
  have c: "gfx_v_hsv_to_rgbw 20000 24000 60000 = (1854, 20115, 0, 38026)" by (simp add: gfx_v_hsv_to_rgbw_def)
  from hsv_to_rgbw_power [OF this] show ?thesis by simp
qed

text \<open>
  The noise is defined except for the last 256 arguments, where the code reads the entry
  behind the end of its table; where it is defined it does not wrap around, stays between the two
  neighbouring entries scaled to 16 bits, and is the entry itself at multiples of 256.
\<close>

theorem gfx_u16_noise_between:
  assumes "gfx_wf st"
  shows "(gfx_u16_noise x st = None \<longleftrightarrow> 0xff00 \<le> x)
    \<and> (\<forall>y. gfx_u16_noise x st = Some y \<longrightarrow>
         256 * min (uint (noise_table st ! (unat x div 256))) (uint (noise_table st ! (unat x div 256 + 1))) \<le> uint y
       \<and> uint y \<le> 256 * max (uint (noise_table st ! (unat x div 256))) (uint (noise_table st ! (unat x div 256 + 1)))
       \<and> (unat x mod 256 = 0 \<longrightarrow> uint y = 256 * uint (noise_table st ! (unat x div 256))))"
proof -
  let ?t = "ucast (x AND 0xff) :: u8"
  have len: "length (noise_table st) = 256" using assms by (simp add: gfx_wf_def)
  define i where "i = unat x div 256"
  have i: "i < 256" using unat16_less [of x] by (auto simp: i_def)
  have last: "i + 1 < 256 \<longleftrightarrow> \<not> 0xff00 \<le> x" by (auto simp: i_def word_le_nat_alt)
  have eq: "gfx_u16_noise x st = (if i + 1 < 256
      then Some (lerp (noise_table st ! i) (noise_table st ! (i + 1)) (smootherstep_lookup ! unat ?t)) else None)"
    using unat8_less [of ?t] i len by (simp add: gfx_u16_noise_def Let_def unat_high_byte i_def [symmetric] rd_def)
  have frac: "unat ?t = unat x mod 256"
  proof -
    have "x AND 0xff = take_bit 8 x" by (simp add: take_bit_eq_mask mask_numeral)
    then show ?thesis
      by (simp add: unsigned_ucast_eq unsigned_take_bit_eq take_bit_eq_mod unat_mod)
  qed
  have start: "smootherstep_lookup ! 0 = 0" by (simp add: smootherstep_lookup_def)
  show ?thesis
    using last start frac unfolding i_def [symmetric] eq
    by (auto simp: uint_lerp(2,3) uint_lerp_0)
qed

lemma gfx_u16_noise_between_witness: "gfx_u16_noise 0xff12 gfx_initial = None \<and> gfx_u16_noise 0x1234 gfx_initial \<noteq> None"
  using gfx_u16_noise_between [OF gfx_wf_initial, where x = "0xff12"]
    gfx_u16_noise_between [OF gfx_wf_initial, where x = "0x1234"]
  by simp

lemma sync_array_result:
  assumes "gfx_wf st" and "params_ok st"
  shows "\<exists>st'. gfx_v_sync_array st = Some st' \<and> gfx_wf st'
    \<and> (\<forall>k. out_bytes st' k = (if k < unat (pix_count st)
          then sync_channels (pix_mode st) (hue st ! k) (sat st ! k) (dimmed st (val st ! k))
          else out_bytes st k))
    \<and> (pix0_16bit_red st', pix0_16bit_green st', pix0_16bit_blue st')
        = gfx_v_hsv_to_rgb (hue st ! 0) (sat st ! 0) (dimmed st (val st ! 0))
    \<and> out_frame (st'\<lparr>pix0_16bit_red := 0, pix0_16bit_green := 0, pix0_16bit_blue := 0\<rparr>)
        = out_frame (st\<lparr>pix0_16bit_red := 0, pix0_16bit_green := 0, pix0_16bit_blue := 0\<rparr>)"
proof -
  obtain r g b where c: "gfx_v_hsv_to_rgb (hue st ! 0) (sat st ! 0) (dimmed st (val st ! 0)) = (r, g, b)"
    by (cases "gfx_v_hsv_to_rgb (hue st ! 0) (sat st ! 0) (dimmed st (val st ! 0))") auto
  let ?s = "st\<lparr>pix0_16bit_red := r, pix0_16bit_green := g, pix0_16bit_blue := b\<rparr>"
  have len: "length (hue st) = 320" "length (sat st) = 320" "length (val st) = 320"
    using assms(1) by (simp_all add: gfx_wf_def)
  have s: "gfx_wf ?s" using assms(1) by (simp add: gfx_wf_def)
  have d: "dimmed ?s v = dimmed st v" for v
    by (simp add: dimmed_def gfx_u16_get_dimmed_val_def Let_def)
  have n: "unat (pix_count st) \<le> 320" using assms(2) by (simp add: params_ok_def word_le_nat_alt)
  from sync_pixels [OF s n, of "sync_channels (pix_mode st)", unfolded d] obtain st'
    where st': "for_each (sync_pixel (sync_channels (pix_mode st))) [0..<unat (pix_count st)] ?s = Some st'"
      "gfx_wf st'" "out_frame st' = out_frame ?s"
      "\<forall>k. out_bytes st' k = (if k < unat (pix_count st)
          then sync_channels (pix_mode st) (hue st ! k) (sat st ! k) (dimmed st (val st ! k))
          else out_bytes st k)"
    by (auto simp: out_bytes_def)
  have "gfx_v_sync_array st = Some st'"
    using st'(1) len by (simp add: gfx_v_sync_array_def dimmed_val_total [OF assms(1)] c)
  moreover have "(pix0_16bit_red st', pix0_16bit_green st', pix0_16bit_blue st') = (r, g, b)"
    using arg_cong [OF st'(3), of pix0_16bit_red] arg_cong [OF st'(3), of pix0_16bit_green]
      arg_cong [OF st'(3), of pix0_16bit_blue] by (simp add: out_frame_def)
  moreover have "out_frame (st'\<lparr>pix0_16bit_red := 0, pix0_16bit_green := 0, pix0_16bit_blue := 0\<rparr>)
      = out_frame (st\<lparr>pix0_16bit_red := 0, pix0_16bit_green := 0, pix0_16bit_blue := 0\<rparr>)"
    using arg_cong [OF st'(3), of "\<lambda>s. s\<lparr>pix0_16bit_red := 0, pix0_16bit_green := 0, pix0_16bit_blue := 0,
        array_red := [], array_green := [], array_blue := [], array_misc := []\<rparr>"]
    by (simp add: out_frame_def)
  ultimately show ?thesis using st'(2,4) c by (intro exI [of _ st']) simp
qed


definition sample_strip :: gfx_state where
  "sample_strip = sample_curve\<lparr>pix_count := 2, pix_size_x := 2, pix_size_y := 1\<rparr>"


lemma dither_fields:
  fixes r g b :: u8
  assumes "r \<in> {0, 1, 2, 3}" and "g \<in> {0, 1, 2, 3}" and "b \<in> {0, 1, 2, 3}"
  shows "unat ((push_bit 4 r OR push_bit 2 g) OR b) div 16 = unat r"
    and "unat ((push_bit 4 r OR push_bit 2 g) OR b) div 4 mod 4 = unat g"
    and "unat ((push_bit 4 r OR push_bit 2 g) OR b) mod 4 = unat b"
  using assms by (elim insertE emptyE; simp)+

lemma low_bits_u16: "unat (ucast (x AND 3 :: u16) :: u8) = unat x mod 4"
  "ucast (x AND 3 :: u16) \<in> {0, 1, 2, 3 :: u8}"
proof -
  have "x AND 3 = take_bit 2 x" by (simp add: take_bit_eq_mask mask_numeral)
  then show u: "unat (ucast (x AND 3 :: u16) :: u8) = unat x mod 4"
    by (simp add: unsigned_ucast_eq unsigned_take_bit_eq take_bit_eq_mod unat_mod)
  have "unat x mod 4 < 4" by simp
  then show "ucast (x AND 3 :: u16) \<in> {0, 1, 2, 3 :: u8}"
    using u by (auto simp: word_unat_eq_iff)
qed

text \<open>
  The 8 bits of a channel and its 2 dither bits are the top 10 bits of the 16-bit channel:
  nothing is lost above the rounding by 64.
\<close>

theorem pack_rgb_ten_bits:
  "case pack_rgb (r, g, b) of (red, green, blue, dither) \<Rightarrow>
     4 * unat red + unat dither div 16 = unat r div 64
     \<and> 4 * unat green + unat dither div 4 mod 4 = unat g div 64
     \<and> 4 * unat blue + unat dither mod 4 = unat b div 64"
proof -
  have byte: "unat (ucast (x div 64 div 4) :: u8) = unat x div 64 div 4" for x :: u16
  proof -
    have "unat x div 64 div 4 < 256" using unat16_less [of x] by (simp add: div_mult2_eq [symmetric])
    then show ?thesis
      by (simp add: unsigned_ucast_eq unsigned_take_bit_eq take_bit_nat_eq_self unat_div)
  qed
  have low: "unat (ucast ((x div 64) AND 3 :: u16) :: u8) = unat x div 64 mod 4" for x :: u16
    using low_bits_u16(1) [of "x div 64"] by (simp add: unat_div)
  note d = dither_fields [OF low_bits_u16(2) [of "r div 64"] low_bits_u16(2) [of "g div 64"]
      low_bits_u16(2) [of "b div 64"], unfolded low]
  show ?thesis
    unfolding pack_rgb_def Let_def prod.case byte d by (simp only: mult_div_mod_eq simp_thms)
qed

end
