(* ===== verification/Vm_Image.thy ===== *)
theory Vm_Image
  imports Crc Gfx_State Bytes
begin

text \<open>
  Program images of the script virtual machine (\<open>src/src/lib_chromatron/vm_core.c\<close> and
  \<open>vm_core.h\<close>): an image's header, the loader with its error codes, and
  the access to the data table from outside.  The processor is little-endian; an access outside
  the memory is undefined.
\<close>

section \<open>The machine's state record\<close>

record vm_state =
  code_start :: u16
  data_start :: u16
  prog_size :: u16
  data_len :: u16
  data_count :: u16
  init_start :: u16
  loop_start :: u16
  frame_number :: u16
  rng_seed :: u64
  max_cycles :: u16
  read_keys_count :: u8
  read_keys_start :: u16
  write_keys_count :: u8
  write_keys_start :: u16
  publish_count :: u8
  publish_start :: u16
  pix_obj_count :: u8
  pix_obj_start :: u16

definition vm_state_zero :: vm_state where
  "vm_state_zero = \<lparr>code_start = 0, data_start = 0, prog_size = 0, data_len = 0, data_count = 0,
     init_start = 0, loop_start = 0, frame_number = 0, rng_seed = 0, max_cycles = 0,
     read_keys_count = 0, read_keys_start = 0, write_keys_count = 0, write_keys_start = 0,
     publish_count = 0, publish_start = 0, pix_obj_count = 0, pix_obj_start = 0\<rparr>"

abbreviation (input) VM_ISA_VERSION :: u16 where "VM_ISA_VERSION \<equiv> 8"
abbreviation (input) FILE_MAGIC :: u32 where "FILE_MAGIC \<equiv> 0x20205846"
abbreviation (input) PROGRAM_MAGIC :: u32 where "PROGRAM_MAGIC \<equiv> 0x474f5250"
abbreviation (input) CODE_MAGIC :: u32 where "CODE_MAGIC \<equiv> 0x45444f43"
abbreviation (input) DATA_MAGIC :: u32 where "DATA_MAGIC \<equiv> 0x41544144"
abbreviation (input) DATA_LEN :: u16 where "DATA_LEN \<equiv> 4"
abbreviation (input) VM_LOAD_FLAGS_CHECK_HEADER :: u8 where "VM_LOAD_FLAGS_CHECK_HEADER \<equiv> 1"

abbreviation (input) VM_STATUS_OK :: int where "VM_STATUS_OK \<equiv> 0"
abbreviation (input) VM_STATUS_ERR_BAD_CRC :: int where "VM_STATUS_ERR_BAD_CRC \<equiv> - 1"
abbreviation (input) VM_STATUS_ERR_BAD_FILE_MAGIC :: int where "VM_STATUS_ERR_BAD_FILE_MAGIC \<equiv> - 2"
abbreviation (input) VM_STATUS_ERR_BAD_PROG_MAGIC :: int where "VM_STATUS_ERR_BAD_PROG_MAGIC \<equiv> - 3"
abbreviation (input) VM_STATUS_ERR_INVALID_ISA :: int where "VM_STATUS_ERR_INVALID_ISA \<equiv> - 4"
abbreviation (input) VM_STATUS_ERR_BAD_CODE_MAGIC :: int where "VM_STATUS_ERR_BAD_CODE_MAGIC \<equiv> - 5"
abbreviation (input) VM_STATUS_ERR_BAD_DATA_MAGIC :: int where "VM_STATUS_ERR_BAD_DATA_MAGIC \<equiv> - 6"
abbreviation (input) VM_STATUS_ERR_MAX_CYCLES :: int where "VM_STATUS_ERR_MAX_CYCLES \<equiv> - 30"
abbreviation (input) VM_STATUS_HEADER_MISALIGN :: int where "VM_STATUS_HEADER_MISALIGN \<equiv> - 43"
abbreviation (input) VM_STATUS_READ_KEYS_MISALIGN :: int where "VM_STATUS_READ_KEYS_MISALIGN \<equiv> - 44"
abbreviation (input) VM_STATUS_WRITE_KEYS_MISALIGN :: int where "VM_STATUS_WRITE_KEYS_MISALIGN \<equiv> - 45"
abbreviation (input) VM_STATUS_PUBLISH_VARS_MISALIGN :: int where "VM_STATUS_PUBLISH_VARS_MISALIGN \<equiv> - 46"
abbreviation (input) VM_STATUS_PIXEL_MISALIGN :: int where "VM_STATUS_PIXEL_MISALIGN \<equiv> - 47"
abbreviation (input) VM_STATUS_ASSERT :: int where "VM_STATUS_ASSERT \<equiv> - 99"
abbreviation (input) VM_STATUS_TRAP :: int where "VM_STATUS_TRAP \<equiv> - 100"
abbreviation (input) VM_STATUS_HALT :: int where "VM_STATUS_HALT \<equiv> 1"

text \<open>The fields of the packed \<open>vm_program_header_t\<close>, read where the code reads them.\<close>

abbreviation (input) hdr_file_magic :: "u8 list \<Rightarrow> u32 option" where "hdr_file_magic s \<equiv> rd32 s 0"
abbreviation (input) hdr_prog_magic :: "u8 list \<Rightarrow> u32 option" where "hdr_prog_magic s \<equiv> rd32 s 4"
abbreviation (input) hdr_isa_version :: "u8 list \<Rightarrow> u16 option" where "hdr_isa_version s \<equiv> rd16 s 8"
abbreviation (input) hdr_code_len :: "u8 list \<Rightarrow> u16 option" where "hdr_code_len s \<equiv> rd16 s 10"
abbreviation (input) hdr_data_len :: "u8 list \<Rightarrow> u16 option" where "hdr_data_len s \<equiv> rd16 s 12"
abbreviation (input) hdr_read_keys_len :: "u8 list \<Rightarrow> u16 option" where "hdr_read_keys_len s \<equiv> rd16 s 14"
abbreviation (input) hdr_write_keys_len :: "u8 list \<Rightarrow> u16 option" where "hdr_write_keys_len s \<equiv> rd16 s 16"
abbreviation (input) hdr_publish_len :: "u8 list \<Rightarrow> u16 option" where "hdr_publish_len s \<equiv> rd16 s 18"
abbreviation (input) hdr_pix_obj_len :: "u8 list \<Rightarrow> u16 option" where "hdr_pix_obj_len s \<equiv> rd16 s 20"
abbreviation (input) hdr_init_start :: "u8 list \<Rightarrow> u16 option" where "hdr_init_start s \<equiv> rd16 s 24"
abbreviation (input) hdr_loop_start :: "u8 list \<Rightarrow> u16 option" where "hdr_loop_start s \<equiv> rd16 s 26"
abbreviation (input) HEADER_SIZE :: u16 where "HEADER_SIZE \<equiv> 28"

section \<open>The loader\<close>

text \<open>
  The phases of \<open>vm_i8_load_program\<close>: the checks of the file and of the header, the sections before
  the code, and the code and data sections.  A phase gives its status, and the load ends with the
  first one that is not OK and the state built so far.
\<close>

definition load_check :: "u8 \<Rightarrow> u8 list \<Rightarrow> u16 \<Rightarrow> int option" where
  "load_check flags stream len = do {
     crc \<leftarrow> (if flags AND VM_LOAD_FLAGS_CHECK_HEADER = 0 then crc_u16_block stream len else Some 0);
     if crc \<noteq> 0 then Some VM_STATUS_ERR_BAD_CRC
     else do {
       m \<leftarrow> hdr_file_magic stream;
       if m \<noteq> FILE_MAGIC then Some VM_STATUS_ERR_BAD_FILE_MAGIC
       else do {
         m \<leftarrow> hdr_prog_magic stream;
         if m \<noteq> PROGRAM_MAGIC then Some VM_STATUS_ERR_BAD_PROG_MAGIC
         else do {
           v \<leftarrow> hdr_isa_version stream;
           Some (if v \<noteq> VM_ISA_VERSION then VM_STATUS_ERR_INVALID_ISA
                 else if HEADER_SIZE mod 4 \<noteq> 0 then VM_STATUS_HEADER_MISALIGN
                 else VM_STATUS_OK) } } } }"

definition load_sections :: "u8 list \<Rightarrow> vm_state \<Rightarrow> (int \<times> vm_state \<times> u16) option" where
  "load_sections stream st = do {
     is \<leftarrow> hdr_init_start stream;
     ls \<leftarrow> hdr_loop_start stream;
     let st = st\<lparr>init_start := is, loop_start := ls\<rparr>;
     let obj_start = HEADER_SIZE;
     n \<leftarrow> hdr_read_keys_len stream;
     let st = st\<lparr>read_keys_count := ucast (n div 4), read_keys_start := obj_start\<rparr>;
     let obj_start = obj_start + n;
     if read_keys_start st mod 4 \<noteq> 0 then Some (VM_STATUS_READ_KEYS_MISALIGN, st, obj_start)
     else do {
       n \<leftarrow> hdr_write_keys_len stream;
       let st = st\<lparr>write_keys_count := ucast (n div 4), write_keys_start := obj_start\<rparr>;
       let obj_start = obj_start + n;
       if write_keys_start st mod 4 \<noteq> 0 then Some (VM_STATUS_WRITE_KEYS_MISALIGN, st, obj_start)
       else do {
         n \<leftarrow> hdr_publish_len stream;
         let st = st\<lparr>publish_count := ucast (n div 8), publish_start := obj_start\<rparr>;
         let obj_start = obj_start + n;
         if publish_start st mod 4 \<noteq> 0 then Some (VM_STATUS_PUBLISH_VARS_MISALIGN, st, obj_start)
         else do {
           n \<leftarrow> hdr_pix_obj_len stream;
           let st = st\<lparr>pix_obj_count := ucast (n div 12), pix_obj_start := obj_start\<rparr>;
           let obj_start = obj_start + n;
           if pix_obj_start st mod 4 \<noteq> 0 then Some (VM_STATUS_PIXEL_MISALIGN, st, obj_start)
           else Some (VM_STATUS_OK, st, obj_start) } } } }"

definition load_code :: "u8 list \<Rightarrow> u16 \<Rightarrow> vm_state \<Rightarrow> (int \<times> vm_state) option" where
  "load_code stream obj_start st = do {
     let st = st\<lparr>code_start := obj_start\<rparr>;
     code_magic \<leftarrow> rd32 stream (unat (code_start st));
     if code_magic \<noteq> CODE_MAGIC then Some (VM_STATUS_ERR_BAD_CODE_MAGIC, st)
     else do {
       let st = st\<lparr>code_start := code_start st + 4\<rparr>;
       cl \<leftarrow> hdr_code_len stream;
       dl \<leftarrow> hdr_data_len stream;
       let st = st\<lparr>data_start := code_start st + cl, data_len := dl, data_count := dl div DATA_LEN\<rparr>;
       data_magic \<leftarrow> rd32 stream (unat (data_start st));
       if data_magic \<noteq> DATA_MAGIC then Some (VM_STATUS_ERR_BAD_DATA_MAGIC, st)
       else Some (VM_STATUS_OK, st\<lparr>data_start := data_start st + 4, rng_seed := 1, frame_number := 0\<rparr>) } }"

definition vm_i8_load_program :: "u8 \<Rightarrow> u8 list \<Rightarrow> u16 \<Rightarrow> (int \<times> vm_state) option" where
  "vm_i8_load_program flags stream len = do {
     let st = vm_state_zero;
     status \<leftarrow> load_check flags stream len;
     if status \<noteq> VM_STATUS_OK then Some (status, st)
     else do {
       (status, st, obj_start) \<leftarrow> load_sections stream st;
       if status \<noteq> VM_STATUS_OK then Some (status, st)
       else if flags AND VM_LOAD_FLAGS_CHECK_HEADER \<noteq> 0 then Some (VM_STATUS_OK, st)
       else load_code stream obj_start st } }"

section \<open>The data table\<close>

text \<open>\<open>int32_t *data_table = (int32_t *)( stream + state->data_start )\<close>: the table must be aligned.\<close>

definition data_table :: "vm_state \<Rightarrow> nat option" where
  "data_table st = (if data_start st mod 4 = 0 then Some (unat (data_start st)) else None)"

definition vm_i32_get_data :: "u8 list \<Rightarrow> vm_state \<Rightarrow> u8 \<Rightarrow> i32 option" where
  "vm_i32_get_data stream st addr =
     (if unat addr \<ge> unat (data_count st) then Some 0
      else do {
        tab \<leftarrow> data_table st;
        rd32 stream (tab + 4 * unat addr) })"

definition vm_v_set_data :: "u8 list \<Rightarrow> vm_state \<Rightarrow> u8 \<Rightarrow> i32 \<Rightarrow> u8 list option" where
  "vm_v_set_data stream st addr v =
     (if unat addr \<ge> unat (data_count st) then Some stream
      else do {
        tab \<leftarrow> data_table st;
        wr32 stream (tab + 4 * unat addr) v })"

text \<open>The loop of \<open>vm_v_get_data_multi\<close>; its counter \<open>addr\<close> is a byte.  The result is what is stored at \<open>dest\<close>.\<close>

fun get_multi :: "u8 list \<Rightarrow> nat \<Rightarrow> u8 \<Rightarrow> nat \<Rightarrow> i32 list option" where
  "get_multi stream tab addr 0 = Some []"
| "get_multi stream tab addr (Suc n) = do {
     v \<leftarrow> rd32 stream (tab + 4 * unat addr);
     vs \<leftarrow> get_multi stream tab (addr + 1) n;
     Some (v # vs) }"

definition vm_v_get_data_multi :: "u8 list \<Rightarrow> vm_state \<Rightarrow> u8 \<Rightarrow> u16 \<Rightarrow> i32 list option" where
  "vm_v_get_data_multi stream st addr len =
     (if unat addr + unat len > unat (data_count st) then Some []
      else do {
        tab \<leftarrow> data_table st;
        get_multi stream tab addr (unat len) })"

section \<open>What an accepted image satisfies\<close>

lemma load_check_OK:
  "load_check flags stream len = Some VM_STATUS_OK \<longleftrightarrow>
     (flags AND VM_LOAD_FLAGS_CHECK_HEADER = 0 \<longrightarrow> crc_u16_block stream len = Some 0)
     \<and> hdr_file_magic stream = Some FILE_MAGIC \<and> hdr_prog_magic stream = Some PROGRAM_MAGIC
     \<and> hdr_isa_version stream = Some VM_ISA_VERSION"
  by (auto simp: load_check_def bind_eq_Some_conv split: if_splits)

lemma load_sections_OK:
  assumes "load_sections stream s0 = Some (VM_STATUS_OK, st, obj)"
  shows "\<exists>rk wk pb px i l. hdr_read_keys_len stream = Some rk \<and> hdr_write_keys_len stream = Some wk
    \<and> hdr_publish_len stream = Some pb \<and> hdr_pix_obj_len stream = Some px
    \<and> hdr_init_start stream = Some i \<and> hdr_loop_start stream = Some l
    \<and> obj = 28 + rk + wk + pb + px
    \<and> (28 + rk) mod 4 = 0 \<and> (28 + rk + wk) mod 4 = 0 \<and> (28 + rk + wk + pb) mod 4 = 0
    \<and> st = s0\<lparr>init_start := i, loop_start := l,
          read_keys_count := ucast (rk div 4), read_keys_start := 28,
          write_keys_count := ucast (wk div 4), write_keys_start := 28 + rk,
          publish_count := ucast (pb div 8), publish_start := 28 + rk + wk,
          pix_obj_count := ucast (px div 12), pix_obj_start := 28 + rk + wk + pb\<rparr>"
  using assms unfolding load_sections_def Let_def
  by (auto simp: bind_eq_Some_conv split: if_splits)

lemma load_sections_total:
  assumes "hdr_init_start stream = Some i" and "hdr_loop_start stream = Some l"
    and "hdr_read_keys_len stream = Some rk" and "hdr_write_keys_len stream = Some wk"
    and "hdr_publish_len stream = Some pb" and "hdr_pix_obj_len stream = Some px"
    and "(28 + rk) mod 4 = 0" and "(28 + rk + wk) mod 4 = 0" and "(28 + rk + wk + pb) mod 4 = 0"
  shows "load_sections stream s0 = Some (VM_STATUS_OK, s0\<lparr>init_start := i, loop_start := l,
          read_keys_count := ucast (rk div 4), read_keys_start := 28,
          write_keys_count := ucast (wk div 4), write_keys_start := 28 + rk,
          publish_count := ucast (pb div 8), publish_start := 28 + rk + wk,
          pix_obj_count := ucast (px div 12), pix_obj_start := 28 + rk + wk + pb\<rparr>, 28 + rk + wk + pb + px)"
  using assms unfolding load_sections_def by (simp add: Let_def)

lemma load_code_OK:
  "load_code stream obj s0 = Some (VM_STATUS_OK, st) \<longleftrightarrow>
     rd32 stream (unat obj) = Some CODE_MAGIC
     \<and> (\<exists>cl dl. hdr_code_len stream = Some cl \<and> hdr_data_len stream = Some dl
          \<and> rd32 stream (unat (obj + 4 + cl)) = Some DATA_MAGIC
          \<and> st = s0\<lparr>code_start := obj + 4, data_start := obj + 4 + cl + 4, data_len := dl,
                data_count := dl div 4, rng_seed := 1, frame_number := 0\<rparr>)"
  unfolding load_code_def Let_def by (auto simp: bind_eq_Some_conv split: if_splits)

lemma load_program_OK:
  "vm_i8_load_program 0 stream len = Some (VM_STATUS_OK, st) \<longleftrightarrow>
     load_check 0 stream len = Some VM_STATUS_OK
     \<and> (\<exists>s1 obj. load_sections stream vm_state_zero = Some (VM_STATUS_OK, s1, obj)
          \<and> load_code stream obj s1 = Some (VM_STATUS_OK, st))"
  unfolding vm_i8_load_program_def Let_def by (auto simp: bind_eq_Some_conv split: if_splits)

section \<open>Building an image\<close>

text \<open>The sections of a program, and the image a compiler lays out for the loader.\<close>

record vm_program =
  prog_init :: u16
  prog_loop :: u16
  prog_read_keys :: "u8 list"
  prog_write_keys :: "u8 list"
  prog_publish :: "u8 list"
  prog_pix_objs :: "u8 list"
  prog_code :: "u8 list"
  prog_data :: "u8 list"

abbreviation len16 :: "'a list \<Rightarrow> u16" where "len16 xs \<equiv> word_of_nat (length xs)"

definition image_header :: "vm_program \<Rightarrow> u8 list" where
  "image_header p =
     bytes32 FILE_MAGIC @ bytes32 PROGRAM_MAGIC @ bytes16 VM_ISA_VERSION
     @ bytes16 (len16 (prog_code p)) @ bytes16 (len16 (prog_data p))
     @ bytes16 (len16 (prog_read_keys p)) @ bytes16 (len16 (prog_write_keys p))
     @ bytes16 (len16 (prog_publish p)) @ bytes16 (len16 (prog_pix_objs p))
     @ bytes16 0 @ bytes16 (prog_init p) @ bytes16 (prog_loop p)"

definition image_body :: "vm_program \<Rightarrow> u8 list" where
  "image_body p = image_header p @ prog_read_keys p @ prog_write_keys p @ prog_publish p @ prog_pix_objs p
     @ bytes32 CODE_MAGIC @ prog_code p @ bytes32 DATA_MAGIC @ prog_data p"

definition image_of :: "vm_program \<Rightarrow> u8 list" where
  "image_of p = (let body = image_body p in
     (case crc_u16_block body (len16 body) of None \<Rightarrow> [] | Some c \<Rightarrow> body @ [ucast (drop_bit 8 c), ucast c]))"

definition program_ok :: "vm_program \<Rightarrow> bool" where
  "program_ok p \<longleftrightarrow> length (image_body p) + 2 < 65536
     \<and> length (prog_read_keys p) mod 4 = 0 \<and> length (prog_write_keys p) mod 4 = 0
     \<and> length (prog_publish p) mod 4 = 0"

lemma length_image_header [simp]: "length (image_header p) = 28"
  by (simp add: image_header_def)

lemma rd16_in: "length pre = a \<Longrightarrow> rd16 (pre @ bytes16 w @ post) a = Some w"
  using rd16_bytes by blast

lemma rd32_in: "length pre = a \<Longrightarrow> rd32 (pre @ bytes32 w @ post) a = Some w"
  using rd32_bytes by blast

lemma image_header_fields:
  "hdr_file_magic (image_header p @ rest) = Some FILE_MAGIC"
  "hdr_prog_magic (image_header p @ rest) = Some PROGRAM_MAGIC"
  "hdr_isa_version (image_header p @ rest) = Some VM_ISA_VERSION"
  "hdr_code_len (image_header p @ rest) = Some (len16 (prog_code p))"
  "hdr_data_len (image_header p @ rest) = Some (len16 (prog_data p))"
  "hdr_read_keys_len (image_header p @ rest) = Some (len16 (prog_read_keys p))"
  "hdr_write_keys_len (image_header p @ rest) = Some (len16 (prog_write_keys p))"
  "hdr_publish_len (image_header p @ rest) = Some (len16 (prog_publish p))"
  "hdr_pix_obj_len (image_header p @ rest) = Some (len16 (prog_pix_objs p))"
  "hdr_init_start (image_header p @ rest) = Some (prog_init p)"
  "hdr_loop_start (image_header p @ rest) = Some (prog_loop p)"
proof -
  let ?m1 = "bytes32 FILE_MAGIC" and ?m2 = "bytes32 PROGRAM_MAGIC" and ?v = "bytes16 VM_ISA_VERSION"
  let ?cl = "bytes16 (len16 (prog_code p))" and ?dl = "bytes16 (len16 (prog_data p))"
  let ?rk = "bytes16 (len16 (prog_read_keys p))" and ?wk = "bytes16 (len16 (prog_write_keys p))"
  let ?pb = "bytes16 (len16 (prog_publish p))" and ?px = "bytes16 (len16 (prog_pix_objs p))"
  note split = image_header_def append_assoc
  show "hdr_file_magic (image_header p @ rest) = Some FILE_MAGIC"
    unfolding split using rd32_in [of "[]" 0] by simp
  show "hdr_prog_magic (image_header p @ rest) = Some PROGRAM_MAGIC"
    unfolding split by (rule rd32_in) simp
  show "hdr_isa_version (image_header p @ rest) = Some VM_ISA_VERSION"
    unfolding split using rd16_in [of "?m1 @ ?m2" 8] by simp
  show "hdr_code_len (image_header p @ rest) = Some (len16 (prog_code p))"
    unfolding split using rd16_in [of "?m1 @ ?m2 @ ?v" 10] by simp
  show "hdr_data_len (image_header p @ rest) = Some (len16 (prog_data p))"
    unfolding split using rd16_in [of "?m1 @ ?m2 @ ?v @ ?cl" 12] by simp
  show "hdr_read_keys_len (image_header p @ rest) = Some (len16 (prog_read_keys p))"
    unfolding split using rd16_in [of "?m1 @ ?m2 @ ?v @ ?cl @ ?dl" 14] by simp
  show "hdr_write_keys_len (image_header p @ rest) = Some (len16 (prog_write_keys p))"
    unfolding split using rd16_in [of "?m1 @ ?m2 @ ?v @ ?cl @ ?dl @ ?rk" 16] by simp
  show "hdr_publish_len (image_header p @ rest) = Some (len16 (prog_publish p))"
    unfolding split using rd16_in [of "?m1 @ ?m2 @ ?v @ ?cl @ ?dl @ ?rk @ ?wk" 18] by simp
  show "hdr_pix_obj_len (image_header p @ rest) = Some (len16 (prog_pix_objs p))"
    unfolding split using rd16_in [of "?m1 @ ?m2 @ ?v @ ?cl @ ?dl @ ?rk @ ?wk @ ?pb" 20] by simp
  show "hdr_init_start (image_header p @ rest) = Some (prog_init p)"
    unfolding split
    using rd16_in [of "?m1 @ ?m2 @ ?v @ ?cl @ ?dl @ ?rk @ ?wk @ ?pb @ ?px @ bytes16 0" 24] by simp
  show "hdr_loop_start (image_header p @ rest) = Some (prog_loop p)"
    unfolding split
    using rd16_in [of "?m1 @ ?m2 @ ?v @ ?cl @ ?dl @ ?rk @ ?wk @ ?pb @ ?px @ bytes16 0 @ bytes16 (prog_init p)" 26]
    by simp
qed

lemma crc_u16_block_total: "length bs < 65536 \<Longrightarrow> \<exists>c. crc_u16_block bs (len16 bs) = Some c"
  using crc_u16_block_eq [of bs "len16 bs"] by (simp add: unat_of_nat16)

lemma image_of_eq:
  assumes "program_ok p"
  obtains c :: u16 where "image_of p = image_body p @ [ucast (drop_bit 8 c), ucast c]"
    and "crc_u16_block (image_of p) (len16 (image_of p)) = Some 0"
proof -
  have len: "length (image_body p) + 2 < 2 ^ 16" using assms by (simp add: program_ok_def)
  then obtain c where c: "crc_u16_block (image_body p) (len16 (image_body p)) = Some c"
    using crc_u16_block_total [of "image_body p"] by auto
  show thesis
    by (rule that [of c]) (use crc_residue [OF len c] c in \<open>simp_all add: image_of_def Let_def\<close>)
qed

lemma word_mod4: "n < 65536 \<Longrightarrow> (word_of_nat n :: u16) mod 4 = 0 \<longleftrightarrow> n mod 4 = 0"
  by (simp add: word_unat_eq_iff unat_mod unat_of_nat16)

definition section_at :: "u8 list \<Rightarrow> u16 \<Rightarrow> u8 list \<Rightarrow> bool" where
  "section_at img start bytes \<longleftrightarrow> take (length bytes) (drop (unat start) img) = bytes"

lemma section_atI: "img = pre @ bytes @ post \<Longrightarrow> length pre < 65536 \<Longrightarrow> section_at img (len16 pre) bytes"
  by (simp add: section_at_def unat_of_nat16)

text \<open>What precedes each section of the image, and where the loader looks for it.\<close>

definition upto_read_keys :: "vm_program \<Rightarrow> u8 list" where "upto_read_keys p = image_header p @ prog_read_keys p"
definition upto_write_keys :: "vm_program \<Rightarrow> u8 list" where "upto_write_keys p = upto_read_keys p @ prog_write_keys p"
definition upto_publish :: "vm_program \<Rightarrow> u8 list" where "upto_publish p = upto_write_keys p @ prog_publish p"
definition upto_pix_objs :: "vm_program \<Rightarrow> u8 list" where "upto_pix_objs p = upto_publish p @ prog_pix_objs p"
definition upto_code_magic :: "vm_program \<Rightarrow> u8 list" where "upto_code_magic p = upto_pix_objs p @ bytes32 CODE_MAGIC"
definition upto_code :: "vm_program \<Rightarrow> u8 list" where "upto_code p = upto_code_magic p @ prog_code p"
definition upto_data_magic :: "vm_program \<Rightarrow> u8 list" where "upto_data_magic p = upto_code p @ bytes32 DATA_MAGIC"

lemmas upto_defs = upto_read_keys_def upto_write_keys_def upto_publish_def upto_pix_objs_def
  upto_code_magic_def upto_code_def upto_data_magic_def

lemma image_starts:
  "28 + len16 (prog_read_keys p) = len16 (upto_read_keys p)"
  "len16 (upto_read_keys p) + len16 (prog_write_keys p) = len16 (upto_write_keys p)"
  "len16 (upto_write_keys p) + len16 (prog_publish p) = len16 (upto_publish p)"
  "len16 (upto_publish p) + len16 (prog_pix_objs p) = len16 (upto_pix_objs p)"
  "len16 (upto_pix_objs p) + 4 = len16 (upto_code_magic p)"
  "len16 (upto_code_magic p) + len16 (prog_code p) = len16 (upto_code p)"
  "len16 (upto_code p) + 4 = len16 (upto_data_magic p)"
  by (simp_all add: upto_defs)

lemma image_prefixes:
  assumes "img = image_body p @ tail"
  shows "\<exists>r. img = image_header p @ prog_read_keys p @ r"
    and "\<exists>r. img = upto_read_keys p @ prog_write_keys p @ r"
    and "\<exists>r. img = upto_write_keys p @ prog_publish p @ r"
    and "\<exists>r. img = upto_publish p @ prog_pix_objs p @ r"
    and "\<exists>r. img = upto_pix_objs p @ bytes32 CODE_MAGIC @ r"
    and "\<exists>r. img = upto_code_magic p @ prog_code p @ r"
    and "\<exists>r. img = upto_code p @ bytes32 DATA_MAGIC @ r"
    and "\<exists>r. img = upto_data_magic p @ prog_data p @ r"
  by (simp_all add: assms image_body_def upto_defs)

lemma program_ok_lengths:
  assumes "program_ok p"
  shows "length (upto_data_magic p) + length (prog_data p) < 65534"
    and "length (upto_read_keys p) < 65536" and "length (upto_write_keys p) < 65536"
    and "length (upto_publish p) < 65536" and "length (upto_pix_objs p) < 65536"
    and "length (upto_code_magic p) < 65536" and "length (upto_code p) < 65536"
    and "length (upto_data_magic p) < 65536"
    and "length (upto_read_keys p) mod 4 = 0" and "length (upto_write_keys p) mod 4 = 0"
    and "length (upto_publish p) mod 4 = 0"
  using assms by (simp_all add: program_ok_def image_body_def upto_defs) presburger+

lemma crc_padded: "unat len \<le> length bs \<Longrightarrow> crc_u16_block (bs @ pad) len = crc_u16_block bs len"
  by (simp add: crc_u16_block_def crc_u16_partial_block_def crc_u16_loop_eq)

text \<open>The image may lie at the start of a larger array.\<close>

lemma image_padded:
  assumes "program_ok p"
  obtains tail where "image_of p @ pad = image_body p @ tail"
    and "load_check 0 (image_of p @ pad) (len16 (image_of p)) = Some VM_STATUS_OK"
proof -
  obtain c :: u16 where img: "image_of p = image_body p @ [ucast (drop_bit 8 c), ucast c]"
    and crc: "crc_u16_block (image_of p) (len16 (image_of p)) = Some 0"
    by (rule image_of_eq [OF assms])
  have "length (image_of p) < 65536" using assms img by (simp add: program_ok_def)
  then have crc: "crc_u16_block (image_of p @ pad) (len16 (image_of p)) = Some 0"
    using crc crc_padded [of "len16 (image_of p)" "image_of p" pad] by (simp add: unat_of_nat16)
  from img obtain rest where "image_of p @ pad = image_header p @ rest" by (simp add: image_body_def)
  then have "load_check 0 (image_of p @ pad) (len16 (image_of p)) = Some VM_STATUS_OK"
    unfolding load_check_OK using crc image_header_fields(1-3) by simp
  then show thesis using that img by simp
qed

definition image_state :: "vm_program \<Rightarrow> vm_state" where
  "image_state p = \<lparr>code_start = len16 (upto_code_magic p), data_start = len16 (upto_data_magic p), prog_size = 0,
     data_len = len16 (prog_data p), data_count = len16 (prog_data p) div 4,
     init_start = prog_init p, loop_start = prog_loop p, frame_number = 0, rng_seed = 1, max_cycles = 0,
     read_keys_count = ucast (len16 (prog_read_keys p) div 4), read_keys_start = 28,
     write_keys_count = ucast (len16 (prog_write_keys p) div 4), write_keys_start = len16 (upto_read_keys p),
     publish_count = ucast (len16 (prog_publish p) div 8), publish_start = len16 (upto_write_keys p),
     pix_obj_count = ucast (len16 (prog_pix_objs p) div 12), pix_obj_start = len16 (upto_publish p)\<rparr>"

lemma image_load:
  assumes "program_ok p"
  shows "vm_i8_load_program 0 (image_of p @ pad) (len16 (image_of p)) = Some (VM_STATUS_OK, image_state p)"
proof -
  let ?img = "image_of p @ pad"
  obtain tail where img: "?img = image_body p @ tail" and check: "load_check 0 ?img (len16 (image_of p)) = Some VM_STATUS_OK"
    by (rule image_padded [OF assms])
  then obtain rest where h: "?img = image_header p @ rest" by (simp add: image_body_def)
  note fields = image_header_fields [of p rest, folded h]
  note ok = program_ok_lengths [OF assms]
  define s1 where "s1 = (image_state p)\<lparr>code_start := 0, data_start := 0, data_len := 0, data_count := 0, rng_seed := 0\<rparr>"
  have "load_sections ?img vm_state_zero = Some (VM_STATUS_OK, s1, len16 (upto_pix_objs p))"
    using load_sections_total [OF fields(10,11,6-9), of vm_state_zero] ok(9-11)
      word_mod4 [OF ok(2)] word_mod4 [OF ok(3)] word_mod4 [OF ok(4)]
    unfolding image_starts s1_def image_state_def vm_state_zero_def by (simp only: simp_thms vm_state.simps)
  moreover have cm: "rd32 ?img (unat (len16 (upto_pix_objs p))) = Some CODE_MAGIC"
    using image_prefixes(5) [OF img] rd32_bytes unat_of_nat16 [OF ok(5)] by metis
  moreover have dm: "rd32 ?img (unat (len16 (upto_code p))) = Some DATA_MAGIC"
    using image_prefixes(7) [OF img] rd32_bytes unat_of_nat16 [OF ok(7)] by metis
  moreover have "load_code ?img (len16 (upto_pix_objs p)) s1 = Some (VM_STATUS_OK, image_state p)"
    unfolding load_code_OK
    by (intro conjI exI [of _ "len16 (prog_code p)"] exI [of _ "len16 (prog_data p)"])
      (simp_all only: image_starts cm dm fields s1_def image_state_def vm_state.simps)
  ultimately show ?thesis
    unfolding load_program_OK using check by blast
qed

lemma image_sections:
  assumes "program_ok p"
  shows "section_at (image_of p @ pad) (read_keys_start (image_state p)) (prog_read_keys p)"
    and "section_at (image_of p @ pad) (write_keys_start (image_state p)) (prog_write_keys p)"
    and "section_at (image_of p @ pad) (publish_start (image_state p)) (prog_publish p)"
    and "section_at (image_of p @ pad) (pix_obj_start (image_state p)) (prog_pix_objs p)"
    and "section_at (image_of p @ pad) (code_start (image_state p)) (prog_code p)"
    and "section_at (image_of p @ pad) (data_start (image_state p)) (prog_data p)"
    and "unat (data_count (image_state p)) = length (prog_data p) div 4"
proof -
  obtain tail where img: "image_of p @ pad = image_body p @ tail" by (rule image_padded [OF assms])
  note pre = image_prefixes [OF img] and ok = program_ok_lengths [OF assms]
  obtain r where "image_of p @ pad = image_header p @ prog_read_keys p @ r" using pre(1) by blast
  from section_atI [OF this] show "section_at (image_of p @ pad) (read_keys_start (image_state p)) (prog_read_keys p)"
    by (simp add: image_state_def)
  show "section_at (image_of p @ pad) (write_keys_start (image_state p)) (prog_write_keys p)"
    "section_at (image_of p @ pad) (publish_start (image_state p)) (prog_publish p)"
    "section_at (image_of p @ pad) (pix_obj_start (image_state p)) (prog_pix_objs p)"
    "section_at (image_of p @ pad) (code_start (image_state p)) (prog_code p)"
    "section_at (image_of p @ pad) (data_start (image_state p)) (prog_data p)"
    using pre(2-4,6,8) ok(2-8) section_atI unfolding image_state_def vm_state.simps by metis+
  show "unat (data_count (image_state p)) = length (prog_data p) div 4"
    using ok(1) by (simp add: image_state_def unat_div unat_of_nat16)
qed

section \<open>Properties\<close>

text \<open>
  C19 What the loader guarantees of an image it accepts: the checksum over the given length
  is right, the three magic words and the version are in place, the sections follow one another in
  16-bit arithmetic, those before the pixel objects start on a multiple of 4, the data count is the
  number of whole words, and the machine starts at frame 0 with a non-zero seed.  The code and the
  data are not in this list: the loader does not check their alignment, its caller does.
\<close>

theorem load_program_accepts:
  assumes "vm_i8_load_program 0 stream len = Some (VM_STATUS_OK, st)"
  shows "crc_u16_block stream len = Some 0
    \<and> rd32 stream 0 = Some FILE_MAGIC \<and> rd32 stream 4 = Some PROGRAM_MAGIC \<and> rd16 stream 8 = Some VM_ISA_VERSION
    \<and> (\<exists>rk wk pb px cl. rd16 stream 14 = Some rk \<and> rd16 stream 16 = Some wk \<and> rd16 stream 18 = Some pb
          \<and> rd16 stream 20 = Some px \<and> rd16 stream 10 = Some cl \<and> rd16 stream 12 = Some (data_len st)
          \<and> read_keys_start st = 28 \<and> write_keys_start st = 28 + rk \<and> publish_start st = 28 + rk + wk
          \<and> pix_obj_start st = 28 + rk + wk + pb \<and> code_start st = 28 + rk + wk + pb + px + 4
          \<and> data_start st = code_start st + cl + 4)
    \<and> write_keys_start st mod 4 = 0 \<and> publish_start st mod 4 = 0 \<and> pix_obj_start st mod 4 = 0
    \<and> rd32 stream (unat (code_start st - 4)) = Some CODE_MAGIC
    \<and> rd32 stream (unat (data_start st - 4)) = Some DATA_MAGIC
    \<and> data_count st = data_len st div 4 \<and> rng_seed st = 1 \<and> frame_number st = 0"
proof -
  obtain s1 obj where s: "load_check 0 stream len = Some VM_STATUS_OK"
    "load_sections stream vm_state_zero = Some (VM_STATUS_OK, s1, obj)"
    "load_code stream obj s1 = Some (VM_STATUS_OK, st)"
    using assms unfolding load_program_OK by blast
  from s(1) have c: "crc_u16_block stream len = Some 0" "rd32 stream 0 = Some FILE_MAGIC"
    "rd32 stream 4 = Some PROGRAM_MAGIC" "rd16 stream 8 = Some VM_ISA_VERSION"
    unfolding load_check_OK by simp_all
  from load_sections_OK [OF s(2)] obtain rk wk pb px where l:
    "rd16 stream 14 = Some rk" "rd16 stream 16 = Some wk" "rd16 stream 18 = Some pb" "rd16 stream 20 = Some px"
    "obj = 28 + rk + wk + pb + px" "(28 + rk) mod 4 = 0" "(28 + rk + wk) mod 4 = 0"
    "(28 + rk + wk + pb) mod 4 = 0" "read_keys_start s1 = 28" "write_keys_start s1 = 28 + rk"
    "publish_start s1 = 28 + rk + wk" "pix_obj_start s1 = 28 + rk + wk + pb"
    by (elim exE conjE) (rule that; simp)
  from s(3) [unfolded load_code_OK] obtain cl dl where d: "rd16 stream 10 = Some cl" "rd16 stream 12 = Some dl"
    "rd32 stream (unat obj) = Some CODE_MAGIC" "rd32 stream (unat (obj + 4 + cl)) = Some DATA_MAGIC"
    "st = s1\<lparr>code_start := obj + 4, data_start := obj + 4 + cl + 4, data_len := dl, data_count := dl div 4,
      rng_seed := 1, frame_number := 0\<rparr>" by blast
  show ?thesis using c l d by (simp add: ac_simps)
qed

text \<open>A program with an empty main function: one \<open>ret\<close> of data word 0, and two data words.\<close>

definition sample_program :: vm_program where
  "sample_program = \<lparr>prog_init = 0, prog_loop = 0, prog_read_keys = [], prog_write_keys = [1, 2, 3, 4],
     prog_publish = [], prog_pix_objs = [], prog_code = [22, 0, 0, 0], prog_data = [7, 0, 0, 0, 9, 0, 0, 0]\<rparr>"

lemma sample_program_loads:
  "map_option (\<lambda>(status, st). (status, data_count st, code_start st, data_start st))
     (vm_i8_load_program 0 (image_of sample_program) 54) = Some (VM_STATUS_OK, 2, 36, 44)"
  by code_simp

lemma load_program_accepts_witness:
  "\<exists>st. vm_i8_load_program 0 (image_of sample_program) 54 = Some (VM_STATUS_OK, st)
     \<and> rd32 (image_of sample_program) (unat (code_start st - 4)) = Some CODE_MAGIC"
proof -
  obtain st where st: "vm_i8_load_program 0 (image_of sample_program) 54 = Some (VM_STATUS_OK, st)"
    using sample_program_loads by auto
  from load_program_accepts [OF this] st show ?thesis by blast
qed

text \<open>
  C18 The loader accepts what a compiler lays out: for every program whose image fits in 16 bits
  and whose key and publish sections are whole words, the image with its checksum loads with status
  OK, and the state points at exactly the program's sections, entry points and number of data words.
\<close>

theorem image_of_loads:
  assumes "program_ok p"
  shows "\<exists>st. vm_i8_load_program 0 (image_of p) (len16 (image_of p)) = Some (VM_STATUS_OK, st)
    \<and> init_start st = prog_init p \<and> loop_start st = prog_loop p
    \<and> section_at (image_of p) (read_keys_start st) (prog_read_keys p)
    \<and> section_at (image_of p) (write_keys_start st) (prog_write_keys p)
    \<and> section_at (image_of p) (publish_start st) (prog_publish p)
    \<and> section_at (image_of p) (pix_obj_start st) (prog_pix_objs p)
    \<and> section_at (image_of p) (code_start st) (prog_code p)
    \<and> section_at (image_of p) (data_start st) (prog_data p)
    \<and> unat (data_count st) = length (prog_data p) div 4"
  using image_load [OF assms, of "[]"] image_sections(1-6) [OF assms, of "[]"] image_sections(7) [OF assms]
  by (intro exI [of _ "image_state p"]) (simp add: image_state_def)

lemma image_of_loads_witness:
  "\<exists>st. vm_i8_load_program 0 (image_of sample_program) (len16 (image_of sample_program)) = Some (VM_STATUS_OK, st)
     \<and> section_at (image_of sample_program) (data_start st) [7, 0, 0, 0, 9, 0, 0, 0]"
proof -
  have ok: "program_ok sample_program" by (simp add: program_ok_def image_body_def sample_program_def)
  have "prog_data sample_program = [7, 0, 0, 0, 9, 0, 0, 0]" by (simp add: sample_program_def)
  then show ?thesis using image_of_loads [OF ok] by metis
qed

text \<open>The data table lies in the memory and is aligned.\<close>

definition table_ok :: "u8 list \<Rightarrow> vm_state \<Rightarrow> bool" where
  "table_ok stream st \<longleftrightarrow> data_start st mod 4 = 0
     \<and> unat (data_start st) + 4 * unat (data_count st) \<le> length stream"

lemma set_get_data:
  assumes "table_ok stream st"
  shows "\<exists>stream'. vm_v_set_data stream st addr v = Some stream' \<and> length stream' = length stream
    \<and> (\<forall>b. vm_i32_get_data stream' st b =
          (if b = addr \<and> unat addr < unat (data_count st) then Some v else vm_i32_get_data stream st b))
    \<and> (\<forall>i. i < unat (data_start st) \<or> unat (data_start st) + 4 * unat (data_count st) \<le> i
          \<longrightarrow> stream' ! i = stream ! i)"
proof (cases "unat addr < unat (data_count st)")
  case False
  then show ?thesis by (auto simp: vm_v_set_data_def)
next
  case True
  let ?t = "unat (data_start st)"
  have al: "data_table st = Some ?t" using assms by (simp add: table_ok_def data_table_def)
  have fits: "?t + 4 * unat b + 4 \<le> length stream" if "unat b < unat (data_count st)" for b :: u8
    using assms that unfolding table_ok_def by linarith
  let ?s = "put_bytes stream (?t + 4 * unat addr) (bytes32 v)"
  have set: "vm_v_set_data stream st addr v = Some ?s"
    using True fits [OF True] by (simp add: vm_v_set_data_def al wr32_def)
  have get: "vm_i32_get_data ?s st b = (if b = addr then Some v else vm_i32_get_data stream st b)" for b
  proof (cases "unat b < unat (data_count st)")
    case inb: True
    show ?thesis
    proof (cases "b = addr")
      case True
      then show ?thesis using inb fits [OF inb] by (simp add: vm_i32_get_data_def al rd32_put_same)
    next
      case False
      then have "unat b < unat addr \<or> unat addr < unat b" by (auto simp: word_unat_eq_iff)
      then have "?t + 4 * unat b + 4 \<le> ?t + 4 * unat addr \<or> ?t + 4 * unat addr + 4 \<le> ?t + 4 * unat b"
        by linarith
      then show ?thesis using False inb rd32_put_other [OF fits [OF True]]
        by (simp add: vm_i32_get_data_def al)
    qed
  next
    case False
    then show ?thesis using True by (auto simp: vm_i32_get_data_def)
  qed
  have "?s ! i = stream ! i" if "i < ?t \<or> ?t + 4 * unat (data_count st) \<le> i" for i
    using fits [OF True] that True by (subst nth_put_bytes) auto
  then show ?thesis using set get True fits [OF True] by auto
qed

text \<open>
  Writing a data word from outside changes that word and no other, and only if it is
  one of the table: reading any word afterwards gives the new value at the written address and the
  old one elsewhere (0 behind the end of the table, before and after), and no byte outside the
  table changes.
\<close>

theorem vm_set_get_data:
  assumes "table_ok stream st"
  shows "\<exists>stream'. vm_v_set_data stream st addr v = Some stream' \<and> length stream' = length stream
    \<and> (\<forall>b. vm_i32_get_data stream' st b =
          (if b = addr \<and> unat addr < unat (data_count st) then Some v else vm_i32_get_data stream st b))
    \<and> (\<forall>i. i < unat (data_start st) \<or> unat (data_start st) + 4 * unat (data_count st) \<le> i
          \<longrightarrow> stream' ! i = stream ! i)"
  by (rule set_get_data [OF assms])

definition sample_vm_state :: vm_state where
  "sample_vm_state = vm_state_zero\<lparr>data_start := 4, data_count := 2\<rparr>"

lemma vm_set_get_data_witness:
  "\<exists>stream'. vm_v_set_data [1, 2, 3, 4, 5, 6, 7, 8, 9, 10, 11, 12, 13] sample_vm_state 1 77 = Some stream'
     \<and> vm_i32_get_data stream' sample_vm_state 1 = Some 77 \<and> vm_i32_get_data stream' sample_vm_state 2 = Some 0"
proof -
  have ok: "table_ok [1, 2, 3, 4, 5, 6, 7, 8, 9, 10, 11, 12, 13] sample_vm_state"
    by (simp add: table_ok_def sample_vm_state_def)
  have "1 < unat (data_count sample_vm_state)"
    "vm_i32_get_data [1, 2, 3, 4, 5, 6, 7, 8, 9, 10, 11, 12, 13] sample_vm_state 2 = Some 0"
    by (simp_all add: sample_vm_state_def vm_i32_get_data_def)
  then show ?thesis using vm_set_get_data [OF ok, of 1 77] by auto
qed

lemma get_multi_nth:
  assumes "get_multi stream tab addr n = Some vs"
  shows "length vs = n \<and> (\<forall>i < n. rd32 stream (tab + 4 * unat (addr + word_of_nat i)) = Some (vs ! i))"
  using assms
proof (induction n arbitrary: addr vs)
  case (Suc n)
  then obtain v ws where v: "rd32 stream (tab + 4 * unat addr) = Some v"
    "get_multi stream tab (addr + 1) n = Some ws" "vs = v # ws"
    by (auto simp: bind_eq_Some_conv)
  have IH: "length ws = n"
    "\<And>i. i < n \<Longrightarrow> rd32 stream (tab + 4 * unat (addr + 1 + word_of_nat i)) = Some (ws ! i)"
    using Suc.IH [OF v(2)] by auto
  have "rd32 stream (tab + 4 * unat (addr + word_of_nat i)) = Some (vs ! i)" if "i < Suc n" for i
    using that v IH by (cases i) (simp_all add: add.assoc)
  then show ?case using v(3) IH(1) by simp
qed simp

lemma get_multi_total:
  assumes "tab + 4 * 256 \<le> length stream \<or> (unat addr + n \<le> 256 \<and> tab + 4 * (unat addr + n) \<le> length stream)"
  shows "\<exists>vs. get_multi stream tab addr n = Some vs"
  using assms
proof (induction n arbitrary: addr)
  case (Suc n)
  have "tab + 4 * unat addr + 4 \<le> length stream" using Suc.prems unat8_less [of addr] by auto
  then obtain v where v: "rd32 stream (tab + 4 * unat addr) = Some v" using rd32_total by blast
  have step: "unat (addr + 1) = (if unat addr = 255 then 0 else unat addr + 1)"
    using unat8_less [of addr] by (simp add: unat_word_ariths(1))
  have "\<exists>vs. get_multi stream tab (addr + 1) n = Some vs"
  proof (cases "tab + 4 * 256 \<le> length stream")
    case True
    then show ?thesis using Suc.IH by blast
  next
    case False
    then have *: "unat addr + Suc n \<le> 256" "tab + 4 * (unat addr + Suc n) \<le> length stream"
      using Suc.prems by blast+
    show ?thesis
    proof (cases "n = 0")
      case False
      then show ?thesis using Suc.IH [of "addr + 1"] * step by auto
    qed simp
  qed
  then show ?case using v by auto
qed simp

text \<open>
  Reading several data words gives the words that reading them one by one gives, in
  order, as long as the range is inside the table; but the address is a byte, so behind address 255
  the words come from the beginning of the table.  A range that is not inside the table reads nothing.
\<close>

theorem vm_get_data_multi_eq:
  assumes "table_ok stream st"
  shows "\<exists>vs. vm_v_get_data_multi stream st addr n = Some vs
    \<and> length vs = (if unat addr + unat n \<le> unat (data_count st) then unat n else 0)
    \<and> (\<forall>i < length vs. vm_i32_get_data stream st (word_of_nat ((unat addr + i) mod 256)) = Some (vs ! i))"
proof (cases "unat addr + unat n \<le> unat (data_count st)")
  case False
  then show ?thesis by (simp add: vm_v_get_data_multi_def)
next
  case True
  let ?t = "unat (data_start st)"
  have al: "data_table st = Some ?t" using assms by (simp add: table_ok_def data_table_def)
  have size: "?t + 4 * unat (data_count st) \<le> length stream" using assms by (simp add: table_ok_def)
  have "?t + 4 * 256 \<le> length stream \<or> (unat addr + unat n \<le> 256 \<and> ?t + 4 * (unat addr + unat n) \<le> length stream)"
    using True size by (cases "unat addr + unat n \<le> 256") auto
  then obtain vs where vs: "get_multi stream ?t addr (unat n) = Some vs" using get_multi_total by blast
  note nth = get_multi_nth [OF vs]
  have "vm_i32_get_data stream st (word_of_nat ((unat addr + i) mod 256)) = Some (vs ! i)" if i: "i < unat n" for i
  proof -
    have w: "(word_of_nat ((unat addr + i) mod 256) :: u8) = addr + word_of_nat i"
      by (simp add: word_unat_eq_iff unsigned_of_nat take_bit_eq_mod unat_word_ariths(1) mod_add_right_eq)
    have "unat (addr + word_of_nat i :: u8) \<le> unat addr + i"
      by (simp add: unat_word_ariths(1) unsigned_of_nat take_bit_eq_mod mod_add_right_eq)
    then have "unat (addr + word_of_nat i :: u8) < unat (data_count st)" using i True by linarith
    then show ?thesis using nth i by (simp add: vm_i32_get_data_def al w)
  qed
  then show ?thesis using vs nth True by (simp add: vm_v_get_data_multi_def al)
qed

lemma vm_get_data_multi_eq_witness:
  "\<exists>vs. vm_v_get_data_multi [1, 2, 3, 4, 5, 6, 7, 8, 9, 10, 11, 12, 13] sample_vm_state 0 2 = Some vs
     \<and> length vs = 2"
proof -
  have ok: "table_ok [1, 2, 3, 4, 5, 6, 7, 8, 9, 10, 11, 12, 13] sample_vm_state"
    by (simp add: table_ok_def sample_vm_state_def)
  have "unat (0 :: u8) + unat (2 :: u16) \<le> unat (data_count sample_vm_state)"
    by (simp add: sample_vm_state_def)
  then show ?thesis using vm_get_data_multi_eq [OF ok, of 0 2] by auto
qed

end
