(* ===== verification/Vm_Core.thy ===== *)
theory Vm_Core
  imports Vm_Image Gfx_Pixels Gfx_Color
begin

text \<open>
  The script virtual machine of \<open>src/src/lib_chromatron/vm_core.c\<close>: one definition for each opcode
  handler, the opcode table, the recursive interpreter \<open>_vm_i8_run_stream\<close> and the entry points
  that run a program's functions.  Code and data lie in one byte memory, as on the target, so an
  access outside the data table is an access to whatever lies there, and an access outside the
  memory is undefined.  The target is the WiFi processor: \<open>VM_ENABLE_GFX\<close> and \<open>VM_ENABLE_KVDB\<close> are
  set, \<open>int\<close> has 32 bits, and signed arithmetic wraps around.
\<close>

section \<open>The machine\<close>

text \<open>
  What the interpreter is called with (\<open>stream\<close> and \<open>data\<close> as addresses), the hashes that the build
  generates, and the publish hook, which is a weak symbol.
\<close>

record vm_env =
  env_code :: nat
  env_data :: nat
  env_KV :: "string \<Rightarrow> u32"
  env_hook :: "(u32 \<Rightarrow> int) option"

text \<open>\<open>vm_params\<close> is the local array \<open>params\<close> of the running call; \<^term>\<open>None\<close> where it holds nothing yet.\<close>

record vm =
  vm_cycles :: u16
  vm_mem :: "u8 list"
  vm_seed :: u64
  vm_params :: "i32 option list"
  vm_gfx :: gfx_state
  vm_db :: kvdb_state

abbreviation (input) VM_MAX_CYCLES :: u16 where "VM_MAX_CYCLES \<equiv> 32768"
abbreviation (input) RETURN_VAL_ADDR :: int where "RETURN_VAL_ADDR \<equiv> 0"

text \<open>How a handler ends: \<open>goto dispatch\<close> with a new \<open>pc\<close>, \<open>return\<close>, or the recursive call.\<close>

datatype vm_next = Next nat vm | Return int vm | Call u16 nat vm

type_synonym handler = "vm_env \<Rightarrow> nat \<Rightarrow> vm \<Rightarrow> vm_next option"

text \<open>\<open>*pc\<close>, the 16-bit and 32-bit operands, and \<open>data[i]\<close>.\<close>

definition fetch :: "nat \<Rightarrow> vm \<Rightarrow> u8 option" where
  "fetch pc m = rd (vm_mem m) pc"

definition fetch_addr :: "nat \<Rightarrow> vm \<Rightarrow> u16 option" where
  "fetch_addr pc m = do {
     lo \<leftarrow> fetch pc m;
     hi \<leftarrow> fetch (pc + 1) m;
     Some (ucast lo + push_bit 8 (ucast hi)) }"

definition fetch_hash :: "nat \<Rightarrow> vm \<Rightarrow> u32 option" where
  "fetch_hash pc m = do {
     b0 \<leftarrow> fetch pc m;
     b1 \<leftarrow> fetch (pc + 1) m;
     b2 \<leftarrow> fetch (pc + 2) m;
     b3 \<leftarrow> fetch (pc + 3) m;
     Some (push_bit 24 (ucast b0) OR push_bit 16 (ucast b1) OR push_bit 8 (ucast b2) OR ucast b3) }"

definition data_addr :: "vm_env \<Rightarrow> int \<Rightarrow> int" where
  "data_addr E i = int (env_data E) + 4 * i"

definition dget :: "vm_env \<Rightarrow> int \<Rightarrow> vm \<Rightarrow> i32 option" where
  "dget E i m = (if 0 \<le> data_addr E i then rd32 (vm_mem m) (nat (data_addr E i)) else None)"

definition dset :: "vm_env \<Rightarrow> int \<Rightarrow> i32 \<Rightarrow> vm \<Rightarrow> vm option" where
  "dset E i v m =
     (if 0 \<le> data_addr E i
      then map_option (\<lambda>mem. m\<lparr>vm_mem := mem\<rparr>) (wr32 (vm_mem m) (nat (data_addr E i)) v)
      else None)"

definition fetch_data :: "vm_env \<Rightarrow> nat \<Rightarrow> vm \<Rightarrow> i32 option" where
  "fetch_data E pc m = do { a \<leftarrow> fetch pc m; dget E (uint a) m }"

section \<open>Moves, comparisons and arithmetic\<close>

definition opcode_mov :: handler where
  "opcode_mov E pc m = do {
     dest \<leftarrow> fetch pc m;
     v \<leftarrow> fetch_data E (pc + 1) m;
     m \<leftarrow> dset E (uint dest) v m;
     Some (Next (pc + 2) m) }"

definition opcode_clr :: handler where
  "opcode_clr E pc m = do {
     dest \<leftarrow> fetch pc m;
     m \<leftarrow> dset E (uint dest) 0 m;
     Some (Next (pc + 1) m) }"

definition opcode_not :: handler where
  "opcode_not E pc m = do {
     dest \<leftarrow> fetch pc m;
     v \<leftarrow> fetch_data E (pc + 1) m;
     m \<leftarrow> dset E (uint dest) (if v = 0 then 1 else 0) m;
     Some (Next (pc + 2) m) }"

text \<open>The common shape of the handlers with two operands and a result.\<close>

definition binary :: "(i32 \<Rightarrow> i32 \<Rightarrow> i32) \<Rightarrow> handler" where
  "binary f E pc m = do {
     result \<leftarrow> fetch pc m;
     op1 \<leftarrow> fetch_data E (pc + 1) m;
     op2 \<leftarrow> fetch_data E (pc + 2) m;
     m \<leftarrow> dset E (uint result) (f op1 op2) m;
     Some (Next (pc + 3) m) }"

definition opcode_compeq :: handler where
  "opcode_compeq = binary (\<lambda>op1 op2. of_bool (op1 = op2))"

definition opcode_compneq :: handler where
  "opcode_compneq = binary (\<lambda>op1 op2. of_bool (op1 \<noteq> op2))"

definition opcode_compgt :: handler where
  "opcode_compgt = binary (\<lambda>op1 op2. of_bool (sint op1 > sint op2))"

definition opcode_compgte :: handler where
  "opcode_compgte = binary (\<lambda>op1 op2. of_bool (sint op1 \<ge> sint op2))"

definition opcode_complt :: handler where
  "opcode_complt = binary (\<lambda>op1 op2. of_bool (sint op1 < sint op2))"

definition opcode_complte :: handler where
  "opcode_complte = binary (\<lambda>op1 op2. of_bool (sint op1 \<le> sint op2))"

definition opcode_and :: handler where
  "opcode_and = binary (\<lambda>op1 op2. of_bool (op1 \<noteq> 0 \<and> op2 \<noteq> 0))"

definition opcode_or :: handler where
  "opcode_or = binary (\<lambda>op1 op2. of_bool (op1 \<noteq> 0 \<or> op2 \<noteq> 0))"

definition opcode_add :: handler where
  "opcode_add = binary (\<lambda>op1 op2. op1 + op2)"

definition opcode_sub :: handler where
  "opcode_sub = binary (\<lambda>op1 op2. op1 - op2)"

definition opcode_mul :: handler where
  "opcode_mul = binary (\<lambda>op1 op2. op1 * op2)"

definition opcode_div :: handler where
  "opcode_div = binary (\<lambda>op1 op2. if op2 \<noteq> 0 then word_of_int (sint op1 sdiv sint op2) else 0)"

definition opcode_mod :: handler where
  "opcode_mod = binary (\<lambda>op1 op2. if op2 \<noteq> 0 then word_of_int (sint op1 smod sint op2) else 0)"

section \<open>Jumps and calls\<close>

definition opcode_jmp :: handler where
  "opcode_jmp E pc m = do {
     addr \<leftarrow> fetch_addr pc m;
     Some (Next (env_code E + unat addr) m) }"

definition opcode_jmp_if_z :: handler where
  "opcode_jmp_if_z E pc m = do {
     op1_addr \<leftarrow> fetch pc m;
     addr \<leftarrow> fetch_addr (pc + 1) m;
     v \<leftarrow> dget E (uint op1_addr) m;
     Some (Next (if v = 0 then env_code E + unat addr else pc + 3) m) }"

definition opcode_jmp_if_not_z :: handler where
  "opcode_jmp_if_not_z E pc m = do {
     op1_addr \<leftarrow> fetch pc m;
     addr \<leftarrow> fetch_addr (pc + 1) m;
     v \<leftarrow> dget E (uint op1_addr) m;
     Some (Next (if v \<noteq> 0 then env_code E + unat addr else pc + 3) m) }"

definition opcode_jmp_if_z_dec :: handler where
  "opcode_jmp_if_z_dec E pc m = do {
     op1_addr \<leftarrow> fetch pc m;
     addr \<leftarrow> fetch_addr (pc + 1) m;
     v \<leftarrow> dget E (uint op1_addr) m;
     if v = 0 then Some (Next (env_code E + unat addr) m)
     else do {
       m \<leftarrow> dset E (uint op1_addr) (v - 1) m;
       Some (Next (pc + 3) m) } }"

definition opcode_jmp_if_gte :: handler where
  "opcode_jmp_if_gte E pc m = do {
     op1_addr \<leftarrow> fetch pc m;
     op2_addr \<leftarrow> fetch (pc + 1) m;
     addr \<leftarrow> fetch_addr (pc + 2) m;
     a \<leftarrow> dget E (uint op1_addr) m;
     b \<leftarrow> dget E (uint op2_addr) m;
     Some (Next (if sint a \<ge> sint b then env_code E + unat addr else pc + 4) m) }"

definition opcode_jmp_if_l_pre_inc :: handler where
  "opcode_jmp_if_l_pre_inc E pc m = do {
     op1_addr \<leftarrow> fetch pc m;
     op2_addr \<leftarrow> fetch (pc + 1) m;
     v \<leftarrow> dget E (uint op1_addr) m;
     m \<leftarrow> dset E (uint op1_addr) (v + 1) m;
     a \<leftarrow> dget E (uint op1_addr) m;
     b \<leftarrow> dget E (uint op2_addr) m;
     if sint a < sint b
     then do {
       addr \<leftarrow> fetch_addr (pc + 2) m;
       Some (Next (env_code E + unat addr) m) }
     else Some (Next (pc + 4) m) }"

definition opcode_print :: handler where
  "opcode_print E pc m = do {
     op1 \<leftarrow> fetch_data E pc m;
     Some (Next (pc + 1) m) }"

definition opcode_ret :: handler where
  "opcode_ret E pc m = do {
     v \<leftarrow> fetch_data E pc m;
     m \<leftarrow> dset E RETURN_VAL_ADDR v m;
     Some (Return VM_STATUS_OK m) }"

definition opcode_call :: handler where
  "opcode_call E pc m = do {
     addr \<leftarrow> fetch_addr pc m;
     Some (Call addr (pc + 2) m) }"

definition opcode_assert :: handler where
  "opcode_assert E pc m = do {
     op1 \<leftarrow> fetch_data E pc m;
     Some (if op1 = 0 then Return VM_STATUS_ASSERT m else Next (pc + 1) m) }"

definition opcode_halt :: handler where
  "opcode_halt E pc m = Some (Return VM_STATUS_HALT m)"

definition opcode_trap :: handler where
  "opcode_trap E pc m = Some (Return VM_STATUS_TRAP m)"

section \<open>Indexed access\<close>

text \<open>An index is reduced by C's remainder, which keeps its sign and is undefined for a size of 0.\<close>

definition opcode_lta :: handler where
  "opcode_lta E pc m = do {
     dest \<leftarrow> fetch pc m;
     src \<leftarrow> fetch (pc + 1) m;
     index \<leftarrow> fetch_data E (pc + 2) m;
     size \<leftarrow> fetch_data E (pc + 3) m;
     index \<leftarrow> c_mod index size;
     v \<leftarrow> dget E (uint src) m;
     m \<leftarrow> dset E (sint (ucast dest + index)) v m;
     Some (Next (pc + 4) m) }"

definition opcode_lfa :: handler where
  "opcode_lfa E pc m = do {
     dest \<leftarrow> fetch pc m;
     src \<leftarrow> fetch (pc + 1) m;
     index \<leftarrow> fetch_data E (pc + 2) m;
     size \<leftarrow> fetch_data E (pc + 3) m;
     index \<leftarrow> c_mod index size;
     v \<leftarrow> dget E (sint (ucast src + index)) m;
     m \<leftarrow> dset E (uint dest) v m;
     Some (Next (pc + 4) m) }"

definition opcode_lfa2d :: handler where
  "opcode_lfa2d E pc m = do {
     dest \<leftarrow> fetch pc m;
     src \<leftarrow> fetch (pc + 1) m;
     index_x32 \<leftarrow> fetch_data E (pc + 2) m;
     index_y32 \<leftarrow> fetch_data E (pc + 3) m;
     size_x32 \<leftarrow> fetch_data E (pc + 4) m;
     size_y32 \<leftarrow> fetch_data E (pc + 5) m;
     index_x32 \<leftarrow> c_mod index_x32 size_x32;
     index_y32 \<leftarrow> c_mod index_y32 size_y32;
     v \<leftarrow> dget E (sint (ucast src + index_x32 + (index_y32 * size_x32))) m;
     m \<leftarrow> dset E (uint dest) v m;
     Some (Next (pc + 6) m) }"

definition opcode_lta2d :: handler where
  "opcode_lta2d E pc m = do {
     dest \<leftarrow> fetch pc m;
     src \<leftarrow> fetch (pc + 1) m;
     index_x32 \<leftarrow> fetch_data E (pc + 2) m;
     index_y32 \<leftarrow> fetch_data E (pc + 3) m;
     size_x32 \<leftarrow> fetch_data E (pc + 4) m;
     size_y32 \<leftarrow> fetch_data E (pc + 5) m;
     index_x32 \<leftarrow> c_mod index_x32 size_x32;
     index_y32 \<leftarrow> c_mod index_y32 size_y32;
     v \<leftarrow> dget E (uint src) m;
     m \<leftarrow> dset E (sint (ucast dest + index_x32 + (index_y32 * size_x32))) v m;
     Some (Next (pc + 6) m) }"

section \<open>Pixels\<close>

text \<open>The shape of the handlers that store a pixel attribute; a hue wraps, any other value saturates.\<close>

definition pixel_store ::
    "(i32 \<Rightarrow> u16) \<Rightarrow> (u16 \<Rightarrow> u16 \<Rightarrow> u16 \<Rightarrow> u8 \<Rightarrow> gfx_state \<Rightarrow> gfx_state option) \<Rightarrow> handler" where
  "pixel_store limit setter E pc m = do {
     op1 \<leftarrow> fetch_data E pc m;
     x \<leftarrow> fetch_data E (pc + 1) m;
     y \<leftarrow> fetch_data E (pc + 2) m;
     obj \<leftarrow> fetch (pc + 3) m;
     g \<leftarrow> setter (limit op1) (ucast x) (ucast y) obj (vm_gfx m);
     Some (Next (pc + 4) (m\<lparr>vm_gfx := g\<rparr>)) }"

definition wrap16 :: "i32 \<Rightarrow> u16" where
  "wrap16 op1 = word_of_int (sint op1 smod 65536)"

definition clamp16 :: "i32 \<Rightarrow> u16" where
  "clamp16 op1 = word_of_int (if sint op1 > 65535 then 65535 else if sint op1 < 0 then 0 else sint op1)"

definition opcode_ltah :: handler where "opcode_ltah = pixel_store wrap16 gfx_v_set_hue"
definition opcode_ltas :: handler where "opcode_ltas = pixel_store clamp16 gfx_v_set_sat"
definition opcode_ltav :: handler where "opcode_ltav = pixel_store clamp16 gfx_v_set_val"
definition opcode_ltahsf :: handler where "opcode_ltahsf = pixel_store clamp16 gfx_v_set_hs_fade"
definition opcode_ltavf :: handler where "opcode_ltavf = pixel_store clamp16 gfx_v_set_v_fade"

definition pixel_load :: "(u16 \<Rightarrow> u16 \<Rightarrow> u8 \<Rightarrow> gfx_state \<Rightarrow> u16 option) \<Rightarrow> handler" where
  "pixel_load getter E pc m = do {
     dest \<leftarrow> fetch pc m;
     x \<leftarrow> fetch_data E (pc + 1) m;
     y \<leftarrow> fetch_data E (pc + 2) m;
     obj \<leftarrow> fetch (pc + 3) m;
     v \<leftarrow> getter (ucast x) (ucast y) obj (vm_gfx m);
     m \<leftarrow> dset E (uint dest) (ucast v) m;
     Some (Next (pc + 4) m) }"

definition opcode_lfah :: handler where "opcode_lfah = pixel_load gfx_u16_get_hue"
definition opcode_lfas :: handler where "opcode_lfas = pixel_load gfx_u16_get_sat"
definition opcode_lfav :: handler where "opcode_lfav = pixel_load gfx_u16_get_val"
definition opcode_lfahsf :: handler where "opcode_lfahsf = pixel_load gfx_u16_get_hs_fade"
definition opcode_lfavf :: handler where "opcode_lfavf = pixel_load gfx_u16_get_v_fade"
definition opcode_is_fading :: handler where "opcode_is_fading = pixel_load gfx_u16_get_is_fading"

section \<open>Whole arrays\<close>

text \<open>
  The shape of the array handlers: the elements of an array in the data table one after the other,
  or the operation of the graphics library on a pixel object.  The counter is a \<open>uint16_t\<close>: with a
  size above 65535 the loop would not end.
\<close>

definition array_elem :: "(i32 \<Rightarrow> i32 \<Rightarrow> i32 option) \<Rightarrow> vm_env \<Rightarrow> u8 \<Rightarrow> i32 \<Rightarrow> nat \<Rightarrow> vm \<Rightarrow> vm option" where
  "array_elem f E dest op1 i m = do {
     x \<leftarrow> dget E (uint dest + int i) m;
     y \<leftarrow> f x op1;
     dset E (uint dest + int i) y m }"

definition array_op ::
    "(i32 \<Rightarrow> i32 \<Rightarrow> i32 option) \<Rightarrow> (u8 \<Rightarrow> u8 \<Rightarrow> i32 \<Rightarrow> gfx_state \<Rightarrow> gfx_state option) \<Rightarrow> handler" where
  "array_op f gfx_op E pc m = do {
     obj \<leftarrow> fetch pc m;
     dest \<leftarrow> fetch (pc + 1) m;
     attr \<leftarrow> fetch (pc + 2) m;
     op1 \<leftarrow> fetch_data E (pc + 3) m;
     size \<leftarrow> fetch_data E (pc + 4) m;
     if obj = ARRAY_OBJ_TYPE then do {
       require (sint size \<le> 65535);
       m \<leftarrow> for_each (array_elem f E dest op1) [0..<nat (sint size)] m;
       Some (Next (pc + 5) m) }
     else if obj = PIX_OBJ_TYPE then do {
       g \<leftarrow> gfx_op dest attr op1 (vm_gfx m);
       Some (Next (pc + 5) (m\<lparr>vm_gfx := g\<rparr>)) }
     else Some (Next (pc + 5) m) }"

definition opcode_array_add :: handler where
  "opcode_array_add = array_op (\<lambda>x op1. Some (x + op1)) gfx_v_array_add"

definition opcode_array_sub :: handler where
  "opcode_array_sub = array_op (\<lambda>x op1. Some (x - op1)) gfx_v_array_sub"

definition opcode_array_mul :: handler where
  "opcode_array_mul = array_op (\<lambda>x op1. Some (x * op1)) gfx_v_array_mul"

definition opcode_array_div :: handler where
  "opcode_array_div = array_op c_div gfx_v_array_div"

definition opcode_array_mod :: handler where
  "opcode_array_mod = array_op c_mod gfx_v_array_mod"

definition opcode_array_mov :: handler where
  "opcode_array_mov = array_op (\<lambda>x op1. Some op1) gfx_v_array_move"

section \<open>Random numbers, library calls, objects and the database\<close>

definition opcode_rand :: handler where
  "opcode_rand E pc m = do {
     dest \<leftarrow> fetch pc m;
     op1_addr \<leftarrow> fetch (pc + 1) m;
     op2_addr \<leftarrow> fetch (pc + 2) m;
     b \<leftarrow> dget E (uint op2_addr) m;
     a \<leftarrow> dget E (uint op1_addr) m;
     let diff = (ucast (b - a) :: u16);
     let (v, m) = (if diff = 0 then (0, m)
                   else (let (r, seed) = rnd_u16_get_int_with_seed (vm_seed m)
                         in (r mod diff, m\<lparr>vm_seed := seed\<rparr>)));
     m \<leftarrow> dset E (uint dest) (ucast v + a) m;
     Some (Next (pc + 3) m) }"

definition lib_param :: "vm_env \<Rightarrow> nat \<Rightarrow> nat \<Rightarrow> vm \<Rightarrow> vm option" where
  "lib_param E pc i m = do {
     v \<leftarrow> fetch_data E (pc + i) m;
     ps \<leftarrow> wr (vm_params m) i (Some v);
     Some (m\<lparr>vm_params := ps\<rparr>) }"

definition opcode_lib_call :: handler where
  "opcode_lib_call E pc m = do {
     hash \<leftarrow> fetch_hash pc m;
     dest \<leftarrow> fetch (pc + 4) m;
     param_len \<leftarrow> fetch (pc + 5) m;
     m \<leftarrow> for_each (lib_param E (pc + 6)) [0..<unat param_len] m;
     v \<leftarrow> gfx_i32_lib_call (env_KV E) hash (vm_params m) (vm_gfx m);
     m \<leftarrow> dset E (uint dest) v m;
     Some (Next (pc + 6 + unat param_len) m) }"

definition opcode_obj_load :: handler where
  "opcode_obj_load E pc m = do {
     obj \<leftarrow> fetch pc m;
     attr \<leftarrow> fetch (pc + 1) m;
     op1_addr \<leftarrow> fetch (pc + 2) m;
     dest \<leftarrow> fetch (pc + 3) m;
     v \<leftarrow> gfx_i32_get_obj_attr obj attr op1_addr (vm_gfx m);
     m \<leftarrow> dset E (uint dest) v m;
     Some (Next (pc + 4) m) }"

definition opcode_obj_store :: handler where
  "opcode_obj_store E pc m = do {
     obj \<leftarrow> fetch pc m;
     attr \<leftarrow> fetch (pc + 1) m;
     op1_addr \<leftarrow> fetch (pc + 2) m;
     dest \<leftarrow> fetch (pc + 3) m;
     Some (Next (pc + 4) m) }"

definition opcode_db_load :: handler where
  "opcode_db_load E pc m = do {
     hash \<leftarrow> fetch_hash pc m;
     dest \<leftarrow> fetch (pc + 4) m;
     let (status, v, db) = kvdb_i8_get hash (vm_db m);
     let m = m\<lparr>vm_db := db\<rparr>;
     m \<leftarrow> (case v of None \<Rightarrow> Some m | Some v \<Rightarrow> dset E (uint dest) v m);
     Some (Next (pc + 5) m) }"

definition opcode_db_store :: handler where
  "opcode_db_store E pc m = do {
     hash \<leftarrow> fetch_hash pc m;
     v \<leftarrow> fetch_data E (pc + 4) m;
     let (status, db) = kvdb_i8_set hash v (vm_db m);
     let (status, db) = kvdb_i8_publish (env_hook E) hash db;
     Some (Next (pc + 5) (m\<lparr>vm_db := db\<rparr>)) }"

section \<open>The opcode table and the interpreter\<close>

definition opcode_table :: "handler list" where
  "opcode_table =
    [opcode_mov, opcode_clr, opcode_compeq, opcode_compneq, opcode_compgt, opcode_compgte,
     opcode_complt, opcode_complte, opcode_and, opcode_or, opcode_add, opcode_sub, opcode_mul,
     opcode_div, opcode_mod, opcode_jmp, opcode_jmp_if_z, opcode_jmp_if_not_z, opcode_jmp_if_z_dec,
     opcode_jmp_if_gte, opcode_jmp_if_l_pre_inc, opcode_print, opcode_ret, opcode_call, opcode_lta,
     opcode_lfa, opcode_lfa2d, opcode_lta2d, opcode_ltah, opcode_ltas, opcode_ltav, opcode_lfah,
     opcode_lfas, opcode_lfav, opcode_array_add, opcode_array_sub, opcode_array_mul,
     opcode_array_div, opcode_array_mod, opcode_array_mov, opcode_rand, opcode_assert, opcode_halt,
     opcode_is_fading, opcode_lib_call, opcode_trap, opcode_trap, opcode_trap, opcode_trap,
     opcode_lfahsf, opcode_lfavf, opcode_ltahsf, opcode_ltavf, opcode_trap, opcode_obj_load,
     opcode_obj_store, opcode_not, opcode_db_load, opcode_db_store]
    @ replicate 197 opcode_trap"

definition exec :: handler where
  "exec E pc m = do {
     opcode \<leftarrow> fetch pc m;
     (opcode_table ! unat opcode) E (pc + 1) m }"

text \<open>
  \<open>_vm_i8_run_stream\<close> with fuel: each dispatch takes one unit.  The function starts with an
  uninitialised \<open>params\<close> array; a call keeps the caller's.
\<close>

datatype vm_outcome = Done int vm | Undefined | Out_of_fuel

abbreviation no_params :: "i32 option list" where "no_params \<equiv> replicate 8 None"

fun vm_dispatch :: "nat \<Rightarrow> vm_env \<Rightarrow> nat \<Rightarrow> vm \<Rightarrow> vm_outcome" where
  "vm_dispatch 0 E pc m = Out_of_fuel"
| "vm_dispatch (Suc fuel) E pc m =
     (let m = m\<lparr>vm_cycles := vm_cycles m + 1\<rparr>
      in if vm_cycles m > VM_MAX_CYCLES then Done VM_STATUS_ERR_MAX_CYCLES m
         else (case exec E pc m of
             None \<Rightarrow> Undefined
           | Some (Next pc m) \<Rightarrow> vm_dispatch fuel E pc m
           | Some (Return status m) \<Rightarrow> Done status m
           | Some (Call addr pc m) \<Rightarrow>
               (case vm_dispatch fuel E (env_code E + unat addr) (m\<lparr>vm_params := no_params\<rparr>) of
                  Done status m' \<Rightarrow>
                    if status < 0 then Done status m'
                    else vm_dispatch fuel E pc (m'\<lparr>vm_params := vm_params m\<rparr>)
                | r \<Rightarrow> r)))"

text \<open>Enough for every run: each dispatch counts a cycle, and a run starts at most \<open>VM_MAX_CYCLES + 2\<close> of them.\<close>

definition vm_fuel :: nat where "vm_fuel = 32770"

definition vm_i8_run_stream :: "vm_env \<Rightarrow> nat \<Rightarrow> u16 \<Rightarrow> vm \<Rightarrow> vm_outcome" where
  "vm_i8_run_stream E stream offset m =
     vm_dispatch vm_fuel (E\<lparr>env_code := stream\<rparr>) (stream + unat offset) (m\<lparr>vm_params := no_params\<rparr>)"

section \<open>Entry points\<close>

text \<open>
  The statics and the program state around a run: \<open>st\<close> is the program's \<open>vm_state_t\<close>, and the memory
  of the machine is the image (\<open>stream\<close>).  The data pointer must be aligned.
\<close>

definition vm_start :: "vm_env \<Rightarrow> vm_state \<Rightarrow> u16 \<Rightarrow> vm \<Rightarrow> vm_outcome" where
  "vm_start E st offset m =
     (case data_table st of
        None \<Rightarrow> Undefined
      | Some tab \<Rightarrow>
          vm_i8_run_stream (E\<lparr>env_data := tab\<rparr>) (unat (code_start st)) offset
            (m\<lparr>vm_seed := rng_seed st\<rparr>))"

definition vm_finish :: "vm_state \<Rightarrow> vm_outcome \<Rightarrow> (int \<times> vm_state \<times> vm) option" where
  "vm_finish st r =
     (case r of
        Done status m \<Rightarrow>
          Some (status,
                st\<lparr>rng_seed := vm_seed m,
                   max_cycles := (if vm_cycles m > max_cycles st then vm_cycles m else max_cycles st)\<rparr>, m)
      | _ \<Rightarrow> None)"

definition vm_i8_run_init :: "vm_env \<Rightarrow> vm_state \<Rightarrow> vm \<Rightarrow> (int \<times> vm_state \<times> vm) option" where
  "vm_i8_run_init E st m =
     (let m = m\<lparr>vm_cycles := 0\<rparr>;
          st = st\<lparr>frame_number := 0\<rparr>
      in vm_finish st (vm_start E st (init_start st) m))"

definition vm_i8_run_loop :: "vm_env \<Rightarrow> vm_state \<Rightarrow> vm \<Rightarrow> (int \<times> vm_state \<times> vm) option" where
  "vm_i8_run_loop E st m =
     (let m = m\<lparr>vm_cycles := 0\<rparr>;
          st = st\<lparr>frame_number := frame_number st + 1\<rparr>
      in vm_finish st (vm_start E st (loop_start st) m))"

text \<open>\<open>vm_i8_run\<close> takes the pointers as they are and does not reset the cycle count.\<close>

definition vm_i8_run :: "vm_env \<Rightarrow> nat \<Rightarrow> u16 \<Rightarrow> vm_state \<Rightarrow> vm \<Rightarrow> (int \<times> vm_state \<times> vm) option" where
  "vm_i8_run E stream offset st m =
     (case vm_i8_run_stream E stream offset (m\<lparr>vm_seed := rng_seed st\<rparr>) of
        Done status m \<Rightarrow> Some (status, st\<lparr>rng_seed := vm_seed m\<rparr>, m)
      | _ \<Rightarrow> None)"

text \<open>\<open>vm_i8_eval\<close> runs with the firmware's own random state, and hands it back.\<close>

definition vm_i8_eval :: "vm_env \<Rightarrow> nat \<Rightarrow> rnd_state \<Rightarrow> vm \<Rightarrow> (int \<times> i32 \<times> rnd_state \<times> vm) option" where
  "vm_i8_eval E stream rnd m =
     (let m = m\<lparr>vm_seed := rnd_u64_get_seed rnd, vm_cycles := 0\<rparr>
      in case vm_i8_run_stream E stream 0 m of
           Done status m \<Rightarrow> do {
             result \<leftarrow> dget E RETURN_VAL_ADDR m;
             Some (status, result, rnd_v_seed (vm_seed m), m) }
         | _ \<Rightarrow> None)"

end
