(* ===== verification/Vm_Run.thy ===== *)
theory Vm_Run
  imports Vm_Core
begin

text \<open>
  What every run of the virtual machine keeps: how handlers use the memory and the state, that a run
  always ends, its status codes and its cycle count.
\<close>

section \<open>What a handler does to the machine\<close>

primrec next_vm :: "vm_next \<Rightarrow> vm" where
  "next_vm (Next pc m) = m"
| "next_vm (Return st m) = m"
| "next_vm (Call addr pc m) = m"

primrec next_status :: "vm_next \<Rightarrow> int option" where
  "next_status (Next pc m) = None"
| "next_status (Return st m) = Some st"
| "next_status (Call addr pc m) = None"

lemma bind_SomeE:
  assumes "Option.bind x f = Some r" obtains a where "x = Some a" and "f a = Some r"
  using assms by (cases x) auto

lemma dset_Some:
  "dset E i v m = Some m' \<Longrightarrow>
     m' = m\<lparr>vm_mem := put_bytes (vm_mem m) (nat (data_addr E i)) (bytes32 v)\<rparr>
     \<and> 0 \<le> data_addr E i \<and> nat (data_addr E i) + 4 \<le> length (vm_mem m)"
  by (auto simp: dset_def opt_simps split: if_splits)

text \<open>A handler counts no cycle, keeps the size of the memory, and returns only these statuses.\<close>

definition handler_plain :: "handler \<Rightarrow> bool" where
  "handler_plain h \<longleftrightarrow> (\<forall>E pc m r. h E pc m = Some r \<longrightarrow>
     vm_cycles (next_vm r) = vm_cycles m \<and> length (vm_mem (next_vm r)) = length (vm_mem m)
     \<and> length (vm_params (next_vm r)) = length (vm_params m)
     \<and> next_status r \<in> {None, Some VM_STATUS_OK, Some VM_STATUS_HALT, Some VM_STATUS_ASSERT, Some VM_STATUS_TRAP})"

lemma for_each_plain:
  assumes "for_each f is m = Some m'"
    and "\<And>i m m'. f i m = Some m' \<Longrightarrow> vm_cycles m' = vm_cycles m \<and> length (vm_mem m') = length (vm_mem m)
           \<and> length (vm_params m') = length (vm_params m) \<and> vm_gfx m' = vm_gfx m \<and> vm_db m' = vm_db m"
  shows "vm_cycles m' = vm_cycles m \<and> length (vm_mem m') = length (vm_mem m)
           \<and> length (vm_params m') = length (vm_params m) \<and> vm_gfx m' = vm_gfx m \<and> vm_db m' = vm_db m"
  by (rule for_each_inv [OF assms(1), where I = "\<lambda>m'. vm_cycles m' = vm_cycles m \<and> length (vm_mem m') = length (vm_mem m)
           \<and> length (vm_params m') = length (vm_params m) \<and> vm_gfx m' = vm_gfx m \<and> vm_db m' = vm_db m"])
    (use assms(2) in force)+

lemmas binary_opcodes = opcode_compeq_def opcode_compneq_def opcode_compgt_def opcode_compgte_def
  opcode_complt_def opcode_complte_def opcode_and_def opcode_or_def opcode_add_def opcode_sub_def
  opcode_mul_def opcode_div_def opcode_mod_def

lemmas jump_opcodes = opcode_jmp_def opcode_jmp_if_z_def opcode_jmp_if_not_z_def
  opcode_jmp_if_z_dec_def opcode_jmp_if_gte_def opcode_jmp_if_l_pre_inc_def

lemmas simple_opcodes = opcode_mov_def opcode_clr_def opcode_not_def opcode_print_def opcode_ret_def
  opcode_call_def opcode_assert_def opcode_halt_def opcode_trap_def opcode_obj_load_def opcode_obj_store_def

lemmas index_opcodes = opcode_lta_def opcode_lfa_def opcode_lfa2d_def opcode_lta2d_def

lemmas store_opcodes = opcode_ltah_def opcode_ltas_def opcode_ltav_def opcode_ltahsf_def opcode_ltavf_def

lemmas load_opcodes = opcode_lfah_def opcode_lfas_def opcode_lfav_def opcode_lfahsf_def opcode_lfavf_def
  opcode_is_fading_def

lemmas array_opcodes = opcode_array_add_def opcode_array_sub_def opcode_array_mul_def
  opcode_array_div_def opcode_array_mod_def opcode_array_mov_def

lemma plain_shapes:
  "handler_plain (binary f)" "handler_plain (pixel_store lim setter)" "handler_plain (pixel_load getter)"
  unfolding handler_plain_def binary_def pixel_store_def pixel_load_def
  by (auto simp: opt_simps dest!: dset_Some)

lemma array_loop_plain:
  "for_each (array_elem f E dest op1) is m = Some m' \<Longrightarrow> vm_cycles m' = vm_cycles m \<and> length (vm_mem m') = length (vm_mem m)
     \<and> length (vm_params m') = length (vm_params m) \<and> vm_gfx m' = vm_gfx m \<and> vm_db m' = vm_db m"
  by (erule for_each_plain) (auto simp: array_elem_def opt_simps dest!: dset_Some)

lemma lib_params_plain:
  "for_each (lib_param E pc) is m = Some m' \<Longrightarrow> vm_cycles m' = vm_cycles m \<and> length (vm_mem m') = length (vm_mem m)
     \<and> length (vm_params m') = length (vm_params m) \<and> vm_gfx m' = vm_gfx m \<and> vm_db m' = vm_db m"
  by (erule for_each_plain) (auto simp: lib_param_def opt_simps)

lemma array_op_cases:
  assumes "array_op f gfx_op E pc m = Some r"
  obtains (elems) dest op1 "is" m' where "for_each (array_elem f E dest op1) is m = Some m'" and "r = Next (pc + 5) m'"
    | (pixels) dest attr op1 g where "gfx_op dest attr op1 (vm_gfx m) = Some g" and "r = Next (pc + 5) (m\<lparr>vm_gfx := g\<rparr>)"
    | (skip) "r = Next (pc + 5) m"
  using assms unfolding array_op_def
  by (elim bind_SomeE) (auto simp: opt_simps split: if_splits)

lemma plain_array_op: "handler_plain (array_op f gfx_op)"
  unfolding handler_plain_def
proof (intro allI impI)
  fix E pc m r
  assume "array_op f gfx_op E pc m = Some r"
  then show "vm_cycles (next_vm r) = vm_cycles m \<and> length (vm_mem (next_vm r)) = length (vm_mem m)
     \<and> length (vm_params (next_vm r)) = length (vm_params m)
     \<and> next_status r \<in> {None, Some VM_STATUS_OK, Some VM_STATUS_HALT, Some VM_STATUS_ASSERT, Some VM_STATUS_TRAP}"
    by (cases rule: array_op_cases) (simp_all add: array_loop_plain)
qed

lemma plain_simple:
  "handler_plain opcode_mov" "handler_plain opcode_clr" "handler_plain opcode_not" "handler_plain opcode_print"
  "handler_plain opcode_ret" "handler_plain opcode_call" "handler_plain opcode_assert" "handler_plain opcode_halt"
  "handler_plain opcode_trap" "handler_plain opcode_obj_load" "handler_plain opcode_obj_store"
  unfolding handler_plain_def simple_opcodes by (auto simp: opt_simps dest!: dset_Some)

lemma plain_jumps:
  "handler_plain opcode_jmp" "handler_plain opcode_jmp_if_z" "handler_plain opcode_jmp_if_not_z"
  "handler_plain opcode_jmp_if_z_dec" "handler_plain opcode_jmp_if_gte" "handler_plain opcode_jmp_if_l_pre_inc"
  unfolding handler_plain_def jump_opcodes by (auto simp: opt_simps split: if_splits dest!: dset_Some)

lemma plain_index:
  "handler_plain opcode_lta" "handler_plain opcode_lfa" "handler_plain opcode_lfa2d" "handler_plain opcode_lta2d"
  unfolding handler_plain_def index_opcodes by (auto simp: opt_simps dest!: dset_Some)

lemma plain_rand: "handler_plain opcode_rand"
  unfolding handler_plain_def opcode_rand_def
  by (auto simp: opt_simps Let_def split_beta split: if_splits dest!: dset_Some)

lemma plain_db: "handler_plain opcode_db_load" "handler_plain opcode_db_store"
  unfolding handler_plain_def opcode_db_load_def opcode_db_store_def
  by (auto simp: opt_simps Let_def split_beta split: option.splits dest!: dset_Some)

lemma plain_lib_call: "handler_plain opcode_lib_call"
  unfolding handler_plain_def opcode_lib_call_def
  by (auto simp: opt_simps dest!: dset_Some lib_params_plain)

lemmas plain_opcodes = plain_simple plain_jumps plain_index plain_rand plain_db plain_lib_call

lemma opcode_table_plain: "list_all handler_plain opcode_table"
  by (simp add: opcode_table_def plain_opcodes binary_opcodes store_opcodes load_opcodes array_opcodes
      plain_shapes plain_array_op list_all_iff)

lemma exec_cases:
  assumes "exec E pc m = Some r"
  obtains h where "h \<in> set opcode_table" and "h E (pc + 1) m = Some r"
proof -
  obtain opc :: u8 where opc: "(opcode_table ! unat opc) E (pc + 1) m = Some r"
    using assms unfolding exec_def by (rule bind_SomeE)
  have "unat opc < length opcode_table"
    using unat8_less [of opc] by (simp add: opcode_table_def)
  then show thesis using opc by (intro that [of "opcode_table ! unat opc"]) simp_all
qed

lemma exec_plain:
  assumes "exec E pc m = Some r"
  shows "vm_cycles (next_vm r) = vm_cycles m" and "length (vm_mem (next_vm r)) = length (vm_mem m)"
    and "length (vm_params (next_vm r)) = length (vm_params m)"
    and "next_status r \<in> {None, Some VM_STATUS_OK, Some VM_STATUS_HALT, Some VM_STATUS_ASSERT, Some VM_STATUS_TRAP}"
proof -
  obtain h where h: "h \<in> set opcode_table" "h E (pc + 1) m = Some r" by (rule exec_cases [OF assms])
  then have "handler_plain h" using opcode_table_plain by (simp add: list_all_iff)
  then show "vm_cycles (next_vm r) = vm_cycles m" "length (vm_mem (next_vm r)) = length (vm_mem m)"
    "length (vm_params (next_vm r)) = length (vm_params m)"
    "next_status r \<in> {None, Some VM_STATUS_OK, Some VM_STATUS_HALT, Some VM_STATUS_ASSERT, Some VM_STATUS_TRAP}"
    using h(2) unfolding handler_plain_def by blast+
qed

section \<open>One dispatch\<close>

definition tick :: "vm \<Rightarrow> vm" where
  "tick m = m\<lparr>vm_cycles := vm_cycles m + 1\<rparr>"

lemma tick_fields [simp]:
  "vm_cycles (tick m) = vm_cycles m + 1" "vm_mem (tick m) = vm_mem m" "vm_params (tick m) = vm_params m"
  "vm_gfx (tick m) = vm_gfx m" "vm_db (tick m) = vm_db m" "vm_seed (tick m) = vm_seed m"
  by (simp_all add: tick_def)

text \<open>The branches of a dispatch.\<close>

lemma dispatch_rules:
  "vm_cycles m + 1 > VM_MAX_CYCLES \<Longrightarrow> vm_dispatch (Suc n) E pc m = Done VM_STATUS_ERR_MAX_CYCLES (tick m)"
  "\<not> vm_cycles m + 1 > VM_MAX_CYCLES \<Longrightarrow> exec E pc (tick m) = None \<Longrightarrow> vm_dispatch (Suc n) E pc m = Undefined"
  "\<not> vm_cycles m + 1 > VM_MAX_CYCLES \<Longrightarrow> exec E pc (tick m) = Some (Next pc' m') \<Longrightarrow>
     vm_dispatch (Suc n) E pc m = vm_dispatch n E pc' m'"
  "\<not> vm_cycles m + 1 > VM_MAX_CYCLES \<Longrightarrow> exec E pc (tick m) = Some (Return st m') \<Longrightarrow>
     vm_dispatch (Suc n) E pc m = Done st m'"
  "\<not> vm_cycles m + 1 > VM_MAX_CYCLES \<Longrightarrow> exec E pc (tick m) = Some (Call addr pc' m') \<Longrightarrow>
     vm_dispatch (Suc n) E pc m =
       (case vm_dispatch n E (env_code E + unat addr) (m'\<lparr>vm_params := no_params\<rparr>) of
          Done status m'' \<Rightarrow>
            if status < 0 then Done status m'' else vm_dispatch n E pc' (m''\<lparr>vm_params := vm_params m'\<rparr>)
        | r \<Rightarrow> r)"
  by (simp_all add: tick_def Let_def)

declare vm_dispatch.simps(2) [simp del]

lemma dispatch_cases:
  obtains (limit) "vm_cycles m + 1 > VM_MAX_CYCLES"
      "\<And>n. vm_dispatch (Suc n) E pc m = Done VM_STATUS_ERR_MAX_CYCLES (tick m)"
    | (undef) "\<not> vm_cycles m + 1 > VM_MAX_CYCLES" "exec E pc (tick m) = None"
      "\<And>n. vm_dispatch (Suc n) E pc m = Undefined"
    | (go) pc' m' where "\<not> vm_cycles m + 1 > VM_MAX_CYCLES" "exec E pc (tick m) = Some (Next pc' m')"
      "\<And>n. vm_dispatch (Suc n) E pc m = vm_dispatch n E pc' m'"
    | (stop) st m' where "\<not> vm_cycles m + 1 > VM_MAX_CYCLES" "exec E pc (tick m) = Some (Return st m')"
      "\<And>n. vm_dispatch (Suc n) E pc m = Done st m'"
    | (call) addr pc' m' where "\<not> vm_cycles m + 1 > VM_MAX_CYCLES" "exec E pc (tick m) = Some (Call addr pc' m')"
      "\<And>n. vm_dispatch (Suc n) E pc m =
       (case vm_dispatch n E (env_code E + unat addr) (m'\<lparr>vm_params := no_params\<rparr>) of
          Done status m'' \<Rightarrow>
            if status < 0 then Done status m'' else vm_dispatch n E pc' (m''\<lparr>vm_params := vm_params m'\<rparr>)
        | r \<Rightarrow> r)"
proof (cases "vm_cycles m + 1 > VM_MAX_CYCLES")
  case True
  then show thesis using limit dispatch_rules(1) by blast
next
  case False
  show thesis
  proof (cases "exec E pc (tick m)")
    case None
    then show thesis using undef dispatch_rules(2) False by blast
  next
    case (Some r)
    show thesis
    proof (cases r)
      case (Next pc' m')
      with Some have "exec E pc (tick m) = Some (Next pc' m')" by simp
      then show thesis using dispatch_rules(3) [OF False] False by (intro go)
    next
      case (Return st m')
      with Some have "exec E pc (tick m) = Some (Return st m')" by simp
      then show thesis using dispatch_rules(4) [OF False] False by (intro stop)
    next
      case (Call addr pc' m')
      with Some have "exec E pc (tick m) = Some (Call addr pc' m')" by simp
      then show thesis using dispatch_rules(5) [OF False] False by (intro call)
    qed
  qed
qed

section \<open>Every run ends\<close>

text \<open>The dispatches that a run can still make when it starts with a cycle count.\<close>

definition need :: "u16 \<Rightarrow> nat" where
  "need c = (if c = 65535 then 32770 else if c \<le> 32768 then 32769 - unat c else 1)"

lemma need_pos: "1 \<le> need c"
  by (auto simp: need_def word_le_nat_alt)

lemma need_le: "need c \<le> vm_fuel"
  by (auto simp: need_def vm_fuel_def)

lemma need_step:
  assumes "\<not> c + 1 > VM_MAX_CYCLES"
  shows "need c = Suc (need (c + 1))"
proof (cases "c = 65535")
  case True
  then show ?thesis by (simp add: need_def)
next
  case False
  then have "unat c \<noteq> 65535" by (simp add: word_unat_eq_iff)
  then have s: "unat (c + 1) = unat c + 1" using unat16_less [of c] by (simp add: unat_word_ariths(1))
  have le: "unat c + 1 \<le> 32768" using assms s by (simp add: word_less_nat_alt)
  have "c + 1 \<noteq> 65535" using le s by (auto simp: word_unat_eq_iff)
  then show ?thesis using False s le by (simp add: need_def word_le_nat_alt)
qed

lemma dispatch_terminates:
  assumes "need (vm_cycles m) \<le> n"
  shows "vm_dispatch n E pc m \<noteq> Out_of_fuel"
    and "vm_dispatch n E pc m = Done st m' \<Longrightarrow> 0 \<le> st \<Longrightarrow> need (vm_cycles m') < need (vm_cycles m)"
  using assms
proof (induction n arbitrary: pc m st m')
  case 0
  { case 1 then show ?case using need_pos [of "vm_cycles m"] by simp }
  { case 2 then show ?case using need_pos [of "vm_cycles m"] by simp }
next
  case (Suc n)
  have less: "vm_cycles (next_vm r) = vm_cycles m + 1" "need (vm_cycles m) = Suc (need (vm_cycles m + 1))"
    if "exec E pc (tick m) = Some r" "\<not> vm_cycles m + 1 > VM_MAX_CYCLES" for r pc m
    using exec_plain(1) [OF that(1)] need_step [OF that(2)] by simp_all
  { case 1
    show ?case
    proof (cases rule: dispatch_cases [of m E pc])
      case (go pc' m1)
      show ?thesis using Suc.IH(1) [of m1 pc'] less [OF go(2,1)] 1 by (simp add: go(3))
    next
      case (call addr pc' m1)
      let ?m2 = "m1\<lparr>vm_params := no_params\<rparr>"
      have le: "need (vm_cycles ?m2) \<le> n" using less [OF call(2,1)] 1 by simp
      note IH = Suc.IH(1) [OF le] Suc.IH(2) [OF _ _ le]
      show ?thesis
      proof (cases "vm_dispatch n E (env_code E + unat addr) ?m2")
        case (Done s m3)
        show ?thesis
        proof (cases "s < 0")
          case False
          then have "need (vm_cycles m3) < need (vm_cycles ?m2)" using IH(2) [OF Done] by simp
          then show ?thesis using Suc.IH(1) [of "m3\<lparr>vm_params := vm_params m1\<rparr>" pc'] le Done False
            by (simp add: call(3))
        qed (simp add: call(3) Done)
      qed (use IH(1) in \<open>simp_all add: call(3)\<close>)
    qed simp_all }
  { case 2
    show ?case
    proof (cases rule: dispatch_cases [of m E pc])
      case limit
      then show ?thesis using 2 by simp
    next
      case undef
      then show ?thesis using 2 by simp
    next
      case (go pc' m1)
      show ?thesis using Suc.IH(2) [of pc' m1 st m'] less [OF go(2,1)] 2 by (simp add: go(3))
    next
      case (stop s m1)
      then show ?thesis using less [OF stop(2,1)] 2 by simp
    next
      case (call addr pc' m1)
      let ?m2 = "m1\<lparr>vm_params := no_params\<rparr>"
      have le: "need (vm_cycles ?m2) \<le> n" "need (vm_cycles ?m2) < need (vm_cycles m)"
        using less [OF call(2,1)] 2(3) by simp_all
      obtain s m3 where d: "vm_dispatch n E (env_code E + unat addr) ?m2 = Done s m3" "\<not> s < 0"
        "vm_dispatch n E pc' (m3\<lparr>vm_params := vm_params m1\<rparr>) = Done st m'"
        using 2(1,2) unfolding call(3) by (auto split: vm_outcome.splits if_splits)
      have "need (vm_cycles m3) < need (vm_cycles ?m2)" using Suc.IH(2) [OF d(1) _ le(1)] d(2) by simp
      moreover from this have "need (vm_cycles m') < need (vm_cycles m3)"
        using Suc.IH(2) [OF d(3) 2(2)] le(1) by simp
      ultimately show ?thesis using le(2) by simp
    qed }
qed

text \<open>More fuel never changes a result.\<close>

lemma dispatch_more_fuel:
  assumes "vm_dispatch n E pc m \<noteq> Out_of_fuel" and "n \<le> n'"
  shows "vm_dispatch n' E pc m = vm_dispatch n E pc m"
  using assms
proof (induction n arbitrary: n' pc m)
  case (Suc n)
  obtain k where k: "n' = Suc k" "n \<le> k" using Suc.prems(2) by (cases n') auto
  note ne = Suc.prems(1)
  show ?case
  proof (cases rule: dispatch_cases [of m E pc])
    case (go pc' m1)
    then show ?thesis using Suc.IH [OF _ k(2), of pc' m1] ne by (simp add: k(1))
  next
    case (call addr pc' m1)
    let ?m2 = "m1\<lparr>vm_params := no_params\<rparr>"
    have "vm_dispatch n E (env_code E + unat addr) ?m2 \<noteq> Out_of_fuel" using ne unfolding call(3) by auto
    note eq = Suc.IH [OF this k(2)]
    show ?thesis
      using ne Suc.IH [OF _ k(2), of pc'] unfolding k(1) call(3) eq
      by (auto split: vm_outcome.splits if_splits)
  qed (simp_all add: k(1))
qed simp

section \<open>Status codes and cycles\<close>

lemma dispatch_result:
  assumes "vm_dispatch n E pc m = Done st m'" and "vm_cycles m \<le> VM_MAX_CYCLES"
  shows "st \<in> {VM_STATUS_OK, VM_STATUS_HALT, VM_STATUS_ASSERT, VM_STATUS_TRAP, VM_STATUS_ERR_MAX_CYCLES}
    \<and> unat (vm_cycles m) < unat (vm_cycles m') \<and> unat (vm_cycles m') \<le> 32769
    \<and> (st = VM_STATUS_ERR_MAX_CYCLES \<longleftrightarrow> unat (vm_cycles m') = 32769)
    \<and> length (vm_mem m') = length (vm_mem m)"
  using assms
proof (induction n arbitrary: pc m st m')
  case (Suc n)
  have c: "unat (vm_cycles m + 1) = unat (vm_cycles m) + 1" "unat (vm_cycles m) \<le> 32768"
    using Suc.prems(2) by (simp_all add: word_le_nat_alt unat_word_ariths(1))
  show ?case
  proof (cases rule: dispatch_cases [of m E pc])
    case limit
    then show ?thesis using Suc.prems(1) c by (auto simp: word_less_nat_alt)
  next
    case undef
    then show ?thesis using Suc.prems(1) by simp
  next
    case (go pc' m1)
    note p = exec_plain [OF go(2)]
    have "vm_cycles m1 \<le> VM_MAX_CYCLES" using go(1) p(1) by (simp add: not_less)
    then show ?thesis using Suc.IH [of pc' m1 st m'] Suc.prems(1) p c by (auto simp: go(3))
  next
    case (stop s m1)
    note p = exec_plain [OF stop(2)]
    have "vm_cycles m1 \<le> VM_MAX_CYCLES" using stop(1) p(1) by (simp add: not_less)
    then show ?thesis using Suc.prems(1) p c by (auto simp: stop(3) word_le_nat_alt)
  next
    case (call addr pc' m1)
    note p = exec_plain [OF call(2)]
    let ?m2 = "m1\<lparr>vm_params := no_params\<rparr>"
    have m2: "vm_cycles ?m2 \<le> VM_MAX_CYCLES" using call(1) p(1) by (simp add: not_less)
    obtain s m3 where d: "vm_dispatch n E (env_code E + unat addr) ?m2 = Done s m3"
      "if s < 0 then Done st m' = Done s m3
       else vm_dispatch n E pc' (m3\<lparr>vm_params := vm_params m1\<rparr>) = Done st m'"
      using Suc.prems(1) unfolding call(3) by (auto split: vm_outcome.splits if_splits)
    note IH = Suc.IH [OF d(1) m2]
    show ?thesis
    proof (cases "s < 0")
      case True
      then show ?thesis using d(2) IH p c by auto
    next
      case False
      then have "unat (vm_cycles m3) \<noteq> 32769" using IH by auto
      then have "vm_cycles (m3\<lparr>vm_params := vm_params m1\<rparr>) \<le> VM_MAX_CYCLES"
        using IH by (simp add: word_le_nat_alt)
      then show ?thesis using Suc.IH [of pc' "m3\<lparr>vm_params := vm_params m1\<rparr>" st m'] d(2) False IH p c
        by auto
    qed
  qed
qed simp

section \<open>The invariant of the components\<close>

definition vm_inv :: "vm \<Rightarrow> bool" where
  "vm_inv m \<longleftrightarrow> gfx_wf (vm_gfx m) \<and> params_ok (vm_gfx m) \<and> kvdb_inv (vm_db m)"

text \<open>A run keeps it, touches nothing of the graphics but pixel targets, fade times and steps, and adds or removes no key.\<close>

definition vm_rel :: "vm \<Rightarrow> vm \<Rightarrow> bool" where
  "vm_rel m m' \<longleftrightarrow> vm_inv m' \<and> gfx_frame (vm_gfx m') = gfx_frame (vm_gfx m)
     \<and> dom (kvdb_abs (vm_db m')) = dom (kvdb_abs (vm_db m))"

lemma vm_rel_same: "vm_inv m \<Longrightarrow> vm_gfx m' = vm_gfx m \<Longrightarrow> vm_db m' = vm_db m \<Longrightarrow> vm_rel m m'"
  by (simp add: vm_rel_def vm_inv_def)

lemma vm_rel_trans: "vm_rel m m' \<Longrightarrow> vm_rel m' m'' \<Longrightarrow> vm_rel m m''"
  by (simp add: vm_rel_def)

lemma vm_rel_inv: "vm_rel m m' \<Longrightarrow> vm_inv m'"
  by (simp add: vm_rel_def)

lemma vm_rel_gfx:
  assumes "vm_inv m" and "gfx_wf g \<and> gfx_frame g = gfx_frame (vm_gfx m)"
  shows "vm_rel m (m\<lparr>vm_gfx := g\<rparr>)"
  using assms gfx_frame_config(4) [of g "vm_gfx m"] by (simp add: vm_rel_def vm_inv_def)

definition handler_inv :: "handler \<Rightarrow> bool" where
  "handler_inv h \<longleftrightarrow> (\<forall>E pc m r. vm_inv m \<longrightarrow> h E pc m = Some r \<longrightarrow> vm_rel m (next_vm r))"

lemma inv_shapes: "handler_inv (binary f)" "handler_inv (pixel_load getter)"
  unfolding handler_inv_def binary_def pixel_load_def
  by (auto simp: opt_simps intro!: vm_rel_same dest!: dset_Some)

lemma inv_pixel_store:
  assumes "\<And>v x y obj g g'. gfx_wf g \<Longrightarrow> setter v x y obj g = Some g' \<Longrightarrow> gfx_wf g' \<and> gfx_frame g' = gfx_frame g"
  shows "handler_inv (pixel_store lim setter)"
  unfolding handler_inv_def pixel_store_def
  using assms by (auto simp: opt_simps vm_inv_def intro!: vm_rel_gfx)

lemma inv_array_op:
  assumes "\<And>dest attr op1 g g'. gfx_wf g \<Longrightarrow> params_ok g \<Longrightarrow> gfx_op dest attr op1 g = Some g'
     \<Longrightarrow> gfx_wf g' \<and> gfx_frame g' = gfx_frame g"
  shows "handler_inv (array_op f gfx_op)"
  unfolding handler_inv_def
proof (intro allI impI)
  fix E pc m r
  assume m: "vm_inv m" and "array_op f gfx_op E pc m = Some r"
  from this(2) show "vm_rel m (next_vm r)"
  proof (cases rule: array_op_cases)
    case (elems dest op1 "is" m')
    then show ?thesis using array_loop_plain [OF elems(1)] m by (simp add: vm_rel_same)
  next
    case (pixels dest attr op1 g)
    then show ?thesis using assms m by (auto simp: vm_inv_def intro!: vm_rel_gfx)
  next
    case skip
    then show ?thesis using m by (simp add: vm_rel_same)
  qed
qed

lemma inv_local:
  "handler_inv opcode_mov" "handler_inv opcode_clr" "handler_inv opcode_not" "handler_inv opcode_print"
  "handler_inv opcode_ret" "handler_inv opcode_call" "handler_inv opcode_assert" "handler_inv opcode_halt"
  "handler_inv opcode_trap" "handler_inv opcode_obj_load" "handler_inv opcode_obj_store"
  "handler_inv opcode_jmp" "handler_inv opcode_jmp_if_z" "handler_inv opcode_jmp_if_not_z"
  "handler_inv opcode_jmp_if_z_dec" "handler_inv opcode_jmp_if_gte" "handler_inv opcode_jmp_if_l_pre_inc"
  "handler_inv opcode_lta" "handler_inv opcode_lfa" "handler_inv opcode_lfa2d" "handler_inv opcode_lta2d"
  unfolding handler_inv_def simple_opcodes jump_opcodes index_opcodes
  by (auto simp: opt_simps split: if_splits intro!: vm_rel_same dest!: dset_Some)

lemma inv_rand: "handler_inv opcode_rand"
  unfolding handler_inv_def opcode_rand_def
  by (auto simp: opt_simps Let_def split_beta split: if_splits intro!: vm_rel_same dest!: dset_Some)

lemma inv_lib_call: "handler_inv opcode_lib_call"
  unfolding handler_inv_def opcode_lib_call_def
  by (auto simp: opt_simps intro!: vm_rel_same dest!: dset_Some lib_params_plain)

lemma inv_db: "handler_inv opcode_db_load" "handler_inv opcode_db_store"
proof -
  show "handler_inv opcode_db_load"
    unfolding handler_inv_def
  proof (intro allI impI)
    fix E pc m r
    assume m: "vm_inv m" and r: "opcode_db_load E pc m = Some r"
    obtain hash where h: "vm_gfx (next_vm r) = vm_gfx m"
      "vm_db (next_vm r) = snd (snd (kvdb_i8_get hash (vm_db m)))"
      using r unfolding opcode_db_load_def
      by (auto simp: opt_simps Let_def split_beta split: option.splits dest!: dset_Some)
    then show "vm_rel m (next_vm r)"
      using kvdb.get_keeps [of "vm_db m" hash] m by (simp add: vm_rel_def vm_inv_def)
  qed
  show "handler_inv opcode_db_store"
    unfolding handler_inv_def
  proof (intro allI impI)
    fix E pc m r
    assume m: "vm_inv m" and r: "opcode_db_store E pc m = Some r"
    obtain hash v where h: "vm_gfx (next_vm r) = vm_gfx m"
      "vm_db (next_vm r) = snd (kvdb_i8_publish (env_hook E) hash (snd (kvdb_i8_set hash v (vm_db m))))"
      using r unfolding opcode_db_store_def by (auto simp: opt_simps Let_def split_beta)
    have "kvdb_inv (snd (kvdb_i8_publish hook hash db)) = kvdb_inv db"
      "kvdb_abs (snd (kvdb_i8_publish hook hash db)) = kvdb_abs db" for hook db
      by (simp_all add: kvdb_i8_publish_def keeps split: option.split)
    then show "vm_rel m (next_vm r)"
      using h kvdb.put_keeps [of "vm_db m" hash v] m by (auto simp: vm_rel_def vm_inv_def)
  qed
qed

lemma opcode_table_inv: "list_all handler_inv opcode_table"
proof -
  have stores: "handler_inv opcode_ltah" "handler_inv opcode_ltas" "handler_inv opcode_ltav"
    "handler_inv opcode_ltahsf" "handler_inv opcode_ltavf"
    unfolding store_opcodes by (intro inv_pixel_store; elim gfx_v_set_keeps; assumption)+
  have arrays: "handler_inv opcode_array_add" "handler_inv opcode_array_sub" "handler_inv opcode_array_mul"
    "handler_inv opcode_array_div" "handler_inv opcode_array_mod" "handler_inv opcode_array_mov"
    unfolding array_opcodes
    by (rule inv_array_op, erule (2) arr_add.run_keeps, rule inv_array_op, erule (2) arr_sub.run_keeps,
        rule inv_array_op, erule (2) arr_mul.run_keeps, rule inv_array_op, erule (2) arr_div.run_keeps,
        rule inv_array_op, erule (2) arr_mod.run_keeps, rule inv_array_op, erule (2) arr_move.run_keeps)
  show ?thesis
    by (simp add: opcode_table_def inv_local inv_rand inv_lib_call inv_db stores arrays binary_opcodes
        load_opcodes inv_shapes list_all_iff)
qed

lemma exec_inv: "vm_inv m \<Longrightarrow> exec E pc m = Some r \<Longrightarrow> vm_rel m (next_vm r)"
proof -
  assume m: "vm_inv m" and r: "exec E pc m = Some r"
  obtain h where h: "h \<in> set opcode_table" "h E (pc + 1) m = Some r" by (rule exec_cases [OF r])
  then have "handler_inv h" using opcode_table_inv by (simp add: list_all_iff)
  then show ?thesis using h(2) m unfolding handler_inv_def by blast
qed

lemma dispatch_inv:
  assumes "vm_dispatch n E pc m = Done st m'" and "vm_inv m"
  shows "vm_rel m m'"
  using assms
proof (induction n arbitrary: pc m st m')
  case (Suc n)
  have t: "vm_rel m (tick m)" "vm_inv (tick m)"
    using Suc.prems(2) by (auto intro: vm_rel_same) (simp add: vm_inv_def)
  note ex = vm_rel_trans [OF t(1) exec_inv [OF t(2)]]
  show ?case
  proof (cases rule: dispatch_cases [of m E pc])
    case limit
    then show ?thesis using Suc.prems(1) t by simp
  next
    case undef
    then show ?thesis using Suc.prems(1) by simp
  next
    case (go pc' m1)
    have "vm_rel m m1" using ex [OF go(2)] by simp
    then show ?thesis using Suc.IH [of pc' m1 st m'] Suc.prems(1) vm_rel_inv
      by (auto simp: go(3) intro: vm_rel_trans)
  next
    case (stop s m1)
    then show ?thesis using Suc.prems(1) ex [OF stop(2)] by simp
  next
    case (call addr pc' m1)
    let ?m2 = "m1\<lparr>vm_params := no_params\<rparr>"
    have m1: "vm_rel m m1" using ex [OF call(2)] by simp
    then have m2: "vm_rel m ?m2" by (rule vm_rel_trans) (use m1 vm_rel_inv in \<open>auto intro: vm_rel_same\<close>)
    obtain s m3 where d: "vm_dispatch n E (env_code E + unat addr) ?m2 = Done s m3"
      "if s < 0 then Done st m' = Done s m3
       else vm_dispatch n E pc' (m3\<lparr>vm_params := vm_params m1\<rparr>) = Done st m'"
      using Suc.prems(1) unfolding call(3) by (auto split: vm_outcome.splits if_splits)
    have m3: "vm_rel m m3"
      using vm_rel_trans [OF m2 Suc.IH [OF d(1) vm_rel_inv [OF m2]]] .
    let ?m4 = "m3\<lparr>vm_params := vm_params m1\<rparr>"
    have m4: "vm_rel m ?m4" using m3 by (rule vm_rel_trans) (use m3 vm_rel_inv in \<open>auto intro: vm_rel_same\<close>)
    show ?thesis
    proof (cases "s < 0")
      case True
      then show ?thesis using d(2) m3 by simp
    next
      case False
      then show ?thesis using vm_rel_trans [OF m4 Suc.IH [OF _ vm_rel_inv [OF m4]]] d(2) by simp
    qed
  qed
qed simp

section \<open>Properties\<close>


lemma vm_finish_Some:
  assumes "vm_finish st (vm_start E st offset m) = Some (status, st', m')"
  obtains tab where "data_table st = Some tab"
    and "vm_dispatch vm_fuel (E\<lparr>env_data := tab, env_code := unat (code_start st)\<rparr>) (unat (code_start st) + unat offset)
           (m\<lparr>vm_seed := rng_seed st, vm_params := no_params\<rparr>) = Done status m'"
    and "st' = st\<lparr>rng_seed := vm_seed m',
           max_cycles := (if vm_cycles m' > max_cycles st then vm_cycles m' else max_cycles st)\<rparr>"
  using assms by (auto simp: vm_finish_def vm_start_def vm_i8_run_stream_def split: option.splits vm_outcome.splits)

lemma vm_run_loop_Some:
  assumes "vm_i8_run_loop E st m = Some (status, st', m')"
  obtains tab where "data_table st = Some tab"
    and "vm_dispatch vm_fuel (E\<lparr>env_data := tab, env_code := unat (code_start st)\<rparr>)
           (unat (code_start st) + unat (loop_start st))
           (m\<lparr>vm_cycles := 0, vm_seed := rng_seed st, vm_params := no_params\<rparr>) = Done status m'"
    and "st' = st\<lparr>frame_number := frame_number st + 1, rng_seed := vm_seed m',
           max_cycles := (if vm_cycles m' > max_cycles st then vm_cycles m' else max_cycles st)\<rparr>"
proof -
  have tab: "data_table (st\<lparr>frame_number := n\<rparr>) = data_table st" for n by (simp add: data_table_def)
  show thesis
    using assms unfolding vm_i8_run_loop_def Let_def
    by (rule vm_finish_Some) (rule that; simp add: tab)
qed

text \<open>
  A run of a program's main function that is defined returns one of five statuses; it takes
  at least one cycle and at most one more than the limit, it reports the limit exactly when it takes
  one more, the longest run is recorded, the frame counter is advanced, and the memory keeps its size.
\<close>

theorem vm_run_loop_status:
  assumes "vm_i8_run_loop E st m = Some (status, st', m')"
  shows "status \<in> {VM_STATUS_OK, VM_STATUS_HALT, VM_STATUS_ASSERT, VM_STATUS_TRAP, VM_STATUS_ERR_MAX_CYCLES}
    \<and> 1 \<le> unat (vm_cycles m') \<and> unat (vm_cycles m') \<le> 32769
    \<and> (status = VM_STATUS_ERR_MAX_CYCLES \<longleftrightarrow> unat (vm_cycles m') = 32769)
    \<and> unat (max_cycles st') = max (unat (max_cycles st)) (unat (vm_cycles m'))
    \<and> frame_number st' = frame_number st + 1 \<and> rng_seed st' = vm_seed m'
    \<and> length (vm_mem m') = length (vm_mem m)"
proof -
  obtain tab where run: "vm_dispatch vm_fuel (E\<lparr>env_data := tab, env_code := unat (code_start st)\<rparr>)
           (unat (code_start st) + unat (loop_start st))
           (m\<lparr>vm_cycles := 0, vm_seed := rng_seed st, vm_params := no_params\<rparr>) = Done status m'"
    and st': "st' = st\<lparr>frame_number := frame_number st + 1, rng_seed := vm_seed m',
           max_cycles := (if vm_cycles m' > max_cycles st then vm_cycles m' else max_cycles st)\<rparr>"
    by (rule vm_run_loop_Some [OF assms])
  show ?thesis
    using dispatch_result [OF run] st' by (auto simp: max_def word_less_nat_alt)
qed

text \<open>The smallest image with a main function: one \<open>ret\<close> and one data word.\<close>

definition ret_state :: vm_state where
  "ret_state = vm_state_zero\<lparr>data_start := 4, data_count := 1\<rparr>"

definition ret_machine :: "gfx_state \<Rightarrow> kvdb_state \<Rightarrow> vm" where
  "ret_machine g db = \<lparr>vm_cycles = 0, vm_mem = [22, 0, 0, 0, 7, 0, 0, 0], vm_seed = 1,
     vm_params = no_params, vm_gfx = g, vm_db = db\<rparr>"

definition sample_env :: vm_env where
  "sample_env = \<lparr>env_code = 0, env_data = 0, env_KV = sample_KV, env_hook = None\<rparr>"

lemma ret_runs:
  "\<exists>m'. vm_i8_run_loop E ret_state (ret_machine g db) = Some (VM_STATUS_OK, ret_state\<lparr>frame_number := 1, rng_seed := 0, max_cycles := 1\<rparr>, m')"
proof -
  let ?E = "E\<lparr>env_data := 4, env_code := 0\<rparr>"
  let ?m = "ret_machine g db\<lparr>vm_cycles := 0, vm_seed := 0, vm_params := no_params\<rparr>"
  have mem: "vm_mem ?m = [22, 0, 0, 0, 7, 0, 0, 0]" by (simp add: ret_machine_def)
  have word: "rd32 [22, 0, 0, 0, 7, 0, 0, 0] 4 = Some 7" by code_simp
  have put: "put_bytes [22, 0, 0, 0, 7, 0, 0, 0] 4 (bytes32 7) = [22, 0, 0, 0, 7, 0, 0, 0]" by code_simp
  have "exec ?E 0 (tick ?m) = Some (Return VM_STATUS_OK (tick ?m))"
    by (simp add: exec_def fetch_def opcode_table_def opcode_ret_def fetch_data_def dget_def dset_def
        data_addr_def wr32_def tick_def ret_machine_def word put rd_def)
  then have "vm_dispatch vm_fuel ?E 0 ?m = Done VM_STATUS_OK (tick ?m)"
    using dispatch_rules(4) [of ?m ?E 0 VM_STATUS_OK "tick ?m" 32769] by (simp add: vm_fuel_def ret_machine_def)
  then have "vm_i8_run_loop E ret_state (ret_machine g db)
      = Some (VM_STATUS_OK, ret_state\<lparr>frame_number := 1, rng_seed := 0, max_cycles := 1\<rparr>, tick ?m)"
    by (simp add: vm_i8_run_loop_def vm_start_def vm_finish_def vm_i8_run_stream_def ret_state_def
        vm_state_zero_def data_table_def ret_machine_def)
  then show ?thesis by blast
qed

lemma vm_run_loop_status_witness:
  "\<exists>st' m'. vm_i8_run_loop sample_env ret_state (ret_machine gfx_initial (kvdb_initial False)) = Some (VM_STATUS_OK, st', m')
     \<and> unat (vm_cycles m') \<le> 32769 \<and> length (vm_mem m') = 8"
proof -
  obtain st' m' where r: "vm_i8_run_loop sample_env ret_state (ret_machine gfx_initial (kvdb_initial False)) = Some (VM_STATUS_OK, st', m')"
    using ret_runs by blast
  from vm_run_loop_status [OF r] r show ?thesis by (auto simp: ret_machine_def)
qed

text \<open>
  C5 A run keeps the firmware's state in order: the graphics state stays well formed with valid
  parameters, only pixel targets, fade times and steps change in it, the database keeps its
  invariant and binds the same keys, and of the program's state only the seed, the frame
  number and the cycle record change.
\<close>

theorem vm_run_loop_keeps:
  assumes "vm_inv m" and "vm_i8_run_loop E st m = Some (status, st', m')"
  shows "gfx_wf (vm_gfx m') \<and> params_ok (vm_gfx m') \<and> gfx_frame (vm_gfx m') = gfx_frame (vm_gfx m)
    \<and> kvdb_inv (vm_db m') \<and> dom (kvdb_abs (vm_db m')) = dom (kvdb_abs (vm_db m))
    \<and> st'\<lparr>rng_seed := 0, frame_number := 0, max_cycles := 0\<rparr> = st\<lparr>rng_seed := 0, frame_number := 0, max_cycles := 0\<rparr>"
proof -
  obtain tab where run: "vm_dispatch vm_fuel (E\<lparr>env_data := tab, env_code := unat (code_start st)\<rparr>)
           (unat (code_start st) + unat (loop_start st))
           (m\<lparr>vm_cycles := 0, vm_seed := rng_seed st, vm_params := no_params\<rparr>) = Done status m'"
    and st': "st' = st\<lparr>frame_number := frame_number st + 1, rng_seed := vm_seed m',
           max_cycles := (if vm_cycles m' > max_cycles st then vm_cycles m' else max_cycles st)\<rparr>"
    by (rule vm_run_loop_Some [OF assms(2)])
  have "vm_rel (m\<lparr>vm_cycles := 0, vm_seed := rng_seed st, vm_params := no_params\<rparr>) m'"
    using run by (rule dispatch_inv) (use assms(1) in \<open>simp add: vm_inv_def\<close>)
  then show ?thesis using st' by (simp add: vm_rel_def vm_inv_def)
qed

lemma vm_run_loop_keeps_witness:
  "\<exists>st' m'. vm_i8_run_loop sample_env ret_state (ret_machine sample_gfx sample_db) = Some (VM_STATUS_OK, st', m')
     \<and> gfx_wf (vm_gfx m') \<and> kvdb_inv (vm_db m')"
proof -
  obtain st' m' where r: "vm_i8_run_loop sample_env ret_state (ret_machine sample_gfx sample_db) = Some (VM_STATUS_OK, st', m')"
    using ret_runs by blast
  have "vm_inv (ret_machine sample_gfx sample_db)"
    using sample_gfx_ok sample_db_ok(1) by (simp add: vm_inv_def ret_machine_def)
  from vm_run_loop_keeps [OF this r] r show ?thesis by blast
qed

end
