(* ===== verification/Vm_Steps.thy ===== *)
theory Vm_Steps
  imports Vm_Run
begin

text \<open>
  The virtual machine as a transition system with an explicit return stack, one transition for each
  dispatch: the specification that the recursive interpreter of \<open>vm_core.c\<close> implements.
\<close>

section \<open>The machine with a return stack\<close>

text \<open>A frame of the stack holds the address to return to and the \<open>params\<close> array of the caller.\<close>

datatype vm_config = Running "(nat \<times> i32 option list) list" nat vm | Stopped int vm

inductive vm_step :: "vm_env \<Rightarrow> vm_config \<Rightarrow> vm_config \<Rightarrow> bool" for E where
  step_limit: "vm_cycles m + 1 > VM_MAX_CYCLES \<Longrightarrow>
    vm_step E (Running K pc m) (Stopped VM_STATUS_ERR_MAX_CYCLES (tick m))"
| step_next: "\<not> vm_cycles m + 1 > VM_MAX_CYCLES \<Longrightarrow> exec E pc (tick m) = Some (Next pc' m') \<Longrightarrow>
    vm_step E (Running K pc m) (Running K pc' m')"
| step_call: "\<not> vm_cycles m + 1 > VM_MAX_CYCLES \<Longrightarrow> exec E pc (tick m) = Some (Call addr pc' m') \<Longrightarrow>
    vm_step E (Running K pc m)
      (Running ((pc', vm_params m') # K) (env_code E + unat addr) (m'\<lparr>vm_params := no_params\<rparr>))"
| step_return: "\<not> vm_cycles m + 1 > VM_MAX_CYCLES \<Longrightarrow> exec E pc (tick m) = Some (Return st m') \<Longrightarrow> 0 \<le> st \<Longrightarrow>
    vm_step E (Running ((pc', ps) # K) pc m) (Running K pc' (m'\<lparr>vm_params := ps\<rparr>))"
| step_stop: "\<not> vm_cycles m + 1 > VM_MAX_CYCLES \<Longrightarrow> exec E pc (tick m) = Some (Return st m') \<Longrightarrow> st < 0 \<or> K = [] \<Longrightarrow>
    vm_step E (Running K pc m) (Stopped st m')"

inductive_cases step_RunningE: "vm_step E (Running K pc m) c"
inductive_cases step_StoppedE: "vm_step E (Stopped st m) c"
inductive_simps step_Running_simps: "vm_step E (Running K pc m) c"

lemma step_deterministic: "vm_step E c c1 \<Longrightarrow> vm_step E c c2 \<Longrightarrow> c1 = c2"
  by (induction rule: vm_step.induct) (auto elim: step_RunningE)

lemma stopped_final: "\<not> vm_step E (Stopped st m) c"
  by (blast elim: step_StoppedE)

lemma star_normal_unique:
  assumes det: "\<And>a b c. R a b \<Longrightarrow> R a c \<Longrightarrow> b = c"
    and "R\<^sup>*\<^sup>* a b" and "R\<^sup>*\<^sup>* a c" and "\<And>x. \<not> R b x" and "\<And>x. \<not> R c x"
  shows "b = c"
  using assms(2-5)
proof (induction rule: converse_rtranclp_induct)
  case base
  then show ?case by (metis converse_rtranclpE)
next
  case (step a a')
  from step.prems(1) show ?case
  proof (cases rule: converse_rtranclpE)
    case base
    then show ?thesis using step by blast
  next
    case (step y)
    then show ?thesis using det [OF \<open>R a a'\<close> step(1)] \<open>R\<^sup>*\<^sup>* y c\<close> "step.IH" "step.prems"(2,3) by blast
  qed
qed

section \<open>The recursive interpreter implements it\<close>

text \<open>Where a call that ends leaves the machine, under a stack of frames.\<close>

definition after_return :: "(nat \<times> i32 option list) list \<Rightarrow> int \<Rightarrow> vm \<Rightarrow> vm_config" where
  "after_return K st m =
     (if st < 0 then Stopped st m
      else (case K of [] \<Rightarrow> Stopped st m | (pc, ps) # K' \<Rightarrow> Running K' pc (m\<lparr>vm_params := ps\<rparr>)))"

lemma after_return_Nil: "after_return [] st m = Stopped st m"
  by (simp add: after_return_def)

lemma dispatch_steps:
  assumes "vm_dispatch n E pc m = Done st m'"
  shows "(vm_step E)\<^sup>*\<^sup>* (Running K pc m) (after_return K st m')"
  using assms
proof (induction n arbitrary: pc m st m' K)
  case (Suc n)
  show ?case
  proof (cases rule: dispatch_cases [of m E pc])
    case limit
    then show ?thesis using Suc.prems step_limit [of m E K pc] by (auto simp: after_return_def)
  next
    case undef
    then show ?thesis using Suc.prems by simp
  next
    case (go pc' m1)
    have "(vm_step E)\<^sup>*\<^sup>* (Running K pc' m1) (after_return K st m')" using Suc go(3) by simp
    then show ?thesis using step_next [OF go(1,2)] by (rule converse_rtranclp_into_rtranclp [rotated])
  next
    case (stop s m1)
    then have "st = s" "m' = m1" using Suc.prems by simp_all
    then show ?thesis
      using step_return [OF stop(1,2)] step_stop [OF stop(1,2)]
      by (auto simp: after_return_def split: list.split)
  next
    case (call addr pc' m1)
    let ?m2 = "m1\<lparr>vm_params := no_params\<rparr>" and ?K = "(pc', vm_params m1) # K"
    obtain s m3 where d: "vm_dispatch n E (env_code E + unat addr) ?m2 = Done s m3"
      "if s < 0 then Done st m' = Done s m3
       else vm_dispatch n E pc' (m3\<lparr>vm_params := vm_params m1\<rparr>) = Done st m'"
      using Suc.prems unfolding call(3) by (auto split: vm_outcome.splits if_splits)
    have "(vm_step E)\<^sup>*\<^sup>* (Running K pc m) (Running ?K (env_code E + unat addr) ?m2)"
      using step_call [OF call(1,2)] by blast
    also have "(vm_step E)\<^sup>*\<^sup>* \<dots> (after_return ?K s m3)" by (rule Suc.IH [OF d(1)])
    also have "(vm_step E)\<^sup>*\<^sup>* \<dots> (after_return K st m')"
      using d(2) Suc.IH [of pc' "m3\<lparr>vm_params := vm_params m1\<rparr>" st m' K]
      by (auto simp: after_return_def split: if_splits)
    finally show ?thesis .
  qed
qed simp

lemma dispatch_stuck:
  assumes "vm_dispatch n E pc m = Undefined"
  shows "\<exists>K' pc' m'. (vm_step E)\<^sup>*\<^sup>* (Running K pc m) (Running K' pc' m') \<and> (\<forall>c. \<not> vm_step E (Running K' pc' m') c)"
  using assms
proof (induction n arbitrary: pc m K)
  case (Suc n)
  show ?case
  proof (cases rule: dispatch_cases [of m E pc])
    case limit
    then show ?thesis using Suc.prems by simp
  next
    case undef
    then have "\<not> vm_step E (Running K pc m) c" for c by (auto elim: step_RunningE)
    then show ?thesis by blast
  next
    case (go pc' m1)
    then show ?thesis
      using Suc.IH [of pc' m1 K] Suc.prems step_next [OF go(1,2), of K] by (metis converse_rtranclp_into_rtranclp)
  next
    case (stop s m1)
    then show ?thesis using Suc.prems by simp
  next
    case (call addr pc' m1)
    let ?m2 = "m1\<lparr>vm_params := no_params\<rparr>" and ?K = "(pc', vm_params m1) # K"
    have first: "vm_step E (Running K pc m) (Running ?K (env_code E + unat addr) ?m2)"
      by (rule step_call [OF call(1,2)])
    show ?thesis
    proof (cases "vm_dispatch n E (env_code E + unat addr) ?m2")
      case Undefined
      from Suc.IH [OF this, of ?K] show ?thesis using first by (metis converse_rtranclp_into_rtranclp)
    next
      case (Done s m3)
      then have "\<not> s < 0" "vm_dispatch n E pc' (m3\<lparr>vm_params := vm_params m1\<rparr>) = Undefined"
        using Suc.prems unfolding call(3) by (auto split: if_splits)
      moreover from this(1) have "(vm_step E)\<^sup>*\<^sup>* (Running ?K (env_code E + unat addr) ?m2)
          (Running K pc' (m3\<lparr>vm_params := vm_params m1\<rparr>))"
        using dispatch_steps [OF Done, of ?K] by (simp add: after_return_def)
      ultimately show ?thesis
        using Suc.IH [of pc' "m3\<lparr>vm_params := vm_params m1\<rparr>" K] first
        by (meson converse_rtranclp_into_rtranclp rtranclp_trans)
    next
      case Out_of_fuel
      then show ?thesis using Suc.prems unfolding call(3) by simp
    qed
  qed
qed simp

section \<open>Properties\<close>

text \<open>The configuration a run starts in.\<close>

definition run_start :: "nat \<Rightarrow> u16 \<Rightarrow> vm \<Rightarrow> vm_config" where
  "run_start stream offset m = Running [] (stream + unat offset) (m\<lparr>vm_params := no_params\<rparr>)"

text \<open>
  C4 The recursive interpreter is the machine with a return stack: a run returns a status and a
  state exactly when the machine, started with an empty stack, reaches the stopped configuration
  with that status and state, and a run is undefined exactly when the machine gets stuck in a
  configuration that is not stopped.  So the recursion of \<open>_vm_i8_run_stream\<close> keeps nothing of the
  caller but its address and its parameters, and a negative status unwinds all calls at once.
\<close>

theorem vm_run_is_stack_machine:
  "(vm_i8_run_stream E stream offset m = Done st m' \<longleftrightarrow>
      (vm_step (E\<lparr>env_code := stream\<rparr>))\<^sup>*\<^sup>* (run_start stream offset m) (Stopped st m'))
   \<and> (vm_i8_run_stream E stream offset m = Undefined \<longleftrightarrow>
      (\<exists>K pc m1. (vm_step (E\<lparr>env_code := stream\<rparr>))\<^sup>*\<^sup>* (run_start stream offset m) (Running K pc m1)
         \<and> (\<forall>c. \<not> vm_step (E\<lparr>env_code := stream\<rparr>) (Running K pc m1) c)))"
proof -
  define E' where "E' = E\<lparr>env_code := stream\<rparr>"
  define start where "start = run_start stream offset m"
  let ?r = "vm_i8_run_stream E stream offset m"
  let ?stuck = "\<lambda>K pc m1. (vm_step E')\<^sup>*\<^sup>* start (Running K pc m1) \<and> (\<forall>c. \<not> vm_step E' (Running K pc m1) c)"
  have r: "?r = vm_dispatch vm_fuel E' (stream + unat offset) (m\<lparr>vm_params := no_params\<rparr>)"
    by (simp add: vm_i8_run_stream_def E'_def)
  have fuel: "?r \<noteq> Out_of_fuel" unfolding r by (rule dispatch_terminates(1)) (rule need_le)
  have ends: "(vm_step E')\<^sup>*\<^sup>* start (Stopped st m')" if "?r = Done st m'" for st m'
    using dispatch_steps [of _ E' _ _ st m' "[]"] that unfolding r start_def run_start_def after_return_Nil
    by blast
  have stuck: "\<exists>K pc m1. ?stuck K pc m1" if "?r = Undefined"
    using dispatch_stuck that unfolding r start_def run_start_def by blast
  have normal: "b = c" if "(vm_step E')\<^sup>*\<^sup>* start b" "(vm_step E')\<^sup>*\<^sup>* start c"
      "\<And>x. \<not> vm_step E' b x" "\<And>x. \<not> vm_step E' c x" for b c
    using star_normal_unique [of "vm_step E'" start b c] step_deterministic that by blast
  have "(?r = Done st m' \<longleftrightarrow> (vm_step E')\<^sup>*\<^sup>* start (Stopped st m'))
      \<and> (?r = Undefined \<longleftrightarrow> (\<exists>K pc m1. ?stuck K pc m1))"
  proof (cases ?r)
    case (Done s m2)
    have "Stopped s m2 = c" if "(vm_step E')\<^sup>*\<^sup>* start c" "\<And>x. \<not> vm_step E' c x" for c
      by (rule normal [OF ends [OF Done] that(1) stopped_final that(2)])
    note only = this
    have "Stopped s m2 = Stopped st m'" if "(vm_step E')\<^sup>*\<^sup>* start (Stopped st m')"
      using only [OF that] stopped_final by blast
    moreover have "\<not> ?stuck K pc m1" for K pc m1 using only [of "Running K pc m1"] by blast
    ultimately show ?thesis using Done ends by auto
  next
    case Undefined
    then obtain K pc m1 where "?stuck K pc m1" using stuck by blast
    then have "Running K pc m1 \<noteq> Stopped st m'" "\<not> (vm_step E')\<^sup>*\<^sup>* start (Stopped st m')"
      using normal [of "Running K pc m1" "Stopped st m'"] stopped_final by auto
    then show ?thesis using Undefined stuck by simp
  qed (use fuel in simp)
  then show ?thesis unfolding E'_def start_def .
qed

end
