(* ===== verification/Vm_Safe.thy ===== *)
theory Vm_Safe
  imports Vm_Steps
begin

text \<open>
  A static check of byte code, and the safety it gives.  The firmware has no such check: it relies on
  the compiler.  The check decodes a code section from its start, and accepts it if every
  instruction has only operands inside the data table and jump targets that are instructions.  A
  checked program never leaves its code and never touches a byte outside its data table.
\<close>

section \<open>The format of the instructions\<close>

text \<open>
  The operands of an instruction: a data address, a 16-bit code address, or any byte.  Opcodes whose
  accesses depend on run-time values (indexed access, whole arrays, library calls, object attributes,
  \<open>is_fading\<close>) are not accepted.  The flag tells whether the next instruction can follow.
\<close>

datatype operand = Data | Target | Byte

primrec operand_size :: "operand \<Rightarrow> nat" where
  "operand_size Data = 1"
| "operand_size Target = 2"
| "operand_size Byte = 1"

type_synonym op_format = "(operand list \<times> bool) option"

definition op_formats :: "op_format list" where
  "op_formats =
    (let data2 = Some ([Data, Data], True);
         data3 = Some ([Data, Data, Data], True);
         jump1 = Some ([Data, Target], True);
         jump2 = Some ([Data, Data, Target], True);
         pixel = Some ([Data, Data, Data, Byte], True);
         trap = Some ([], False);
         hashed = Some ([Byte, Byte, Byte, Byte, Data], True)
     in [data2, Some ([Data], True), data3, data3, data3, data3,
         data3, data3, data3, data3, data3, data3, data3,
         data3, data3, Some ([Target], False), jump1, jump1, jump1,
         jump2, jump2, Some ([Data], True), Some ([Data], False), Some ([Target], True), None,
         None, None, None, pixel, pixel, pixel, pixel,
         pixel, pixel, None, None, None,
         None, None, None, data3, Some ([Data], True), trap,
         None, None, trap, trap, trap, trap,
         pixel, pixel, pixel, pixel, trap, None,
         Some ([Byte, Byte, Byte, Byte], True), data2, hashed, hashed]
        @ replicate 197 trap)"

definition operands_size :: "operand list \<Rightarrow> nat" where
  "operands_size f = sum_list (map operand_size f)"

definition op_format_of :: "u8 \<Rightarrow> op_format" where
  "op_format_of opcode = op_formats ! unat opcode"

section \<open>The check\<close>

text \<open>The offsets of the instructions, decoding from the start of the code section.\<close>

function (sequential) starts :: "nat \<Rightarrow> u8 list \<Rightarrow> nat list" where
  "starts off [] = []"
| "starts off (b # bs) =
     (case op_format_of b of
        None \<Rightarrow> [off]
      | Some (f, falls) \<Rightarrow> off # starts (off + 1 + operands_size f) (drop (operands_size f) bs))"
  by pat_completeness auto
termination by (relation "measure (\<lambda>(off, bs). length bs)") auto

fun operands_ok :: "u8 list \<Rightarrow> nat \<Rightarrow> nat set \<Rightarrow> nat \<Rightarrow> operand list \<Rightarrow> bool" where
  "operands_ok code n S p [] = True"
| "operands_ok code n S p (Data # f) = (unat (code ! p) < n \<and> operands_ok code n S (p + 1) f)"
| "operands_ok code n S p (Target # f) =
     (unat (code ! p) + 256 * unat (code ! (p + 1)) \<in> S \<and> operands_ok code n S (p + 2) f)"
| "operands_ok code n S p (Byte # f) = operands_ok code n S (p + 1) f"

definition instr_ok :: "u8 list \<Rightarrow> nat \<Rightarrow> nat set \<Rightarrow> nat \<Rightarrow> bool" where
  "instr_ok code n S off \<longleftrightarrow> off < length code \<and>
     (case op_format_of (code ! off) of
        None \<Rightarrow> False
      | Some (f, falls) \<Rightarrow>
          off + 1 + operands_size f \<le> length code \<and> operands_ok code n S (off + 1) f
          \<and> (falls \<longrightarrow> off + 1 + operands_size f \<in> S))"

definition code_checked :: "u8 list \<Rightarrow> nat \<Rightarrow> bool" where
  "code_checked code n \<longleftrightarrow> 0 < n \<and> (\<forall>off \<in> set (starts 0 code). instr_ok code n (set (starts 0 code)) off)"

section \<open>Machines that hold a checked program\<close>

text \<open>Pixel objects whose coordinates always have an index.\<close>

definition objects_ok :: "gfx_state \<Rightarrow> bool" where
  "objects_ok g \<longleftrightarrow> gfx_wf g \<and> params_ok g \<and> virtual_array_length g = 0
     \<and> (\<forall>obj < pix_array_count g. \<exists>pa. pixel_obj obj g = Some pa \<and> pa_count pa \<noteq> 0
           \<and> pa_size_x pa \<noteq> 0 \<and> pa_size_y pa \<noteq> 0)"

text \<open>The code section lies in the memory, apart from the data table.\<close>

definition holds_code :: "vm_env \<Rightarrow> u8 list \<Rightarrow> nat \<Rightarrow> vm \<Rightarrow> bool" where
  "holds_code E code n m \<longleftrightarrow>
     env_code E + length code \<le> length (vm_mem m) \<and> env_data E + 4 * n \<le> length (vm_mem m)
     \<and> (env_code E + length code \<le> env_data E \<or> env_data E + 4 * n \<le> env_code E)
     \<and> (\<forall>i < length code. vm_mem m ! (env_code E + i) = code ! i)
     \<and> objects_ok (vm_gfx m)"

text \<open>Nothing but the data table changed.\<close>

definition data_only :: "vm_env \<Rightarrow> nat \<Rightarrow> vm \<Rightarrow> vm \<Rightarrow> bool" where
  "data_only E n m m' \<longleftrightarrow> length (vm_mem m') = length (vm_mem m)
     \<and> (\<forall>i. i < env_data E \<or> env_data E + 4 * n \<le> i \<longrightarrow> vm_mem m' ! i = vm_mem m ! i)
     \<and> (gfx_wf (vm_gfx m) \<longrightarrow> gfx_wf (vm_gfx m')) \<and> gfx_frame (vm_gfx m') = gfx_frame (vm_gfx m)"

lemma data_only_trans: "data_only E n m m' \<Longrightarrow> data_only E n m' m'' \<Longrightarrow> data_only E n m m''"
  by (simp add: data_only_def)

lemma objects_ok_frame:
  assumes "objects_ok g" and "gfx_wf g'" and "gfx_frame g' = gfx_frame g"
  shows "objects_ok g'"
proof -
  have "virtual_array_length g' = virtual_array_length g" "pix_array_count g' = pix_array_count g"
    "pix_arrays g' = pix_arrays g"
    using frame_fields(2,3,7) [of g'] frame_fields(2,3,7) [of g] assms(3) by simp_all
  then show ?thesis
    using assms(1,2) gfx_frame_config(4) [OF assms(3)] by (simp add: objects_ok_def pixel_obj_def)
qed

lemma holds_code_data_only:
  assumes "holds_code E code n m" and "data_only E n m m'"
  shows "holds_code E code n m'"
  using assms objects_ok_frame [of "vm_gfx m" "vm_gfx m'"] by (auto simp: holds_code_def data_only_def objects_ok_def)

lemma data_only_refl [simp]: "data_only E n m m"
  by (simp add: data_only_def)

text \<open>The fields that the code section does not depend on.\<close>

lemma holds_code_other [simp]:
  "holds_code E code n (m\<lparr>vm_cycles := c\<rparr>) = holds_code E code n m"
  "holds_code E code n (m\<lparr>vm_seed := s\<rparr>) = holds_code E code n m"
  "holds_code E code n (m\<lparr>vm_params := ps\<rparr>) = holds_code E code n m"
  "holds_code E code n (m\<lparr>vm_db := db\<rparr>) = holds_code E code n m"
  by (simp_all add: holds_code_def)

lemma data_only_other [simp]:
  "data_only E n m (m'\<lparr>vm_cycles := c\<rparr>) = data_only E n m m'"
  "data_only E n m (m'\<lparr>vm_seed := s\<rparr>) = data_only E n m m'"
  "data_only E n m (m'\<lparr>vm_params := ps\<rparr>) = data_only E n m m'"
  "data_only E n m (m'\<lparr>vm_db := db\<rparr>) = data_only E n m m'"
  "data_only E n (m\<lparr>vm_cycles := c\<rparr>) m' = data_only E n m m'"
  "data_only E n (m\<lparr>vm_seed := s\<rparr>) m' = data_only E n m m'"
  "data_only E n (m\<lparr>vm_params := ps\<rparr>) m' = data_only E n m m'"
  "data_only E n (m\<lparr>vm_db := db\<rparr>) m' = data_only E n m m'"
  by (simp_all add: data_only_def)

section \<open>Steps that succeed\<close>

text \<open>In a machine that holds the code, a computation succeeds and its result satisfies \<open>P\<close>.\<close>

definition safely :: "vm_env \<Rightarrow> u8 list \<Rightarrow> nat \<Rightarrow> vm \<Rightarrow> 'a option \<Rightarrow> ('a \<Rightarrow> bool) \<Rightarrow> bool" where
  "safely E code n m x P \<longleftrightarrow> (holds_code E code n m \<longrightarrow> (\<exists>r. x = Some r \<and> P r))"

lemma safely_bind:
  "safely E code n m x (\<lambda>a. safely E code n m (f a) P) \<Longrightarrow> safely E code n m (Option.bind x f) P"
  by (auto simp: safely_def)

lemma safely_Some: "P r \<Longrightarrow> safely E code n m (Some r) P"
  by (simp add: safely_def)

lemma safely_if:
  "(b \<Longrightarrow> safely E code n m x P) \<Longrightarrow> (\<not> b \<Longrightarrow> safely E code n m y P) \<Longrightarrow> safely E code n m (if b then x else y) P"
  by simp

lemma safely_fetch:
  "p < length code \<Longrightarrow> P (code ! p) \<Longrightarrow> safely E code n m (fetch (env_code E + p) m) P"
  "p + k < length code \<Longrightarrow> P (code ! (p + k)) \<Longrightarrow> safely E code n m (fetch (env_code E + p + k) m) P"
  by (auto simp: safely_def fetch_def holds_code_def add.assoc)

lemma safely_dget:
  assumes "unat (a :: u8) < n" and "\<And>v. P v"
  shows "safely E code n m (dget E (uint a) m) P"
  unfolding safely_def
proof
  assume h: "holds_code E code n m"
  have addr: "data_addr E (uint a) = int (env_data E + 4 * unat a)" by (simp add: data_addr_def)
  have "env_data E + 4 * unat a + 4 \<le> length (vm_mem m)" using h assms(1) by (simp add: holds_code_def)
  then obtain v where "rd32 (vm_mem m) (env_data E + 4 * unat a) = Some v" using rd32_total by blast
  then have "dget E (uint a) m = Some v"
    unfolding dget_def addr nat_int by simp
  then show "\<exists>v. dget E (uint a) m = Some v \<and> P v" using assms(2) by blast
qed

lemma safely_dset:
  assumes "unat (a :: u8) < n" and m1: "vm_mem m1 = vm_mem m" "vm_gfx m1 = vm_gfx m"
    and P: "\<And>m'. holds_code E code n m' \<Longrightarrow> data_only E n m m' \<Longrightarrow> P m'"
  shows "safely E code n m (dset E (uint a) v m1) P"
  unfolding safely_def
proof
  assume h: "holds_code E code n m"
  let ?a = "env_data E + 4 * unat a"
  have addr: "data_addr E (uint a) = int ?a" by (simp add: data_addr_def)
  have fits: "?a + 4 \<le> env_data E + 4 * n" "env_data E + 4 * n \<le> length (vm_mem m)"
    using h assms(1) by (simp_all add: holds_code_def)
  define m' where "m' = m1\<lparr>vm_mem := put_bytes (vm_mem m) ?a (bytes32 v)\<rparr>"
  have "wr32 (vm_mem m) ?a v = Some (put_bytes (vm_mem m) ?a (bytes32 v))"
    using fits by (simp add: wr32_def)
  then have set: "dset E (uint a) v m1 = Some m'"
    unfolding dset_def addr nat_int m'_def m1 by simp
  have only: "data_only E n m m'"
    using fits h by (auto simp: data_only_def m'_def nth_put_bytes m1)
  show "\<exists>r. dset E (uint a) v m1 = Some r \<and> P r"
    using set P [OF holds_code_data_only [OF h only] only] by blast
qed

text \<open>Going on with the machine that a write returns.\<close>

lemma safely_dset_next:
  assumes "unat (a :: u8) < n"
    and "\<And>m'. data_only E n m m' \<Longrightarrow> safely E code n m' (f m') P"
  shows "safely E code n m (Option.bind (dset E (uint a) v m) f) P"
  by (intro safely_bind safely_dset) (use assms in \<open>simp_all add: safely_def\<close>)

lemma safely_case_option:
  "(v = None \<Longrightarrow> safely E code n m x P) \<Longrightarrow> (\<And>a. v = Some a \<Longrightarrow> safely E code n m (y a) P)
    \<Longrightarrow> safely E code n m (case v of None \<Rightarrow> x | Some a \<Rightarrow> y a) P"
  by (cases v) simp_all

lemma safely_fetch_data:
  "p < length code \<Longrightarrow> unat (code ! p) < n \<Longrightarrow> (\<And>v. P v) \<Longrightarrow> safely E code n m (fetch_data E (env_code E + p) m) P"
  "p + k < length code \<Longrightarrow> unat (code ! (p + k)) < n \<Longrightarrow> (\<And>v. P v)
    \<Longrightarrow> safely E code n m (fetch_data E (env_code E + p + k) m) P"
  unfolding fetch_data_def by (intro safely_bind safely_fetch safely_dget; simp)+

lemma unat_addr: "unat (ucast (lo :: u8) + push_bit 8 (ucast (hi :: u8)) :: u16) = unat lo + 256 * unat hi"
proof -
  have h: "unat (push_bit 8 (ucast hi) :: u16) = 256 * unat hi"
    using unat8_less [of hi] by (simp add: push_bit_eq_mult unat_word_ariths(2))
  show ?thesis
    using unat8_less [of hi] unat8_less [of lo] by (simp add: unat_word_ariths(1) h)
qed

lemma safely_fetch_addr:
  "p + 1 < length code \<Longrightarrow> (\<And>a. unat a = unat (code ! p) + 256 * unat (code ! (p + 1)) \<Longrightarrow> P a)
    \<Longrightarrow> safely E code n m (fetch_addr (env_code E + p) m) P"
  "p + k + 1 < length code \<Longrightarrow> (\<And>a. unat a = unat (code ! (p + k)) + 256 * unat (code ! (p + k + 1)) \<Longrightarrow> P a)
    \<Longrightarrow> safely E code n m (fetch_addr (env_code E + p + k) m) P"
  unfolding fetch_addr_def add.assoc
  by (intro safely_bind safely_Some safely_fetch(1); simp add: unat_addr)+

lemma safely_fetch_hash:
  "p + 3 < length code \<Longrightarrow> (\<And>h. P h) \<Longrightarrow> safely E code n m (fetch_hash (env_code E + p) m) P"
  unfolding fetch_hash_def by (intro safely_bind safely_Some safely_fetch; simp)

section \<open>Safe handlers\<close>

text \<open>The operands at an offset satisfy the check, and so does what follows them.\<close>

definition ready :: "vm_env \<Rightarrow> u8 list \<Rightarrow> nat \<Rightarrow> nat set \<Rightarrow> nat \<Rightarrow> operand list \<times> bool \<Rightarrow> vm \<Rightarrow> bool" where
  "ready E code n S p fmt m \<longleftrightarrow> holds_code E code n m \<and> 0 < n
     \<and> p + operands_size (fst fmt) \<le> length code \<and> operands_ok code n S p (fst fmt)
     \<and> (snd fmt \<longrightarrow> p + operands_size (fst fmt) \<in> S)"

text \<open>A result is good if it goes on at an instruction and only changed the data table.\<close>

definition good :: "vm_env \<Rightarrow> nat \<Rightarrow> nat set \<Rightarrow> vm \<Rightarrow> vm_next \<Rightarrow> bool" where
  "good E n S m r \<longleftrightarrow> data_only E n m (next_vm r)
     \<and> (case r of
          Next pc m' \<Rightarrow> \<exists>p \<in> S. pc = env_code E + p
        | Return st m' \<Rightarrow> True
        | Call addr pc m' \<Rightarrow> unat addr \<in> S \<and> (\<exists>p \<in> S. pc = env_code E + p))"

lemma good_rules:
  "data_only E n m m' \<Longrightarrow> p \<in> S \<Longrightarrow> good E n S m (Next (env_code E + p) m')"
  "data_only E n m m' \<Longrightarrow> p + k \<in> S \<Longrightarrow> good E n S m (Next (env_code E + p + k) m')"
  "data_only E n m m' \<Longrightarrow> good E n S m (Return st m')"
  "data_only E n m m' \<Longrightarrow> unat addr \<in> S \<Longrightarrow> p + k \<in> S \<Longrightarrow> good E n S m (Call addr (env_code E + p + k) m')"
  "(b \<Longrightarrow> good E n S m (Next pc m')) \<Longrightarrow> (\<not> b \<Longrightarrow> good E n S m (Next pc' m'))
    \<Longrightarrow> good E n S m (Next (if b then pc else pc') m')"
  "(b \<Longrightarrow> good E n S m r) \<Longrightarrow> (\<not> b \<Longrightarrow> good E n S m r') \<Longrightarrow> good E n S m (if b then r else r')"
  by (auto simp: good_def add.assoc)

definition handler_safe :: "handler \<Rightarrow> operand list \<times> bool \<Rightarrow> bool" where
  "handler_safe h fmt \<longleftrightarrow> (\<forall>E code n S p m. ready E code n S p fmt m \<longrightarrow>
     safely E code n m (h E (env_code E + p) m) (good E n S m))"

lemma handler_safeI:
  assumes "\<And>E code n S p m. ready E code n S p fmt m \<Longrightarrow> safely E code n m (h E (env_code E + p) m) (good E n S m)"
  shows "handler_safe h fmt"
  using assms by (simp add: handler_safe_def)

lemmas safe_rules = safely_bind safely_Some safely_if safely_case_option safely_fetch safely_fetch_data safely_fetch_addr
  safely_fetch_hash safely_dget safely_dset good_rules

lemmas ready_simps = ready_def operands_size_def numeral_eq_Suc

lemma safe_simple:
  "handler_safe opcode_mov ([Data, Data], True)" "handler_safe opcode_clr ([Data], True)"
  "handler_safe opcode_not ([Data, Data], True)" "handler_safe opcode_print ([Data], True)"
  "handler_safe opcode_call ([Target], True)" "handler_safe opcode_assert ([Data], True)"
  "handler_safe opcode_halt ([], False)" "handler_safe opcode_trap ([], False)"
  "handler_safe opcode_obj_store ([Byte, Byte, Byte, Byte], True)"
  "handler_safe (binary f) ([Data, Data, Data], True)"
  unfolding simple_opcodes binary_def
  by (rule handler_safeI; intro safe_rules; simp add: ready_simps)+

lemma safe_jumps:
  "handler_safe opcode_jmp ([Target], False)" "handler_safe opcode_jmp_if_z ([Data, Target], True)"
  "handler_safe opcode_jmp_if_not_z ([Data, Target], True)"
  "handler_safe opcode_jmp_if_z_dec ([Data, Target], True)"
  "handler_safe opcode_jmp_if_gte ([Data, Data, Target], True)"
  unfolding jump_opcodes
  by (rule handler_safeI; intro safe_rules; simp add: ready_simps)+

lemma safe_pre_inc: "handler_safe opcode_jmp_if_l_pre_inc ([Data, Data, Target], True)"
  unfolding jump_opcodes
  by (rule handler_safeI; intro safely_dset_next safe_rules; simp add: ready_simps)

lemma safe_ret: "handler_safe opcode_ret ([Data], False)"
proof (rule handler_safeI)
  fix E code n S p m
  have ret: "RETURN_VAL_ADDR = uint (0 :: u8)" by simp
  assume "ready E code n S p ([Data], False) m"
  then show "safely E code n m (opcode_ret E (env_code E + p) m) (good E n S m)"
    unfolding opcode_ret_def ret by (intro safe_rules; simp add: ready_simps)
qed

lemma safe_stores:
  "handler_safe opcode_rand ([Data, Data, Data], True)"
  "handler_safe opcode_db_load ([Byte, Byte, Byte, Byte, Data], True)"
  "handler_safe opcode_db_store ([Byte, Byte, Byte, Byte, Data], True)"
  unfolding opcode_rand_def opcode_db_load_def opcode_db_store_def Let_def split_beta
  by (rule handler_safeI; intro safe_rules; simp add: ready_simps)+

section \<open>Pixels\<close>

lemma calc_index_total:
  assumes "objects_ok g"
  shows "\<exists>i. calc_index obj x y g = Some i"
proof (cases "obj \<ge> pix_array_count g")
  case True
  then show ?thesis by (simp add: calc_index_def)
next
  case False
  then obtain pa where pa: "pixel_obj obj g = Some pa" "pa_count pa \<noteq> 0" "pa_size_x pa \<noteq> 0" "pa_size_y pa \<noteq> 0"
    using assms by (auto simp: objects_ok_def not_le)
  have "pix_count g \<noteq> 0" "virtual_array_length g = 0"
    using assms by (auto simp: objects_ok_def params_ok_def)
  then show ?thesis
    using False pa by (simp add: calc_index_def u_mod_def require_def Let_def split_beta)
qed

definition setter_ok :: "(u16 \<Rightarrow> u16 \<Rightarrow> u16 \<Rightarrow> u8 \<Rightarrow> gfx_state \<Rightarrow> gfx_state option) \<Rightarrow> bool" where
  "setter_ok f \<longleftrightarrow> (\<forall>a x y obj g. objects_ok g \<longrightarrow>
     (\<exists>g'. f a x y obj g = Some g' \<and> gfx_wf g' \<and> gfx_frame g' = gfx_frame g))"

definition getter_ok :: "(u16 \<Rightarrow> u16 \<Rightarrow> u8 \<Rightarrow> gfx_state \<Rightarrow> u16 option) \<Rightarrow> bool" where
  "getter_ok f \<longleftrightarrow> (\<forall>x y obj g. objects_ok g \<longrightarrow> (\<exists>v. f x y obj g = Some v))"

lemma setter_okI:
  assumes "\<And>a x y obj g. f a x y obj g = map_option (\<lambda>i. h a i g) (calc_index obj x y g)"
    and "\<And>a x y obj g g'. gfx_wf g \<Longrightarrow> f a x y obj g = Some g' \<Longrightarrow> gfx_wf g' \<and> gfx_frame g' = gfx_frame g"
  shows "setter_ok f"
  unfolding setter_ok_def
proof (intro allI impI)
  fix a x y obj g
  assume ok: "objects_ok g"
  then obtain i where "calc_index obj x y g = Some i" using calc_index_total by blast
  then have "f a x y obj g = Some (h a i g)" by (simp add: assms(1))
  with assms(2) [OF _ this] ok show "\<exists>g'. f a x y obj g = Some g' \<and> gfx_wf g' \<and> gfx_frame g' = gfx_frame g"
    by (simp add: objects_ok_def)
qed

lemma setters_ok:
  "setter_ok gfx_v_set_hue" "setter_ok gfx_v_set_sat" "setter_ok gfx_v_set_val"
  "setter_ok gfx_v_set_hs_fade" "setter_ok gfx_v_set_v_fade"
  by (rule setter_okI, rule gfx_v_set_eq, erule (1) gfx_v_set_keeps)+

lemma getters_ok:
  "getter_ok gfx_u16_get_hue" "getter_ok gfx_u16_get_sat" "getter_ok gfx_u16_get_val"
  "getter_ok gfx_u16_get_hs_fade" "getter_ok gfx_u16_get_v_fade"
proof -
  have "unat (i mod MAX_PIXELS :: u16) < 320" for i :: u16
    by (simp add: unat_mod)
  then have rd: "\<exists>v. Option.bind (calc_index obj x y g) (\<lambda>i. rd xs (unat (i mod MAX_PIXELS))) = Some v"
    if "objects_ok g" "length xs = 320" for obj x y g and xs :: "u16 list"
    using calc_index_total [OF that(1), of obj x y] that(2) by (auto simp: rd_def)
  show "getter_ok gfx_u16_get_hue" "getter_ok gfx_u16_get_sat" "getter_ok gfx_u16_get_val"
    "getter_ok gfx_u16_get_hs_fade" "getter_ok gfx_u16_get_v_fade"
    unfolding getter_ok_def gfx_u16_get_hue_def gfx_u16_get_sat_def gfx_u16_get_val_def
      gfx_u16_get_hs_fade_def gfx_u16_get_v_fade_def
    by (intro allI impI rd; simp add: objects_ok_def gfx_wf_def)+
qed

lemma safe_pixel_store:
  assumes "setter_ok setter"
  shows "handler_safe (pixel_store limit setter) ([Data, Data, Data, Byte], True)"
proof (rule handler_safeI)
  fix E code n S p m
  have set: "safely E code n m (setter a x y obj (vm_gfx m)) P"
    if "\<And>g'. gfx_wf g' \<Longrightarrow> gfx_frame g' = gfx_frame (vm_gfx m) \<Longrightarrow> P g'" for a x y obj P
    using assms that by (fastforce simp: safely_def holds_code_def setter_ok_def)
  assume "ready E code n S p ([Data, Data, Data, Byte], True) m"
  then show "safely E code n m (pixel_store limit setter E (env_code E + p) m) (good E n S m)"
    unfolding pixel_store_def by (intro safe_rules set; simp add: ready_simps data_only_def)
qed

lemma safe_pixel_load:
  assumes "getter_ok getter"
  shows "handler_safe (pixel_load getter) ([Data, Data, Data, Byte], True)"
proof (rule handler_safeI)
  fix E code n S p m
  have get: "safely E code n m (getter x y obj (vm_gfx m)) P" if "\<And>v. P v" for x y obj P
    using assms that by (auto simp: safely_def holds_code_def getter_ok_def)
  assume "ready E code n S p ([Data, Data, Data, Byte], True) m"
  then show "safely E code n m (pixel_load getter E (env_code E + p) m) (good E n S m)"
    unfolding pixel_load_def by (intro safe_rules get; simp add: ready_simps)
qed

section \<open>Every accepted opcode is safe\<close>

definition accepts :: "handler \<Rightarrow> op_format \<Rightarrow> bool" where
  "accepts h fmt \<longleftrightarrow> (case fmt of None \<Rightarrow> True | Some f \<Rightarrow> handler_safe h f)"

lemma accepts_simps [simp]: "accepts h None" "accepts h (Some f) = handler_safe h f"
  by (simp_all add: accepts_def)

lemma opcode_table_accepts: "list_all2 accepts opcode_table op_formats"
proof -
  have "list_all2 accepts (replicate 197 opcode_trap) (replicate 197 (Some ([], False)))"
    by (simp add: list_all2_conv_all_nth safe_simple)
  then show ?thesis
    unfolding opcode_table_def op_formats_def Let_def
    by (intro list_all2_appendI)
      (simp_all add: safe_simple safe_jumps safe_pre_inc safe_ret safe_stores binary_opcodes store_opcodes
        load_opcodes safe_pixel_store safe_pixel_load setters_ok getters_ok)
qed

lemma exec_safe:
  assumes checked: "code_checked code n" and h: "holds_code E code n m"
    and p: "p \<in> set (starts 0 code)"
  shows "\<exists>r. exec E (env_code E + p) m = Some r \<and> good E n (set (starts 0 code)) m r"
proof -
  let ?S = "set (starts 0 code)"
  obtain f falls where fmt: "op_format_of (code ! p) = Some (f, falls)" and lt: "p < length code"
    and ok: "p + 1 + operands_size f \<le> length code" "operands_ok code n ?S (p + 1) f"
      "falls \<longrightarrow> p + 1 + operands_size f \<in> ?S" "0 < n"
    using checked p by (auto simp: code_checked_def instr_ok_def split: option.splits prod.splits)
  have "unat (code ! p) < length opcode_table" using unat8_less [of "code ! p"] by (simp add: opcode_table_def)
  then have "accepts (opcode_table ! unat (code ! p)) (op_format_of (code ! p))"
    using opcode_table_accepts by (simp add: list_all2_conv_all_nth op_format_of_def)
  then have safe: "handler_safe (opcode_table ! unat (code ! p)) (f, falls)" by (simp add: fmt)
  have "ready E code n ?S (p + 1) (f, falls) m" using ok h by (simp add: ready_def)
  with safe have "safely E code n m ((opcode_table ! unat (code ! p)) E (env_code E + (p + 1)) m) (good E n ?S m)"
    unfolding handler_safe_def by blast
  then have "safely E code n m (exec E (env_code E + p) m) (good E n ?S m)"
    unfolding exec_def add.assoc by (intro safely_bind safely_fetch) (use lt in simp_all)
  then show ?thesis using h by (simp add: safely_def)
qed

section \<open>The machine with a checked program\<close>

text \<open>
  The invariant of the machine with a return stack: it is at an instruction, so are all its return
  addresses, and since the start only the data table has changed.
\<close>

fun config_ok :: "vm_env \<Rightarrow> u8 list \<Rightarrow> nat \<Rightarrow> vm \<Rightarrow> vm_config \<Rightarrow> bool" where
  "config_ok E code n m0 (Running K pc m) \<longleftrightarrow>
     (\<exists>p \<in> set (starts 0 code). pc = env_code E + p)
     \<and> (\<forall>(pc', ps) \<in> set K. \<exists>p \<in> set (starts 0 code). pc' = env_code E + p)
     \<and> holds_code E code n m \<and> data_only E n m0 m"
| "config_ok E code n m0 (Stopped st m) \<longleftrightarrow> data_only E n m0 m"

lemma tick_holds [simp]: "holds_code E code n (tick m) = holds_code E code n m"
  "data_only E n m0 (tick m) = data_only E n m0 m"
  by (simp_all add: tick_def)

lemma exec_good:
  assumes "code_checked code n" and "config_ok E code n m0 (Running K pc m)"
  obtains r where "exec E pc (tick m) = Some r" and "good E n (set (starts 0 code)) (tick m) r"
    and "data_only E n m0 (next_vm r)" and "holds_code E code n (next_vm r)"
proof -
  obtain p where p: "p \<in> set (starts 0 code)" "pc = env_code E + p" and h: "holds_code E code n (tick m)"
    and d: "data_only E n m0 (tick m)" using assms(2) by auto
  obtain r where r: "exec E pc (tick m) = Some r" "good E n (set (starts 0 code)) (tick m) r"
    using exec_safe [OF assms(1) h p(1)] p(2) by blast
  then have step: "data_only E n (tick m) (next_vm r)" by (simp add: good_def)
  show thesis
    by (rule that [OF r data_only_trans [OF d step] holds_code_data_only [OF h step]])
qed

lemma config_ok_step:
  assumes "vm_step E c c'" and "code_checked code n" and "config_ok E code n m0 c"
  shows "config_ok E code n m0 c'"
proof -
  obtain K pc m where c: "c = Running K pc m" using assms(1) by (cases rule: vm_step.cases) auto
  obtain r where r: "exec E pc (tick m) = Some r" "good E n (set (starts 0 code)) (tick m) r"
    "data_only E n m0 (next_vm r)" "holds_code E code n (next_vm r)"
    using exec_good [OF assms(2)] assms(3) unfolding c by blast
  show ?thesis
    using assms(1,3) r unfolding c
    by (cases rule: step_RunningE) (auto simp: good_def)
qed

lemma config_ok_progress:
  assumes "code_checked code n" and "config_ok E code n m0 (Running K pc m)"
  shows "\<exists>c'. vm_step E (Running K pc m) c'"
proof (cases "vm_cycles m + 1 > VM_MAX_CYCLES")
  case True
  then show ?thesis using step_limit by blast
next
  case False
  obtain r where r: "exec E pc (tick m) = Some r" using exec_good [OF assms] by blast
  show ?thesis
  proof (cases r)
    case (Return st m')
    show ?thesis
    proof (cases "st < 0 \<or> K = []")
      case stop: False
      then obtain pc' ps K' where "K = (pc', ps) # K'" "0 \<le> st" by (cases K) auto
      then show ?thesis using step_return [OF False] r Return by blast
    qed (use step_stop [OF False] r Return in blast)
  qed (use step_next [OF False] step_call [OF False] r in blast)+
qed

lemma config_ok_reach:
  assumes "(vm_step E)\<^sup>*\<^sup>* c c'" and "code_checked code n" and "config_ok E code n m0 c"
  shows "config_ok E code n m0 c'"
  using assms by (induction rule: rtranclp_induct) (auto intro: config_ok_step)

lemma dispatch_safe:
  assumes checked: "code_checked code n" and h: "holds_code E code n m" and p: "p \<in> set (starts 0 code)"
    and fuel: "need (vm_cycles m) \<le> k"
  shows "\<exists>st m'. vm_dispatch k E (env_code E + p) m = Done st m' \<and> data_only E n m m'"
proof -
  let ?c = "Running [] (env_code E + p) m"
  have start: "config_ok E code n m ?c" using h p by auto
  show ?thesis
  proof (cases "vm_dispatch k E (env_code E + p) m")
    case (Done st m')
    have "(vm_step E)\<^sup>*\<^sup>* ?c (Stopped st m')"
      using dispatch_steps [OF Done, of "[]"] by (simp add: after_return_Nil)
    from config_ok_reach [OF this checked start] show ?thesis using Done by simp
  next
    case Undefined
    from dispatch_stuck [OF this] obtain K pc m' where "(vm_step E)\<^sup>*\<^sup>* ?c (Running K pc m')"
      and stuck: "\<And>c. \<not> vm_step E (Running K pc m') c" by blast
    from config_ok_progress [OF checked config_ok_reach [OF this(1) checked start]] stuck
    show ?thesis by blast
  next
    case Out_of_fuel
    then show ?thesis using dispatch_terminates(1) [OF fuel] by simp
  qed
qed

section \<open>Properties\<close>

text \<open>The code section and the data table of a program state lie in the memory, apart from each other.\<close>

definition program_in :: "u8 list \<Rightarrow> vm_state \<Rightarrow> u8 list \<Rightarrow> bool" where
  "program_in code st mem \<longleftrightarrow> section_at mem (code_start st) code \<and> table_ok mem st
     \<and> (unat (code_start st) + length code \<le> unat (data_start st)
        \<or> unat (data_start st) + 4 * unat (data_count st) \<le> unat (code_start st))"

lemma program_in_holds:
  assumes "program_in code st (vm_mem m)" and "objects_ok (vm_gfx m)" and "0 < length code"
    and "env_code E = unat (code_start st)" and "env_data E = unat (data_start st)"
  shows "holds_code E code (unat (data_count st)) m"
proof -
  have at: "take (length code) (drop (unat (code_start st)) (vm_mem m)) = code"
    using assms(1) by (simp add: program_in_def section_at_def)
  have "length (take (length code) (drop (unat (code_start st)) (vm_mem m))) = length code" by (simp only: at)
  then have "min (length code) (length (vm_mem m) - unat (code_start st)) = length code"
    by (simp only: length_take length_drop min.commute)
  then have fits: "unat (code_start st) + length code \<le> length (vm_mem m)" using assms(3) by linarith
  have "vm_mem m ! (unat (code_start st) + i) = code ! i" if "i < length code" for i
    using arg_cong [OF at, of "\<lambda>xs. xs ! i"] that fits by simp
  then show ?thesis
    using assms fits by (simp add: holds_code_def program_in_def table_ok_def)
qed

text \<open>Running a function of a checked program from outside.\<close>

lemma start_safe:
  assumes "code_checked code (unat (data_count st))" and "unat off \<in> set (starts 0 code)"
    and "program_in code st (vm_mem m)" and "objects_ok (vm_gfx m)"
  shows "\<exists>status m'. vm_start E st off m = Done status m'
    \<and> length (vm_mem m') = length (vm_mem m)
    \<and> (\<forall>i. i < unat (data_start st) \<or> unat (data_start st) + 4 * unat (data_count st) \<le> i
          \<longrightarrow> vm_mem m' ! i = vm_mem m ! i)
    \<and> gfx_frame (vm_gfx m') = gfx_frame (vm_gfx m) \<and> objects_ok (vm_gfx m')"
proof -
  define E' where "E' = E\<lparr>env_data := unat (data_start st), env_code := unat (code_start st)\<rparr>"
  define m0 where "m0 = m\<lparr>vm_seed := rng_seed st, vm_params := no_params\<rparr>"
  have "0 < length code" using assms(1,2) by (auto simp: code_checked_def instr_ok_def)
  then have h: "holds_code E' code (unat (data_count st)) m0"
    using program_in_holds [OF assms(3,4), of E'] by (simp add: m0_def E'_def)
  obtain status m' where run: "vm_dispatch vm_fuel E' (env_code E' + unat off) m0 = Done status m'"
    and d: "data_only E' (unat (data_count st)) m0 m'"
    using dispatch_safe [OF assms(1) h assms(2) need_le] by blast
  have "objects_ok (vm_gfx m')" using holds_code_data_only [OF h d] by (simp add: holds_code_def)
  moreover have "data_table st = Some (unat (data_start st))"
    using assms(3) by (simp add: program_in_def table_ok_def data_table_def)
  ultimately show ?thesis
    using run d by (auto simp: vm_start_def vm_i8_run_stream_def data_only_def E'_def m0_def)
qed


text \<open>A program that never ends: it adds data word 2 to word 1 and jumps back to its start.\<close>

definition endless_code :: "u8 list" where
  "endless_code = [10, 1, 1, 2, 15, 0, 0]"

definition endless_state :: vm_state where
  "endless_state = vm_state_zero\<lparr>data_start := 8, data_count := 3\<rparr>"

definition endless_machine :: vm where
  "endless_machine = (ret_machine sample_gfx sample_db)\<lparr>vm_mem :=
     endless_code @ [0] @ [0, 0, 0, 0, 5, 0, 0, 0, 2, 0, 0, 0]\<rparr>"

lemma endless_checked: "starts 0 endless_code = [0, 4]" "code_checked endless_code 3"
  by code_simp+


end
