(* ===== verification/Vm_Runner.thy ===== *)
theory Vm_Runner
  imports Vm_Run Gfx_Fader Gfx_Color Node_List
begin

text \<open>
  The firmware's driver of the script machine (\<open>src/src/chromatron_wifi/src/vm_runner.cpp\<close>): it
  receives an image in pieces, loads it, publishes its variables, and runs it once a frame.  The
  image lies in an array of 4096 bytes that is aligned to 4; the machine, the pixel graphics, the
  database and the list of messages to send are those of the other theories.  The times that
  \<open>micros()\<close> returns, the MAC address and the entries that the database gets when it grows are
  arguments.  The pixel objects are copied out of the image.
\<close>

section \<open>State\<close>

text \<open>\<open>status\<close> and \<open>return_code\<close> are \<open>int8_t\<close> and hold status codes.\<close>

record vm_info =
  info_status :: int
  info_return_code :: int
  info_loop_time :: u16
  info_fader_time :: u16
  info_max_cycles :: u16

text \<open>The statics of the file, the generator of the firmware, and the requests to the interface.\<close>

record vm_runner =
  vm_offset :: u16
  vm_len :: u16
  rn_vm :: vm
  rn_state :: vm_state
  rn_info :: vm_info
  rn_run_vm :: bool
  rn_run_faders :: bool
  kv_send_list :: list_t
  rn_pool :: mem_state
  rn_rnd :: rnd_state
  fader_time_start :: u32
  request_vm_info :: bool
  request_rgb_pix0 :: bool
  request_rgb_array :: bool

abbreviation (input) VM_SLAB_SIZE :: nat where "VM_SLAB_SIZE \<equiv> 4096"
abbreviation (input) VM_STATUS_IMAGE_TOO_LARGE :: int where "VM_STATUS_IMAGE_TOO_LARGE \<equiv> - 42"
abbreviation (input) VM_STATUS_CODE_MISALIGN :: int where "VM_STATUS_CODE_MISALIGN \<equiv> - 40"
abbreviation (input) VM_STATUS_DATA_MISALIGN :: int where "VM_STATUS_DATA_MISALIGN \<equiv> - 41"
abbreviation (input) VM_STATUS_HALT :: int where "VM_STATUS_HALT \<equiv> 1"
abbreviation (input) KVDB_VM_RUNNER_TAG :: u8 where "KVDB_VM_RUNNER_TAG \<equiv> 70"
abbreviation (input) WIFI_KV_BATCH_LEN :: nat where "WIFI_KV_BATCH_LEN \<equiv> 14"
abbreviation (input) WIFI_DATA_FRAME_SYNC_MAX_DATA :: u16 where "WIFI_DATA_FRAME_SYNC_MAX_DATA \<equiv> 16"

section \<open>Tables of the image\<close>

text \<open>\<open>vm_publish_t\<close>: a hash and the index of a data word, 8 bytes.\<close>

definition rd_publish :: "u8 list \<Rightarrow> nat \<Rightarrow> (u32 \<times> u8) option" where
  "rd_publish mem p = do {
     h \<leftarrow> rd32 mem p;
     a \<leftarrow> rd mem (p + 4);
     Some (h, a) }"

text \<open>\<open>gfx_pixel_array_t\<close>, 12 bytes.\<close>

definition rd_pixel_array :: "u8 list \<Rightarrow> nat \<Rightarrow> gfx_pixel_array option" where
  "rd_pixel_array mem p = do {
     i \<leftarrow> rd16 mem p;
     n \<leftarrow> rd16 mem (p + 2);
     x \<leftarrow> rd16 mem (p + 4);
     y \<leftarrow> rd16 mem (p + 6);
     r \<leftarrow> rd mem (p + 8);
     Some \<lparr>pa_index = i, pa_count = n, pa_size_x = x, pa_size_y = y, pa_reverse = (r \<noteq> 0)\<rparr> }"

fun rd_pixel_arrays :: "u8 list \<Rightarrow> nat \<Rightarrow> nat \<Rightarrow> gfx_pixel_array list option" where
  "rd_pixel_arrays mem p 0 = Some []"
| "rd_pixel_arrays mem p (Suc n) = do {
     pa \<leftarrow> rd_pixel_array mem p;
     pas \<leftarrow> rd_pixel_arrays mem (p + 12) n;
     Some (pa # pas) }"

section \<open>A frame\<close>

text \<open>One round of the loop that copies published variables from the database to the data table.\<close>

definition publish_in :: "vm_state \<Rightarrow> nat \<Rightarrow> nat \<Rightarrow> vm \<Rightarrow> vm option" where
  "publish_in st tab i m = do {
     (hash, addr) \<leftarrow> rd_publish (vm_mem m) (unat (publish_start st) + 8 * i);
     let (status, v, db) = kvdb_i8_get hash (vm_db m);
     mem \<leftarrow> (case v of None \<Rightarrow> Some (vm_mem m) | Some v \<Rightarrow> wr32 (vm_mem m) (tab + 4 * unat addr) v);
     Some (m\<lparr>vm_mem := mem, vm_db := db\<rparr>) }"

text \<open>And one of the loop that copies them back.\<close>

definition publish_out :: "vm_state \<Rightarrow> nat \<Rightarrow> nat \<Rightarrow> vm \<Rightarrow> vm option" where
  "publish_out st tab i m = do {
     (hash, addr) \<leftarrow> rd_publish (vm_mem m) (unat (publish_start st) + 8 * i);
     v \<leftarrow> rd32 (vm_mem m) (tab + 4 * unat addr);
     Some (m\<lparr>vm_db := snd (kvdb_i8_set hash v (vm_db m))\<rparr>) }"

text \<open>The entry of a message for the \<open>i\<close>th published variable, and for the \<open>i\<close>th write key.\<close>

definition publish_entry :: "vm_state \<Rightarrow> nat \<Rightarrow> nat \<Rightarrow> vm \<Rightarrow> ((u32 \<times> i32) \<times> vm) option" where
  "publish_entry st tab i m = do {
     (hash, addr) \<leftarrow> rd_publish (vm_mem m) (unat (publish_start st) + 8 * i);
     v \<leftarrow> rd32 (vm_mem m) (tab + 4 * unat addr);
     Some ((hash, v), m) }"

definition write_key_entry :: "vm_state \<Rightarrow> nat \<Rightarrow> vm \<Rightarrow> ((u32 \<times> i32) \<times> vm) option" where
  "write_key_entry st i m = do {
     hash \<leftarrow> rd32 (vm_mem m) (unat (write_keys_start st) + 4 * i);
     let (status, v, db) = kvdb_i8_get hash (vm_db m);
     Some ((hash, case v of None \<Rightarrow> 0 | Some v \<Rightarrow> v), m\<lparr>vm_db := db\<rparr>) }"

text \<open>\<open>wifi_msg_kv_batch_t\<close>: 116 bytes, zero where no entry is stored.\<close>

definition batch_bytes :: "(u32 \<times> i32) list \<Rightarrow> u8 list" where
  "batch_bytes es =
     [word_of_nat (length es), 0, 0, 0] @ concat (map (\<lambda>(h, v). bytes32 h @ bytes32 v) es)
       @ replicate (8 * (WIFI_KV_BATCH_LEN - length es)) 0"

fun collect_entries :: "(nat \<Rightarrow> 's \<Rightarrow> ('e \<times> 's) option) \<Rightarrow> nat list \<Rightarrow> 's \<Rightarrow> ('e list \<times> 's) option" where
  "collect_entries f [] s = Some ([], s)"
| "collect_entries f (i # is) s = do {
     (e, s) \<leftarrow> f i s;
     (es, s) \<leftarrow> collect_entries f is s;
     Some (e # es, s) }"

text \<open>The loop that puts \<open>cnt\<close> entries, from the \<open>i\<close>th on, into messages of at most 14 entries.\<close>

function send_batches ::
    "(nat \<Rightarrow> vm \<Rightarrow> ((u32 \<times> i32) \<times> vm) option) \<Rightarrow> nat \<Rightarrow> nat \<Rightarrow> vm \<Rightarrow> list_t \<Rightarrow> mem_state
      \<Rightarrow> (vm \<times> list_t \<times> mem_state) option" where
  "send_batches f i cnt m l pool =
     (if cnt > 0
      then (let n = min cnt WIFI_KV_BATCH_LEN
            in case collect_entries f [i..<i + n] m of
                 None \<Rightarrow> None
               | Some (es, m) \<Rightarrow>
                   (case list_ln_create_node (Some (batch_bytes es)) 116 pool of
                      None \<Rightarrow> None
                    | Some (ln, pool) \<Rightarrow>
                        (if sint ln < 0 then Some (m, l, pool)
                         else (case list_v_insert_head l ln pool of
                                 None \<Rightarrow> None
                               | Some (l, pool) \<Rightarrow> send_batches f (i + n) (cnt - n) m l pool))))
      else Some (m, l, pool))"
  by pat_completeness auto
termination
  by (relation "measure (\<lambda>(f, i, cnt, m, l, pool). cnt)") auto

declare send_batches.simps [simp del]

text \<open>The duration of a run; when the clock has wrapped around it is short by one.\<close>

definition elapsed_time :: "u32 \<Rightarrow> u32 \<Rightarrow> u32" where
  "elapsed_time start_time end_time =
     (if end_time \<ge> start_time then end_time - start_time else 0xFFFFFFFF - (start_time - end_time))"

definition vm_i8_run_vm :: "vm_env \<Rightarrow> bool \<Rightarrow> u32 \<Rightarrow> u32 \<Rightarrow> vm_runner \<Rightarrow> (int \<times> vm_runner) option" where
  "vm_i8_run_vm E init start_time end_time r =
     (if info_status (rn_info r) < 0 then Some (- 20, r)
      else if info_return_code (rn_info r) = VM_STATUS_HALT then Some (0, r)
      else do {
        let st = rn_state r;
        tab \<leftarrow> data_table st;
        m \<leftarrow> for_each (publish_in st tab) [0..<unat (publish_count st)] (rn_vm r);
        (return_code, st, m) \<leftarrow>
          (if init
           then do {
             arrays \<leftarrow> rd_pixel_arrays (vm_mem m) (unat (pix_obj_start st)) (unat (pix_obj_count st));
             g \<leftarrow> gfx_v_init_pixel_arrays (Some arrays) (pix_obj_count st) (vm_gfx m);
             vm_i8_run_init E st (m\<lparr>vm_gfx := g\<rparr>) }
           else vm_i8_run_loop E st m);
        let info = (rn_info r)\<lparr>info_loop_time := ucast (elapsed_time start_time end_time),
                              info_max_cycles := max_cycles st, info_return_code := return_code\<rparr>;
        (l, pool) \<leftarrow> list_v_destroy (kv_send_list r) (rn_pool r);
        m \<leftarrow> for_each (publish_out st tab) [0..<unat (publish_count st)] m;
        (m, l, pool) \<leftarrow> send_batches (publish_entry st tab) 0 (unat (publish_count st)) m l pool;
        (m, l, pool) \<leftarrow> send_batches (write_key_entry st) 0 (unat (write_keys_count st)) m l pool;
        Some (return_code,
          r\<lparr>rn_vm := m, rn_state := st, rn_info := info, kv_send_list := l, rn_pool := pool,
            request_vm_info := (return_code \<noteq> 0 \<or> request_vm_info r)\<rparr>) })"

section \<open>Operations\<close>

definition vm_v_reset :: "vm_runner \<Rightarrow> vm_runner" where
  "vm_v_reset r =
     r\<lparr>rn_info := (rn_info r)\<lparr>info_status := - 127, info_return_code := - 127\<rparr>, vm_offset := 0, vm_len := 0,
       rn_vm := (rn_vm r)\<lparr>vm_mem := replicate VM_SLAB_SIZE 0\<rparr>\<rparr>"

definition vm_v_init :: "(u8 \<Rightarrow> nat \<Rightarrow> u16) \<Rightarrow> u32 \<Rightarrow> vm_runner \<Rightarrow> vm_runner" where
  "vm_v_init pw now r =
     (let r = vm_v_reset r;
          (g, rnd) = gfx_v_reset (gfxlib_v_init pw (vm_gfx (rn_vm r), rn_rnd r))
      in r\<lparr>fader_time_start := now, rn_vm := (rn_vm r)\<lparr>vm_gfx := g\<rparr>, rn_rnd := rnd,
           kv_send_list := list_v_init (kv_send_list r)\<rparr>)"

definition vm_v_run_faders :: "vm_runner \<Rightarrow> vm_runner" where
  "vm_v_run_faders r = r\<lparr>rn_run_faders := True\<rparr>"

definition vm_v_run_vm :: "vm_runner \<Rightarrow> vm_runner" where
  "vm_v_run_vm r = r\<lparr>rn_run_vm := True\<rparr>"

definition vm_v_run_loop :: "vm_env \<Rightarrow> u32 \<Rightarrow> u32 \<Rightarrow> vm_runner \<Rightarrow> vm_runner option" where
  "vm_v_run_loop E start_time end_time r = map_option snd (vm_i8_run_vm E False start_time end_time r)"

text \<open>The four times are those around the run of the machine and around the run of the faders.\<close>

definition vm_v_process :: "vm_env \<Rightarrow> u32 \<Rightarrow> u32 \<Rightarrow> u32 \<Rightarrow> u32 \<Rightarrow> vm_runner \<Rightarrow> vm_runner option" where
  "vm_v_process E run_start run_end fader_start fader_end r = do {
     r \<leftarrow> (if rn_run_vm r
          then do {
            r \<leftarrow> vm_v_run_loop E run_start run_end r;
            Some (r\<lparr>rn_run_vm := False\<rparr>) }
          else Some r);
     if rn_run_faders r
     then do {
       g \<leftarrow> gfx_v_process_faders (vm_gfx (rn_vm r));
       g \<leftarrow> gfx_v_sync_array g;
       Some (r\<lparr>rn_vm := (rn_vm r)\<lparr>vm_gfx := g\<rparr>, request_rgb_pix0 := True, request_rgb_array := True,
               rn_info := (rn_info r)\<lparr>info_fader_time := ucast (fader_end - fader_start)\<rparr>,
               rn_run_faders := False\<rparr>) }
     else Some r }"

text \<open>The seed from the MAC address.\<close>

definition mac_seed :: "u8 list \<Rightarrow> u64" where
  "mac_seed mac =
     (let seed = push_bit 40 (ucast (mac ! 5)) + push_bit 32 (ucast (mac ! 1)) + push_bit 24 (ucast (mac ! 2))
                 + push_bit 16 (ucast (mac ! 3)) + push_bit 8 (ucast (mac ! 4)) + ucast (mac ! 5)
      in if seed = 0 then 1 else seed)"

text \<open>The keys of the program become entries of the database; \<open>grown k\<close> is what the \<open>k\<close>th insertion gets.\<close>

definition add_key :: "(nat \<Rightarrow> db_entry32 list option) \<Rightarrow> nat \<Rightarrow> nat \<Rightarrow> nat \<Rightarrow> nat \<Rightarrow> vm \<Rightarrow> vm option" where
  "add_key grown start stride k i m = do {
     hash \<leftarrow> rd32 (vm_mem m) (start + stride * i);
     Some (m\<lparr>vm_db := snd (kvdb_i8_add hash 0 KVDB_VM_RUNNER_TAG (grown (k + i)) (vm_db m))\<rparr>) }"

definition add_keys :: "(nat \<Rightarrow> db_entry32 list option) \<Rightarrow> vm_state \<Rightarrow> vm \<Rightarrow> vm option" where
  "add_keys grown st m = do {
     let w = unat (write_keys_count st);
     let k = unat (read_keys_count st);
     m \<leftarrow> for_each (add_key grown (unat (write_keys_start st)) 4 0) [0..<w] m;
     m \<leftarrow> for_each (add_key grown (unat (read_keys_start st)) 4 w) [0..<k] m;
     for_each (add_key grown (unat (publish_start st)) 8 (w + k)) [0..<unat (publish_count st)] m }"

definition vm_i8_load ::
    "vm_env \<Rightarrow> u8 list \<Rightarrow> (nat \<Rightarrow> db_entry32 list option) \<Rightarrow> u32 \<Rightarrow> u32 \<Rightarrow> u8 list \<Rightarrow> u16 \<Rightarrow> vm_runner
      \<Rightarrow> (int \<times> vm_runner) option" where
  "vm_i8_load E mac grown start_time end_time bytes len r =
     (let r = r\<lparr>rn_info := (rn_info r)\<lparr>info_status := - 127, info_return_code := - 127\<rparr>\<rparr>
      in if unat len + unat (vm_offset r) > VM_SLAB_SIZE
         then Some (- 1, r\<lparr>rn_info := (rn_info r)\<lparr>info_status := VM_STATUS_IMAGE_TOO_LARGE\<rparr>\<rparr>)
         else do {
           require (unat len \<le> length bytes);
           let slab = put_bytes (vm_mem (rn_vm r)) (unat (vm_offset r)) (take (unat len) bytes);
           let r = r\<lparr>rn_vm := (rn_vm r)\<lparr>vm_mem := slab\<rparr>, vm_offset := vm_offset r + len, vm_len := vm_len r + len\<rparr>;
           if len \<noteq> 0 then Some (0, r)
           else do {
             (status, st) \<leftarrow> vm_i8_load_program 0 slab (vm_len r);
             let status = (if code_start st AND 3 \<noteq> 0 then VM_STATUS_CODE_MISALIGN else status);
             let status = (if data_start st AND 3 \<noteq> 0 then VM_STATUS_DATA_MISALIGN else status);
             let r = r\<lparr>rn_state := st, rn_info := (rn_info r)\<lparr>info_status := status\<rparr>\<rparr>;
             if status < 0 then Some (status, r)
             else do {
               let st = st\<lparr>rng_seed := mac_seed mac\<rparr>;
               let m = (rn_vm r)\<lparr>vm_db := kvdb_v_delete_tag KVDB_VM_RUNNER_TAG (vm_db (rn_vm r))\<rparr>;
               m \<leftarrow> add_keys grown st m;
               vm_i8_run_vm E True start_time end_time (r\<lparr>rn_state := st, rn_vm := m\<rparr>) } } })"

definition vm_i32_get_reg :: "u8 \<Rightarrow> vm_runner \<Rightarrow> i32 option" where
  "vm_i32_get_reg addr r =
     (if info_status (rn_info r) < 0 then Some 0
      else vm_i32_get_data (vm_mem (rn_vm r)) (rn_state r) addr)"

definition vm_v_set_reg :: "u8 \<Rightarrow> i32 \<Rightarrow> vm_runner \<Rightarrow> vm_runner option" where
  "vm_v_set_reg addr v r =
     (if info_status (rn_info r) < 0 then Some r
      else do {
        mem \<leftarrow> vm_v_set_data (vm_mem (rn_vm r)) (rn_state r) addr v;
        Some (r\<lparr>rn_vm := (rn_vm r)\<lparr>vm_mem := mem\<rparr>\<rparr>) })"

definition vm_v_get_info :: "vm_runner \<Rightarrow> vm_info" where
  "vm_v_get_info r = rn_info r"

definition vm_u16_get_frame_number :: "vm_runner \<Rightarrow> u16" where
  "vm_u16_get_frame_number r = frame_number (rn_state r)"

definition vm_v_get_send_list :: "vm_runner \<Rightarrow> list_t" where
  "vm_v_get_send_list r = kv_send_list r"

section \<open>Frame synchronisation\<close>

record wifi_msg_vm_frame_sync =
  sync_rng_seed :: u64
  sync_frame_number :: u16
  sync_data_index :: u16
  sync_data_count :: u16
  sync_data :: "i32 list"

definition vm_i8_get_frame_sync ::
    "u8 \<Rightarrow> wifi_msg_vm_frame_sync \<Rightarrow> vm_runner \<Rightarrow> (int \<times> wifi_msg_vm_frame_sync) option" where
  "vm_i8_get_frame_sync index sync r =
     (if index > 0 then Some (- 1, sync)
      else do {
        let st = rn_state r;
        let cnt = (if data_count st > WIFI_DATA_FRAME_SYNC_MAX_DATA then WIFI_DATA_FRAME_SYNC_MAX_DATA else data_count st);
        words \<leftarrow> vm_v_get_data_multi (vm_mem (rn_vm r)) st 0 cnt;
        require (length words \<le> length (sync_data sync));
        Some (0, sync\<lparr>sync_frame_number := frame_number st, sync_rng_seed := rng_seed st, sync_data_index := 0,
                       sync_data_count := cnt,
                       sync_data := words @ drop (length words) (sync_data sync)\<rparr>) })"

text \<open>
  The loop over the words of a message: its counter is a byte, the number of words is what the sender
  claims.  It may not end.
\<close>

partial_function (option) sync_words ::
    "wifi_msg_vm_frame_sync \<Rightarrow> u8 \<Rightarrow> u8 \<Rightarrow> vm_runner \<Rightarrow> (u8 \<times> vm_runner) option" where
  "sync_words sync i status r =
     (if unat i < unat (sync_data_count sync)
      then do {
        let addr = i + ucast (sync_data_index sync);
        v \<leftarrow> vm_i32_get_reg addr r;
        w \<leftarrow> rd (sync_data sync) (unat i);
        (status, r) \<leftarrow> (if v \<noteq> w
                       then do {
                         r \<leftarrow> vm_v_set_reg addr w r;
                         Some (status OR 2, r) }
                       else Some (status, r));
        sync_words sync (i + 1) status r }
      else Some (status, r))"

definition vm_u8_set_frame_sync :: "wifi_msg_vm_frame_sync \<Rightarrow> vm_runner \<Rightarrow> (u8 \<times> vm_runner) option" where
  "vm_u8_set_frame_sync sync r =
     (let st = rn_state r;
          frame_diff = int (unat (frame_number st)) - int (unat (sync_frame_number sync));
          status = (if frame_diff > 1 \<or> frame_diff < - 1 then 0x80 else 0);
          (status, st) =
            (if frame_number st > sync_frame_number sync
             then (status OR 0x40, st\<lparr>frame_number := sync_frame_number sync\<rparr>)
             else if frame_number st < sync_frame_number sync
             then (status OR 0x20, st\<lparr>frame_number := sync_frame_number sync\<rparr>)
             else (status, st));
          (status, st) =
            (if rng_seed st \<noteq> sync_rng_seed sync
             then (status OR 0x01, st\<lparr>rng_seed := sync_rng_seed sync\<rparr>)
             else (status, st))
      in sync_words sync 0 status (r\<lparr>rn_state := st\<rparr>))"

end
