(* ===== verification/Vm_Runner_Safe.thy ===== *)
theory Vm_Runner_Safe
  imports Vm_Runner Vm_Safe Node_List_Props
begin

text \<open>
  The whole firmware around a script: an image of a checked program, received in pieces, is loaded
  and run frame by frame, with the faders, the database and the messages to send, and nothing of it
  is ever undefined.
\<close>

section \<open>Messages\<close>

lemma length_batch_bytes: "length es \<le> 14 \<Longrightarrow> length (batch_bytes es) = 116"
proof -
  assume "length es \<le> 14"
  moreover have "length (concat (map (\<lambda>(h, v). bytes32 h @ bytes32 v) es)) = 8 * length es"
    by (induction es) auto
  ultimately show ?thesis by (simp add: batch_bytes_def)
qed

lemma collect_entries_ok:
  assumes "I s" and "\<And>i s. i \<in> set is \<Longrightarrow> I s \<Longrightarrow> \<exists>e s'. f i s = Some (e, s') \<and> I s'"
  shows "\<exists>es s'. collect_entries f is s = Some (es, s') \<and> length es = length is \<and> I s'"
  using assms
proof (induction "is" arbitrary: s)
  case Nil
  then show ?case by simp
next
  case (Cons i "is")
  obtain e s1 where s1: "f i s = Some (e, s1)" "I s1" using Cons.prems by (meson list.set_intros(1))
  obtain es s2 where "collect_entries f is s1 = Some (es, s2)" "length es = length is" "I s2"
    using Cons.IH [OF s1(2)] Cons.prems(2) by (meson list.set_intros(2))
  then show ?case using s1 by simp
qed

lemma send_batches_ok:
  assumes "list_rep l pool ns" and "I m"
    and "\<And>j m. j < i + cnt \<Longrightarrow> I m \<Longrightarrow> \<exists>e m'. f j m = Some (e, m') \<and> I m'"
  shows "\<exists>m' l' pool' ns'. send_batches f i cnt m l pool = Some (m', l', pool') \<and> I m' \<and> list_rep l' pool' ns'"
  using assms
proof (induction cnt arbitrary: i m l pool ns rule: less_induct)
  case (less cnt)
  show ?case
  proof (cases "cnt = 0")
    case True
    then show ?thesis using less.prems by (subst send_batches.simps) auto
  next
    case False
    let ?n = "min cnt 14"
    have "\<exists>es m1. collect_entries f [i..<i + ?n] m = Some (es, m1) \<and> length es = length [i..<i + ?n] \<and> I m1"
      by (rule collect_entries_ok [where I = I, OF less.prems(2)]) (use less.prems(3) in auto)
    then obtain es m1 where es: "collect_entries f [i..<i + ?n] m = Some (es, m1)" "length es = ?n" "I m1" by auto
    have len: "length (batch_bytes es) = 116" using length_batch_bytes [of es] es(2) by simp
    obtain h pool1 where new: "list_ln_create_node2 (Some (batch_bytes es)) 116 0 pool = Some (h, pool1)"
        "list_rep l pool1 ns" "0 \<le> sint h \<Longrightarrow> h \<notin> set ns \<and> links pool1 h \<noteq> None"
      by (rule create_beside [OF less.prems(1), of 116 "Some (batch_bytes es)" 0]) (simp_all add: len)
    note step = new(1) es(1) False
    show ?thesis
    proof (cases "sint h < 0")
      case True
      then show ?thesis
        using step es(3) new(2) by (subst send_batches.simps) (auto simp: Let_def list_ln_create_node_def)
    next
      case False
      then have h: "h \<notin> set ns" "links pool1 h \<noteq> None" using new(3) by auto
      obtain l2 pool2 where ins: "list_v_insert_head l h pool1 = Some (l2, pool2)" "list_rep l2 pool2 (h # ns)"
        using insert_head_rep [OF new(2) h] by blast
      have "\<exists>m' l' pool' ns'. send_batches f (i + ?n) (cnt - ?n) m1 l2 pool2 = Some (m', l', pool') \<and> I m' \<and> list_rep l' pool' ns'"
        using \<open>cnt \<noteq> 0\<close> by (intro less.IH [OF _ ins(2) es(3)] less.prems(3)) auto
      then show ?thesis
        using step False ins(1) by (subst send_batches.simps) (auto simp: Let_def list_ln_create_node_def)
    qed
  qed
qed

section \<open>A loaded program\<close>

text \<open>A region of the slab that the data table does not touch.\<close>

definition apart :: "vm_state \<Rightarrow> nat \<Rightarrow> nat \<Rightarrow> bool" where
  "apart st a n \<longleftrightarrow> a + n \<le> unat (data_start st) \<or> unat (data_start st) + 4 * unat (data_count st) \<le> a"

text \<open>
  The slab holds a checked program: its code, its published variables with their data words inside
  the table, and its keys.
\<close>

definition runs_program :: "u8 list \<Rightarrow> vm_state \<Rightarrow> u8 list \<Rightarrow> bool" where
  "runs_program code st mem \<longleftrightarrow> length mem = VM_SLAB_SIZE \<and> program_in code st mem
     \<and> code_checked code (unat (data_count st))
     \<and> unat (init_start st) \<in> set (starts 0 code) \<and> unat (loop_start st) \<in> set (starts 0 code)
     \<and> apart st (unat (publish_start st)) (8 * unat (publish_count st))
     \<and> (\<forall>i < unat (publish_count st). \<exists>h a. rd_publish mem (unat (publish_start st) + 8 * i) = Some (h, a)
           \<and> unat a < unat (data_count st))
     \<and> unat (write_keys_start st) + 4 * unat (write_keys_count st) \<le> length mem
     \<and> unat (read_keys_start st) + 4 * unat (read_keys_count st) \<le> length mem"

text \<open>Only the data table differs.\<close>

definition table_differs :: "vm_state \<Rightarrow> u8 list \<Rightarrow> u8 list \<Rightarrow> bool" where
  "table_differs st mem mem' \<longleftrightarrow> length mem' = length mem
     \<and> (\<forall>i. i < unat (data_start st) \<or> unat (data_start st) + 4 * unat (data_count st) \<le> i \<longrightarrow> mem' ! i = mem ! i)"

lemma table_differs_refl [simp]: "table_differs st mem mem"
  by (simp add: table_differs_def)

lemma apart_take:
  assumes "table_differs st mem mem'" and "apart st a n"
  shows "take n (drop a mem') = take n (drop a mem)"
  using assms by (intro nth_equalityI) (auto simp: table_differs_def apart_def)

lemma rd_publish_cong:
  assumes "take 8 (drop p mem') = take 8 (drop p mem)"
  shows "rd_publish mem' p = rd_publish mem p"
proof -
  have len: "min 8 (length mem' - p) = min 8 (length mem - p)" using arg_cong [OF assms, of length] by simp
  have at: "p + i < length mem' \<longleftrightarrow> p + i < length mem" if "i < 8" for i using len that by linarith
  have nth: "p + i < length mem' \<Longrightarrow> mem' ! (p + i) = mem ! (p + i)" if "i < 8" for i
    using arg_cong [OF assms, of "\<lambda>xs. xs ! i"] at [OF that] that by simp
  have "rd mem' (p + i) = rd mem (p + i)" if "i < 8" for i using at [OF that] nth [OF that] by (simp add: rd_def)
  from this [of 0] this [of 1] this [of 2] this [of 3] this [of 4]
  have "rd mem' p = rd mem p" "rd mem' (p + 1) = rd mem (p + 1)" "rd mem' (p + 2) = rd mem (p + 2)"
    "rd mem' (p + 2 + 1) = rd mem (p + 2 + 1)" "rd mem' (p + 4) = rd mem (p + 4)"
    by (simp_all add: numeral_3_eq_3)
  then show ?thesis unfolding rd_publish_def rd32_def rd16_def by (simp only: )
qed

lemma runs_program_kept:
  assumes "runs_program code st mem" and "table_differs st mem mem'"
  shows "runs_program code st mem'"
proof -
  have len: "length mem' = length mem" using assms(2) by (simp add: table_differs_def)
  have pub: "rd_publish mem' (unat (publish_start st) + 8 * i) = rd_publish mem (unat (publish_start st) + 8 * i)"
    if "i < unat (publish_count st)" for i
  proof (rule rd_publish_cong, rule apart_take [OF assms(2)])
    show "apart st (unat (publish_start st) + 8 * i) 8"
      using assms(1) that unfolding runs_program_def apart_def by auto
  qed
  have code: "program_in code st mem'"
    using assms(1) apart_take [OF assms(2), of "unat (code_start st)" "length code"]
    by (simp add: runs_program_def program_in_def section_at_def table_ok_def apart_def len)
  show ?thesis using assms(1) pub code by (simp add: runs_program_def len)
qed

text \<open>The fields of the program state that change while it runs.\<close>

lemma runs_program_state [simp]:
  "runs_program code (st\<lparr>rng_seed := s\<rparr>) mem = runs_program code st mem"
  "runs_program code (st\<lparr>max_cycles := c\<rparr>) mem = runs_program code st mem"
  "runs_program code (st\<lparr>frame_number := k\<rparr>) mem = runs_program code st mem"
  by (simp_all add: runs_program_def program_in_def table_ok_def apart_def)

lemma runs_program_table:
  assumes "runs_program code st mem"
  shows "data_table st = Some (unat (data_start st))"
    and "unat (data_start st) + 4 * unat (data_count st) \<le> length mem"
  using assms by (simp_all add: runs_program_def program_in_def table_ok_def data_table_def)

lemma wr_table:
  assumes "runs_program code st mem" and "unat a < unat (data_count st)"
  obtains mem' where "wr32 mem (unat (data_start st) + 4 * unat (a :: u8)) v = Some mem'" and "table_differs st mem mem'"
proof (rule that)
  let ?p = "unat (data_start st) + 4 * unat a"
  have fits: "?p + 4 \<le> unat (data_start st) + 4 * unat (data_count st)" using assms(2) by simp
  then have le: "?p + 4 \<le> length mem" using runs_program_table(2) [OF assms(1)] by linarith
  then show "wr32 mem ?p v = Some (put_bytes mem ?p (bytes32 v))" by (simp add: wr32_def)
  show "table_differs st mem (put_bytes mem ?p (bytes32 v))"
    using le fits by (auto simp: table_differs_def nth_put_bytes)
qed

lemma rd_table:
  assumes "runs_program code st mem" and "unat (a :: u8) < unat (data_count st)"
  obtains v where "rd32 mem (unat (data_start st) + 4 * unat a) = Some v"
  using rd32_total [of mem "unat (data_start st) + 4 * unat a"] runs_program_table(2) [OF assms(1)] assms(2) by auto

section \<open>A frame\<close>

lemma publish_at:
  assumes "runs_program code st mem" and "i < unat (publish_count st)"
  obtains h a where "rd_publish mem (unat (publish_start st) + 8 * i) = Some (h, a)" and "unat a < unat (data_count st)"
  using assms by (auto simp: runs_program_def)

text \<open>The machine holds the program and graphics of a certain kind.\<close>

abbreviation prog_and :: "(gfx_state \<Rightarrow> bool) \<Rightarrow> u8 list \<Rightarrow> vm_state \<Rightarrow> vm \<Rightarrow> bool" where
  "prog_and G code st m \<equiv> runs_program code st (vm_mem m) \<and> G (vm_gfx m)"

lemma publish_in_ok:
  assumes ok: "runs_program code st (vm_mem m)" and i: "i < unat (publish_count st)"
  shows "\<exists>m'. publish_in st (unat (data_start st)) i m = Some m' \<and> table_differs st (vm_mem m) (vm_mem m')
    \<and> vm_gfx m' = vm_gfx m"
proof -
  obtain h a where pub: "rd_publish (vm_mem m) (unat (publish_start st) + 8 * i) = Some (h, a)" "unat a < unat (data_count st)"
    by (rule publish_at [OF ok i])
  obtain status v db where get: "kvdb_i8_get h (vm_db m) = (status, v, db)" by (metis prod_cases3)
  show ?thesis
  proof (cases v)
    case None
    then show ?thesis using pub(1) get by (simp add: publish_in_def)
  next
    case (Some w)
    obtain mem' where "wr32 (vm_mem m) (unat (data_start st) + 4 * unat a) w = Some mem'" "table_differs st (vm_mem m) mem'"
      by (rule wr_table [OF ok pub(2)])
    then show ?thesis using pub(1) get Some by (simp add: publish_in_def)
  qed
qed

lemma publish_out_ok:
  assumes "prog_and G code st m" and "i < unat (publish_count st)"
  shows "\<exists>m'. publish_out st (unat (data_start st)) i m = Some m' \<and> prog_and G code st m'"
    and "\<exists>e m'. publish_entry st (unat (data_start st)) i m = Some (e, m') \<and> prog_and G code st m'"
proof -
  have ok: "runs_program code st (vm_mem m)" using assms(1) by blast
  obtain h a where pub: "rd_publish (vm_mem m) (unat (publish_start st) + 8 * i) = Some (h, a)" "unat a < unat (data_count st)"
    by (rule publish_at [OF ok assms(2)])
  obtain v where "rd32 (vm_mem m) (unat (data_start st) + 4 * unat a) = Some v" by (rule rd_table [OF ok pub(2)])
  then show "\<exists>m'. publish_out st (unat (data_start st)) i m = Some m' \<and> prog_and G code st m'"
    "\<exists>e m'. publish_entry st (unat (data_start st)) i m = Some (e, m') \<and> prog_and G code st m'"
    using pub(1) assms(1) by (simp_all add: publish_out_def publish_entry_def)
qed

lemma write_key_ok:
  assumes "prog_and G code st m" and "i < unat (write_keys_count st)"
  shows "\<exists>e m'. write_key_entry st i m = Some (e, m') \<and> prog_and G code st m'"
proof -
  have "unat (write_keys_start st) + 4 * unat (write_keys_count st) \<le> length (vm_mem m)"
    using assms(1) by (simp add: runs_program_def)
  then obtain h where "rd32 (vm_mem m) (unat (write_keys_start st) + 4 * i) = Some h"
    using rd32_total [of "vm_mem m" "unat (write_keys_start st) + 4 * i"] assms(2) by auto
  moreover obtain status v db where "kvdb_i8_get h (vm_db m) = (status, v, db)" by (metis prod_cases3)
  ultimately show ?thesis using assms(1) by (simp add: write_key_entry_def)
qed

section \<open>Graphics\<close>

definition gfx_ready :: "gfx_state \<Rightarrow> bool" where
  "gfx_ready g \<longleftrightarrow> gfx_wf g \<and> params_ok g \<and> virtual_array_length g = 0"

lemma objects_ready: "objects_ok g \<Longrightarrow> gfx_ready g"
  by (simp add: objects_ok_def gfx_ready_def)

text \<open>The pixel objects of the image: there is one, and all but the first have a size.\<close>

definition arrays_ok :: "vm_state \<Rightarrow> u8 list \<Rightarrow> bool" where
  "arrays_ok st mem \<longleftrightarrow> apart st (unat (pix_obj_start st)) (12 * unat (pix_obj_count st))
     \<and> (\<exists>pas. rd_pixel_arrays mem (unat (pix_obj_start st)) (unat (pix_obj_count st)) = Some pas \<and> pas \<noteq> []
          \<and> (\<forall>pa \<in> set (tl pas). pa_count pa \<noteq> 0 \<and> pa_size_x pa \<noteq> 0 \<and> pa_size_y pa \<noteq> 0))"

lemma rd_pixel_arrays_length: "rd_pixel_arrays mem p n = Some pas \<Longrightarrow> length pas = n"
  by (induction n arbitrary: p pas) (auto simp: opt_simps)

lemma rd_cong:
  assumes "length mem' = length mem" and "\<And>i. a \<le> i \<Longrightarrow> i < b \<Longrightarrow> mem' ! i = mem ! i" and "a \<le> p" and "p < b"
  shows "rd mem' p = rd mem p"
  using assms by (simp add: rd_def)

lemma rd_pixel_arrays_cong:
  assumes "length mem' = length mem" and "\<And>i. a \<le> i \<Longrightarrow> i < p + 12 * n \<Longrightarrow> mem' ! i = mem ! i" and "a \<le> p"
  shows "rd_pixel_arrays mem' p n = rd_pixel_arrays mem p n"
  using assms(2,3)
proof (induction n arbitrary: p)
  case 0
  then show ?case by simp
next
  case (Suc n)
  note at = rd_cong [OF assms(1) Suc.prems(1)]
  have "rd_pixel_array mem' p = rd_pixel_array mem p"
    unfolding rd_pixel_array_def rd16_def using Suc.prems(2) by (simp add: at)
  moreover have "rd_pixel_arrays mem' (p + 12) n = rd_pixel_arrays mem (p + 12) n"
    using Suc.prems by (intro Suc.IH) simp_all
  ultimately show ?case by simp
qed

lemma arrays_ok_kept: "arrays_ok st mem \<Longrightarrow> table_differs st mem mem' \<Longrightarrow> arrays_ok st mem'"
proof -
  assume ok: "arrays_ok st mem" and d: "table_differs st mem mem'"
  have "rd_pixel_arrays mem' (unat (pix_obj_start st)) (unat (pix_obj_count st))
      = rd_pixel_arrays mem (unat (pix_obj_start st)) (unat (pix_obj_count st))"
    using ok d by (intro rd_pixel_arrays_cong [OF _ _ order_refl]) (auto simp: arrays_ok_def apart_def table_differs_def)
  then show ?thesis using ok by (simp add: arrays_ok_def)
qed

lemma init_arrays_ok:
  assumes "gfx_ready g" and "pas \<noteq> []" and "length pas = unat cnt"
    and "\<forall>pa \<in> set (tl pas). pa_count pa \<noteq> 0 \<and> pa_size_x pa \<noteq> 0 \<and> pa_size_y pa \<noteq> 0"
  obtains g' where "gfx_v_init_pixel_arrays (Some pas) cnt g = Some g'" and "objects_ok g'"
proof -
  obtain a as where pas: "pas = a # as" using assms(2) by (cases pas) auto
  let ?a = "a\<lparr>pa_index := 0, pa_count := pix_count g, pa_size_x := pix_size_x g, pa_size_y := pix_size_y g\<rparr>"
  let ?g = "g\<lparr>pix_arrays := Some (?a # as), pix_array_count := cnt\<rparr>"
  have "gfx_v_init_pixel_arrays (Some pas) cnt g = Some ?g"
    by (simp add: gfx_v_init_pixel_arrays_def setup_master_array_def pas)
  moreover have "objects_ok ?g"
  proof -
    have "\<exists>pa. pixel_obj obj ?g = Some pa \<and> pa_count pa \<noteq> 0 \<and> pa_size_x pa \<noteq> 0 \<and> pa_size_y pa \<noteq> 0"
      if "obj < cnt" for obj
    proof -
      have "unat obj < length (?a # as)" using that assms(3) by (simp add: pas word_less_nat_alt)
      then have obj: "pixel_obj obj ?g = Some ((?a # as) ! unat obj)" by (simp add: pixel_obj_def)
      show ?thesis
      proof (cases "unat obj")
        case 0
        then show ?thesis using obj assms(1) by (simp add: gfx_ready_def params_ok_def word_gt_0)
      next
        case (Suc k)
        then have "as ! k \<in> set as" using \<open>unat obj < length (?a # as)\<close> by simp
        then show ?thesis using obj Suc assms(4) by (simp add: pas)
      qed
    qed
    then show ?thesis using assms(1) by (simp add: objects_ok_def gfx_ready_def gfx_wf_def params_ok_def)
  qed
  ultimately show thesis by (rule that)
qed

text \<open>The faders and the output arrays.\<close>

lemma gfx_same_geometry:
  assumes "fade_frame g' = fade_frame g \<or> out_frame (g'\<lparr>pix0_16bit_red := 0, pix0_16bit_green := 0, pix0_16bit_blue := 0\<rparr>)
      = out_frame (g\<lparr>pix0_16bit_red := 0, pix0_16bit_green := 0, pix0_16bit_blue := 0\<rparr>)" and "gfx_wf g'"
  shows "gfx_ready g \<Longrightarrow> gfx_ready g'" and "objects_ok g \<Longrightarrow> objects_ok g'"
proof -
  have eq: "pix_count g' = pix_count g \<and> pix_size_x g' = pix_size_x g \<and> pix_size_y g' = pix_size_y g
    \<and> gfx_frame_rate g' = gfx_frame_rate g \<and> virtual_array_length g' = virtual_array_length g
    \<and> pix_array_count g' = pix_array_count g \<and> pix_arrays g' = pix_arrays g"
    using assms(1)
  proof
    assume e: "fade_frame g' = fade_frame g"
    have "f (fade_frame g') = f (fade_frame g)" for f :: "gfx_state \<Rightarrow> 'x" by (simp only: e)
    from this [of pix_count] this [of pix_size_x] this [of pix_size_y] this [of gfx_frame_rate]
      this [of virtual_array_length] this [of pix_array_count] this [of pix_arrays]
    show ?thesis by (simp add: fade_frame_def)
  next
    let ?z = "\<lambda>g. out_frame (g\<lparr>pix0_16bit_red := 0, pix0_16bit_green := 0, pix0_16bit_blue := 0\<rparr>)"
    assume e: "?z g' = ?z g"
    have "f (?z g') = f (?z g)" for f :: "gfx_state \<Rightarrow> 'x" by (simp only: e)
    from this [of pix_count] this [of pix_size_x] this [of pix_size_y] this [of gfx_frame_rate]
      this [of virtual_array_length] this [of pix_array_count] this [of pix_arrays]
    show ?thesis by (simp add: out_frame_def)
  qed
  then show "gfx_ready g \<Longrightarrow> gfx_ready g'" "objects_ok g \<Longrightarrow> objects_ok g'"
    using assms(2) by (auto simp: gfx_ready_def objects_ok_def params_ok_def pixel_obj_def)
qed

lemma faders_ok:
  assumes "gfx_ready g"
  obtains g1 g2 where "gfx_v_process_faders g = Some g1" and "gfx_v_sync_array g1 = Some g2"
    and "gfx_ready g2" and "objects_ok g \<Longrightarrow> objects_ok g2"
proof -
  have g: "gfx_wf g" "params_ok g" using assms by (simp_all add: gfx_ready_def)
  obtain g1 where g1: "gfx_v_process_faders g = Some g1" "gfx_wf g1" "fade_frame g1 = fade_frame g"
    using process_faders_tick [OF g] by metis
  note f1 = gfx_same_geometry [OF disjI1 [OF g1(3)] g1(2)]
  have "params_ok g1" using f1(1) [OF assms] by (simp add: gfx_ready_def)
  then obtain g2 where g2: "gfx_v_sync_array g1 = Some g2" "gfx_wf g2"
      "out_frame (g2\<lparr>pix0_16bit_red := 0, pix0_16bit_green := 0, pix0_16bit_blue := 0\<rparr>)
        = out_frame (g1\<lparr>pix0_16bit_red := 0, pix0_16bit_green := 0, pix0_16bit_blue := 0\<rparr>)"
    using sync_array_result [OF g1(2)] by blast
  note f2 = gfx_same_geometry [OF disjI2 [OF g2(3)] g2(2)]
  show thesis using that [OF g1(1) g2(1)] f1 f2 assms by blast
qed

section \<open>One run\<close>

text \<open>The runner between two calls: if a program is loaded, it is a checked one.\<close>

definition runner_inv :: "u8 list \<Rightarrow> vm_runner \<Rightarrow> bool" where
  "runner_inv code r \<longleftrightarrow> length (vm_mem (rn_vm r)) = VM_SLAB_SIZE \<and> gfx_ready (vm_gfx (rn_vm r))
     \<and> (\<exists>ns. list_rep (kv_send_list r) (rn_pool r) ns)
     \<and> (0 \<le> info_status (rn_info r) \<longrightarrow>
          runs_program code (rn_state r) (vm_mem (rn_vm r)) \<and> objects_ok (vm_gfx (rn_vm r)))"

lemma start_ok:
  assumes ok: "runs_program code st (vm_mem m)" "objects_ok (vm_gfx m)" and off: "off = init_start st \<or> off = loop_start st"
  obtains status m' where "vm_start E (st\<lparr>frame_number := k\<rparr>) off (m\<lparr>vm_cycles := 0\<rparr>) = Done status m'"
    and "runs_program code st (vm_mem m')" and "objects_ok (vm_gfx m')"
proof -
  let ?st = "st\<lparr>frame_number := k\<rparr>" and ?m = "m\<lparr>vm_cycles := 0\<rparr>"
  have h: "code_checked code (unat (data_count ?st))" "unat off \<in> set (starts 0 code)" "program_in code ?st (vm_mem ?m)"
      "objects_ok (vm_gfx ?m)"
    using ok off by (auto simp: runs_program_def program_in_def table_ok_def)
  obtain status m' where run: "vm_start E ?st off ?m = Done status m'" "length (vm_mem m') = length (vm_mem m)"
      "\<forall>i. i < unat (data_start st) \<or> unat (data_start st) + 4 * unat (data_count st) \<le> i \<longrightarrow> vm_mem m' ! i = vm_mem m ! i"
      "objects_ok (vm_gfx m')"
    using start_safe [OF h, of E] by auto
  then have "table_differs st (vm_mem m) (vm_mem m')" by (simp add: table_differs_def)
  then show thesis using that [OF run(1)] runs_program_kept [OF ok(1)] run(4) by blast
qed

lemma run_ok:
  assumes "runs_program code st (vm_mem m)" and "objects_ok (vm_gfx m)"
    and "run = vm_i8_run_loop \<or> run = vm_i8_run_init"
  obtains status st' m' where "run E st m = Some (status, st', m')" and "runs_program code st' (vm_mem m')"
    and "objects_ok (vm_gfx m')" and "data_start st' = data_start st"
  using assms(3)
proof
  assume loop: "run = vm_i8_run_loop"
  obtain status m' where "vm_start E (st\<lparr>frame_number := frame_number st + 1\<rparr>) (loop_start st) (m\<lparr>vm_cycles := 0\<rparr>) = Done status m'"
      "runs_program code st (vm_mem m')" "objects_ok (vm_gfx m')"
    by (rule start_ok [OF assms(1,2), of "loop_start st"]) auto
  then show thesis
    using that [of status "st\<lparr>frame_number := frame_number st + 1, rng_seed := vm_seed m',
      max_cycles := (if vm_cycles m' > max_cycles st then vm_cycles m' else max_cycles st)\<rparr>" m']
    by (simp add: loop vm_i8_run_loop_def vm_finish_def Let_def)
next
  assume init: "run = vm_i8_run_init"
  obtain status m' where "vm_start E (st\<lparr>frame_number := 0\<rparr>) (init_start st) (m\<lparr>vm_cycles := 0\<rparr>) = Done status m'"
      "runs_program code st (vm_mem m')" "objects_ok (vm_gfx m')"
    by (rule start_ok [OF assms(1,2), of "init_start st"]) auto
  then show thesis
    using that [of status "st\<lparr>frame_number := 0, rng_seed := vm_seed m',
      max_cycles := (if vm_cycles m' > max_cycles st then vm_cycles m' else max_cycles st)\<rparr>" m']
    by (simp add: init vm_i8_run_init_def vm_finish_def Let_def)
qed

text \<open>
  A call of \<open>_vm_i8_run_vm\<close> with a checked program; the first call also sets up the pixel objects.
\<close>

lemma run_vm_ok:
  assumes ok: "runs_program code (rn_state r) (vm_mem (rn_vm r))" and rep: "list_rep (kv_send_list r) (rn_pool r) ns"
    and status: "0 \<le> info_status (rn_info r)" "info_return_code (rn_info r) \<noteq> VM_STATUS_HALT"
    and gfx: "if init then gfx_ready (vm_gfx (rn_vm r)) \<and> arrays_ok (rn_state r) (vm_mem (rn_vm r))
      else objects_ok (vm_gfx (rn_vm r))"
  obtains code' r' where "vm_i8_run_vm E init t0 t1 r = Some (code', r')" and "runner_inv code r'"
    and "info_status (rn_info r') = info_status (rn_info r)"
proof -
  let ?st = "rn_state r" and ?tab = "unat (data_start (rn_state r))"
  let ?I = "\<lambda>m :: vm. runs_program code ?st (vm_mem m)
    \<and> (if init then gfx_ready (vm_gfx m) \<and> arrays_ok ?st (vm_mem m) else objects_ok (vm_gfx m))"
  have "\<exists>m. for_each (publish_in ?st ?tab) [0..<unat (publish_count ?st)] (rn_vm r) = Some m \<and> ?I m"
  proof (rule for_each_total)
    show "?I (rn_vm r)" using ok gfx by simp
  next
    fix i m assume i: "i \<in> set [0..<unat (publish_count ?st)]" and I: "?I m"
    then obtain m' where "publish_in ?st ?tab i m = Some m'" "table_differs ?st (vm_mem m) (vm_mem m')" "vm_gfx m' = vm_gfx m"
      using publish_in_ok [of code ?st m i] by auto
    then show "\<exists>m'. publish_in ?st ?tab i m = Some m' \<and> ?I m'"
      using I runs_program_kept arrays_ok_kept by (metis (no_types, lifting))
  qed
  then obtain m1 where m1: "for_each (publish_in ?st ?tab) [0..<unat (publish_count ?st)] (rn_vm r) = Some m1" "?I m1" by blast
  obtain rc st m2 where m2: "(if init then do {
             arrays \<leftarrow> rd_pixel_arrays (vm_mem m1) (unat (pix_obj_start ?st)) (unat (pix_obj_count ?st));
             g \<leftarrow> gfx_v_init_pixel_arrays (Some arrays) (pix_obj_count ?st) (vm_gfx m1);
             vm_i8_run_init E ?st (m1\<lparr>vm_gfx := g\<rparr>) }
           else vm_i8_run_loop E ?st m1) = Some (rc, st, m2)"
      "runs_program code st (vm_mem m2)" "objects_ok (vm_gfx m2)" "data_start st = data_start ?st"
  proof (cases init)
    case True
    then obtain pas where pas: "rd_pixel_arrays (vm_mem m1) (unat (pix_obj_start ?st)) (unat (pix_obj_count ?st)) = Some pas"
        "pas \<noteq> []" "\<forall>pa \<in> set (tl pas). pa_count pa \<noteq> 0 \<and> pa_size_x pa \<noteq> 0 \<and> pa_size_y pa \<noteq> 0"
      using m1(2) by (auto simp: arrays_ok_def)
    have "gfx_ready (vm_gfx m1)" using m1(2) True by simp
    then obtain g where g: "gfx_v_init_pixel_arrays (Some pas) (pix_obj_count ?st) (vm_gfx m1) = Some g" "objects_ok g"
      using init_arrays_ok [OF _ pas(2) rd_pixel_arrays_length [OF pas(1)] pas(3)] by blast
    obtain rc st m2 where "vm_i8_run_init E ?st (m1\<lparr>vm_gfx := g\<rparr>) = Some (rc, st, m2)" "runs_program code st (vm_mem m2)"
        "objects_ok (vm_gfx m2)" "data_start st = data_start ?st"
      using run_ok [of code ?st "m1\<lparr>vm_gfx := g\<rparr>" vm_i8_run_init E] m1(2) g(2) by auto
    then show thesis using that True pas(1) g(1) by simp
  next
    case False
    then obtain rc st m2 where "vm_i8_run_loop E ?st m1 = Some (rc, st, m2)" "runs_program code st (vm_mem m2)"
        "objects_ok (vm_gfx m2)" "data_start st = data_start ?st"
      using run_ok [of code ?st m1 vm_i8_run_loop E] m1(2) by auto
    then show thesis using that False by simp
  qed
  let ?J = "prog_and objects_ok code st"
  obtain pool1 where del: "list_v_destroy (kv_send_list r) (rn_pool r) = Some (list_v_init (kv_send_list r), pool1)"
      "list_rep (list_v_init (kv_send_list r)) pool1 []"
    by (rule destroy_rep [OF rep])
  have tab: "?tab = unat (data_start st)" using m2(4) by simp
  have "\<exists>m. for_each (publish_out st ?tab) [0..<unat (publish_count st)] m2 = Some m \<and> ?J m"
    by (rule for_each_total) (use m2(2,3) publish_out_ok(1) [where G = objects_ok] in \<open>auto simp: tab\<close>)
  then obtain m3 where m3: "for_each (publish_out st ?tab) [0..<unat (publish_count st)] m2 = Some m3" "?J m3" by blast
  obtain m4 l4 pool4 ns4 where m4: "send_batches (publish_entry st ?tab) 0 (unat (publish_count st)) m3
        (list_v_init (kv_send_list r)) pool1 = Some (m4, l4, pool4)" "?J m4" "list_rep l4 pool4 ns4"
    using send_batches_ok [where I = ?J, OF del(2) m3(2), of 0 "unat (publish_count st)" "publish_entry st ?tab"]
      publish_out_ok(2) [where G = objects_ok, of code st] by (auto simp: tab)
  obtain m5 l5 pool5 ns5 where m5: "send_batches (write_key_entry st) 0 (unat (write_keys_count st)) m4 l4 pool4
        = Some (m5, l5, pool5)" "?J m5" "list_rep l5 pool5 ns5"
    using send_batches_ok [where I = ?J, OF m4(3,2), of 0 "unat (write_keys_count st)" "write_key_entry st"]
      write_key_ok [where G = objects_ok, of code st] by auto
  have "length (vm_mem m5) = VM_SLAB_SIZE" using m5(2) by (simp add: runs_program_def)
  then show thesis
    using that m1(1) m2(1) del(1) m3(1) m4(1) m5 status runs_program_table(1) [OF ok] objects_ready
    by (simp add: vm_i8_run_vm_def Let_def runner_inv_def) blast
qed

section \<open>Events\<close>

text \<open>What the main loop and the interface do to the runner, after a program is loaded.\<close>

datatype runner_event =
  Run_Vm | Run_Faders | Process u32 u32 u32 u32 | Set_Reg u8 i32 | Frame_Sync wifi_msg_vm_frame_sync

fun run_runner_event :: "vm_env \<Rightarrow> runner_event \<Rightarrow> vm_runner \<Rightarrow> vm_runner option" where
  "run_runner_event E Run_Vm r = Some (vm_v_run_vm r)"
| "run_runner_event E Run_Faders r = Some (vm_v_run_faders r)"
| "run_runner_event E (Process t0 t1 t2 t3) r = vm_v_process E t0 t1 t2 t3 r"
| "run_runner_event E (Set_Reg addr v) r = vm_v_set_reg addr v r"
| "run_runner_event E (Frame_Sync sync) r = map_option snd (vm_u8_set_frame_sync sync r)"

text \<open>A message holds as many words as it says, and fewer than 256.\<close>

fun event_ok :: "runner_event \<Rightarrow> bool" where
  "event_ok (Frame_Sync sync) \<longleftrightarrow> unat (sync_data_count sync) \<le> length (sync_data sync) \<and> unat (sync_data_count sync) < 256"
| "event_ok ev \<longleftrightarrow> True"

lemma runner_inv_other [simp]:
  "runner_inv code (r\<lparr>rn_run_vm := a\<rparr>) = runner_inv code r"
  "runner_inv code (r\<lparr>rn_run_faders := b\<rparr>) = runner_inv code r"
  by (simp_all add: runner_inv_def)

lemma run_loop_ok:
  assumes "runner_inv code r"
  obtains r' where "vm_v_run_loop E t0 t1 r = Some r'" and "runner_inv code r'"
proof (cases "info_status (rn_info r) < 0 \<or> info_return_code (rn_info r) = VM_STATUS_HALT")
  case True
  then show thesis using that [of r] assms by (auto simp: vm_v_run_loop_def vm_i8_run_vm_def)
next
  case False
  then have ok: "runs_program code (rn_state r) (vm_mem (rn_vm r))" "objects_ok (vm_gfx (rn_vm r))"
    using assms by (auto simp: runner_inv_def)
  obtain ns where "list_rep (kv_send_list r) (rn_pool r) ns" using assms by (auto simp: runner_inv_def)
  from run_vm_ok [OF ok(1) this, of False E t0 t1] obtain rc r' where "vm_i8_run_vm E False t0 t1 r = Some (rc, r')" "runner_inv code r'"
    using False ok(2) by force
  then show thesis using that by (simp add: vm_v_run_loop_def)
qed

lemma process_ok:
  assumes "runner_inv code r"
  shows "\<exists>r'. vm_v_process E t0 t1 t2 t3 r = Some r' \<and> runner_inv code r'"
proof -
  obtain r1 where r1: "(if rn_run_vm r then do { r \<leftarrow> vm_v_run_loop E t0 t1 r; Some (r\<lparr>rn_run_vm := False\<rparr>) } else Some r) = Some r1"
      "runner_inv code r1"
  proof (cases "rn_run_vm r")
    case True
    obtain r2 where "vm_v_run_loop E t0 t1 r = Some r2" "runner_inv code r2" by (rule run_loop_ok [OF assms])
    then show thesis using that [of "r2\<lparr>rn_run_vm := False\<rparr>"] True by simp
  qed (use assms that in simp)
  have "gfx_ready (vm_gfx (rn_vm r1))" using r1(2) by (simp add: runner_inv_def)
  then obtain g1 g2 where "gfx_v_process_faders (vm_gfx (rn_vm r1)) = Some g1" "gfx_v_sync_array g1 = Some g2" "gfx_ready g2"
      "objects_ok (vm_gfx (rn_vm r1)) \<Longrightarrow> objects_ok g2"
    by (rule faders_ok) blast
  then show ?thesis using r1 by (auto simp: vm_v_process_def runner_inv_def)
qed

lemma set_reg_ok:
  assumes "runner_inv code r"
  shows "\<exists>r'. vm_v_set_reg addr v r = Some r' \<and> runner_inv code r' \<and> rn_state r' = rn_state r \<and> rn_info r' = rn_info r"
    and "\<exists>w. vm_i32_get_reg addr r = Some w"
proof -
  have "\<exists>r'. vm_v_set_reg addr v r = Some r' \<and> runner_inv code r' \<and> rn_state r' = rn_state r \<and> rn_info r' = rn_info r
      \<and> (\<exists>w. vm_i32_get_reg addr r = Some w)"
  proof (cases "0 \<le> info_status (rn_info r) \<and> unat addr < unat (data_count (rn_state r))")
    case False
    then show ?thesis
      using assms by (auto simp: vm_v_set_reg_def vm_i32_get_reg_def vm_v_set_data_def vm_i32_get_data_def)
  next
    case True
    then have ok: "runs_program code (rn_state r) (vm_mem (rn_vm r))" using assms by (simp add: runner_inv_def)
    obtain mem' where mem': "wr32 (vm_mem (rn_vm r)) (unat (data_start (rn_state r)) + 4 * unat addr) v = Some mem'"
        "table_differs (rn_state r) (vm_mem (rn_vm r)) mem'"
      using wr_table [OF ok] True by blast
    obtain w where "rd32 (vm_mem (rn_vm r)) (unat (data_start (rn_state r)) + 4 * unat addr) = Some w"
      using rd_table [OF ok] True by blast
    then show ?thesis
      using True mem'(1) runs_program_table(1) [OF ok] runs_program_kept [OF ok mem'(2)] mem'(2) assms
      by (simp add: vm_v_set_reg_def vm_i32_get_reg_def vm_v_set_data_def vm_i32_get_data_def runner_inv_def table_differs_def)
  qed
  then show "\<exists>r'. vm_v_set_reg addr v r = Some r' \<and> runner_inv code r' \<and> rn_state r' = rn_state r \<and> rn_info r' = rn_info r"
    "\<exists>w. vm_i32_get_reg addr r = Some w" by blast+
qed

lemma unat_Suc8: "unat (i :: u8) < 255 \<Longrightarrow> unat (i + 1) = Suc (unat i)"
  by (simp add: unat_word_ariths(1))

lemma sync_words_ok:
  assumes "runner_inv code r" and "event_ok (Frame_Sync sync)"
  shows "\<exists>status' r'. sync_words sync i status r = Some (status', r') \<and> runner_inv code r'"
  using assms(1)
proof (induction "unat (sync_data_count sync) - unat i" arbitrary: i status r rule: less_induct)
  case less
  show ?case
  proof (cases "unat i < unat (sync_data_count sync)")
    case False
    then show ?thesis using less.prems by (subst sync_words.simps) simp
  next
    case True
    let ?addr = "i + ucast (sync_data_index sync)"
    obtain v where v: "vm_i32_get_reg ?addr r = Some v" using set_reg_ok(2) [OF less.prems] by blast
    obtain w where w: "rd (sync_data sync) (unat i) = Some w" using True assms(2) by simp
    obtain status1 r1 where r1: "(if v \<noteq> w then do { r \<leftarrow> vm_v_set_reg ?addr w r; Some (status OR 2, r) } else Some (status, r))
        = Some (status1, r1)" "runner_inv code r1"
      using set_reg_ok(1) [OF less.prems, of ?addr w] less.prems by (cases "v \<noteq> w") auto
    have "unat (i + 1) = Suc (unat i)" using True assms(2) by (intro unat_Suc8) simp
    then have lt: "unat (sync_data_count sync) - unat (i + 1) < unat (sync_data_count sync) - unat i" using True by linarith
    obtain status' r' where "sync_words sync (i + 1) status1 r1 = Some (status', r')" "runner_inv code r'"
      using less.hyps [OF lt r1(2)] by blast
    then show ?thesis using True v w r1(1) by (subst sync_words.simps) (simp add: Let_def)
  qed
qed

lemma event_safe:
  assumes "runner_inv code r" and "event_ok ev"
  shows "\<exists>r'. run_runner_event E ev r = Some r' \<and> runner_inv code r'"
proof (cases ev)
  case (Frame_Sync sync)
  have "runner_inv code (r\<lparr>rn_state := (rn_state r)\<lparr>frame_number := k, rng_seed := s\<rparr>\<rparr>)"
    "runner_inv code (r\<lparr>rn_state := (rn_state r)\<lparr>frame_number := k\<rparr>\<rparr>)"
    "runner_inv code (r\<lparr>rn_state := (rn_state r)\<lparr>rng_seed := s\<rparr>\<rparr>)" "runner_inv code (r\<lparr>rn_state := rn_state r\<rparr>)" for k s
    using assms(1) by (simp_all add: runner_inv_def)
  note inv = this
  have "\<exists>status r'. vm_u8_set_frame_sync sync r = Some (status, r') \<and> runner_inv code r'"
    unfolding vm_u8_set_frame_sync_def Let_def split_beta
    by (rule sync_words_ok [OF _ assms(2) [unfolded Frame_Sync]]) (use inv in simp)
  then show ?thesis by (auto simp: Frame_Sync)
qed (use assms process_ok set_reg_ok(1) in \<open>fastforce simp: vm_v_run_vm_def vm_v_run_faders_def\<close>)+

interpretation runner: simulated "\<lambda>r (u :: unit). runner_inv code r" "run_runner_event E" "\<lambda>ev u. u" "\<lambda>ev u. event_ok ev"
  for code E
  by unfold_locales (rule event_safe)

lemma events_allowed: "all_allowed (\<lambda>ev u. event_ok ev) (\<lambda>ev u. u) evs () \<longleftrightarrow> (\<forall>ev \<in> set evs. event_ok ev)"
  by (induction evs) auto

lemma events_safe:
  assumes "runner_inv code r" and "\<forall>ev \<in> set evs. event_ok ev"
  shows "\<exists>r'. for_each (run_runner_event E) evs r = Some r' \<and> runner_inv code r'"
  by (rule runner.runs) (use assms events_allowed in auto)

section \<open>Loading\<close>

text \<open>The bytes of a section, read where the section lies.\<close>

lemma rd_section:
  assumes "section_at mem start bytes" and "i < length bytes"
  shows "rd mem (unat start + i) = rd bytes i"
proof -
  have at: "take (length bytes) (drop (unat start) mem) = bytes" using assms(1) by (simp add: section_at_def)
  have "length (take (length bytes) (drop (unat start) mem)) = length bytes" by (simp only: at)
  then have "unat start + length bytes \<le> length mem" using assms(2) by (simp add: min_def split: if_splits)
  moreover have "mem ! (unat start + i) = bytes ! i" using arg_cong [OF at, of "\<lambda>xs. xs ! i"] assms(2) calculation by simp
  ultimately show ?thesis using assms(2) by simp
qed

lemma rd16_section:
  assumes "section_at mem start bytes" and "p + 2 \<le> length bytes"
  shows "rd16 mem (unat start + p) = rd16 bytes p"
  using rd_section [OF assms(1), of p] rd_section [OF assms(1), of "p + 1"] assms(2)
  by (simp add: rd16_def del: rd_in)

lemma rd_publish_section:
  assumes "section_at mem start bytes" and "p + 8 \<le> length bytes"
  shows "rd_publish mem (unat start + p) = rd_publish bytes p"
proof -
  have "rd mem (unat start + p + i) = rd bytes (p + i)" if "i < 8" for i
    using rd_section [OF assms(1), of "p + i"] assms(2) that by (simp add: add.assoc)
  from this [of 0] this [of 1] this [of 2] this [of 3] this [of 4]
  have "rd mem (unat start + p) = rd bytes p" "rd mem (unat start + p + 1) = rd bytes (p + 1)"
    "rd mem (unat start + p + 2) = rd bytes (p + 2)" "rd mem (unat start + p + 2 + 1) = rd bytes (p + 2 + 1)"
    "rd mem (unat start + p + 4) = rd bytes (p + 4)"
    by (simp_all add: numeral_3_eq_3)
  then show ?thesis unfolding rd_publish_def rd32_def rd16_def by (simp only: )
qed

lemma rd_pixel_arrays_section:
  assumes "section_at mem start bytes" and "p + 12 * n \<le> length bytes"
  shows "rd_pixel_arrays mem (unat start + p) n = rd_pixel_arrays bytes p n"
  using assms(2)
proof (induction n arbitrary: p)
  case 0
  then show ?case by simp
next
  case (Suc n)
  have "rd16 mem (unat start + p + i) = rd16 bytes (p + i)" if "i < 11" for i
    using rd16_section [OF assms(1), of "p + i"] Suc.prems that by (simp add: add.assoc)
  from this [of 0] this [of 2] this [of 4] this [of 6] rd_section [OF assms(1), of "p + 8"]
  have "rd_pixel_array mem (unat start + p) = rd_pixel_array bytes p"
    unfolding rd_pixel_array_def using Suc.prems by (simp add: add.assoc)
  moreover have "rd_pixel_arrays mem (unat start + (p + 12)) n = rd_pixel_arrays bytes (p + 12) n"
    using Suc.prems by (intro Suc.IH) simp
  ultimately show ?case by (simp add: add.assoc)
qed

text \<open>
  What a compiler must guarantee of a program, beside the layout: safe code, entry points at
  instructions, published variables inside the data table, whole words of code, and at least one
  pixel object, all with a size but the first, which the firmware overwrites.
\<close>

definition program_checked :: "vm_program \<Rightarrow> bool" where
  "program_checked p \<longleftrightarrow> program_ok p \<and> length (image_of p) \<le> VM_SLAB_SIZE
     \<and> code_checked (prog_code p) (length (prog_data p) div 4)
     \<and> unat (prog_init p) \<in> set (starts 0 (prog_code p)) \<and> unat (prog_loop p) \<in> set (starts 0 (prog_code p))
     \<and> length (prog_code p) mod 4 = 0 \<and> length (prog_pix_objs p) mod 12 = 0
     \<and> 12 \<le> length (prog_pix_objs p) \<and> length (prog_pix_objs p) < 3072
     \<and> (\<forall>i < length (prog_publish p) div 8. \<exists>h a. rd_publish (prog_publish p) (8 * i) = Some (h, a)
           \<and> unat a < length (prog_data p) div 4)
     \<and> (\<exists>pas. rd_pixel_arrays (prog_pix_objs p) 0 (length (prog_pix_objs p) div 12) = Some pas
           \<and> (\<forall>pa \<in> set (tl pas). pa_count pa \<noteq> 0 \<and> pa_size_x pa \<noteq> 0 \<and> pa_size_y pa \<noteq> 0))"

lemma image_starts_unat:
  assumes "program_ok p"
  shows "unat (code_start (image_state p)) = length (upto_code_magic p)"
    and "unat (data_start (image_state p)) = length (upto_data_magic p)"
    and "unat (write_keys_start (image_state p)) = length (upto_read_keys p)"
    and "unat (publish_start (image_state p)) = length (upto_write_keys p)"
    and "unat (pix_obj_start (image_state p)) = length (upto_publish p)"
  using program_ok_lengths [OF assms] by (simp_all add: image_state_def unat_of_nat16)

lemma unat_count_le: "unat (ucast (len16 xs div k :: u16) :: u8) \<le> length xs div unat k"
proof -
  have "unat (ucast (len16 xs div k :: u16) :: u8) \<le> unat (len16 xs div k :: u16)"
    by (simp add: unsigned_ucast_eq unsigned_take_bit_eq take_bit_nat_less_eq_self)
  also have "\<dots> \<le> length xs div unat k"
    by (simp add: unat_div unsigned_of_nat div_le_mono take_bit_nat_less_eq_self)
  finally show ?thesis .
qed

lemma image_counts:
  "8 * unat (publish_count (image_state p)) \<le> length (prog_publish p)"
  "4 * unat (write_keys_count (image_state p)) \<le> length (prog_write_keys p)"
  "4 * unat (read_keys_count (image_state p)) \<le> length (prog_read_keys p)"
  "12 * unat (pix_obj_count (image_state p)) \<le> length (prog_pix_objs p)"
  using unat_count_le [of "prog_publish p" 8] unat_count_le [of "prog_write_keys p" 4]
    unat_count_le [of "prog_read_keys p" 4] unat_count_le [of "prog_pix_objs p" 12]
  by (simp_all add: image_state_def)

lemma image_lengths:
  "length (upto_read_keys p) = 28 + length (prog_read_keys p)"
  "length (upto_write_keys p) = length (upto_read_keys p) + length (prog_write_keys p)"
  "length (upto_publish p) = length (upto_write_keys p) + length (prog_publish p)"
  "length (upto_pix_objs p) = length (upto_publish p) + length (prog_pix_objs p)"
  "length (upto_code_magic p) = length (upto_pix_objs p) + 4"
  "length (upto_code p) = length (upto_code_magic p) + length (prog_code p)"
  "length (upto_data_magic p) = length (upto_code p) + 4"
  by (simp_all add: upto_defs)

lemma image_length:
  assumes "program_ok p"
  shows "length (image_of p) = length (upto_data_magic p) + length (prog_data p) + 2"
proof -
  obtain c :: u16 where "image_of p = image_body p @ [ucast (drop_bit 8 c), ucast c]" by (rule image_of_eq [OF assms])
  then show ?thesis by (simp add: image_body_def upto_defs)
qed

lemma image_aligned:
  assumes "program_checked p"
  shows "length (upto_code_magic p) mod 4 = 0" and "length (upto_data_magic p) mod 4 = 0"
proof -
  have "length (prog_read_keys p) mod 4 = 0" "length (prog_write_keys p) mod 4 = 0" "length (prog_publish p) mod 4 = 0"
    "length (prog_pix_objs p) mod 12 = 0" "length (prog_code p) mod 4 = 0"
    using assms by (simp_all add: program_checked_def program_ok_def)
  then show "length (upto_code_magic p) mod 4 = 0" "length (upto_data_magic p) mod 4 = 0"
    unfolding image_lengths by presburger+
qed

lemma image_runs:
  assumes ok: "program_checked p" and pad: "length (image_of p @ pad) = VM_SLAB_SIZE"
  shows "runs_program (prog_code p) (image_state p) (image_of p @ pad)" and "arrays_ok (image_state p) (image_of p @ pad)"
proof -
  have p: "program_ok p" using ok by (simp add: program_checked_def)
  note starts = image_starts_unat [OF p] and counts = image_counts [of p] and len = image_length [OF p]
  note sec = image_sections(1-6) [OF p, of pad] and words = image_sections(7) [OF p]
  have entries: "init_start (image_state p) = prog_init p" "loop_start (image_state p) = prog_loop p"
    "read_keys_start (image_state p) = 28" by (simp_all add: image_state_def)
  have total: "length (upto_data_magic p) + length (prog_data p) + 2 \<le> 4096" using len pad by simp
  have data: "4 * (length (prog_data p) div 4) \<le> length (prog_data p)" by simp
  have "data_start (image_state p) mod 4 = 0"
    using image_aligned(2) [OF ok] by (simp add: word_unat_eq_iff unat_mod starts)
  moreover have "unat (data_start (image_state p)) + 4 * unat (data_count (image_state p)) \<le> 4096"
    using total data by (simp add: starts words)
  ultimately have code: "program_in (prog_code p) (image_state p) (image_of p @ pad)"
    using sec(5) pad starts(1,2) image_lengths(6,7) [of p] unfolding program_in_def table_ok_def by simp
  have pub: "\<exists>h a. rd_publish (image_of p @ pad) (unat (publish_start (image_state p)) + 8 * i) = Some (h, a)
      \<and> unat a < unat (data_count (image_state p))" if i: "i < unat (publish_count (image_state p))" for i
  proof -
    have "8 * i + 8 \<le> length (prog_publish p)" using i counts(1) by linarith
    then show ?thesis
      using ok rd_publish_section [OF sec(3), of "8 * i"] unfolding program_checked_def words by auto
  qed
  have keys: "unat (write_keys_start (image_state p)) + 4 * unat (write_keys_count (image_state p)) \<le> VM_SLAB_SIZE"
    "unat (read_keys_start (image_state p)) + 4 * unat (read_keys_count (image_state p)) \<le> VM_SLAB_SIZE"
    using counts(2,3) total image_lengths [of p] by (simp_all add: starts entries)
  have apart: "apart (image_state p) (unat (publish_start (image_state p))) (8 * unat (publish_count (image_state p)))"
    "apart (image_state p) (unat (pix_obj_start (image_state p))) (12 * unat (pix_obj_count (image_state p)))"
    using counts(1,4) image_lengths [of p] by (simp_all add: apart_def starts)
  show "runs_program (prog_code p) (image_state p) (image_of p @ pad)"
    using ok code pub keys apart(1) pad
    by (simp add: runs_program_def program_checked_def words entries)
  have "length (prog_pix_objs p) div 12 < 256" "12 \<le> length (prog_pix_objs p)" "length (prog_pix_objs p) < 65536"
    using ok unfolding program_checked_def by linarith+
  then have n: "unat (pix_obj_count (image_state p)) = length (prog_pix_objs p) div 12"
    by (simp add: image_state_def unsigned_ucast_eq unsigned_take_bit_eq unat_div unat_of_nat16 take_bit_nat_eq_self)
  obtain pas where pas: "rd_pixel_arrays (prog_pix_objs p) 0 (length (prog_pix_objs p) div 12) = Some pas"
      "\<forall>pa \<in> set (tl pas). pa_count pa \<noteq> 0 \<and> pa_size_x pa \<noteq> 0 \<and> pa_size_y pa \<noteq> 0"
    using ok by (auto simp: program_checked_def)
  have "rd_pixel_arrays (image_of p @ pad) (unat (pix_obj_start (image_state p))) (length (prog_pix_objs p) div 12) = Some pas"
    using rd_pixel_arrays_section [OF sec(4), of 0 "length (prog_pix_objs p) div 12"] pas(1) by simp
  moreover have "length pas = length (prog_pix_objs p) div 12" by (rule rd_pixel_arrays_length [OF pas(1)])
  then have "pas \<noteq> []" using \<open>12 \<le> length (prog_pix_objs p)\<close> by auto
  ultimately show "arrays_ok (image_state p) (image_of p @ pad)" using apart(2) pas(2) by (simp add: arrays_ok_def n)
qed

text \<open>Receiving the image.\<close>

definition load_piece ::
    "vm_env \<Rightarrow> u8 list \<Rightarrow> (nat \<Rightarrow> db_entry32 list option) \<Rightarrow> u32 \<Rightarrow> u32 \<Rightarrow> u8 list \<Rightarrow> vm_runner \<Rightarrow> vm_runner option" where
  "load_piece E mac grown ts te bytes r = map_option snd (vm_i8_load E mac grown ts te bytes (len16 bytes) r)"

lemma load_pieces:
  assumes "[] \<notin> set pieces" and "length done_bytes + length (concat pieces) \<le> VM_SLAB_SIZE"
    and "vm_mem (rn_vm r) = done_bytes @ replicate (VM_SLAB_SIZE - length done_bytes) 0"
    and "vm_offset r = len16 done_bytes" and "vm_len r = len16 done_bytes"
  obtains info where "for_each (load_piece E mac grown ts te) pieces r
    = Some (r\<lparr>rn_info := info, rn_vm := (rn_vm r)\<lparr>vm_mem := done_bytes @ concat pieces
          @ replicate (VM_SLAB_SIZE - length done_bytes - length (concat pieces)) 0\<rparr>,
        vm_offset := len16 (done_bytes @ concat pieces), vm_len := len16 (done_bytes @ concat pieces)\<rparr>)"
  using assms
proof (induction pieces arbitrary: done_bytes r thesis)
  case Nil
  have "r = r\<lparr>rn_info := rn_info r, rn_vm := (rn_vm r)\<lparr>vm_mem := vm_mem (rn_vm r)\<rparr>, vm_offset := vm_offset r, vm_len := vm_len r\<rparr>"
    by simp
  then show ?case using Nil.prems(1) [of "rn_info r"] unfolding Nil.prems(4-6) by simp
next
  case (Cons piece pieces)
  have n: "0 < length piece" "length done_bytes + length piece + length (concat pieces) \<le> VM_SLAB_SIZE"
    using Cons.prems(2,3) by auto
  then have "unat (len16 piece) = length piece" "unat (len16 done_bytes) = length done_bytes"
    by (auto intro: unat_of_nat16)
  note u = this
  have nz: "(len16 piece :: u16) \<noteq> 0" using n(1) u(1) by auto
  let ?info = "(rn_info r)\<lparr>info_status := - 127, info_return_code := - 127\<rparr>"
  let ?rest = "replicate (VM_SLAB_SIZE - length done_bytes - length piece) (0 :: u8)"
  let ?r = "r\<lparr>rn_info := ?info, rn_vm := (rn_vm r)\<lparr>vm_mem := (done_bytes @ piece) @ ?rest\<rparr>, vm_offset := len16 (done_bytes @ piece),
      vm_len := len16 (done_bytes @ piece)\<rparr>"
  have "put_bytes (done_bytes @ replicate (VM_SLAB_SIZE - length done_bytes) 0) (length done_bytes) piece = done_bytes @ piece @ ?rest"
    using n by (simp add: put_bytes_def)
  then have "load_piece E mac grown ts te piece r = Some ?r"
    using n u nz Cons.prems(4-6) by (simp add: load_piece_def vm_i8_load_def Let_def)
  moreover obtain info where "for_each (load_piece E mac grown ts te) pieces ?r
    = Some (?r\<lparr>rn_info := info, rn_vm := (rn_vm ?r)\<lparr>vm_mem := (done_bytes @ piece) @ concat pieces
          @ replicate (VM_SLAB_SIZE - length (done_bytes @ piece) - length (concat pieces)) 0\<rparr>,
        vm_offset := len16 ((done_bytes @ piece) @ concat pieces), vm_len := len16 ((done_bytes @ piece) @ concat pieces)\<rparr>)"
    by (rule Cons.IH [where done_bytes = "done_bytes @ piece" and r = ?r]) (use Cons.prems(2) n in auto)
  ultimately show ?case using Cons.prems(1) [of info] by (simp add: diff_diff_left add.assoc)
qed

lemma add_key_ok:
  assumes "\<And>i. i < n \<Longrightarrow> \<exists>h. rd32 (vm_mem m) (start + stride * i) = Some h"
  shows "\<exists>db. for_each (add_key grown start stride k) [0..<n] m = Some (m\<lparr>vm_db := db\<rparr>)"
proof -
  let ?I = "\<lambda>m'. \<exists>db. m' = m\<lparr>vm_db := db\<rparr>"
  have "\<exists>m'. for_each (add_key grown start stride k) [0..<n] m = Some m' \<and> ?I m'"
  proof (rule for_each_total)
    show "?I m" by (intro exI [of _ "vm_db m"]) simp
  next
    fix i m' assume i: "i \<in> set [0..<n]" and I: "?I m'"
    then obtain h where "rd32 (vm_mem m) (start + stride * i) = Some h" using assms by auto
    then show "\<exists>m''. add_key grown start stride k i m' = Some m'' \<and> ?I m''"
      using I by (auto simp: add_key_def)
  qed
  then show ?thesis by blast
qed

lemma add_keys_ok:
  assumes "runs_program code st (vm_mem m)"
  shows "\<exists>db. add_keys grown st m = Some (m\<lparr>vm_db := db\<rparr>)"
proof -
  have keys: "\<exists>h. rd32 (vm_mem m) (a + 4 * i) = Some h" if "i < n" "a + 4 * n \<le> length (vm_mem m)" for a i n
    using that rd32_total [of "vm_mem m" "a + 4 * i"] by auto
  have b: "unat (write_keys_start st) + 4 * unat (write_keys_count st) \<le> length (vm_mem m)"
    "unat (read_keys_start st) + 4 * unat (read_keys_count st) \<le> length (vm_mem m)"
    using assms by (simp_all add: runs_program_def)
  have pub: "\<exists>h. rd32 (vm_mem m) (unat (publish_start st) + 8 * i) = Some h" if i: "i < unat (publish_count st)" for i
    using publish_at [OF assms i] by (auto simp: rd_publish_def opt_simps)
  obtain db1 where 1: "for_each (add_key grown (unat (write_keys_start st)) 4 0) [0..<unat (write_keys_count st)] m = Some (m\<lparr>vm_db := db1\<rparr>)"
    using add_key_ok [where m = m] keys b(1) by metis
  obtain db2 where 2: "for_each (add_key grown (unat (read_keys_start st)) 4 (unat (write_keys_count st)))
      [0..<unat (read_keys_count st)] (m\<lparr>vm_db := db1\<rparr>) = Some (m\<lparr>vm_db := db2\<rparr>)"
    using add_key_ok [where m = "m\<lparr>vm_db := db1\<rparr>" and n = "unat (read_keys_count st)" and start = "unat (read_keys_start st)"
        and stride = 4 and grown = grown and k = "unat (write_keys_count st)"] keys b(2) by auto
  obtain db3 where 3: "for_each (add_key grown (unat (publish_start st)) 8 (unat (write_keys_count st) + unat (read_keys_count st)))
      [0..<unat (publish_count st)] (m\<lparr>vm_db := db2\<rparr>) = Some (m\<lparr>vm_db := db3\<rparr>)"
    using add_key_ok [where m = "m\<lparr>vm_db := db2\<rparr>" and n = "unat (publish_count st)" and start = "unat (publish_start st)"
        and stride = 8 and grown = grown and k = "unat (write_keys_count st) + unat (read_keys_count st)"] pub by auto
  show ?thesis using 1 2 3 by (intro exI [of _ db3]) (simp add: add_keys_def Let_def)
qed

lemma and_3_mod: "x AND 3 = x mod 4" for x :: u16
proof -
  have "x AND 3 = take_bit 2 x" by (simp add: take_bit_eq_mask mask_eq_decr_exp)
  then show ?thesis by (simp add: take_bit_eq_mod)
qed

text \<open>The end of the transmission: an empty piece.\<close>

lemma load_end:
  assumes ok: "program_checked p" and mem: "vm_mem (rn_vm r) = image_of p @ pad" "length (image_of p @ pad) = VM_SLAB_SIZE"
    and len: "vm_len r = len16 (image_of p)" "unat (vm_offset r) \<le> VM_SLAB_SIZE"
    and gfx: "gfx_ready (vm_gfx (rn_vm r))" and rep: "list_rep (kv_send_list r) (rn_pool r) ns"
  obtains rc r' where "vm_i8_load E mac grown t0 t1 [] 0 r = Some (rc, r')" and "runner_inv (prog_code p) r'"
    and "info_status (rn_info r') = 0"
proof -
  have p: "program_ok p" using ok by (simp add: program_checked_def)
  let ?st = "image_state p"
  let ?info = "(rn_info r)\<lparr>info_return_code := - 127, info_status := 0\<rparr>"
  note runs = image_runs [OF ok mem(2)]
  have al: "code_start ?st AND 3 = 0" "data_start ?st AND 3 = 0"
    using image_aligned [OF ok] image_starts_unat(1,2) [OF p]
    by (simp_all add: and_3_mod word_unat_eq_iff unat_mod)
  let ?st' = "?st\<lparr>rng_seed := mac_seed mac\<rparr>" and ?db = "kvdb_v_delete_tag KVDB_VM_RUNNER_TAG (vm_db (rn_vm r))"
  have runs': "runs_program (prog_code p) ?st' (vm_mem (rn_vm r))" "arrays_ok ?st' (vm_mem (rn_vm r))"
    using runs by (simp_all add: mem arrays_ok_def apart_def)
  obtain db where db: "add_keys grown ?st' ((rn_vm r)\<lparr>vm_db := ?db\<rparr>) = Some ((rn_vm r)\<lparr>vm_db := db\<rparr>)"
    using add_keys_ok [of "prog_code p" ?st' "(rn_vm r)\<lparr>vm_db := ?db\<rparr>" grown] runs'(1) by auto
  let ?r = "r\<lparr>rn_info := ?info, rn_state := ?st', rn_vm := (rn_vm r)\<lparr>vm_db := db\<rparr>\<rparr>"
  obtain rc r' where run: "vm_i8_run_vm E True t0 t1 ?r = Some (rc, r')" "runner_inv (prog_code p) r'"
      "info_status (rn_info r') = info_status (rn_info ?r)"
    by (rule run_vm_ok [of "prog_code p" ?r ns True E t0 t1]) (use runs' rep gfx in auto)
  have slab: "put_bytes (vm_mem (rn_vm r)) (unat (vm_offset r)) [] = vm_mem (rn_vm r)" by (simp add: put_bytes_def)
  have "vm_i8_load_program 0 (vm_mem (rn_vm r)) (vm_len r) = Some (VM_STATUS_OK, ?st)"
    using image_load [OF p, of pad] by (simp add: mem(1) len(1))
  then have "vm_i8_load E mac grown t0 t1 [] 0 r = Some (rc, r')"
    using run(1) len(2) al db slab by (simp add: vm_i8_load_def Let_def)
  then show thesis using that run(2,3) by simp
qed

section \<open>Frame synchronisation\<close>

definition loaded :: "u8 list \<Rightarrow> vm_runner \<Rightarrow> bool" where
  "loaded code r \<longleftrightarrow> runner_inv code r \<and> 0 \<le> info_status (rn_info r)"

lemma loaded_get:
  assumes "loaded code r"
  shows "vm_i32_get_reg k r = vm_i32_get_data (vm_mem (rn_vm r)) (rn_state r) k" and "table_ok (vm_mem (rn_vm r)) (rn_state r)"
  using assms by (auto simp: loaded_def vm_i32_get_reg_def runner_inv_def runs_program_def program_in_def)

lemma loaded_set:
  assumes "loaded code r"
  obtains r' where "vm_v_set_reg addr v r = Some r'" and "loaded code r'" and "rn_state r' = rn_state r"
    and "\<And>k. vm_i32_get_reg k r' = (if k = addr \<and> unat addr < unat (data_count (rn_state r)) then Some v else vm_i32_get_reg k r)"
proof -
  obtain r' where r': "vm_v_set_reg addr v r = Some r'" "runner_inv code r'" "rn_state r' = rn_state r" "rn_info r' = rn_info r"
    using set_reg_ok(1) assms unfolding loaded_def by blast
  have l: "loaded code r'" using r' assms by (simp add: loaded_def)
  have status: "\<not> info_status (rn_info r) < 0" using assms by (simp add: loaded_def)
  have "vm_v_set_data (vm_mem (rn_vm r)) (rn_state r) addr v = Some (vm_mem (rn_vm r'))"
    using r'(1) status by (auto simp: vm_v_set_reg_def opt_simps)
  moreover obtain mem' where "vm_v_set_data (vm_mem (rn_vm r)) (rn_state r) addr v = Some mem'"
      "\<forall>k. vm_i32_get_data mem' (rn_state r) k = (if k = addr \<and> unat addr < unat (data_count (rn_state r)) then Some v
        else vm_i32_get_data (vm_mem (rn_vm r)) (rn_state r) k)"
    using set_get_data [OF loaded_get(2) [OF assms]] by blast
  ultimately have "vm_i32_get_reg k r' = (if k = addr \<and> unat addr < unat (data_count (rn_state r)) then Some v else vm_i32_get_reg k r)" for k
    by (simp add: loaded_get(1) [OF l] loaded_get(1) [OF assms] r'(3))
  then show thesis using that r' l by blast
qed

text \<open>The words of a message are those of the sender's table.\<close>

lemma frame_sync_message:
  assumes "loaded code r" and "length (sync_data msg) = 16"
  obtains sync where "vm_i8_get_frame_sync 0 msg r = Some (0, sync)"
    and "sync_frame_number sync = frame_number (rn_state r)" and "sync_rng_seed sync = rng_seed (rn_state r)"
    and "sync_data_index sync = 0" and "unat (sync_data_count sync) = min 16 (unat (data_count (rn_state r)))"
    and "length (sync_data sync) = 16"
    and "\<And>k. unat k < unat (sync_data_count sync) \<Longrightarrow> vm_i32_get_reg k r = Some (sync_data sync ! unat k)"
proof -
  let ?st = "rn_state r" and ?mem = "vm_mem (rn_vm r)"
  let ?n = "if data_count ?st > 16 then 16 else data_count ?st"
  have n: "unat ?n = min 16 (unat (data_count ?st))" by (auto simp: word_less_nat_alt)
  have tab: "data_table ?st = Some (unat (data_start ?st))" "unat (data_start ?st) + 4 * unat (data_count ?st) \<le> length ?mem"
    using loaded_get(2) [OF assms(1)] by (simp_all add: table_ok_def data_table_def)
  have "unat ?n \<le> 256 \<and> unat (data_start ?st) + 4 * unat ?n \<le> length ?mem" using tab(2) unfolding n by linarith
  then obtain ws where ws: "get_multi ?mem (unat (data_start ?st)) 0 (unat ?n) = Some ws"
    using get_multi_total [of "unat (data_start ?st)" ?mem 0 "unat ?n"] by auto
  note nth = get_multi_nth [OF ws]
  let ?sync = "msg\<lparr>sync_frame_number := frame_number ?st, sync_rng_seed := rng_seed ?st, sync_data_index := 0,
    sync_data_count := ?n, sync_data := ws @ drop (length ws) (sync_data msg)\<rparr>"
  have "vm_v_get_data_multi ?mem ?st 0 ?n = Some ws"
    using ws n by (simp add: vm_v_get_data_multi_def tab(1))
  then have "vm_i8_get_frame_sync 0 msg r = Some (0, ?sync)"
    using nth n assms(2) by (simp add: vm_i8_get_frame_sync_def Let_def)
  moreover have "vm_i32_get_reg k r = Some (sync_data ?sync ! unat k)" if "unat k < unat ?n" for k
  proof -
    have "(0 + word_of_nat (unat k) :: u8) = k" by simp
    then have "rd32 ?mem (unat (data_start ?st) + 4 * unat k) = Some (ws ! unat k)" using nth that by metis
    then show ?thesis
      using that n nth by (simp add: loaded_get(1) [OF assms(1)] vm_i32_get_data_def tab(1) nth_append)
  qed
  ultimately show thesis using that [of ?sync] n nth assms(2) by simp
qed

text \<open>The frame number and the seed are taken over first; the status says whether either differed.\<close>

lemma set_frame_sync_start:
  "\<exists>st. vm_u8_set_frame_sync sync r = sync_words sync 0 st
      (r\<lparr>rn_state := (rn_state r)\<lparr>frame_number := sync_frame_number sync, rng_seed := sync_rng_seed sync\<rparr>\<rparr>)
    \<and> (st = 0 \<longleftrightarrow> frame_number (rn_state r) = sync_frame_number sync \<and> rng_seed (rn_state r) = sync_rng_seed sync)"
proof -
  let ?f = "frame_number (rn_state r)" and ?s = "rng_seed (rn_state r)"
  let ?b = "r\<lparr>rn_state := (rn_state r)\<lparr>frame_number := sync_frame_number sync, rng_seed := sync_rng_seed sync\<rparr>\<rparr>"
  let ?d = "int (unat ?f) - int (unat (sync_frame_number sync))"
  define st where "st = (if ?d > 1 \<or> ?d < - 1 then 0x80 else 0)
    OR (if ?f > sync_frame_number sync then 0x40 else if ?f < sync_frame_number sync then 0x20 else 0)
    OR (if ?s \<noteq> sync_rng_seed sync then 0x01 else (0 :: u8))"
  have set: "vm_u8_set_frame_sync sync r = sync_words sync 0 st ?b"
  proof -
    have s: "?s = sync_rng_seed sync \<Longrightarrow> (rn_state r)\<lparr>frame_number := k, rng_seed := sync_rng_seed sync\<rparr>
        = (rn_state r)\<lparr>frame_number := k\<rparr>" for k by (cases "rn_state r") simp
    have f: "?f = sync_frame_number sync \<Longrightarrow> (rn_state r)\<lparr>frame_number := sync_frame_number sync, rng_seed := k\<rparr>
        = (rn_state r)\<lparr>rng_seed := k\<rparr>" for k by (cases "rn_state r") simp
    have fs: "?f = sync_frame_number sync \<Longrightarrow> (rn_state r)\<lparr>frame_number := sync_frame_number sync\<rparr> = rn_state r"
      by (cases "rn_state r") simp
    have ss: "?s = sync_rng_seed sync \<Longrightarrow> (rn_state r)\<lparr>rng_seed := sync_rng_seed sync\<rparr> = rn_state r"
      by (cases "rn_state r") simp
    show ?thesis
      unfolding vm_u8_set_frame_sync_def Let_def st_def
      by (cases ?f "sync_frame_number sync" rule: linorder_cases; cases "?s = sync_rng_seed sync")
        (simp_all add: s f fs ss or.assoc less_not_sym)
  qed
  have st: "st = 0 \<longleftrightarrow> ?f = sync_frame_number sync \<and> ?s = sync_rng_seed sync"
    by (auto simp: st_def or_eq_0_iff)
  show ?thesis using set st by blast
qed

text \<open>Storing them changes exactly the words of the message, and says whether any was different.\<close>

lemma sync_words_result:
  assumes "loaded code r" and "sync_data_index sync = 0" and "unat (sync_data_count sync) \<le> length (sync_data sync)"
    and "unat (sync_data_count sync) < 256" and "unat (sync_data_count sync) \<le> unat (data_count (rn_state r))"
  shows "\<exists>r'. sync_words sync i status r = Some (status OR
        (if \<exists>k. unat i \<le> unat k \<and> unat k < unat (sync_data_count sync) \<and> vm_i32_get_reg k r \<noteq> Some (sync_data sync ! unat k)
         then 2 else 0), r')
    \<and> loaded code r' \<and> rn_state r' = rn_state r
    \<and> (\<forall>k. vm_i32_get_reg k r' = (if unat i \<le> unat k \<and> unat k < unat (sync_data_count sync)
          then Some (sync_data sync ! unat k) else vm_i32_get_reg k r))"
  using assms(1,5)
proof (induction "unat (sync_data_count sync) - unat i" arbitrary: i status r rule: less_induct)
  case less
  let ?n = "unat (sync_data_count sync)"
  let ?diff = "\<lambda>(i :: u8) r. \<exists>k. unat i \<le> unat k \<and> unat k < ?n \<and> vm_i32_get_reg k r \<noteq> Some (sync_data sync ! unat k)"
  show ?case
  proof (cases "unat i < ?n")
    case False
    then have no: "\<not> (unat i \<le> unat k \<and> unat k < ?n)" for k :: u8 by linarith
    show ?thesis unfolding if_not_P [OF no] using False less.prems no
      by (subst sync_words.simps) (auto simp: no)
  next
    case True
    let ?w = "sync_data sync ! unat i"
    have suc: "unat (i + 1) = Suc (unat i)" using True assms(4) by (intro unat_Suc8) simp
    obtain v where v: "vm_i32_get_reg i r = Some v" using set_reg_ok(2) less.prems(1) unfolding loaded_def by blast
    obtain r1 where r1: "vm_v_set_reg i ?w r = Some r1" "loaded code r1" "rn_state r1 = rn_state r"
        "\<And>k. vm_i32_get_reg k r1 = (if k = i \<and> unat i < unat (data_count (rn_state r)) then Some ?w else vm_i32_get_reg k r)"
      by (rule loaded_set [OF less.prems(1), of i ?w]) blast
    have i: "unat i < unat (data_count (rn_state r))" using True less.prems(2) by simp
    let ?s = "if v \<noteq> ?w then status OR 2 else status" and ?r = "if v \<noteq> ?w then r1 else r"
    have r: "loaded code ?r" "rn_state ?r = rn_state r"
      "vm_i32_get_reg k ?r = (if k = i then Some ?w else vm_i32_get_reg k r)" for k
      using r1 less.prems(1) i v by auto
    have lt: "?n - unat (i + 1) < ?n - unat i" using True suc by linarith
    have step: "sync_words sync i status r = sync_words sync (i + 1) ?s ?r"
      using True v assms(2,3) r1(1) by (subst sync_words.simps) (simp add: Let_def)
    have cnt: "?n \<le> unat (data_count (rn_state ?r))" using less.prems(2) r(2) by simp
    have later: "unat (i + 1) \<le> unat k \<longleftrightarrow> unat i \<le> unat k \<and> k \<noteq> i" for k
      using suc by (auto simp: word_unat_eq_iff)
    have diff: "?diff i r \<longleftrightarrow> v \<noteq> ?w \<or> ?diff (i + 1) ?r"
      using v True by (auto simp: later r(3))
    from less.hyps [OF lt r(1) cnt, of ?s] obtain r2 where r2:
        "sync_words sync (i + 1) ?s ?r = Some (?s OR (if ?diff (i + 1) ?r then 2 else 0), r2)" "loaded code r2"
        "rn_state r2 = rn_state ?r"
        "\<forall>k. vm_i32_get_reg k r2 = (if unat (i + 1) \<le> unat k \<and> unat k < ?n then Some (sync_data sync ! unat k) else vm_i32_get_reg k ?r)"
      by blast
    have "?s OR (if ?diff (i + 1) ?r then 2 else 0) = status OR (if ?diff i r then 2 else 0)"
      unfolding diff by (auto simp: or.assoc)
    moreover have "vm_i32_get_reg k r2 = (if unat i \<le> unat k \<and> unat k < ?n then Some (sync_data sync ! unat k)
        else vm_i32_get_reg k r)" for k
      using r2(4) True by (auto simp: later r(3))
    ultimately show ?thesis using r2(1-3) r(2) step by (intro exI [of _ r2]) simp
  qed
qed

text \<open>A message that claims more than 16 words is read behind its end.\<close>

lemma sync_words_overrun:
  assumes "loaded code r" and "length (sync_data sync) = 16" and "16 < unat (sync_data_count sync)" and "unat i \<le> 16"
  shows "sync_words sync i status r = None"
  using assms(1,4)
proof (induction "16 - unat i" arbitrary: i status r rule: less_induct)
  case less
  let ?addr = "i + ucast (sync_data_index sync)"
  obtain v where v: "vm_i32_get_reg ?addr r = Some v" using set_reg_ok(2) less.prems(1) unfolding loaded_def by blast
  have in_loop: "unat i < unat (sync_data_count sync)" using less.prems(2) assms(3) by simp
  show ?case
  proof (cases "unat i = 16")
    case True
    then have none: "rd (sync_data sync) (unat i) = None" using assms(2) by simp
    show ?thesis using in_loop v by (subst sync_words.simps) (simp add: Let_def none del: rd_None_iff)
  next
    case False
    then have i: "unat i < 16" using less.prems(2) by simp
    then have suc: "unat (i + 1) = Suc (unat i)" by (intro unat_Suc8) simp
    let ?w = "sync_data sync ! unat i"
    obtain r1 where r1: "vm_v_set_reg ?addr ?w r = Some r1" "loaded code r1"
      by (rule loaded_set [OF less.prems(1), of ?addr ?w]) blast
    have "sync_words sync (i + 1) s r' = None" if "loaded code r'" for s r'
      by (rule less.hyps [OF _ that]) (use i suc in simp_all)
    then show ?thesis
      using in_loop v i assms(2) r1 less.prems(1) by (subst sync_words.simps) (simp add: Let_def)
  qed
qed

end
