(* ===== verification/Flash.thy ===== *)
theory Flash
  imports Bytes
begin

text \<open>
  The driver of the serial flash chip, \<open>src/src/sapphireos/flash25.c\<close>, as it is built for the
  hardware (the branches without \<open>__SIM__\<close>).

  The chip is not part of the program: it is the argument \<open>spi\<close>.  One application of \<open>spi\<close> is one
  transaction on the bus, from \<open>CHIP_ENABLE\<close> to \<open>CHIP_DISABLE\<close>: the bytes that the driver sends, the
  number of bytes that it then clocks in, the state of the chip before; the result is the byte read
  at each position and the state of the chip after.  The driver waits for the busy bit before or after
  a command (\<open>SAFE_BUSY_WAIT\<close>, which the watchdog ends if the chip never gets ready), so a
  transaction of the model stands for the command and the time that the chip takes for it.
\<close>

section \<open>The bus and the statics of the driver\<close>

type_synonym 'c spi = "u8 list \<Rightarrow> nat \<Rightarrow> 'c \<Rightarrow> (nat \<Rightarrow> u8) \<times> 'c"

record 'c flash =
  fl_chip :: 'c
  aai_write_enabled :: bool
  block0_unlock :: u16

abbreviation (input) FLASH_FS_ERASE_BLOCK_SIZE :: nat where "FLASH_FS_ERASE_BLOCK_SIZE \<equiv> 4096"
abbreviation (input) BLOCK0_UNLOCK_CODE :: u16 where "BLOCK0_UNLOCK_CODE \<equiv> 0x1701"

abbreviation (input) FLASH_CMD_READ :: u8 where "FLASH_CMD_READ \<equiv> 0x03"
abbreviation (input) FLASH_CMD_ERASE_BLOCK_4K :: u8 where "FLASH_CMD_ERASE_BLOCK_4K \<equiv> 0x20"
abbreviation (input) FLASH_CMD_WRITE_BYTE :: u8 where "FLASH_CMD_WRITE_BYTE \<equiv> 0x02"
abbreviation (input) FLASH_CMD_READ_STATUS :: u8 where "FLASH_CMD_READ_STATUS \<equiv> 0x05"
abbreviation (input) FLASH_CMD_ENABLE_WRITE_STATUS :: u8 where "FLASH_CMD_ENABLE_WRITE_STATUS \<equiv> 0x50"
abbreviation (input) FLASH_CMD_WRITE_STATUS :: u8 where "FLASH_CMD_WRITE_STATUS \<equiv> 0x01"
abbreviation (input) FLASH_CMD_WRITE_ENABLE :: u8 where "FLASH_CMD_WRITE_ENABLE \<equiv> 0x06"
abbreviation (input) FLASH_CMD_WRITE_DISABLE :: u8 where "FLASH_CMD_WRITE_DISABLE \<equiv> 0x04"
abbreviation (input) FLASH_CMD_READ_ID :: u8 where "FLASH_CMD_READ_ID \<equiv> 0x9f"
abbreviation (input) FLASH_CMD_AAI_WRITE :: u8 where "FLASH_CMD_AAI_WRITE \<equiv> 0xad"
abbreviation (input) FLASH_CMD_EBUSY :: u8 where "FLASH_CMD_EBUSY \<equiv> 0x70"
abbreviation (input) FLASH_CMD_DBUSY :: u8 where "FLASH_CMD_DBUSY \<equiv> 0x80"

abbreviation (input) FLASH_MFG_CYPRESS :: u8 where "FLASH_MFG_CYPRESS \<equiv> 0x01"
abbreviation (input) FLASH_MFG_SST :: u8 where "FLASH_MFG_SST \<equiv> 0xbf"
abbreviation (input) FLASH_MFG_WINBOND :: u8 where "FLASH_MFG_WINBOND \<equiv> 0xef"

text \<open>A transaction that only sends, and the three address bytes.\<close>

definition send :: "'c spi \<Rightarrow> u8 list \<Rightarrow> 'c flash \<Rightarrow> 'c flash" where
  "send spi bs f = f\<lparr>fl_chip := snd (spi bs 0 (fl_chip f))\<rparr>"

definition receive :: "'c spi \<Rightarrow> u8 list \<Rightarrow> nat \<Rightarrow> 'c flash \<Rightarrow> u8 list \<times> 'c flash" where
  "receive spi bs n f = (case spi bs n (fl_chip f) of (r, c) \<Rightarrow> (map r [0..<n], f\<lparr>fl_chip := c\<rparr>))"

definition address_bytes :: "u32 \<Rightarrow> u8 list" where
  "address_bytes address = [ucast (drop_bit 16 address), ucast (drop_bit 8 address), ucast address]"

section \<open>Operations\<close>

definition flash25_u8_read_status :: "'c spi \<Rightarrow> 'c flash \<Rightarrow> u8 \<times> 'c flash" where
  "flash25_u8_read_status spi f =
     (let (r, f) = receive spi [FLASH_CMD_READ_STATUS] 1 f in (r ! 0, f))"

definition flash25_v_write_status :: "'c spi \<Rightarrow> u8 \<Rightarrow> 'c flash \<Rightarrow> 'c flash" where
  "flash25_v_write_status spi status f =
     (let f = send spi [FLASH_CMD_ENABLE_WRITE_STATUS] f
      in send spi [FLASH_CMD_WRITE_STATUS, status] f)"

definition flash25_v_read :: "'c spi \<Rightarrow> u32 \<Rightarrow> nat \<Rightarrow> 'c flash \<Rightarrow> u8 list \<times> 'c flash" where
  "flash25_v_read spi address len f =
     (if len = 0 then ([], f)
      else receive spi (FLASH_CMD_READ # address_bytes address) len f)"

definition flash25_u8_read_byte :: "'c spi \<Rightarrow> u32 \<Rightarrow> 'c flash \<Rightarrow> u8 \<times> 'c flash" where
  "flash25_u8_read_byte spi address f = (let (r, f) = flash25_v_read spi address 1 f in (r ! 0, f))"

definition flash25_v_write_enable :: "'c spi \<Rightarrow> 'c flash \<Rightarrow> 'c flash" where
  "flash25_v_write_enable spi f = send spi [FLASH_CMD_WRITE_ENABLE] f"

definition flash25_v_write_disable :: "'c spi \<Rightarrow> 'c flash \<Rightarrow> 'c flash" where
  "flash25_v_write_disable spi f = send spi [FLASH_CMD_WRITE_DISABLE] f"

text \<open>
  The guard of block 0 that every writing operation opens with: \<^term>\<open>None\<close> where the operation
  returns at once.
\<close>

definition block0_guard :: "u32 \<Rightarrow> 'c flash \<Rightarrow> 'c flash option" where
  "block0_guard address f =
     (if unat address < FLASH_FS_ERASE_BLOCK_SIZE then
        if block0_unlock f \<noteq> BLOCK0_UNLOCK_CODE then None
        else Some (f\<lparr>block0_unlock := 0\<rparr>)
      else Some f)"

definition flash25_v_write_byte :: "'c spi \<Rightarrow> u32 \<Rightarrow> u8 \<Rightarrow> 'c flash \<Rightarrow> 'c flash" where
  "flash25_v_write_byte spi address byte f =
     (case block0_guard address f of
        None \<Rightarrow> f
      | Some f \<Rightarrow>
          (let f = flash25_v_write_enable spi f
           in send spi (FLASH_CMD_WRITE_BYTE # address_bytes address @ [byte]) f))"

text \<open>The words that follow the first one of an auto-increment write; what is left over of \<open>ptr\<close>.\<close>

fun aai_words :: "'c spi \<Rightarrow> u8 list \<Rightarrow> 'c flash \<Rightarrow> 'c flash" where
  "aai_words spi (b0 # b1 # ptr) f = aai_words spi ptr (send spi [FLASH_CMD_AAI_WRITE, b0, b1] f)"
| "aai_words spi _ f = f"

definition aai_write :: "'c spi \<Rightarrow> u32 \<Rightarrow> u8 list \<Rightarrow> 'c flash \<Rightarrow> 'c flash" where
  "aai_write spi address ptr f =
     (let f = flash25_v_write_enable spi f;
          f = send spi [FLASH_CMD_EBUSY] f;
          f = send spi (FLASH_CMD_AAI_WRITE # address_bytes address @ [ptr ! 0, ptr ! 1]) f;
          f = aai_words spi (drop 2 ptr) f;
          f = flash25_v_write_disable spi f
      in send spi [FLASH_CMD_DBUSY] f)"

text \<open>The write of a chip with pages of 256 bytes: no command crosses the end of a page.\<close>

function page_writes :: "'c spi \<Rightarrow> u32 \<Rightarrow> u8 list \<Rightarrow> 'c flash \<Rightarrow> 'c flash" where
  "page_writes spi address ptr f =
     (if ptr = [] then f
      else
        (let page_len = 256 - unat (address AND 0xff);
             page_len = (if page_len > length ptr then length ptr else page_len);
             f = flash25_v_write_enable spi f;
             f = send spi (FLASH_CMD_WRITE_BYTE # address_bytes address @ take page_len ptr) f
         in page_writes spi (address + of_nat page_len) (drop page_len ptr) f))"
  by pat_completeness auto

lemma low_byte_less: "unat (address AND 0xff) < 256" for address :: u32
proof -
  have "address AND 0xff \<le> 0xff" by (rule word_and_le1)
  then show ?thesis by (simp add: word_le_nat_alt)
qed

termination page_writes
proof (relation "measure (\<lambda>(spi, address, ptr, f). length ptr)")
  fix spi :: "'c spi" and address :: u32 and ptr :: "u8 list" and f :: "'c flash" and n m g h
  assume "ptr \<noteq> []" and "n = 256 - unat (address AND 0xff)" and "m = (if n > length ptr then length ptr else n)"
  then have "0 < m" "m \<le> length ptr" using low_byte_less [of address] by (auto split: if_splits)
  then show "((spi, address + of_nat m, drop m ptr, h), spi, address, ptr, f) \<in> measure (\<lambda>(spi, address, ptr, f). length ptr)"
    by (simp add: diff_less)
qed simp

declare page_writes.simps [simp del]

definition flash25_v_write :: "'c spi \<Rightarrow> u32 \<Rightarrow> u8 list \<Rightarrow> 'c flash \<Rightarrow> 'c flash" where
  "flash25_v_write spi address ptr f =
     (case block0_guard address f of
        None \<Rightarrow> f
      | Some f \<Rightarrow>
          if ptr = [] then f
          else if aai_write_enabled f then
            (let odd = address AND 1 \<noteq> 0;
                 f = (if odd then flash25_v_write_byte spi address (hd ptr) f else f);
                 address = (if odd then address + 1 else address);
                 ptr = (if odd then tl ptr else ptr);
                 f = (if length ptr > 1 then aai_write spi address ptr f else f);
                 words = length ptr div 2 * 2
             in if length ptr mod 2 = 1 then flash25_v_write_byte spi (address + of_nat words) (ptr ! words) f else f)
          else
            flash25_v_write_disable spi (page_writes spi address ptr f))"

definition flash25_v_erase_4k :: "'c spi \<Rightarrow> u32 \<Rightarrow> 'c flash \<Rightarrow> 'c flash" where
  "flash25_v_erase_4k spi address f =
     (case block0_guard address f of
        None \<Rightarrow> f
      | Some f \<Rightarrow> send spi (FLASH_CMD_ERASE_BLOCK_4K # address_bytes address) f)"

definition flash25_v_read_device_info :: "'c spi \<Rightarrow> 'c flash \<Rightarrow> (u8 \<times> u8 \<times> u8) \<times> 'c flash" where
  "flash25_v_read_device_info spi f =
     (let (r, f) = receive spi [FLASH_CMD_READ_ID] 3 f in ((r ! 0, r ! 1, r ! 2), f))"

definition flash25_u8_read_mfg_id :: "'c spi \<Rightarrow> 'c flash \<Rightarrow> u8 \<times> 'c flash" where
  "flash25_u8_read_mfg_id spi f =
     (let ((mfg_id, _, _), f) = flash25_v_read_device_info spi f in (mfg_id, f))"

definition capacity_of :: "u8 \<times> u8 \<times> u8 \<Rightarrow> u32" where
  "capacity_of info = (case info of (mfg_id, dev_id_1, dev_id_2) \<Rightarrow>
     if mfg_id = FLASH_MFG_SST then
       if dev_id_1 = 0x25 then
         if dev_id_2 = 0x8d then 524288
         else if dev_id_2 = 0x8e then 1048576
         else 0
       else 0
     else if mfg_id = FLASH_MFG_WINBOND then
       if dev_id_1 = 0x30 then
         if dev_id_2 = 0x13 then 524288 else 0
       else if dev_id_1 = 0x40 then
         if dev_id_2 = 0x14 then 1048576
         else if dev_id_2 = 0x15 then 2097152
         else 0
       else 0
     else if mfg_id = FLASH_MFG_CYPRESS then
       if dev_id_2 = 0x15 then 2097152 else 0
     else 0)"

definition flash25_u32_capacity :: "'c spi \<Rightarrow> 'c flash \<Rightarrow> u32 \<times> 'c flash" where
  "flash25_u32_capacity spi f = (let (info, f) = flash25_v_read_device_info spi f in (capacity_of info, f))"

definition flash25_v_init :: "'c spi \<Rightarrow> 'c flash \<Rightarrow> 'c flash" where
  "flash25_v_init spi f =
     (let f = flash25_v_write_disable spi f;
          ((mfg_id, _, _), f) = flash25_v_read_device_info spi f;
          f = (if mfg_id = FLASH_MFG_SST then f\<lparr>aai_write_enabled := True\<rparr> else f);
          f = (if aai_write_enabled f then send spi [FLASH_CMD_DBUSY] f else f);
          f = flash25_v_write_enable spi f;
          f = flash25_v_write_status spi 0x00 f
      in flash25_v_write_disable spi f)"

text \<open>The loop over the blocks \<open>i, i + 4096, \<dots>\<close> below the capacity; there are at most 512.\<close>

definition flash25_v_erase_chip :: "'c spi \<Rightarrow> 'c flash \<Rightarrow> 'c flash" where
  "flash25_v_erase_chip spi f =
     (let (array_size, f) = flash25_u32_capacity spi f
      in fold (\<lambda>i f. flash25_v_erase_4k spi (of_nat (i * FLASH_FS_ERASE_BLOCK_SIZE)) (flash25_v_write_enable spi f))
           [1..<(unat array_size + FLASH_FS_ERASE_BLOCK_SIZE - 1) div FLASH_FS_ERASE_BLOCK_SIZE] f)"

definition flash25_v_unlock_block0 :: "'c flash \<Rightarrow> 'c flash" where
  "flash25_v_unlock_block0 f = f\<lparr>block0_unlock := BLOCK0_UNLOCK_CODE\<rparr>"

end
