(* ===== verification/Flash_Chip.thy ===== *)
theory Flash_Chip
  imports Flash
begin

text \<open>
  What the data sheets of the chips promise, as locales over the bus: \<open>spi_chip\<close> the commands that
  all of them share, \<open>page_chip\<close> and \<open>aai_chip\<close> the two ways to write more than a byte.  From either of
  them the driver gets what the file system relies on, the locale \<open>flash_memory\<close>: reads answer the
  cells, writes change exactly the cells that are named, provided that they only clear bits.

  A chip that keeps both sets of laws is defined at the end.
\<close>

section \<open>Cells\<close>

definition written :: "(nat \<Rightarrow> u8) \<Rightarrow> nat \<Rightarrow> u8 list \<Rightarrow> nat \<Rightarrow> u8" where
  "written m a bs = (\<lambda>x. if a \<le> x \<and> x < a + length bs then bs ! (x - a) else m x)"

definition erased :: "(nat \<Rightarrow> u8) \<Rightarrow> nat \<Rightarrow> nat \<Rightarrow> u8" where
  "erased m a = (\<lambda>x. if a \<le> x \<and> x < a + FLASH_FS_ERASE_BLOCK_SIZE then 0xff else m x)"

text \<open>Programming a cell can only clear bits.\<close>

definition programmable :: "(nat \<Rightarrow> u8) \<Rightarrow> nat \<Rightarrow> u8 list \<Rightarrow> bool" where
  "programmable m a bs \<longleftrightarrow> (\<forall>i < length bs. bs ! i AND m (a + i) = bs ! i)"

lemma written_Nil [simp]: "written m a [] = m"
  by (rule ext) (auto simp: written_def)

lemma written_append: "written (written m a xs) (a + length xs) ys = written m a (xs @ ys)"
  by (rule ext) (auto simp: written_def nth_append)

lemma written_split: "k \<le> length bs \<Longrightarrow> written (written m a (take k bs)) (a + k) (drop k bs) = written m a bs"
  using written_append [of m a "take k bs" "drop k bs"] by simp

lemma programmable_take: "programmable m a bs \<Longrightarrow> programmable m a (take k bs)"
  by (simp add: programmable_def)

lemma programmable_drop:
  assumes "programmable m a bs" and "k \<le> length bs"
  shows "programmable (written m a (take k bs)) (a + k) (drop k bs)"
  using assms by (simp add: programmable_def written_def add.assoc)

lemma programmable_Cons:
  "programmable m a (b # bs) \<longleftrightarrow> b AND m a = b \<and> programmable m (a + 1) bs"
  by (auto simp: programmable_def less_Suc_eq_0_disj)

lemma programmable_blank: "(\<And>i. i < length bs \<Longrightarrow> m (a + i) = 0xff) \<Longrightarrow> programmable m a bs"
proof -
  have "b AND (0xff :: u8) = b" for b by (rule bit_word_eqI) (auto simp: bit_simps less_Suc_eq numeral_eq_Suc)
  then show "(\<And>i. i < length bs \<Longrightarrow> m (a + i) = 0xff) \<Longrightarrow> programmable m a bs" by (simp add: programmable_def)
qed

section \<open>Chips\<close>

locale spi_chip =
  fixes spi :: "'c spi" and cells :: "'c \<Rightarrow> nat \<Rightarrow> u8" and wel :: "'c \<Rightarrow> bool" and cap :: nat
  assumes small: "cap \<le> 2 ^ 24"
    and read_cells: "i < n \<Longrightarrow> unat a + n \<le> cap \<Longrightarrow> fst (spi (FLASH_CMD_READ # address_bytes a) n c) i = cells c (unat a + i)"
    and read_state: "snd (spi (FLASH_CMD_READ # address_bytes a) n c) = c"
    and enable: "wel (snd (spi [FLASH_CMD_WRITE_ENABLE] 0 c))" "cells (snd (spi [FLASH_CMD_WRITE_ENABLE] 0 c)) = cells c"
    and disable: "cells (snd (spi [FLASH_CMD_WRITE_DISABLE] 0 c)) = cells c"
    and program_byte: "wel c \<Longrightarrow> unat a < cap \<Longrightarrow> programmable (cells c) (unat a) [b] \<Longrightarrow>
      cells (snd (spi (FLASH_CMD_WRITE_BYTE # address_bytes a @ [b]) 0 c)) = written (cells c) (unat a) [b]"
    and erase_block: "wel c \<Longrightarrow> unat a mod FLASH_FS_ERASE_BLOCK_SIZE = 0 \<Longrightarrow> unat a + FLASH_FS_ERASE_BLOCK_SIZE \<le> cap \<Longrightarrow>
      cells (snd (spi (FLASH_CMD_ERASE_BLOCK_4K # address_bytes a) 0 c)) = erased (cells c) (unat a)"

locale page_chip = spi_chip +
  assumes program_page: "wel c \<Longrightarrow> bs \<noteq> [] \<Longrightarrow> unat a mod 256 + length bs \<le> 256 \<Longrightarrow> unat a + length bs \<le> cap \<Longrightarrow>
      programmable (cells c) (unat a) bs \<Longrightarrow>
      cells (snd (spi (FLASH_CMD_WRITE_BYTE # address_bytes a @ bs) 0 c)) = written (cells c) (unat a) bs"

locale aai_chip = spi_chip spi cells wel cap
  for spi :: "'c spi" and cells wel cap +
  fixes aai_at :: "'c \<Rightarrow> nat option"
  assumes busy_line: "cells (snd (spi [FLASH_CMD_EBUSY] 0 c)) = cells c" "wel (snd (spi [FLASH_CMD_EBUSY] 0 c)) = wel c"
      "cells (snd (spi [FLASH_CMD_DBUSY] 0 c)) = cells c"
    and aai_first: "wel c \<Longrightarrow> even (unat a) \<Longrightarrow> unat a + 2 \<le> cap \<Longrightarrow> programmable (cells c) (unat a) [b0, b1] \<Longrightarrow>
      cells (snd (spi (FLASH_CMD_AAI_WRITE # address_bytes a @ [b0, b1]) 0 c)) = written (cells c) (unat a) [b0, b1] \<and>
      aai_at (snd (spi (FLASH_CMD_AAI_WRITE # address_bytes a @ [b0, b1]) 0 c)) = Some (unat a + 2)"
    and aai_next: "aai_at c = Some x \<Longrightarrow> x + 2 \<le> cap \<Longrightarrow> programmable (cells c) x [b0, b1] \<Longrightarrow>
      cells (snd (spi [FLASH_CMD_AAI_WRITE, b0, b1] 0 c)) = written (cells c) x [b0, b1] \<and>
      aai_at (snd (spi [FLASH_CMD_AAI_WRITE, b0, b1] 0 c)) = Some (x + 2)"

section \<open>What the file system relies on\<close>

locale flash_memory =
  fixes spi :: "'c spi" and cells :: "'c \<Rightarrow> nat \<Rightarrow> u8" and ready :: "'c flash \<Rightarrow> bool" and cap :: nat
  assumes reads: "ready f \<Longrightarrow> unat a + n \<le> cap \<Longrightarrow>
      flash25_v_read spi a n f = (map (\<lambda>i. cells (fl_chip f) (unat a + i)) [0..<n], f)"
    and writes: "ready f \<Longrightarrow> FLASH_FS_ERASE_BLOCK_SIZE \<le> unat a \<Longrightarrow> unat a + length bs \<le> cap \<Longrightarrow>
      programmable (cells (fl_chip f)) (unat a) bs \<Longrightarrow>
      ready (flash25_v_write spi a bs f) \<and> cells (fl_chip (flash25_v_write spi a bs f)) = written (cells (fl_chip f)) (unat a) bs"
    and writes_byte: "ready f \<Longrightarrow> FLASH_FS_ERASE_BLOCK_SIZE \<le> unat a \<Longrightarrow> unat a < cap \<Longrightarrow>
      programmable (cells (fl_chip f)) (unat a) [b] \<Longrightarrow>
      ready (flash25_v_write_byte spi a b f) \<and> cells (fl_chip (flash25_v_write_byte spi a b f)) = written (cells (fl_chip f)) (unat a) [b]"
    and erases: "ready f \<Longrightarrow> FLASH_FS_ERASE_BLOCK_SIZE \<le> unat a \<Longrightarrow> unat a mod FLASH_FS_ERASE_BLOCK_SIZE = 0 \<Longrightarrow>
      unat a + FLASH_FS_ERASE_BLOCK_SIZE \<le> cap \<Longrightarrow>
      ready (flash25_v_erase_4k spi a (flash25_v_write_enable spi f)) \<and>
      cells (fl_chip (flash25_v_erase_4k spi a (flash25_v_write_enable spi f))) = erased (cells (fl_chip f)) (unat a)"
begin

lemma read_byte:
  assumes "ready f" and "unat a < cap"
  shows "flash25_u8_read_byte spi a f = (cells (fl_chip f) (unat a), f)"
  using reads [OF assms(1), of a 1] assms(2) by (simp add: flash25_u8_read_byte_def)

end

context spi_chip begin

lemma send_enable: "wel (fl_chip (flash25_v_write_enable spi f))" "cells (fl_chip (flash25_v_write_enable spi f)) = cells (fl_chip f)"
    "aai_write_enabled (flash25_v_write_enable spi f) = aai_write_enabled f"
  by (simp_all add: flash25_v_write_enable_def send_def enable)

lemma send_disable: "cells (fl_chip (flash25_v_write_disable spi f)) = cells (fl_chip f)"
    "aai_write_enabled (flash25_v_write_disable spi f) = aai_write_enabled f"
  by (simp_all add: flash25_v_write_disable_def send_def disable)

lemma driver_read:
  assumes "unat a + n \<le> cap"
  shows "flash25_v_read spi a n f = (map (\<lambda>i. cells (fl_chip f) (unat a + i)) [0..<n], f)"
proof (cases "n = 0")
  case False
  obtain r c where spi: "spi (FLASH_CMD_READ # address_bytes a) n (fl_chip f) = (r, c)" by force
  moreover have "r i = cells (fl_chip f) (unat a + i)" if "i < n" for i
    using read_cells [OF that assms, of "fl_chip f"] spi by simp
  moreover have "c = fl_chip f" using read_state [of a n "fl_chip f"] spi by simp
  ultimately show ?thesis using False by (simp add: flash25_v_read_def receive_def)
qed (simp add: flash25_v_read_def)

lemma guard_above [simp]: "FLASH_FS_ERASE_BLOCK_SIZE \<le> unat a \<Longrightarrow> block0_guard a f = Some f"
  by (simp add: block0_guard_def)

lemma driver_write_byte:
  assumes "FLASH_FS_ERASE_BLOCK_SIZE \<le> unat a" and "unat a < cap" and "programmable (cells (fl_chip f)) (unat a) [b]"
  shows "cells (fl_chip (flash25_v_write_byte spi a b f)) = written (cells (fl_chip f)) (unat a) [b]"
    and "aai_write_enabled (flash25_v_write_byte spi a b f) = aai_write_enabled f"
  using assms program_byte [OF send_enable(1) [of f], of a b] by (simp_all add: flash25_v_write_byte_def send_def send_enable)

lemma driver_erase:
  assumes "FLASH_FS_ERASE_BLOCK_SIZE \<le> unat a" and "unat a mod FLASH_FS_ERASE_BLOCK_SIZE = 0"
    and "unat a + FLASH_FS_ERASE_BLOCK_SIZE \<le> cap"
  shows "cells (fl_chip (flash25_v_erase_4k spi a (flash25_v_write_enable spi f))) = erased (cells (fl_chip f)) (unat a)"
    and "aai_write_enabled (flash25_v_erase_4k spi a (flash25_v_write_enable spi f)) = aai_write_enabled f"
  using assms erase_block [OF send_enable(1) [of f], of a] by (simp_all add: flash25_v_erase_4k_def send_def send_enable)

end

section \<open>Chips with pages\<close>

lemma low_byte: "unat (a AND 0xff) = unat a mod 256" for a :: u32
proof -
  have "(0xff :: u32) = mask 8" by (simp add: mask_eq_exp_minus_1)
  then have "a AND 0xff = take_bit 8 a" by (simp add: take_bit_eq_mask)
  then show ?thesis by (simp add: take_bit_eq_mod unat_mod_distrib)
qed

context page_chip begin

lemma page_writes_cells:
  assumes "unat a + length bs \<le> cap" and "programmable (cells (fl_chip f)) (unat a) bs"
  shows "cells (fl_chip (page_writes spi a bs f)) = written (cells (fl_chip f)) (unat a) bs
    \<and> aai_write_enabled (page_writes spi a bs f) = aai_write_enabled f"
  using assms
proof (induction bs arbitrary: a f rule: length_induct)
  case (1 bs)
  show ?case
  proof (cases "bs = []")
    case False
    define n where "n = (if 256 - unat (a AND 0xff) > length bs then length bs else 256 - unat (a AND 0xff))"
    let ?e = "flash25_v_write_enable spi f"
    let ?f = "send spi (FLASH_CMD_WRITE_BYTE # address_bytes a @ take n bs) ?e"
    have n: "0 < n" "n \<le> length bs" "unat a mod 256 + n \<le> 256"
      using False mod_less_divisor [of 256 "unat a"] by (auto simp: n_def low_byte simp del: mod_less_divisor)
    have step: "page_writes spi a bs f = page_writes spi (a + of_nat n) (drop n bs) ?f"
      using False by (subst page_writes.simps) (simp add: n_def Let_def)
    have "unat a + n \<le> cap" "unat a + n < 2 ^ 32" using 1(2) n(2) small by simp_all
    then have a: "unat (a + of_nat n) = unat a + n" "unat a + length (take n bs) \<le> cap"
      using n(2) by (auto simp: unat_word_ariths unsigned_of_nat take_bit_nat_eq_self min_def)
    have "cells (fl_chip ?f) = written (cells (fl_chip f)) (unat a) (take n bs)"
      using program_page [OF send_enable(1) [of f], of "take n bs" a] a n False programmable_take [OF 1(3), of n]
      by (simp add: send_def send_enable min_absorb2)
    moreover from this have "cells (fl_chip (page_writes spi (a + of_nat n) (drop n bs) ?f))
        = written (cells (fl_chip ?f)) (unat (a + of_nat n)) (drop n bs)
      \<and> aai_write_enabled (page_writes spi (a + of_nat n) (drop n bs) ?f) = aai_write_enabled ?f"
      using 1(1) [rule_format, of "drop n bs" "a + of_nat n" ?f] 1(2) n a programmable_drop [OF 1(3) n(2)] False by simp
    ultimately show ?thesis using a(1) n(2) by (simp add: step written_split send_def send_enable)
  qed (simp add: page_writes.simps)
qed

lemma page_memory: "flash_memory spi cells (\<lambda>f. \<not> aai_write_enabled f) cap"
proof
  fix f :: "'a flash" and a :: u32 and bs
  assume "\<not> aai_write_enabled f" "FLASH_FS_ERASE_BLOCK_SIZE \<le> unat a" "unat a + length bs \<le> cap"
    and "programmable (cells (fl_chip f)) (unat a) bs"
  then show "\<not> aai_write_enabled (flash25_v_write spi a bs f)
      \<and> cells (fl_chip (flash25_v_write spi a bs f)) = written (cells (fl_chip f)) (unat a) bs"
    by (simp add: flash25_v_write_def send_disable page_writes_cells)
qed (simp_all add: driver_read driver_write_byte driver_erase)

end

sublocale page_chip \<subseteq> memory: flash_memory spi cells "\<lambda>f. \<not> aai_write_enabled f" cap
  by (rule page_memory)

section \<open>Chips with auto-increment\<close>

text \<open>What a write does from an even address on.\<close>

definition aai_tail :: "'c spi \<Rightarrow> u32 \<Rightarrow> u8 list \<Rightarrow> 'c flash \<Rightarrow> 'c flash" where
  "aai_tail spi a bs f =
     (let f' = (if length bs > 1 then aai_write spi a bs f else f); n = length bs div 2 * 2
      in if length bs mod 2 = 1 then flash25_v_write_byte spi (a + of_nat n) (bs ! n) f' else f')"

lemma flash25_v_write_aai:
  assumes "FLASH_FS_ERASE_BLOCK_SIZE \<le> unat a" and "aai_write_enabled f" and "bs \<noteq> []"
  shows "flash25_v_write spi a bs f =
    (if a AND 1 \<noteq> 0 then aai_tail spi (a + 1) (tl bs) (flash25_v_write_byte spi a (hd bs) f) else aai_tail spi a bs f)"
proof -
  have "block0_guard a f = Some f" using assms(1) by (simp add: block0_guard_def)
  then show ?thesis using assms(2,3) by (cases "a AND 1 \<noteq> 0") (simp_all only: flash25_v_write_def aai_tail_def Let_def option.case if_True if_False not_False_eq_True not_True_eq_False)
qed

context aai_chip begin

lemma aai_words_cells:
  assumes "aai_at (fl_chip f) = Some x" and "x + length bs \<le> cap" and "programmable (cells (fl_chip f)) x bs"
  shows "cells (fl_chip (aai_words spi bs f)) = written (cells (fl_chip f)) x (take (length bs div 2 * 2) bs)
    \<and> aai_write_enabled (aai_words spi bs f) = aai_write_enabled f"
  using assms
proof (induction bs arbitrary: x f rule: induct_list012)
  case (3 b0 b1 bs)
  let ?f = "send spi [FLASH_CMD_AAI_WRITE, b0, b1] f"
  have "programmable (cells (fl_chip f)) x [b0, b1]"
    using programmable_take [OF 3(5), of 2] by simp
  with 3(3,4) have f: "cells (fl_chip ?f) = written (cells (fl_chip f)) x [b0, b1]" "aai_at (fl_chip ?f) = Some (x + 2)"
    using aai_next [of "fl_chip f" x b0 b1] by (simp_all add: send_def)
  have "programmable (cells (fl_chip ?f)) (x + 2) bs"
    using programmable_drop [OF 3(5), of 2] by (simp add: f)
  with 3(1) [OF f(2)] 3(4) have "cells (fl_chip (aai_words spi bs ?f))
      = written (cells (fl_chip ?f)) (x + 2) (take (length bs div 2 * 2) bs)
    \<and> aai_write_enabled (aai_words spi bs ?f) = aai_write_enabled ?f" by simp
  moreover have "written (cells (fl_chip ?f)) (x + 2) (take (length bs div 2 * 2) bs)
      = written (cells (fl_chip f)) x (take (length (b0 # b1 # bs) div 2 * 2) (b0 # b1 # bs))"
    using written_append [of "cells (fl_chip f)" x "[b0, b1]" "take (length bs div 2 * 2) bs"] by (simp add: f)
  ultimately show ?case by (simp add: send_def)
qed simp_all

text \<open>The three parts of a write: a byte at an odd address, the words, a byte that is left over.\<close>

lemma aai_write_cells:
  assumes "even (unat a)" and "2 \<le> length bs" and "unat a + length bs \<le> cap" and "programmable (cells (fl_chip f)) (unat a) bs"
  shows "cells (fl_chip (aai_write spi a bs f)) = written (cells (fl_chip f)) (unat a) (take (length bs div 2 * 2) bs)
    \<and> aai_write_enabled (aai_write spi a bs f) = aai_write_enabled f"
proof -
  obtain b0 b1 rest where bs: "bs = b0 # b1 # rest" using assms(2) by (auto simp: numeral_2_eq_2 Suc_le_length_iff)
  let ?e = "send spi [FLASH_CMD_EBUSY] (flash25_v_write_enable spi f)"
  let ?f = "send spi (FLASH_CMD_AAI_WRITE # address_bytes a @ [b0, b1]) ?e"
  have e: "wel (fl_chip ?e)" "cells (fl_chip ?e) = cells (fl_chip f)"
    by (simp_all add: send_def busy_line send_enable [unfolded send_def])
  have two: "programmable (cells (fl_chip f)) (unat a) [b0, b1]"
    using programmable_take [OF assms(4), of 2] by (simp add: bs)
  have f: "cells (fl_chip ?f) = written (cells (fl_chip f)) (unat a) [b0, b1]" "aai_at (fl_chip ?f) = Some (unat a + 2)"
    using aai_first [OF e(1) assms(1), of b0 b1] assms(3) two by (simp_all add: send_def [of _ _ ?e] e bs)
  have "programmable (cells (fl_chip ?f)) (unat a + 2) rest"
    using programmable_drop [OF assms(4), of 2] by (simp add: f bs)
  from aai_words_cells [OF f(2) _ this] have "cells (fl_chip (aai_words spi rest ?f))
      = written (cells (fl_chip ?f)) (unat a + 2) (take (length rest div 2 * 2) rest)
    \<and> aai_write_enabled (aai_words spi rest ?f) = aai_write_enabled ?f" using assms(3) by (simp add: bs)
  moreover have "written (cells (fl_chip ?f)) (unat a + 2) (take (length rest div 2 * 2) rest)
      = written (cells (fl_chip f)) (unat a) (take (length bs div 2 * 2) bs)"
    using written_append [of "cells (fl_chip f)" "unat a" "[b0, b1]" "take (length rest div 2 * 2) rest"] by (simp add: f bs)
  moreover have "aai_write spi a bs f = send spi [FLASH_CMD_DBUSY] (flash25_v_write_disable spi (aai_words spi rest ?f))"
    by (simp add: aai_write_def bs)
  moreover have "aai_write_enabled ?f = aai_write_enabled f" by (simp add: send_def send_enable)
  ultimately show ?thesis by (simp add: send_def [of _ "[FLASH_CMD_DBUSY]"] busy_line send_disable)
qed

lemma aai_tail_cells:
  assumes "even (unat a)" and "4096 \<le> unat a" and "unat a + length bs \<le> cap" and "programmable (cells (fl_chip f)) (unat a) bs"
  shows "cells (fl_chip (aai_tail spi a bs f)) = written (cells (fl_chip f)) (unat a) bs
    \<and> aai_write_enabled (aai_tail spi a bs f) = aai_write_enabled f"
proof -
  define n where "n = length bs div 2 * 2"
  define f' where "f' = (if length bs > 1 then aai_write spi a bs f else f)"
  have tail: "aai_tail spi a bs f = (if length bs mod 2 = 1 then flash25_v_write_byte spi (a + of_nat n) (bs ! n) f' else f')"
    by (simp only: aai_tail_def Let_def n_def f'_def)
  have f': "cells (fl_chip f') = written (cells (fl_chip f)) (unat a) (take n bs) \<and> aai_write_enabled f' = aai_write_enabled f"
  proof (cases "length bs > 1")
    case True
    then show ?thesis using aai_write_cells [OF assms(1) _ assms(3,4)] by (simp add: f'_def n_def)
  next
    case False
    then have "n = 0" by (simp add: n_def)
    with False show ?thesis by (simp add: f'_def)
  qed
  show ?thesis
  proof (cases "length bs mod 2 = 1")
    case True
    then have "Suc n = length bs" unfolding n_def by presburger
    then have n: "n < length bs" "drop n bs = [bs ! n]" using Cons_nth_drop_Suc [of n bs] by auto
    have a: "unat (a + of_nat n) = unat a + n"
      using n(1) assms(3) small by (simp add: unat_word_ariths unsigned_of_nat take_bit_nat_eq_self)
    have "programmable (cells (fl_chip f')) (unat a + n) [bs ! n]"
      using programmable_drop [OF assms(4), of n] n by (simp add: f')
    then have "cells (fl_chip (flash25_v_write_byte spi (a + of_nat n) (bs ! n) f')) = written (cells (fl_chip f)) (unat a) bs"
      using driver_write_byte(1) [of "a + of_nat n" f' "bs ! n"] assms(2,3) n written_split [of n bs "cells (fl_chip f)" "unat a"]
      by (simp add: a f')
    moreover have "aai_write_enabled (flash25_v_write_byte spi (a + of_nat n) (bs ! n) f') = aai_write_enabled f"
      using driver_write_byte(2) [of "a + of_nat n" f' "bs ! n"] assms(2,3) n \<open>programmable _ (unat a + n) _\<close> by (simp add: a f')
    ultimately show ?thesis using True by (simp add: tail)
  next
    case False
    then have "n = length bs" by (simp add: n_def) presburger
    with f' False show ?thesis by (simp add: tail)
  qed
qed

lemma odd_address: "a AND 1 \<noteq> 0 \<longleftrightarrow> odd (unat a)" for a :: u32
proof -
  have "unat (a AND 1) = unat a mod 2" by (simp add: and_one_eq unat_mod_distrib)
  then show ?thesis by (metis odd_iff_mod_2_eq_one parity_cases unat_eq_zero zero_neq_one)
qed

lemma aai_memory: "flash_memory spi cells aai_write_enabled cap"
proof
  fix f :: "'c flash" and a :: u32 and bs
  assume f: "aai_write_enabled f" and a: "FLASH_FS_ERASE_BLOCK_SIZE \<le> unat a" "unat a + length bs \<le> cap"
    and p: "programmable (cells (fl_chip f)) (unat a) bs"
  show "aai_write_enabled (flash25_v_write spi a bs f)
      \<and> cells (fl_chip (flash25_v_write spi a bs f)) = written (cells (fl_chip f)) (unat a) bs"
  proof (cases bs)
    case (Cons b rest)
    show ?thesis
    proof (cases "odd (unat a)")
      case False
      then show ?thesis using aai_tail_cells [OF _ a p] f a(1) Cons
        by (simp add: flash25_v_write_aai odd_address)
    next
      case True
      let ?f = "flash25_v_write_byte spi a b f"
      have "unat a < cap" using a(2) Cons by simp
      moreover have "programmable (cells (fl_chip f)) (unat a) [b]" using programmable_take [OF p, of 1] Cons by simp
      ultimately have b: "cells (fl_chip ?f) = written (cells (fl_chip f)) (unat a) [b]" "aai_write_enabled ?f"
        using driver_write_byte [of a f b] a(1) f by simp_all
      have a1: "unat (a + 1) = unat a + 1" using \<open>unat a < cap\<close> small by (simp add: unat_word_ariths)
      have "programmable (cells (fl_chip ?f)) (unat (a + 1)) rest"
        using programmable_drop [OF p, of 1] Cons by (simp add: b a1)
      then show ?thesis
        using aai_tail_cells [of "a + 1" rest ?f] True f a a1 b Cons written_append [of "cells (fl_chip f)" "unat a" "[b]" rest]
        by (simp add: flash25_v_write_aai odd_address)
    qed
  qed (use f a in \<open>simp add: flash25_v_write_def\<close>)
qed (simp_all add: driver_read driver_write_byte driver_erase)

end

sublocale aai_chip \<subseteq> memory: flash_memory spi cells aai_write_enabled cap
  by (rule aai_memory)

section \<open>A chip that keeps the laws\<close>

text \<open>
  A chip of 2 MB: the array, the write enable latch, the address of an auto-increment write.  A page
  program wraps around at the end of its page, a program or erase without the latch is ignored and
  every other one resets it; \<open>dev\<close> is what it answers to \<open>FLASH_CMD_READ_ID\<close>.
\<close>

record nor_chip =
  nor_array :: "nat \<Rightarrow> u8"
  nor_latch :: bool
  nor_aai :: "nat option"

definition address_of :: "u8 list \<Rightarrow> nat" where
  "address_of bs = (unat (bs ! 0) * 65536 + unat (bs ! 1) * 256 + unat (bs ! 2))"

fun program_from :: "nat \<Rightarrow> nat \<Rightarrow> u8 list \<Rightarrow> (nat \<Rightarrow> u8) \<Rightarrow> nat \<Rightarrow> u8" where
  "program_from base off [] m = m"
| "program_from base off (b # bs) m =
     program_from base ((off + 1) mod 256) bs (m(base + off := m (base + off) AND b))"

definition page_program :: "nat \<Rightarrow> u8 list \<Rightarrow> (nat \<Rightarrow> u8) \<Rightarrow> nat \<Rightarrow> u8" where
  "page_program a bs m = program_from (a div 256 * 256) (a mod 256) bs m"

definition nor_writes :: "u8 list \<Rightarrow> nor_chip \<Rightarrow> nor_chip" where
  "nor_writes out c =
     (let cmd = hd out; args = tl out in
      if cmd = FLASH_CMD_WRITE_ENABLE then c\<lparr>nor_latch := True\<rparr>
      else if cmd = FLASH_CMD_WRITE_DISABLE then c\<lparr>nor_latch := False, nor_aai := None\<rparr>
      else if cmd = FLASH_CMD_WRITE_BYTE \<and> nor_latch c then
        c\<lparr>nor_array := page_program (address_of args) (drop 3 args) (nor_array c), nor_latch := False\<rparr>
      else if cmd = FLASH_CMD_ERASE_BLOCK_4K \<and> nor_latch c then
        c\<lparr>nor_array := erased (nor_array c) (address_of args div 4096 * 4096), nor_latch := False\<rparr>
      else if cmd = FLASH_CMD_AAI_WRITE then
        (if length args = 2 then
           (case nor_aai c of
              None \<Rightarrow> c
            | Some x \<Rightarrow> c\<lparr>nor_array := program_from x 0 args (nor_array c), nor_aai := Some (x + 2)\<rparr>)
         else if nor_latch c then
           c\<lparr>nor_array := program_from (address_of args) 0 (drop 3 args) (nor_array c), nor_aai := Some (address_of args + 2)\<rparr>
         else c)
      else c)"

definition nor_spi :: "u8 list \<Rightarrow> nor_chip spi" where
  "nor_spi dev out n c =
     (if out = [] then (\<lambda>_. 0xff, c)
      else if hd out = FLASH_CMD_READ then (\<lambda>i. nor_array c (address_of (tl out) + i), c)
      else if hd out = FLASH_CMD_READ_ID then (\<lambda>i. dev ! i, c)
      else (\<lambda>_. 0, nor_writes out c))"

lemma address_of_bytes:
  assumes "unat a < 2 ^ 24"
  shows "address_of (address_bytes a @ bs) = unat a"
proof -
  have byte: "unat (ucast (drop_bit k a) :: u8) = unat a div 2 ^ k mod 256" for k
    by (simp add: unsigned_ucast_eq unsigned_drop_bit_eq) (simp add: take_bit_eq_mod drop_bit_eq_div mod_less [OF unat32_less])
  have "unat a div 65536 < 256" using assms by (simp add: less_mult_imp_div_less)
  moreover have "unat a div 256 div 256 = unat a div 65536" by (simp add: div_mult2_eq [symmetric])
  ultimately have "unat a = unat a div 65536 mod 256 * 65536 + unat a div 256 mod 256 * 256 + unat a mod 256"
    using div_mult_mod_eq [of "unat a" 256] div_mult_mod_eq [of "unat a div 256" 256] by (simp only: mod_less)
  moreover have "address_of (address_bytes a @ bs) = unat a div 65536 mod 256 * 65536 + unat a div 256 mod 256 * 256 + unat a mod 256"
    using byte [of 16] byte [of 8] byte [of 0] by (simp add: address_of_def address_bytes_def)
  ultimately show ?thesis by (simp only:)
qed

lemma program_from_written:
  assumes "off + length bs \<le> 256" and "programmable m (base + off) bs"
  shows "program_from base off bs m = written m (base + off) bs"
  using assms
proof (induction bs arbitrary: off m)
  case (Cons b bs)
  have b: "m (base + off) AND b = b" using Cons.prems(2) by (simp add: programmable_Cons and.commute)
  have w: "m(base + off := b) = written m (base + off) [b]" by (rule ext) (auto simp: written_def)
  show ?case
  proof (cases "bs = []")
    case True
    then show ?thesis by (simp add: b w)
  next
    case False
    then have "(off + 1) mod 256 = off + 1" using Cons.prems(1) by (cases bs) auto
    moreover have "programmable (written m (base + off) [b]) (base + (off + 1)) bs"
      using programmable_drop [OF Cons.prems(2), of 1] by simp
    ultimately show ?thesis
      using Cons.IH [of "off + 1" "written m (base + off) [b]"] Cons.prems(1) written_append [of m "base + off" "[b]" bs]
      by (simp add: b w)
  qed
qed simp

lemma address_of_alone: "unat a < 2 ^ 24 \<Longrightarrow> address_of (address_bytes a) = unat a"
  using address_of_bytes [of a "[]"] by simp

lemma drop_address [simp]: "drop 3 (address_bytes a @ bs) = bs" "length (address_bytes a) = 3"
  by (simp_all add: address_bytes_def)

lemma page_program_written:
  assumes "a mod 256 + length bs \<le> 256" and "programmable m a bs"
  shows "page_program a bs m = written m a bs"
proof -
  have "a div 256 * 256 + a mod 256 = a" by simp
  then show ?thesis using program_from_written [OF assms(1), of m "a div 256 * 256"] assms(2) by (simp add: page_program_def)
qed

lemma nor_common: "spi_chip (nor_spi dev) nor_array nor_latch (2 ^ 21)"
proof
  show "i < n \<Longrightarrow> unat a + n \<le> 2 ^ 21 \<Longrightarrow> fst (nor_spi dev (FLASH_CMD_READ # address_bytes a) n c) i = nor_array c (unat a + i)"
    for i n a c by (simp add: nor_spi_def address_of_alone)
  show "nor_latch c \<Longrightarrow> unat a < 2 ^ 21 \<Longrightarrow> programmable (nor_array c) (unat a) [b] \<Longrightarrow>
      nor_array (snd (nor_spi dev (FLASH_CMD_WRITE_BYTE # address_bytes a @ [b]) 0 c)) = written (nor_array c) (unat a) [b]"
    for c and a :: u32 and b
    using mod_less_divisor [of 256 "unat a"]
    by (simp add: nor_spi_def nor_writes_def Let_def address_of_bytes page_program_written del: mod_less_divisor)
  show "nor_latch c \<Longrightarrow> unat a mod FLASH_FS_ERASE_BLOCK_SIZE = 0 \<Longrightarrow> unat a + FLASH_FS_ERASE_BLOCK_SIZE \<le> 2 ^ 21 \<Longrightarrow>
      nor_array (snd (nor_spi dev (FLASH_CMD_ERASE_BLOCK_4K # address_bytes a) 0 c)) = erased (nor_array c) (unat a)"
    for c and a :: u32
    by (auto simp: nor_spi_def nor_writes_def Let_def address_of_alone elim: dvdE)
qed (simp_all add: nor_spi_def nor_writes_def Let_def)

interpretation paged: page_chip "nor_spi [0x01, 0x40, 0x15]" nor_array nor_latch "2 ^ 21"
proof (intro page_chip.intro nor_common, unfold_locales)
  show "nor_latch c \<Longrightarrow> bs \<noteq> [] \<Longrightarrow> unat a mod 256 + length bs \<le> 256 \<Longrightarrow> unat a + length bs \<le> 2 ^ 21 \<Longrightarrow>
      programmable (nor_array c) (unat a) bs \<Longrightarrow>
      nor_array (snd (nor_spi [0x01, 0x40, 0x15] (FLASH_CMD_WRITE_BYTE # address_bytes a @ bs) 0 c)) = written (nor_array c) (unat a) bs"
    for c bs and a :: u32
    by (cases bs) (simp_all add: nor_spi_def nor_writes_def Let_def address_of_bytes page_program_written)
qed

interpretation incremented: aai_chip "nor_spi [0xbf, 0x25, 0x8e]" nor_array nor_latch "2 ^ 21" nor_aai
proof (intro aai_chip.intro nor_common, unfold_locales)
  show "nor_latch c \<Longrightarrow> even (unat a) \<Longrightarrow> unat a + 2 \<le> 2 ^ 21 \<Longrightarrow> programmable (nor_array c) (unat a) [b0, b1] \<Longrightarrow>
      nor_array (snd (nor_spi [0xbf, 0x25, 0x8e] (FLASH_CMD_AAI_WRITE # address_bytes a @ [b0, b1]) 0 c)) = written (nor_array c) (unat a) [b0, b1] \<and>
      nor_aai (snd (nor_spi [0xbf, 0x25, 0x8e] (FLASH_CMD_AAI_WRITE # address_bytes a @ [b0, b1]) 0 c)) = Some (unat a + 2)"
    for c b0 b1 and a :: u32
    using program_from_written [of 0 "[b0, b1]" "nor_array c" "unat a"]
    by (simp add: nor_spi_def nor_writes_def Let_def address_of_bytes del: program_from.simps)
  show "nor_aai c = Some x \<Longrightarrow> x + 2 \<le> 2 ^ 21 \<Longrightarrow> programmable (nor_array c) x [b0, b1] \<Longrightarrow>
      nor_array (snd (nor_spi [0xbf, 0x25, 0x8e] [FLASH_CMD_AAI_WRITE, b0, b1] 0 c)) = written (nor_array c) x [b0, b1] \<and>
      nor_aai (snd (nor_spi [0xbf, 0x25, 0x8e] [FLASH_CMD_AAI_WRITE, b0, b1] 0 c)) = Some (x + 2)"
    for c x b0 b1
    using program_from_written [of 0 "[b0, b1]" "nor_array c" x]
    by (simp add: nor_spi_def nor_writes_def Let_def del: program_from.simps)
qed (simp_all add: nor_spi_def nor_writes_def Let_def)

section \<open>Writes of the driver\<close>

text \<open>
  C16 On a chip that keeps its data sheet - one with pages of 256 bytes, whose page program wraps around at the
  end of the page, or one with auto-increment writes of words at even addresses -, a write of any length
  at any address above block 0 stores exactly the given bytes, and no other cell changes, provided that
  it only clears bits.
\<close>

theorem flash25_v_write_cells:
  assumes "page_chip spi cells wel cap \<and> \<not> aai_write_enabled f \<or> aai_chip spi cells wel cap aai_at \<and> aai_write_enabled f"
    and "FLASH_FS_ERASE_BLOCK_SIZE \<le> unat a" and "unat a + length bs \<le> cap" and "programmable (cells (fl_chip f)) (unat a) bs"
  shows "cells (fl_chip (flash25_v_write spi a bs f)) = written (cells (fl_chip f)) (unat a) bs"
  using assms(1)
proof
  assume c: "page_chip spi cells wel cap \<and> \<not> aai_write_enabled f"
  then have "flash_memory spi cells (\<lambda>f. \<not> aai_write_enabled f) cap" using page_chip.page_memory by blast
  then show ?thesis using flash_memory.writes [where f = f and a = a and bs = bs] c assms(2-4) by blast
next
  assume c: "aai_chip spi cells wel cap aai_at \<and> aai_write_enabled f"
  then have "flash_memory spi cells aai_write_enabled cap" using aai_chip.aai_memory by blast
  then show ?thesis using flash_memory.writes [where f = f and a = a and bs = bs] c assms(2-4) by blast
qed

definition blank_nor :: "nor_chip flash" where
  "blank_nor = \<lparr>fl_chip = \<lparr>nor_array = (\<lambda>_. 0xff), nor_latch = False, nor_aai = None\<rparr>, aai_write_enabled = False, block0_unlock = 0\<rparr>"

lemma flash25_v_write_cells_witness:
  "nor_array (fl_chip (flash25_v_write (nor_spi [0x01, 0x40, 0x15]) 0x10fd [1, 2, 3, 4, 5, 6] blank_nor))
    = written (\<lambda>_. 0xff) 0x10fd [1, 2, 3, 4, 5, 6]"
  using flash25_v_write_cells [where spi = "nor_spi [0x01, 0x40, 0x15]" and cells = nor_array and wel = nor_latch and cap = "2 ^ 21" and f = blank_nor
      and aai_at = nor_aai and a = "0x10fd" and bs = "[1, 2, 3, 4, 5, 6]"]
    paged.page_chip_axioms programmable_blank [of "[1, 2, 3, 4, 5, 6]" "\<lambda>_. 0xff" "0x10fd"] by (simp add: blank_nor_def)

end
