(* ===== verification/Ffs_Block.thy ===== *)
theory Ffs_Block
  imports Flash Crc
begin

text \<open>
  The blocks of the flash file system, \<open>src/src/sapphireos/ffs_block.c\<close>, on the xmega128a4u: the
  lists of free, dirty and file blocks, the two copies of every block header, the index of pages and
  its cache.  \<^term>\<open>None\<close> is a failed assertion (the build has \<open>INCLUDE_ASSERTS\<close>, so the system
  restarts), an access outside an array, or a walk over a list that never ends.
\<close>

section \<open>Constants and types\<close>

text \<open>\<open>FLASH_FS_MAX_USER_FILES\<close> is 24 for this target, the firmware partitions have 128, 128 and 384 KB.\<close>

abbreviation (input) FFS_IO_ATTEMPTS :: nat where "FFS_IO_ATTEMPTS \<equiv> 3"
abbreviation (input) FFS_MAX_FILES :: nat where "FFS_MAX_FILES \<equiv> 23"
abbreviation (input) FFS_PAGE_DATA_SIZE :: nat where "FFS_PAGE_DATA_SIZE \<equiv> 64"
abbreviation (input) FFS_DATA_PAGES_PER_BLOCK :: nat where "FFS_DATA_PAGES_PER_BLOCK \<equiv> 51"
abbreviation (input) FFS_PAGES_PER_BLOCK :: nat where "FFS_PAGES_PER_BLOCK \<equiv> 59"
abbreviation (input) FFS_BLOCK_MAX_BLOCKS :: u8 where "FFS_BLOCK_MAX_BLOCKS \<equiv> 254"
abbreviation (input) FFS_BLOCK_INVALID :: u8 where "FFS_BLOCK_INVALID \<equiv> 0xff"
abbreviation (input) FFS_FLAG_DIRTY :: u8 where "FFS_FLAG_DIRTY \<equiv> 0x80"
abbreviation (input) FFS_FLAG_VALID :: u8 where "FFS_FLAG_VALID \<equiv> 0x40"
abbreviation (input) FFS_FLAGS_INVALID :: u8 where "FFS_FLAGS_INVALID \<equiv> 0"
abbreviation (input) FFS_FLAGS_FREE :: u8 where "FFS_FLAGS_FREE \<equiv> 0xff"
abbreviation (input) FFS_STATUS_OK :: i8 where "FFS_STATUS_OK \<equiv> 0"
abbreviation (input) FFS_STATUS_NO_FREE_SPACE :: i8 where "FFS_STATUS_NO_FREE_SPACE \<equiv> - 2"
abbreviation (input) FFS_STATUS_NO_FREE_FILES :: i8 where "FFS_STATUS_NO_FREE_FILES \<equiv> - 3"
abbreviation (input) FFS_STATUS_INVALID_FILE :: i8 where "FFS_STATUS_INVALID_FILE \<equiv> - 4"
abbreviation (input) FFS_STATUS_EOF :: i8 where "FFS_STATUS_EOF \<equiv> - 5"
abbreviation (input) FFS_STATUS_ERROR :: i8 where "FFS_STATUS_ERROR \<equiv> - 6"

text \<open>Sizes of the structures, which the processor does not pad.\<close>

abbreviation (input) META_SIZE :: nat where "META_SIZE \<equiv> 8"
abbreviation (input) HEADER_SIZE :: nat where "HEADER_SIZE \<equiv> 67"

record ffs_block_meta =
  meta_file_id :: u8
  meta_flags :: u8
  meta_block :: u8
  meta_sequence :: u8
  meta_reserved :: "u8 list"

definition meta_bytes :: "ffs_block_meta \<Rightarrow> u8 list" where
  "meta_bytes meta = [meta_file_id meta, meta_flags meta, meta_block meta, meta_sequence meta] @ meta_reserved meta"

definition meta_of :: "u8 list \<Rightarrow> ffs_block_meta" where
  "meta_of bs = \<lparr>meta_file_id = bs ! 0, meta_flags = bs ! 1, meta_block = bs ! 2, meta_sequence = bs ! 3,
                  meta_reserved = drop 4 bs\<rparr>"

record ffs_index_info =
  data_pages :: u8
  free_pages :: u8
  phy_last_page :: i8
  logical_last_page :: i8
  phy_next_free :: i8

text \<open>
  The statics of \<open>ffs_block.c\<close> and \<open>ffs_page.c\<close> together, as the lists of both are threaded through
  the one array \<open>blocks\<close>.  \<open>ffs_warning\<close> is \<open>SYS_WARN_FLASHFS_HARD_ERROR\<close>.
\<close>

record 'c ffs =
  flash :: "'c flash"
  index_cache_block :: u8
  index_cache_index :: "u8 list"
  total_blocks :: u8
  free_blocks :: u8
  dirty_blocks :: u8
  free_list :: u8
  dirty_list :: u8
  next_block :: "u8 list"
  soft_io_errors :: u8
  hard_io_errors :: u8
  block_allocs :: u32
  ffs_warning :: bool
  file_start :: "u8 list"
  file_size :: "i32 list"
  page_len :: u8
  page_data :: "u8 list"
  page_crc :: u16
  cache_page_number :: u16
  cache_file_id :: i8
  cache_page_addr :: u32
  block_copies :: u32
  page_allocs :: u32
  page_cache_hits :: u32
  page_cache_misses :: u32

text \<open>The argument \<open>block_t *head\<close> of the list operations points at one of these.\<close>

datatype block_list = Free_list | Dirty_list | File_list nat

fun head_of :: "block_list \<Rightarrow> 'c ffs \<Rightarrow> u8 option" where
  "head_of Free_list s = Some (free_list s)"
| "head_of Dirty_list s = Some (dirty_list s)"
| "head_of (File_list i) s = rd (file_start s) i"

fun set_head :: "block_list \<Rightarrow> u8 \<Rightarrow> 'c ffs \<Rightarrow> 'c ffs" where
  "set_head Free_list b s = s\<lparr>free_list := b\<rparr>"
| "set_head Dirty_list b s = s\<lparr>dirty_list := b\<rparr>"
| "set_head (File_list i) b s = s\<lparr>file_start := (file_start s)[i := b]\<rparr>"

definition set_next :: "u8 \<Rightarrow> u8 \<Rightarrow> 'c ffs \<Rightarrow> 'c ffs option" where
  "set_next block nx s = do {
     ns \<leftarrow> wr (next_block s) (unat block) nx;
     Some (s\<lparr>next_block := ns\<rparr>) }"

definition next_of :: "u8 \<Rightarrow> 'c ffs \<Rightarrow> u8 option" where
  "next_of block s = rd (next_block s) (unat block)"

section \<open>Addresses\<close>

definition FFS_BLOCK_ADDRESS :: "u8 \<Rightarrow> u32" where
  "FFS_BLOCK_ADDRESS block_num = ucast block_num * 4096 + 659456"

definition FFS_META_0 :: "u8 \<Rightarrow> u32" where
  "FFS_META_0 block = FFS_BLOCK_ADDRESS block"

definition FFS_META_1 :: "u8 \<Rightarrow> u32" where
  "FFS_META_1 block = FFS_META_0 block + 67"

definition FFS_INDEX_0 :: "u8 \<Rightarrow> u32" where
  "FFS_INDEX_0 block = FFS_META_0 block + 8"

definition FFS_INDEX_1 :: "u8 \<Rightarrow> u32" where
  "FFS_INDEX_1 block = FFS_INDEX_0 block + 67"

section \<open>The driver of the chip on the state of the file system\<close>

definition fs_read :: "'c spi \<Rightarrow> u32 \<Rightarrow> nat \<Rightarrow> 'c ffs \<Rightarrow> u8 list \<times> 'c ffs" where
  "fs_read spi address len s =
     (let (r, f) = flash25_v_read spi address len (flash s) in (r, s\<lparr>flash := f\<rparr>))"

definition fs_read_byte :: "'c spi \<Rightarrow> u32 \<Rightarrow> 'c ffs \<Rightarrow> u8 \<times> 'c ffs" where
  "fs_read_byte spi address s =
     (let (r, f) = flash25_u8_read_byte spi address (flash s) in (r, s\<lparr>flash := f\<rparr>))"

definition fs_write :: "'c spi \<Rightarrow> u32 \<Rightarrow> u8 list \<Rightarrow> 'c ffs \<Rightarrow> 'c ffs" where
  "fs_write spi address bs s = s\<lparr>flash := flash25_v_write spi address bs (flash s)\<rparr>"

definition fs_write_byte :: "'c spi \<Rightarrow> u32 \<Rightarrow> u8 \<Rightarrow> 'c ffs \<Rightarrow> 'c ffs" where
  "fs_write_byte spi address b s = s\<lparr>flash := flash25_v_write_byte spi address b (flash s)\<rparr>"

definition ffs_block_v_soft_error :: "'c ffs \<Rightarrow> 'c ffs" where
  "ffs_block_v_soft_error s = s\<lparr>soft_io_errors := soft_io_errors s + 1\<rparr>"

definition ffs_block_v_hard_error :: "'c ffs \<Rightarrow> 'c ffs" where
  "ffs_block_v_hard_error s = s\<lparr>hard_io_errors := hard_io_errors s + 1, ffs_warning := True\<rparr>"

section \<open>Lists of blocks\<close>

text \<open>
  A block number has 8 bits: a walk that has not ended after 256 steps has come back to a block and
  never ends, so that 256 is exact as the bound of every walk.
\<close>

abbreviation (input) WALK :: nat where "WALK \<equiv> 256"

fun last_from :: "nat \<Rightarrow> 'c ffs \<Rightarrow> u8 \<Rightarrow> u8 option" where
  "last_from 0 s cur_block = None"
| "last_from (Suc n) s cur_block = do {
     require (cur_block < total_blocks s);
     nx \<leftarrow> next_of cur_block s;
     if nx = FFS_BLOCK_INVALID then Some cur_block else last_from n s nx }"

definition count_block :: "block_list \<Rightarrow> 'c ffs \<Rightarrow> 'c ffs" where
  "count_block head s =
     (case head of
        Dirty_list \<Rightarrow> s\<lparr>dirty_blocks := dirty_blocks s + 1\<rparr>
      | Free_list \<Rightarrow> s\<lparr>free_blocks := free_blocks s + 1\<rparr>
      | File_list _ \<Rightarrow> s)"

definition uncount_block :: "block_list \<Rightarrow> 'c ffs \<Rightarrow> 'c ffs" where
  "uncount_block head s =
     (case head of
        Dirty_list \<Rightarrow> s\<lparr>dirty_blocks := dirty_blocks s - 1\<rparr>
      | Free_list \<Rightarrow> s\<lparr>free_blocks := free_blocks s - 1\<rparr>
      | File_list _ \<Rightarrow> s)"

definition ffs_block_v_add_to_list :: "block_list \<Rightarrow> u8 \<Rightarrow> 'c ffs \<Rightarrow> 'c ffs option" where
  "ffs_block_v_add_to_list head block s = do {
     s \<leftarrow> set_next block FFS_BLOCK_INVALID s;
     h \<leftarrow> head_of head s;
     s \<leftarrow> (if h = FFS_BLOCK_INVALID then Some (set_head head block s)
          else do {
            require (block < total_blocks s);
            cur_block \<leftarrow> last_from WALK s h;
            set_next cur_block block s });
     Some (count_block head s) }"

text \<open>Seeking the block before another one.\<close>

fun seek_before :: "nat \<Rightarrow> 'c ffs \<Rightarrow> u8 \<Rightarrow> u8 \<Rightarrow> u8 option" where
  "seek_before 0 s block prev_block = None"
| "seek_before (Suc n) s block prev_block = do {
     nx \<leftarrow> next_of prev_block s;
     if nx = block then Some prev_block
     else do {
       require (nx \<noteq> FFS_BLOCK_INVALID);
       seek_before n s block nx } }"

definition ffs_block_v_replace_in_list :: "block_list \<Rightarrow> u8 \<Rightarrow> u8 \<Rightarrow> 'c ffs \<Rightarrow> 'c ffs option" where
  "ffs_block_v_replace_in_list head old_block new_block s = do {
     require (old_block < total_blocks s);
     require (new_block < total_blocks s);
     h \<leftarrow> head_of head s;
     s \<leftarrow> (if h = old_block then Some (set_head head new_block s)
          else do {
            prev_block \<leftarrow> seek_before WALK s old_block h;
            set_next prev_block new_block s });
     nx \<leftarrow> next_of old_block s;
     set_next new_block nx s }"

definition ffs_block_v_remove_from_list :: "block_list \<Rightarrow> u8 \<Rightarrow> 'c ffs \<Rightarrow> 'c ffs option" where
  "ffs_block_v_remove_from_list head block s = do {
     require (block < total_blocks s);
     h \<leftarrow> head_of head s;
     s \<leftarrow> (if h = block then do {
            nx \<leftarrow> next_of block s;
            Some (set_head head nx s) }
          else do {
            prev_block \<leftarrow> seek_before WALK s block h;
            nx \<leftarrow> next_of block s;
            set_next prev_block nx s });
     Some (uncount_block head s) }"

fun in_list_from :: "nat \<Rightarrow> 'c ffs \<Rightarrow> u8 \<Rightarrow> u8 \<Rightarrow> bool option" where
  "in_list_from 0 s block cur_block = None"
| "in_list_from (Suc n) s block cur_block =
     (if cur_block = FFS_BLOCK_INVALID then Some False
      else do {
        require (cur_block < total_blocks s);
        if cur_block = block then Some True
        else do {
          nx \<leftarrow> next_of cur_block s;
          in_list_from n s block nx } })"

definition ffs_block_b_is_in_list :: "block_list \<Rightarrow> u8 \<Rightarrow> 'c ffs \<Rightarrow> bool option" where
  "ffs_block_b_is_in_list head block s = do {
     cur_block \<leftarrow> head_of head s;
     require (block < total_blocks s);
     in_list_from WALK s block cur_block }"

definition ffs_block_b_is_block_free :: "u8 \<Rightarrow> 'c ffs \<Rightarrow> bool option" where
  "ffs_block_b_is_block_free block s = ffs_block_b_is_in_list Free_list block s"

definition ffs_block_b_is_block_dirty :: "u8 \<Rightarrow> 'c ffs \<Rightarrow> bool option" where
  "ffs_block_b_is_block_dirty block s = ffs_block_b_is_in_list Dirty_list block s"

fun list_size_from :: "nat \<Rightarrow> 'c ffs \<Rightarrow> u8 \<Rightarrow> u8 \<Rightarrow> u8 option" where
  "list_size_from 0 s cur_block n = None"
| "list_size_from (Suc k) s cur_block n =
     (if cur_block = FFS_BLOCK_INVALID then Some n
      else do {
        require (cur_block < total_blocks s);
        nx \<leftarrow> next_of cur_block s;
        list_size_from k s nx (n + 1) })"

definition ffs_block_u8_list_size :: "block_list \<Rightarrow> 'c ffs \<Rightarrow> u8 option" where
  "ffs_block_u8_list_size head s = do {
     cur_block \<leftarrow> head_of head s;
     list_size_from WALK s cur_block 0 }"

fun get_block_from :: "nat \<Rightarrow> 'c ffs \<Rightarrow> u8 \<Rightarrow> u8 option" where
  "get_block_from 0 s cur_block = Some cur_block"
| "get_block_from (Suc index) s cur_block =
     (if cur_block = FFS_BLOCK_INVALID then Some cur_block
      else do {
        nx \<leftarrow> next_of cur_block s;
        get_block_from index s nx })"

definition ffs_block_fb_get_block :: "block_list \<Rightarrow> u8 \<Rightarrow> 'c ffs \<Rightarrow> u8 option" where
  "ffs_block_fb_get_block head index s = do {
     require (index < total_blocks s);
     cur_block \<leftarrow> head_of head s;
     get_block_from (unat index) s cur_block }"

definition ffs_block_fb_next :: "u8 \<Rightarrow> 'c ffs \<Rightarrow> u8 option" where
  "ffs_block_fb_next block s = do {
     require (block < total_blocks s);
     next_of block s }"

definition ffs_block_fb_alloc :: "'c ffs \<Rightarrow> (u8 \<times> 'c ffs) option" where
  "ffs_block_fb_alloc s =
     (if free_blocks s = 0 then Some (FFS_BLOCK_INVALID, s)
      else do {
        let s = s\<lparr>block_allocs := block_allocs s + 1\<rparr>;
        let block = free_list s;
        nx \<leftarrow> next_of block s;
        let s = s\<lparr>free_list := nx\<rparr>;
        s \<leftarrow> set_next block FFS_BLOCK_INVALID s;
        Some (block, s\<lparr>free_blocks := free_blocks s - 1\<rparr>) })"

definition ffs_block_fb_get_dirty :: "'c ffs \<Rightarrow> (u8 \<times> 'c ffs) option" where
  "ffs_block_fb_get_dirty s =
     (if dirty_blocks s = 0 then Some (FFS_BLOCK_INVALID, s)
      else do {
        let block = dirty_list s;
        nx \<leftarrow> next_of block s;
        let s = s\<lparr>dirty_list := nx\<rparr>;
        s \<leftarrow> set_next block FFS_BLOCK_INVALID s;
        Some (block, s\<lparr>dirty_blocks := dirty_blocks s - 1\<rparr>) })"

section \<open>Block headers\<close>

text \<open>\<open>offsetof(ffs_block_meta_t, flags)\<close> is 1.\<close>

fun read_flags_tries :: "nat \<Rightarrow> 'c spi \<Rightarrow> u8 \<Rightarrow> 'c ffs \<Rightarrow> u8 \<times> 'c ffs" where
  "read_flags_tries 0 spi block s = (FFS_FLAGS_INVALID, s)"
| "read_flags_tries (Suc tries) spi block s =
     (let (flags0, s) = fs_read_byte spi (FFS_META_0 block + 1) s;
          (flags1, s) = fs_read_byte spi (FFS_META_1 block + 1) s
      in if flags0 = flags1 then (flags0, s) else read_flags_tries tries spi block s)"

definition ffs_block_u8_read_flags :: "'c spi \<Rightarrow> u8 \<Rightarrow> 'c ffs \<Rightarrow> (u8 \<times> 'c ffs) option" where
  "ffs_block_u8_read_flags spi block s = do {
     require (block < total_blocks s);
     Some (read_flags_tries FFS_IO_ATTEMPTS spi block s) }"

definition ffs_block_v_set_dirty :: "'c spi \<Rightarrow> u8 \<Rightarrow> 'c ffs \<Rightarrow> 'c ffs option" where
  "ffs_block_v_set_dirty spi block s = do {
     require (block < total_blocks s);
     (flags, s) \<leftarrow> ffs_block_u8_read_flags spi block s;
     let flags = flags AND NOT FFS_FLAG_DIRTY;
     let s = fs_write_byte spi (FFS_META_0 block + 1) flags s;
     let s = fs_write_byte spi (FFS_META_1 block + 1) flags s;
     let (r0, s) = fs_read_byte spi (FFS_META_0 block + 1) s;
     let (bad, s) = (if r0 \<noteq> flags
                     then let (r1, s) = fs_read_byte spi (FFS_META_1 block + 1) s in (r1 \<noteq> flags, s)
                     else (False, s));
     let s = (if bad
              then fs_write_byte spi (FFS_META_1 block + 1) FFS_FLAGS_INVALID
                     (fs_write_byte spi (FFS_META_0 block + 1) FFS_FLAGS_INVALID s)
              else s);
     ffs_block_v_add_to_list Dirty_list block s }"

definition ffs_block_b_is_dirty :: "ffs_block_meta \<Rightarrow> bool" where
  "ffs_block_b_is_dirty meta \<longleftrightarrow> NOT (meta_flags meta) AND FFS_FLAG_DIRTY \<noteq> 0"

definition ffs_block_i8_erase :: "'c spi \<Rightarrow> u8 \<Rightarrow> 'c ffs \<Rightarrow> (i8 \<times> 'c ffs) option" where
  "ffs_block_i8_erase spi block s = do {
     let s = (if index_cache_block s = block then s\<lparr>index_cache_block := FFS_BLOCK_INVALID\<rparr> else s);
     let s = s\<lparr>flash := flash25_v_write_enable spi (flash s)\<rparr>;
     let s = s\<lparr>flash := flash25_v_erase_4k spi (FFS_BLOCK_ADDRESS block) (flash s)\<rparr>;
     s \<leftarrow> ffs_block_v_add_to_list Free_list block s;
     Some (FFS_STATUS_OK, s) }"

text \<open>The result is the header where the status is \<open>FFS_STATUS_OK\<close>, and none else.\<close>

fun read_meta_tries :: "nat \<Rightarrow> 'c spi \<Rightarrow> u8 \<Rightarrow> 'c ffs \<Rightarrow> ffs_block_meta option \<times> 'c ffs" where
  "read_meta_tries 0 spi block s = (None, ffs_block_v_hard_error s)"
| "read_meta_tries (Suc tries) spi block s =
     (let (check_meta, s) = fs_read spi (FFS_META_0 block) META_SIZE s;
          (check_meta_1, s) = fs_read spi (FFS_META_1 block) META_SIZE s
      in if check_meta \<noteq> check_meta_1 then read_meta_tries tries spi block (ffs_block_v_soft_error s)
         else if unat (meta_file_id (meta_of check_meta)) \<ge> FFS_MAX_FILES
                 \<or> meta_block (meta_of check_meta) \<ge> total_blocks s
         then read_meta_tries tries spi block (ffs_block_v_soft_error s)
         else (Some (meta_of check_meta), s))"

definition ffs_block_i8_read_meta :: "'c spi \<Rightarrow> u8 \<Rightarrow> 'c ffs \<Rightarrow> (ffs_block_meta option \<times> 'c ffs) option" where
  "ffs_block_i8_read_meta spi block s = do {
     require (block < total_blocks s);
     Some (read_meta_tries FFS_IO_ATTEMPTS spi block s) }"

definition ffs_block_i8_write_meta :: "'c spi \<Rightarrow> u8 \<Rightarrow> ffs_block_meta \<Rightarrow> 'c ffs \<Rightarrow> (i8 \<times> 'c ffs) option" where
  "ffs_block_i8_write_meta spi block meta s = do {
     let s = fs_write spi (FFS_META_0 block) (meta_bytes meta) s;
     let s = fs_write spi (FFS_META_1 block) (meta_bytes meta) s;
     (r, s) \<leftarrow> ffs_block_i8_read_meta spi block s;
     case r of
       None \<Rightarrow> Some (FFS_STATUS_ERROR, s)
     | Some _ \<Rightarrow> Some (FFS_STATUS_OK, s) }"

section \<open>Page indexes\<close>

text \<open>\<open>crc_u16_block\<close> of a list of bytes: the checksum of theory Crc over the whole list.\<close>

definition crc_of :: "u8 list \<Rightarrow> u16" where
  "crc_of bs = the (crc_u16_block bs (of_nat (length bs)))"

text \<open>On success the index is the one in the cache.\<close>

fun read_index_tries :: "nat \<Rightarrow> 'c spi \<Rightarrow> u8 \<Rightarrow> 'c ffs \<Rightarrow> i8 \<times> 'c ffs" where
  "read_index_tries 0 spi block s = (FFS_STATUS_ERROR, ffs_block_v_hard_error s)"
| "read_index_tries (Suc tries) spi block s =
     (let (index, s) = fs_read spi (FFS_INDEX_0 block) FFS_PAGES_PER_BLOCK s;
          crc0 = crc_of index;
          (index, s) = fs_read spi (FFS_INDEX_1 block) FFS_PAGES_PER_BLOCK s;
          s = s\<lparr>index_cache_index := index\<rparr>;
          crc1 = crc_of index
      in if crc0 \<noteq> crc1 then read_index_tries tries spi block (ffs_block_v_soft_error s)
         else (FFS_STATUS_OK, s\<lparr>index_cache_block := block\<rparr>))"

definition ffs_block_i8_read_index :: "'c spi \<Rightarrow> u8 \<Rightarrow> 'c ffs \<Rightarrow> (i8 \<times> 'c ffs) option" where
  "ffs_block_i8_read_index spi block s = do {
     require (block < total_blocks s);
     if block = index_cache_block s then Some (FFS_STATUS_OK, s)
     else Some (read_index_tries FFS_IO_ATTEMPTS spi block s) }"

definition ffs_block_i8_set_index_entry :: "'c spi \<Rightarrow> u8 \<Rightarrow> u8 \<Rightarrow> u8 \<Rightarrow> 'c ffs \<Rightarrow> (i8 \<times> 'c ffs) option" where
  "ffs_block_i8_set_index_entry spi block logical_index phy_index s = do {
     require (unat logical_index < FFS_DATA_PAGES_PER_BLOCK);
     require (unat phy_index < FFS_PAGES_PER_BLOCK);
     let s = (if block = index_cache_block s
              then s\<lparr>index_cache_index := (index_cache_index s)[unat phy_index := logical_index]\<rparr> else s);
     let s = fs_write_byte spi (FFS_INDEX_0 block + ucast phy_index) logical_index s;
     let s = fs_write_byte spi (FFS_INDEX_1 block + ucast phy_index) logical_index s;
     let (r0, s) = fs_read_byte spi (FFS_INDEX_0 block + ucast phy_index) s;
     let (bad, s) = (if r0 \<noteq> logical_index then (True, s)
                     else let (r1, s) = fs_read_byte spi (FFS_INDEX_1 block + ucast phy_index) s
                          in (r1 \<noteq> logical_index, s));
     Some (if bad then FFS_STATUS_ERROR else FFS_STATUS_OK, s) }"

text \<open>One entry of the scan, with its position.\<close>

definition scan_entry :: "nat \<times> u8 \<Rightarrow> ffs_index_info \<Rightarrow> ffs_index_info" where
  "scan_entry e info =
     (case e of (i, page) \<Rightarrow>
        if page = 0xff then
          (let info = info\<lparr>free_pages := free_pages info + 1\<rparr>
           in if sint (phy_next_free info) < 0 then info\<lparr>phy_next_free := of_nat i\<rparr> else info)
        else if sint (logical_last_page info) \<le> int (unat page) then
          info\<lparr>phy_last_page := of_nat i, logical_last_page := page\<rparr>
        else info)"

definition index_info :: "u8 list \<Rightarrow> ffs_index_info" where
  "index_info index =
     (let info = \<lparr>data_pages = 0, free_pages = 0, phy_last_page = - 1, logical_last_page = - 1, phy_next_free = - 1\<rparr>;
          info = fold scan_entry (zip [0..<FFS_PAGES_PER_BLOCK] index) info
      in info\<lparr>data_pages := logical_last_page info + 1\<rparr>)"

definition ffs_block_i8_get_index_info :: "'c spi \<Rightarrow> u8 \<Rightarrow> 'c ffs \<Rightarrow> (ffs_index_info option \<times> 'c ffs) option" where
  "ffs_block_i8_get_index_info spi block s = do {
     (r, s) \<leftarrow> ffs_block_i8_read_index spi block s;
     if sint r < 0 then Some (None, s)
     else Some (Some (index_info (index_cache_index s)), s) }"

section \<open>Mounting\<close>

text \<open>Whether the 16 parts of 256 bytes of a block, read up to the first that is not, are erased.\<close>

fun blank_from :: "nat \<Rightarrow> 'c spi \<Rightarrow> u32 \<Rightarrow> 'c ffs \<Rightarrow> bool \<times> 'c ffs" where
  "blank_from 0 spi addr s = (True, s)"
| "blank_from (Suc j) spi addr s =
     (let (dat, s) = fs_read spi addr 256 s
      in if \<exists>b \<in> set dat. b \<noteq> 0xff then (False, s) else blank_from j spi (addr + 256) s)"

fun verify_free_from :: "nat \<Rightarrow> 'c spi \<Rightarrow> bool \<Rightarrow> u8 \<Rightarrow> 'c ffs \<Rightarrow> (bool \<times> 'c ffs) option" where
  "verify_free_from 0 spi errors block s = None"
| "verify_free_from (Suc n) spi errors block s =
     (if block = FFS_BLOCK_INVALID then Some (errors, s)
      else do {
        let (blank, s) = blank_from 16 spi (FFS_BLOCK_ADDRESS block) s;
        (errors, s) \<leftarrow> (if blank then Some (errors, s)
                       else do {
                         s \<leftarrow> ffs_block_v_remove_from_list Free_list block s;
                         s \<leftarrow> ffs_block_v_set_dirty spi block s;
                         Some (True, s) });
        block \<leftarrow> ffs_block_fb_next block s;
        verify_free_from n spi errors block s })"

definition ffs_block_i8_verify_free_space :: "'c spi \<Rightarrow> 'c ffs \<Rightarrow> (i8 \<times> 'c ffs) option" where
  "ffs_block_i8_verify_free_space spi s = do {
     (errors, s) \<leftarrow> verify_free_from WALK spi False (free_list s) s;
     Some (if errors then FFS_STATUS_ERROR else FFS_STATUS_OK, s) }"

text \<open>The scan of one block header, and the number of blocks in a chip of a size.\<close>

definition scan_header :: "'c spi \<Rightarrow> u8 \<Rightarrow> 'c ffs \<Rightarrow> 'c ffs option" where
  "scan_header spi i s = do {
     (flags, s) \<leftarrow> ffs_block_u8_read_flags spi i s;
     if flags = FFS_FLAGS_FREE then ffs_block_v_add_to_list Free_list i s
     else if NOT flags AND FFS_FLAG_DIRTY \<noteq> 0 then ffs_block_v_add_to_list Dirty_list i s
     else if flags = NOT FFS_FLAG_VALID then do {
       (r, s) \<leftarrow> ffs_block_i8_read_meta spi i s;
       case r of
         None \<Rightarrow> ffs_block_v_set_dirty spi i s
       | Some _ \<Rightarrow> Some s }
     else ffs_block_v_set_dirty spi i s }"

definition blocks_of_size :: "u32 \<Rightarrow> u8" where
  "blocks_of_size flash_size =
     (let n_blocks = ucast (flash_size div 4096) :: u16;
          total = ucast (ucast n_blocks - (32 + 32 + 1) :: u32) :: u8
      in if total > FFS_BLOCK_MAX_BLOCKS then FFS_BLOCK_MAX_BLOCKS else total)"

text \<open>
  \<open>memory_left\<close>: whether \<open>mem2_h_alloc2\<close> finds room for the array \<open>blocks\<close>, which is
  \<^const>\<open>next_block\<close> here.
\<close>

definition ffs_block_v_init :: "'c spi \<Rightarrow> bool \<Rightarrow> 'c ffs \<Rightarrow> 'c ffs option" where
  "ffs_block_v_init spi memory_left s = do {
     let s = s\<lparr>index_cache_block := FFS_BLOCK_INVALID, total_blocks := 0, free_blocks := 0, dirty_blocks := 0,
               free_list := FFS_BLOCK_INVALID, dirty_list := FFS_BLOCK_INVALID\<rparr>;
     let (flash_size, f) = flash25_u32_capacity spi (flash s);
     let s = s\<lparr>flash := f, total_blocks := blocks_of_size flash_size\<rparr>;
     require memory_left;
     let s = s\<lparr>next_block := replicate (unat (total_blocks s)) FFS_BLOCK_INVALID\<rparr>;
     s \<leftarrow> for_each (scan_header spi) (map of_nat [0..<unat (total_blocks s)]) s;
     (_, s) \<leftarrow> ffs_block_i8_verify_free_space spi s;
     Some s }"

end
