(* ===== verification/Ffs_Page.thy ===== *)
theory Ffs_Page
  imports Ffs_Block
begin

text \<open>
  The pages and files of the flash file system, \<open>src/src/sapphireos/ffs_page.c\<close>: files are lists of
  blocks, a block holds the pages of its part of the file in the order in which they were written, and
  the last entry of its index that names a page is the current one.
\<close>

section \<open>Pages\<close>

text \<open>\<open>sizeof(ffs_page_t)\<close>: the length, the data, the checksum.\<close>

abbreviation (input) PAGE_SIZE :: nat where "PAGE_SIZE \<equiv> 67"

definition page_bytes :: "'c ffs \<Rightarrow> u8 list" where
  "page_bytes s = page_len s # page_data s @ bytes16 (page_crc s)"

definition load_page :: "u8 list \<Rightarrow> 'c ffs \<Rightarrow> 'c ffs" where
  "load_page bs s =
     s\<lparr>page_len := bs ! 0, page_data := take FFS_PAGE_DATA_SIZE (drop 1 bs),
       page_crc := ucast (bs ! 65) OR push_bit 8 (ucast (bs ! 66))\<rparr>"

definition compare_sequences :: "u8 \<Rightarrow> u8 \<Rightarrow> bool" where
  "compare_sequences seq1 seq2 \<longleftrightarrow> sint (seq1 - seq2) > 0"

definition page_address :: "u8 \<Rightarrow> u8 \<Rightarrow> u32" where
  "page_address block page_index =
     (let addr = FFS_BLOCK_ADDRESS block;
          addr = addr + of_nat (HEADER_SIZE * 2)
      in addr + of_nat PAGE_SIZE * ucast page_index)"

definition invalidate_cache :: "'c ffs \<Rightarrow> 'c ffs" where
  "invalidate_cache s = s\<lparr>cache_file_id := - 1, page_len := 0\<rparr>"

definition ffs_page_v_reset :: "'c ffs \<Rightarrow> 'c ffs" where
  "ffs_page_v_reset s =
     s\<lparr>file_start := replicate FFS_MAX_FILES FFS_BLOCK_INVALID, file_size := replicate FFS_MAX_FILES (- 1)\<rparr>"

definition ffs_page_u16_total_pages :: "'c ffs \<Rightarrow> u16" where
  "ffs_page_u16_total_pages s = ucast (total_blocks s) * 59"

text \<open>
  A file id is signed: the assertions compare it with \<open>FFS_MAX_FILES\<close> from above only, and a negative
  one indexes in front of the array \<open>files\<close>.
\<close>

definition file_index :: "i8 \<Rightarrow> nat option" where
  "file_index file_id = (if 0 \<le> sint file_id \<and> sint file_id < int FFS_MAX_FILES then Some (nat (sint file_id)) else None)"

text \<open>The checksum of the page in the cache; a length beyond the data reads behind the array.\<close>

definition cached_crc :: "'c ffs \<Rightarrow> u16 option" where
  "cached_crc s = do {
     require (unat (page_len s) \<le> FFS_PAGE_DATA_SIZE);
     crc_u16_block (page_data s) (ucast (page_len s)) }"

text \<open>The last entry of the index that names the page.\<close>

fun seek_index :: "nat \<Rightarrow> u8 list \<Rightarrow> u8 \<Rightarrow> nat option" where
  "seek_index 0 index page_index = None"
| "seek_index (Suc i) index page_index =
     (if index ! i = page_index then Some i else seek_index i index page_index)"

text \<open>
  The result of seeking is an address (\<open>Inr\<close>) or one of the negative status codes (\<open>Inl\<close>); addresses
  are below \<open>2 ^ 31\<close>, so that the code tells them apart by the sign.
\<close>

definition ffs_page_i32_seek_page :: "'c spi \<Rightarrow> i8 \<Rightarrow> u16 \<Rightarrow> 'c ffs \<Rightarrow> ((i8 + u32) \<times> 'c ffs) option" where
  "ffs_page_i32_seek_page spi file_id page s = do {
     require (sint file_id < int FFS_MAX_FILES);
     require (page < ffs_page_u16_total_pages s);
     let block = (ucast (page div 51) :: u8);
     let page_index = (ucast (page mod 51) :: u8);
     i \<leftarrow> file_index file_id;
     phy_block \<leftarrow> ffs_block_fb_get_block (File_list i) block s;
     if phy_block = FFS_BLOCK_INVALID then Some (Inl FFS_STATUS_EOF, s)
     else do {
       (r, s) \<leftarrow> ffs_block_i8_read_index spi phy_block s;
       if sint r < 0 then Some (Inl FFS_STATUS_ERROR, s)
       else case seek_index FFS_PAGES_PER_BLOCK (index_cache_index s) page_index of
              Some i \<Rightarrow> Some (Inr (page_address phy_block (of_nat i)), s)
            | None \<Rightarrow> Some (Inl FFS_STATUS_EOF, s) } }"

fun read_page_tries :: "nat \<Rightarrow> 'c spi \<Rightarrow> i8 \<Rightarrow> u16 \<Rightarrow> u32 \<Rightarrow> 'c ffs \<Rightarrow> (i8 \<times> 'c ffs) option" where
  "read_page_tries 0 spi file_id page page_addr s = Some (FFS_STATUS_ERROR, ffs_block_v_hard_error s)"
| "read_page_tries (Suc tries) spi file_id page page_addr s = do {
     let (bs, s) = fs_read spi page_addr PAGE_SIZE s;
     let s = load_page bs s;
     crc \<leftarrow> cached_crc s;
     if crc = page_crc s then
       Some (FFS_STATUS_OK, s\<lparr>cache_page_number := page, cache_page_addr := page_addr, cache_file_id := file_id\<rparr>)
     else read_page_tries tries spi file_id page page_addr (ffs_block_v_soft_error s) }"

definition ffs_page_i8_read :: "'c spi \<Rightarrow> i8 \<Rightarrow> u16 \<Rightarrow> 'c ffs \<Rightarrow> (i8 \<times> 'c ffs) option" where
  "ffs_page_i8_read spi file_id page s =
     (if cache_file_id s = file_id \<and> cache_page_number s = page then
        Some (FFS_STATUS_OK, s\<lparr>page_cache_hits := page_cache_hits s + 1\<rparr>)
      else do {
        let s = s\<lparr>page_cache_misses := page_cache_misses s + 1\<rparr>;
        let s = invalidate_cache s;
        (page_addr, s) \<leftarrow> ffs_page_i32_seek_page spi file_id page s;
        case page_addr of
          Inl r \<Rightarrow> if r = FFS_STATUS_EOF then Some (FFS_STATUS_EOF, s) else Some (FFS_STATUS_ERROR, s)
        | Inr page_addr \<Rightarrow> read_page_tries FFS_IO_ATTEMPTS spi file_id page page_addr s })"

text \<open>\<open>ffs_page_p_get_cached_page\<close>: the assertion; the page is the one in the state.\<close>

definition ffs_page_p_get_cached_page :: "'c ffs \<Rightarrow> (u8 \<times> u8 list) option" where
  "ffs_page_p_get_cached_page s = do {
     require (sint (cache_file_id s) \<ge> 0);
     Some (page_len s, page_data s) }"

section \<open>Blocks of a file\<close>

definition ffs_page_i16_alloc_block :: "'c spi \<Rightarrow> i8 \<Rightarrow> 'c ffs \<Rightarrow> (i8 \<times> 'c ffs) option" where
  "ffs_page_i16_alloc_block spi file_id s = do {
     require (sint file_id < int FFS_MAX_FILES);
     i \<leftarrow> file_index file_id;
     block_count \<leftarrow> ffs_block_u8_list_size (File_list i) s;
     (block, s) \<leftarrow> ffs_block_fb_alloc s;
     if block = FFS_BLOCK_INVALID then Some (FFS_STATUS_NO_FREE_SPACE, s)
     else do {
       let meta = \<lparr>meta_file_id = file_id, meta_flags = NOT FFS_FLAG_VALID, meta_block = block_count,
                   meta_sequence = 0, meta_reserved = replicate 4 0xff\<rparr>;
       (r, s) \<leftarrow> ffs_block_i8_write_meta spi block meta s;
       if r \<noteq> 0 then do {
         s \<leftarrow> ffs_block_v_set_dirty spi block s;
         Some (FFS_STATUS_ERROR, s) }
       else do {
         s \<leftarrow> ffs_block_v_add_to_list (File_list i) block s;
         Some (FFS_STATUS_OK, s) } } }"

text \<open>The loop of \<open>ffs_page_i8_block_copy\<close>: whether all pages up to the end of the file were copied.\<close>

fun copy_pages :: "'c spi \<Rightarrow> u8 \<Rightarrow> i8 \<Rightarrow> u16 \<Rightarrow> nat list \<Rightarrow> 'c ffs \<Rightarrow> (bool \<times> 'c ffs) option" where
  "copy_pages spi dest_block file_id base_page [] s = Some (True, s)"
| "copy_pages spi dest_block file_id base_page (i # is) s = do {
     (status, s) \<leftarrow> ffs_page_i8_read spi file_id (base_page + of_nat i) s;
     if status = FFS_STATUS_EOF then Some (True, s)
     else if sint status < 0 then Some (False, s)
     else do {
       (r, s) \<leftarrow> ffs_block_i8_set_index_entry spi dest_block (of_nat i) (of_nat i) s;
       if sint r < 0 then Some (False, s)
       else do {
         let s = fs_write spi (page_address dest_block (of_nat i)) (page_bytes s) s;
         (r, s) \<leftarrow> ffs_page_i8_read spi file_id (base_page + of_nat i) s;
         if r \<noteq> FFS_STATUS_OK then Some (False, s)
         else copy_pages spi dest_block file_id base_page is s } } }"

definition ffs_page_i8_block_copy :: "'c spi \<Rightarrow> u8 \<Rightarrow> u8 \<Rightarrow> 'c ffs \<Rightarrow> (i8 \<times> 'c ffs) option" where
  "ffs_page_i8_block_copy spi source_block dest_block s = do {
     let s = s\<lparr>block_copies := block_copies s + 1\<rparr>;
     (r, s) \<leftarrow> ffs_block_i8_read_meta spi source_block s;
     case r of
       None \<Rightarrow> Some (FFS_STATUS_ERROR, s)
     | Some meta \<Rightarrow> do {
         let base_page = (ucast (meta_block meta) * 51 :: u16);
         (ok, s) \<leftarrow> copy_pages spi dest_block (meta_file_id meta) base_page [0..<FFS_DATA_PAGES_PER_BLOCK] s;
         if \<not> ok then Some (FFS_STATUS_ERROR, s)
         else do {
           let meta = meta\<lparr>meta_sequence := meta_sequence meta + 1\<rparr>;
           (r, s) \<leftarrow> ffs_block_i8_write_meta spi dest_block meta s;
           if sint r < 0 then Some (FFS_STATUS_ERROR, s) else Some (FFS_STATUS_OK, s) } } }"

text \<open>The result has type \<open>block_t\<close>: the status codes become the block numbers 254 and 250.\<close>

definition ffs_page_i16_replace_block :: "'c spi \<Rightarrow> i8 \<Rightarrow> u8 \<Rightarrow> 'c ffs \<Rightarrow> (u8 \<times> 'c ffs) option" where
  "ffs_page_i16_replace_block spi file_id file_block s = do {
     require (sint file_id < int FFS_MAX_FILES);
     i \<leftarrow> file_index file_id;
     phy_block \<leftarrow> ffs_block_fb_get_block (File_list i) file_block s;
     require (phy_block \<noteq> FFS_BLOCK_INVALID);
     (new_block, s) \<leftarrow> ffs_block_fb_alloc s;
     if new_block = FFS_BLOCK_INVALID then Some (FFS_STATUS_NO_FREE_SPACE, s)
     else do {
       (r, s) \<leftarrow> ffs_page_i8_block_copy spi phy_block new_block s;
       if sint r < 0 then do {
         s \<leftarrow> ffs_block_v_set_dirty spi new_block s;
         Some (FFS_STATUS_ERROR, s) }
       else do {
         s \<leftarrow> ffs_block_v_replace_in_list (File_list i) phy_block new_block s;
         s \<leftarrow> ffs_block_v_set_dirty spi phy_block s;
         Some (new_block, s) } } }"

section \<open>Writing\<close>

text \<open>The length that fits, and the new contents of the cached page.\<close>

definition write_length :: "u8 \<Rightarrow> u8 \<Rightarrow> u8" where
  "write_length offset len =
     (let write_len = (if len < 64 then len else 64)
      in if int (unat write_len) > 64 - int (unat offset) then word_of_int (64 - int (unat offset)) else write_len)"

definition write_cached :: "u8 \<Rightarrow> u8 list \<Rightarrow> u8 \<Rightarrow> i8 \<Rightarrow> 'c ffs \<Rightarrow> 'c ffs option" where
  "write_cached offset dat len page_read_status s = do {
     let write_len = write_length offset len;
     let s = (if page_read_status = FFS_STATUS_EOF then s\<lparr>page_data := replicate FFS_PAGE_DATA_SIZE 0xff\<rparr> else s);
     require (unat offset + unat write_len \<le> FFS_PAGE_DATA_SIZE \<and> unat write_len \<le> length dat);
     let s = s\<lparr>page_data := put_bytes (page_data s) (unat offset) (take (unat write_len) dat)\<rparr>;
     let s = (if unat (page_len s) < unat offset + unat write_len then s\<lparr>page_len := offset + write_len\<rparr> else s);
     crc \<leftarrow> cached_crc s;
     Some (s\<lparr>page_crc := crc\<rparr>) }"

text \<open>
  One attempt: \<^term>\<open>Inl\<close> the state in which the loop goes on, \<^term>\<open>Inr\<close> the state after success.
\<close>

definition write_page :: "'c spi \<Rightarrow> i8 \<Rightarrow> u16 \<Rightarrow> u8 \<Rightarrow> u8 \<Rightarrow> u8 list \<Rightarrow> u8 \<Rightarrow> u8 \<Rightarrow> u8 \<Rightarrow> 'c ffs \<Rightarrow> ('c ffs + 'c ffs) option" where
  "write_page spi file_id page page_index offset dat len phy_block next_free s = do {
     let page_addr = page_address phy_block next_free;
     (page_read_status, s) \<leftarrow> ffs_page_i8_read spi file_id page s;
     if sint page_read_status < 0 \<and> page_read_status \<noteq> FFS_STATUS_EOF then Some (Inl s)
     else do {
       s \<leftarrow> write_cached offset dat len page_read_status s;
       let s = fs_write spi page_addr (page_bytes s) s;
       (r, s) \<leftarrow> ffs_block_i8_set_index_entry spi phy_block page_index next_free s;
       if sint r < 0 then Some (Inl s)
       else do {
         let s = invalidate_cache s;
         (r, s) \<leftarrow> ffs_page_i8_read spi file_id page s;
         if r = FFS_STATUS_OK then do {
           i \<leftarrow> file_index file_id;
           let file_length_to_here = (ucast page * 64 + ucast (page_len s) :: u32);
           let s = (if file_length_to_here > file_size s ! i
                    then s\<lparr>file_size := (file_size s)[i := file_length_to_here]\<rparr> else s);
           Some (Inr s) }
         else Some (Inl (ffs_block_v_soft_error s)) } } }"

definition write_try :: "'c spi \<Rightarrow> i8 \<Rightarrow> u16 \<Rightarrow> u8 \<Rightarrow> u8 list \<Rightarrow> u8 \<Rightarrow> u8 \<Rightarrow> 'c ffs \<Rightarrow> ('c ffs + 'c ffs) option" where
  "write_try spi file_id page offset dat len block_count s = do {
     let block = (ucast (page div 51) :: u8);
     let page_index = (ucast (page mod 51) :: u8);
     let s = s\<lparr>page_allocs := page_allocs s + 1\<rparr>;
     (new_block, s) \<leftarrow> (if block_count = block then ffs_page_i16_alloc_block spi file_id s else Some (0, s));
     if block_count = block \<and> new_block = FFS_BLOCK_INVALID then Some (Inl s)
     else do {
       i \<leftarrow> file_index file_id;
       phy_block \<leftarrow> ffs_block_fb_get_block (File_list i) block s;
       require (phy_block \<noteq> FFS_BLOCK_INVALID);
       (r, s) \<leftarrow> ffs_block_i8_get_index_info spi phy_block s;
       case r of
         None \<Rightarrow> Some (Inl s)
       | Some info \<Rightarrow>
           if sint (phy_next_free info) < 0 then do {
             (phy_block, s) \<leftarrow> ffs_page_i16_replace_block spi file_id block s;
             if phy_block = FFS_BLOCK_INVALID then Some (Inl s)
             else do {
               (r, s) \<leftarrow> ffs_block_i8_get_index_info spi phy_block s;
               case r of
                 None \<Rightarrow> Some (Inl s)
               | Some info \<Rightarrow>
                   if sint (phy_next_free info) < 0 then Some (Inl s)
                   else write_page spi file_id page page_index offset dat len phy_block (phy_next_free info) s } }
           else write_page spi file_id page page_index offset dat len phy_block (phy_next_free info) s } }"

fun write_tries :: "nat \<Rightarrow> 'c spi \<Rightarrow> i8 \<Rightarrow> u16 \<Rightarrow> u8 \<Rightarrow> u8 list \<Rightarrow> u8 \<Rightarrow> u8 \<Rightarrow> 'c ffs \<Rightarrow> (i8 \<times> 'c ffs) option" where
  "write_tries 0 spi file_id page offset dat len block_count s = Some (FFS_STATUS_ERROR, ffs_block_v_hard_error s)"
| "write_tries (Suc tries) spi file_id page offset dat len block_count s = do {
     r \<leftarrow> write_try spi file_id page offset dat len block_count s;
     case r of
       Inr s \<Rightarrow> Some (FFS_STATUS_OK, s)
     | Inl s \<Rightarrow> write_tries tries spi file_id page offset dat len block_count s }"

definition ffs_page_i8_write :: "'c spi \<Rightarrow> i8 \<Rightarrow> u16 \<Rightarrow> u8 \<Rightarrow> u8 list \<Rightarrow> u8 \<Rightarrow> 'c ffs \<Rightarrow> (i8 \<times> 'c ffs) option" where
  "ffs_page_i8_write spi file_id page offset dat len s = do {
     require (sint file_id < int FFS_MAX_FILES);
     require (page < ffs_page_u16_total_pages s);
     i \<leftarrow> file_index file_id;
     block_count \<leftarrow> ffs_block_u8_list_size (File_list i) s;
     let sz = sint (file_size s ! i);
     let page_count = (if sz > 0 then word_of_int (sz div 64) + 1 else 0 :: u16);
     require (page \<le> page_count);
     write_tries FFS_IO_ATTEMPTS spi file_id page offset dat len block_count s }"

section \<open>Files\<close>

definition ffs_page_u8_count_files :: "'c ffs \<Rightarrow> u8" where
  "ffs_page_u8_count_files s =
     fold (\<lambda>i n. if sint (file_size s ! i) \<ge> 0 then n + 1 else n) [0..<FFS_MAX_FILES] 0"

definition ffs_page_i32_file_size :: "i8 \<Rightarrow> 'c ffs \<Rightarrow> i32 option" where
  "ffs_page_i32_file_size file_id s = do {
     require (sint file_id < int FFS_MAX_FILES);
     i \<leftarrow> file_index file_id;
     rd (file_size s) i }"

definition free_file_id :: "'c ffs \<Rightarrow> nat option" where
  "free_file_id s = find (\<lambda>i. sint (file_size s ! i) < 0) [0..<FFS_MAX_FILES]"

definition ffs_page_i8_create_file :: "'c spi \<Rightarrow> 'c ffs \<Rightarrow> (i8 \<times> 'c ffs) option" where
  "ffs_page_i8_create_file spi s =
     (case free_file_id s of
        None \<Rightarrow> Some (FFS_STATUS_NO_FREE_FILES, s)
      | Some i \<Rightarrow> do {
          (block, s) \<leftarrow> ffs_page_i16_alloc_block spi (of_nat i) s;
          if sint block < 0 then Some (block, s)
          else Some (of_nat i, s\<lparr>file_size := (file_size s)[i := 0]\<rparr>) })"

text \<open>The loop sets each block of the list dirty after it has read which block is next.\<close>

fun dirty_from :: "nat \<Rightarrow> 'c spi \<Rightarrow> u8 \<Rightarrow> 'c ffs \<Rightarrow> 'c ffs option" where
  "dirty_from 0 spi block s = None"
| "dirty_from (Suc n) spi block s =
     (if block = FFS_BLOCK_INVALID then Some s
      else do {
        nx \<leftarrow> ffs_block_fb_next block s;
        s \<leftarrow> ffs_block_v_set_dirty spi block s;
        dirty_from n spi nx s })"

definition ffs_page_i8_delete_file :: "'c spi \<Rightarrow> i8 \<Rightarrow> 'c ffs \<Rightarrow> (i8 \<times> 'c ffs) option" where
  "ffs_page_i8_delete_file spi file_id s = do {
     require (sint file_id < int FFS_MAX_FILES);
     i \<leftarrow> file_index file_id;
     block \<leftarrow> ffs_block_fb_get_block (File_list i) 0 s;
     s \<leftarrow> dirty_from WALK spi block s;
     Some (FFS_STATUS_OK, s\<lparr>file_start := (file_start s)[i := FFS_BLOCK_INVALID],
                             file_size := (file_size s)[i := - 1]\<rparr>) }"

section \<open>Mounting\<close>

text \<open>The loop of \<open>ffs_page_i8_file_scan\<close>: every page reads, and all but the last are full.\<close>

fun scan_pages :: "'c spi \<Rightarrow> i8 \<Rightarrow> nat \<Rightarrow> nat list \<Rightarrow> 'c ffs \<Rightarrow> (i8 \<times> 'c ffs) option" where
  "scan_pages spi file_id pages [] s = Some (FFS_STATUS_OK, s)"
| "scan_pages spi file_id pages (i # is) s = do {
     (r, s) \<leftarrow> ffs_page_i8_read spi file_id (of_nat i) s;
     if sint r < 0 then Some (FFS_STATUS_ERROR, s)
     else if int i < int pages - 1 \<and> unat (page_len s) \<noteq> FFS_PAGE_DATA_SIZE then Some (FFS_STATUS_ERROR, s)
     else scan_pages spi file_id pages is s }"

definition ffs_page_i8_file_scan :: "'c spi \<Rightarrow> i8 \<Rightarrow> 'c ffs \<Rightarrow> (i8 \<times> 'c ffs) option" where
  "ffs_page_i8_file_scan spi file_id s = do {
     require (sint file_id < int FFS_MAX_FILES);
     i \<leftarrow> file_index file_id;
     let sz = sint (file_size s ! i);
     let pages = (word_of_int (sz sdiv 64) :: u16);
     let pages = (if sz smod 64 > 0 then pages + 1 else pages);
     if sz = 0 then do {
       (r, s) \<leftarrow> ffs_page_i32_seek_page spi file_id 0 s;
       Some (if r = Inl FFS_STATUS_EOF then FFS_STATUS_OK else FFS_STATUS_ERROR, s) }
     else scan_pages spi file_id (unat pages) [0..<unat pages] s }"

text \<open>The size computed from the last block with data: \<^term>\<open>Inr\<close> a size, \<^term>\<open>Inl\<close> a status.\<close>

definition file_size_at :: "'c spi \<Rightarrow> i8 \<Rightarrow> u8 \<Rightarrow> ffs_index_info \<Rightarrow> 'c ffs \<Rightarrow> (i32 \<times> 'c ffs) option" where
  "file_size_at spi file_id file_block_number info s =
     (if sint (logical_last_page info) < 0 then Some (0, s)
      else do {
        let last_page = (ucast file_block_number * 51 + scast (logical_last_page info) :: u16);
        (r, s) \<leftarrow> ffs_page_i8_read spi file_id last_page s;
        if sint r < 0 then Some (scast FFS_STATUS_ERROR, s)
        else Some (ucast last_page * 64 + ucast (page_len s), s) })"

definition ffs_page_i32_scan_file_size :: "'c spi \<Rightarrow> i8 \<Rightarrow> 'c ffs \<Rightarrow> (i32 \<times> 'c ffs) option" where
  "ffs_page_i32_scan_file_size spi file_id s = do {
     require (sint file_id < int FFS_MAX_FILES);
     i \<leftarrow> file_index file_id;
     block_count \<leftarrow> ffs_block_u8_list_size (File_list i) s;
     require (block_count > 0);
     let file_block_number = block_count - 1;
     block \<leftarrow> ffs_block_fb_get_block (File_list i) file_block_number s;
     if block = FFS_BLOCK_INVALID then Some (0, s)
     else do {
       (r, s) \<leftarrow> ffs_block_i8_get_index_info spi block s;
       case r of
         None \<Rightarrow> Some (scast FFS_STATUS_ERROR, s)
       | Some info \<Rightarrow>
           if data_pages info = 0 \<and> file_block_number > 0 then do {
             let file_block_number = file_block_number - 1;
             block \<leftarrow> ffs_block_fb_get_block (File_list i) file_block_number s;
             require (block \<noteq> FFS_BLOCK_INVALID);
             (r, s) \<leftarrow> ffs_block_i8_get_index_info spi block s;
             case r of
               None \<Rightarrow> Some (scast FFS_STATUS_ERROR, s)
             | Some info \<Rightarrow> file_size_at spi file_id file_block_number info s }
           else file_size_at spi file_id file_block_number info s } }"

text \<open>One block of the first scan.\<close>

definition collect_block :: "'c spi \<Rightarrow> u8 \<Rightarrow> 'c ffs \<Rightarrow> 'c ffs option" where
  "collect_block spi i s = do {
     (flags, s) \<leftarrow> ffs_block_u8_read_flags spi i s;
     if flags = NOT FFS_FLAG_VALID then do {
       (r, s) \<leftarrow> ffs_block_i8_read_meta spi i s;
       case r of
         None \<Rightarrow> ffs_block_v_set_dirty spi i s
       | Some meta \<Rightarrow> ffs_block_v_add_to_list (File_list (unat (meta_file_id meta))) i s }
     else Some s }"

text \<open>The map of the blocks of a file: the array \<open>file_map\<close> is indexed by the block number in the header.\<close>

fun map_blocks :: "nat \<Rightarrow> 'c spi \<Rightarrow> u8 \<Rightarrow> u8 list \<Rightarrow> 'c ffs \<Rightarrow> (u8 list \<times> 'c ffs) option" where
  "map_blocks 0 spi block file_map s = None"
| "map_blocks (Suc n) spi block file_map s =
     (if block = FFS_BLOCK_INVALID then Some (file_map, s)
      else do {
        (r, s) \<leftarrow> ffs_block_i8_read_meta spi block s;
        meta \<leftarrow> r;
        other \<leftarrow> rd file_map (unat (meta_block meta));
        (file_map, s) \<leftarrow>
          (if other \<noteq> FFS_BLOCK_INVALID then do {
             (r, s) \<leftarrow> ffs_block_i8_read_meta spi block s;
             prev_meta \<leftarrow> r;
             if compare_sequences (meta_sequence meta) (meta_sequence prev_meta) then do {
               s \<leftarrow> ffs_block_v_set_dirty spi other s;
               Some (file_map[unat (meta_block meta) := block], s) }
             else do {
               s \<leftarrow> ffs_block_v_set_dirty spi block s;
               Some (file_map, s) } }
           else Some (file_map[unat (meta_block meta) := block], s));
        block \<leftarrow> ffs_block_fb_next block s;
        map_blocks n spi block file_map s })"

definition missing_block :: "u8 list \<Rightarrow> nat \<Rightarrow> bool" where
  "missing_block file_map n_blocks \<longleftrightarrow>
     (\<exists>i \<in> set [0..<n_blocks - 1]. file_map ! i = FFS_BLOCK_INVALID \<and> file_map ! (i + 1) \<noteq> FFS_BLOCK_INVALID)"

text \<open>The data scan of one file; \<open>goto scan_start\<close> is the recursion, at most once as the file is gone then.\<close>

fun mount_file :: "nat \<Rightarrow> 'c spi \<Rightarrow> nat \<Rightarrow> 'c ffs \<Rightarrow> 'c ffs option" where
  "mount_file 0 spi i s = None"
| "mount_file (Suc n) spi i s = do {
     start \<leftarrow> rd (file_start s) i;
     if start = FFS_BLOCK_INVALID then Some s
     else do {
       let n_blocks = unat (total_blocks s);
       (file_map, s) \<leftarrow> map_blocks WALK spi start (replicate n_blocks FFS_BLOCK_INVALID) s;
       if missing_block file_map n_blocks then do {
         (_, s) \<leftarrow> ffs_page_i8_delete_file spi (of_nat i) s;
         mount_file n spi i s }
       else do {
         let s = s\<lparr>file_start := (file_start s)[i := FFS_BLOCK_INVALID]\<rparr>;
         s \<leftarrow> for_each (ffs_block_v_add_to_list (File_list i)) (takeWhile (\<lambda>b. b \<noteq> FFS_BLOCK_INVALID) file_map) s;
         (sz, s) \<leftarrow> ffs_page_i32_scan_file_size spi (of_nat i) s;
         let s = s\<lparr>file_size := (file_size s)[i := sz]\<rparr>;
         s \<leftarrow> (if sint sz < 0 then do {
                (_, s) \<leftarrow> ffs_page_i8_delete_file spi (of_nat i) s;
                Some s }
              else Some s);
         (r, s) \<leftarrow> ffs_page_i8_file_scan spi (of_nat i) s;
         if sint r < 0 then do {
           (_, s) \<leftarrow> ffs_page_i8_delete_file spi (of_nat i) s;
           mount_file n spi i s }
         else Some s } } }"

definition ffs_page_v_init :: "'c spi \<Rightarrow> 'c ffs \<Rightarrow> 'c ffs option" where
  "ffs_page_v_init spi s = do {
     let s = invalidate_cache s;
     let s = ffs_page_v_reset s;
     s \<leftarrow> for_each (collect_block spi) (map of_nat [0..<unat (total_blocks s)]) s;
     for_each (mount_file 2 spi) [0..<FFS_MAX_FILES] s }"

end
