(* ===== verification/Flash_Fs.thy ===== *)
theory Flash_Fs
  imports Ffs_Page
begin

text \<open>
  The top of the flash file system: the firmware partitions, \<open>src/src/sapphireos/ffs_fw.c\<close>, and the
  operations on files by id, \<open>src/src/sapphireos/flash_fs.c\<close>.
\<close>

section \<open>State\<close>

record 'c flash_fs =
  fs_ffs :: "'c ffs"
  fw_size :: u32
  fw_size1 :: u32
  fw_size2 :: u32
  ffs_fail :: bool

abbreviation (input) FIRMWARE_0_START :: u32 where "FIRMWARE_0_START \<equiv> 4096"
abbreviation (input) FIRMWARE_0_SIZE :: u32 where "FIRMWARE_0_SIZE \<equiv> 131072"
abbreviation (input) FIRMWARE_1_START :: u32 where "FIRMWARE_1_START \<equiv> 135168"
abbreviation (input) FIRMWARE_1_SIZE :: u32 where "FIRMWARE_1_SIZE \<equiv> 131072"
abbreviation (input) FIRMWARE_2_START :: u32 where "FIRMWARE_2_START \<equiv> 266240"
abbreviation (input) FIRMWARE_2_SIZE :: u32 where "FIRMWARE_2_SIZE \<equiv> 393216"
abbreviation (input) FW_INFO_ADDRESS :: u32 where "FW_INFO_ADDRESS \<equiv> 0x1fc"
abbreviation (input) FFS_FILE_ID_FIRMWARE_0 :: i8 where "FFS_FILE_ID_FIRMWARE_0 \<equiv> 23"
abbreviation (input) FFS_FILE_ID_FIRMWARE_1 :: i8 where "FFS_FILE_ID_FIRMWARE_1 \<equiv> 24"
abbreviation (input) FFS_FILE_ID_FIRMWARE_2 :: i8 where "FFS_FILE_ID_FIRMWARE_2 \<equiv> 25"
abbreviation (input) FFS_FILENAME_LEN :: nat where "FFS_FILENAME_LEN \<equiv> 32"
abbreviation (input) FFS_FILE_META_SIZE :: nat where "FFS_FILE_META_SIZE \<equiv> 128"
abbreviation (input) FFS_FILE_PAGE_META_0 :: u16 where "FFS_FILE_PAGE_META_0 \<equiv> 0"
abbreviation (input) FFS_FILE_PAGE_META_1 :: u16 where "FFS_FILE_PAGE_META_1 \<equiv> 1"
abbreviation (input) FFS_FILE_PAGE_DATA_0 :: u16 where "FFS_FILE_PAGE_DATA_0 \<equiv> 2"

definition on_flash :: "('c flash \<Rightarrow> 'c flash) \<Rightarrow> 'c flash_fs \<Rightarrow> 'c flash_fs" where
  "on_flash g s = s\<lparr>fs_ffs := (fs_ffs s)\<lparr>flash := g (flash (fs_ffs s))\<rparr>\<rparr>"

definition read_flash :: "'c spi \<Rightarrow> u32 \<Rightarrow> nat \<Rightarrow> 'c flash_fs \<Rightarrow> u8 list \<times> 'c flash_fs" where
  "read_flash spi address n s = (let (r, g) = fs_read spi address n (fs_ffs s) in (r, s\<lparr>fs_ffs := g\<rparr>))"

section \<open>Firmware partitions\<close>

definition erase_blocks :: "'c spi \<Rightarrow> u32 \<Rightarrow> nat \<Rightarrow> 'c flash_fs \<Rightarrow> 'c flash_fs" where
  "erase_blocks spi start n s =
     fold (\<lambda>i. on_flash (\<lambda>f. flash25_v_erase_4k spi (of_nat i * 4096 + start) (flash25_v_write_enable spi f))) [0..<n] s"

definition erase_fw_partition :: "'c spi \<Rightarrow> u8 \<Rightarrow> 'c flash_fs \<Rightarrow> 'c flash_fs" where
  "erase_fw_partition spi part s =
     (if part = 0 then erase_blocks spi FIRMWARE_0_START 32 s
      else if part = 2 then erase_blocks spi FIRMWARE_2_START 96 s
      else s)"

text \<open>The checksum over \<open>fw_size\<close> bytes, read in pieces of 64.\<close>

function fw_crc_from :: "'c spi \<Rightarrow> u32 \<Rightarrow> nat \<Rightarrow> u16 \<Rightarrow> 'c flash_fs \<Rightarrow> (u16 \<times> 'c flash_fs) option" where
  "fw_crc_from spi address len crc s =
     (if len = 0 then Some (crc, s)
      else do {
        let copy_len = (if 64 > len then len else 64);
        let (buf, s) = read_flash spi address copy_len s;
        crc \<leftarrow> crc_u16_partial_block crc buf (of_nat copy_len);
        fw_crc_from spi (address + of_nat copy_len) (len - copy_len) crc s })"
  by pat_completeness auto

termination fw_crc_from
  by (relation "measure (\<lambda>(spi, address, len, crc, s). len)") auto

definition ffs_fw_u16_crc :: "'c spi \<Rightarrow> 'c flash_fs \<Rightarrow> (u16 \<times> 'c flash_fs) option" where
  "ffs_fw_u16_crc spi s = do {
     (crc, s) \<leftarrow> fw_crc_from spi FIRMWARE_0_START (unat (fw_size s)) crc_u16_start s;
     Some (crc_u16_finish crc, s) }"

text \<open>
  The program memory of the processor is the argument \<open>prog\<close>; the length that the linker leaves in it is
  read at \<open>FW_INFO_ADDRESS\<close>.
\<close>

definition word_at :: "(u32 \<Rightarrow> u8) \<Rightarrow> u32 \<Rightarrow> u32" where
  "word_at prog a =
     ucast (prog a) OR push_bit 8 (ucast (prog (a + 1))) OR push_bit 16 (ucast (prog (a + 2)))
       OR push_bit 24 (ucast (prog (a + 3)))"

definition word_of :: "u8 list \<Rightarrow> u32" where
  "word_of bs = word_at (\<lambda>a. bs ! unat a) 0"

definition sys_v_get_fw_length :: "(u32 \<Rightarrow> u8) \<Rightarrow> u32" where
  "sys_v_get_fw_length prog = word_at prog FW_INFO_ADDRESS"

definition ffs_fw_u32_read_internal_length :: "(u32 \<Rightarrow> u8) \<Rightarrow> u32" where
  "ffs_fw_u32_read_internal_length prog =
     (let internal_length = word_at prog FW_INFO_ADDRESS + 2
      in if internal_length > 131072 then 131072 else internal_length)"

definition ffs_fw_u16_get_internal_crc :: "(u32 \<Rightarrow> u8) \<Rightarrow> u16" where
  "ffs_fw_u16_get_internal_crc prog =
     crc_u16_finish (fold (\<lambda>i crc. crc_u16_byte crc (prog (of_nat i)))
       [0..<unat (ffs_fw_u32_read_internal_length prog)] crc_u16_start)"

definition copy_firmware :: "'c spi \<Rightarrow> (u32 \<Rightarrow> u8) \<Rightarrow> nat \<Rightarrow> 'c flash_fs \<Rightarrow> 'c flash_fs" where
  "copy_firmware spi prog n s =
     fold (\<lambda>i. on_flash (flash25_v_write_byte spi (of_nat i + FIRMWARE_0_START) (prog (of_nat i)))) [0..<n] s"

definition ffs_fw_i8_init :: "'c spi \<Rightarrow> (u32 \<Rightarrow> u8) \<Rightarrow> 'c flash_fs \<Rightarrow> (i8 \<times> 'c flash_fs) option" where
  "ffs_fw_i8_init spi prog s = do {
     let (bs, s) = read_flash spi (FW_INFO_ADDRESS + FIRMWARE_1_START) 4 s;
     let s = s\<lparr>fw_size1 := word_of bs\<rparr>;
     let s = (if fw_size1 s > FIRMWARE_1_SIZE then s\<lparr>fw_size1 := 0\<rparr> else s);
     let s = s\<lparr>fw_size2 := FIRMWARE_2_SIZE\<rparr>;
     let sys_fw_length = sys_v_get_fw_length prog + 2;
     let (bs, s) = read_flash spi (FIRMWARE_0_START + FW_INFO_ADDRESS) 4 s;
     let s = s\<lparr>fw_size := word_of bs + 2\<rparr>;
     let s = (if fw_size s > FIRMWARE_0_SIZE then s\<lparr>fw_size := 0\<rparr> else s);
     (crc, s) \<leftarrow> ffs_fw_u16_crc spi s;
     if crc \<noteq> 0 then do {
       let s = erase_fw_partition spi 0 s;
       let s = copy_firmware spi prog (unat sys_fw_length) s;
       let s = s\<lparr>fw_size := sys_fw_length\<rparr>;
       (crc, s) \<leftarrow> ffs_fw_u16_crc spi s;
       if crc \<noteq> 0 then Some (FFS_STATUS_ERROR, s\<lparr>fw_size := 0\<rparr>)
       else Some (FFS_STATUS_OK, s) }
     else Some (FFS_STATUS_OK, s) }"

text \<open>\<open>cfg\<close>: what \<open>cfg_i8_get\<close> stores for \<open>CFG_PARAM_WIFI_FW_LEN\<close>, if anything.\<close>

definition fw2_init_thread :: "u32 option \<Rightarrow> 'c flash_fs \<Rightarrow> 'c flash_fs" where
  "fw2_init_thread cfg s =
     (let s = (case cfg of None \<Rightarrow> s | Some v \<Rightarrow> s\<lparr>fw_size2 := v\<rparr>)
      in s\<lparr>fw_size2 := fw_size2 s + 16\<rparr>)"

definition ffs_fw_u32_size :: "u8 \<Rightarrow> 'c flash_fs \<Rightarrow> u32" where
  "ffs_fw_u32_size part s =
     (if part = 0 then fw_size s else if part = 1 then fw_size1 s else fw_size2 s)"

definition ffs_fw_v_erase :: "'c spi \<Rightarrow> u8 \<Rightarrow> 'c flash_fs \<Rightarrow> 'c flash_fs" where
  "ffs_fw_v_erase spi part s =
     (if part = 0 then
        if fw_size s = 0 then s else (erase_fw_partition spi part s)\<lparr>fw_size := 0\<rparr>
      else if part = 2 then
        if fw_size2 s = 0 then s else (erase_fw_partition spi part s)\<lparr>fw_size2 := 0\<rparr>
      else s)"

text \<open>Reads answer the returned number with the bytes that were copied, writes take \<open>len\<close> bytes.\<close>

definition fw_read_at :: "'c spi \<Rightarrow> u32 \<Rightarrow> u32 \<Rightarrow> u32 \<Rightarrow> u32 \<Rightarrow> 'c flash_fs \<Rightarrow> (i32 \<times> u8 list) \<times> 'c flash_fs" where
  "fw_read_at spi start sz position len s =
     (if position > sz then ((scast FFS_STATUS_EOF, []), s)
      else
        (let read_len = (if position + len > sz then sz - position else len);
             (bs, s) = read_flash spi (position + start) (unat read_len) s
         in ((read_len, bs), s)))"

definition ffs_fw_i32_read :: "'c spi \<Rightarrow> u8 \<Rightarrow> u32 \<Rightarrow> u32 \<Rightarrow> 'c flash_fs \<Rightarrow> (i32 \<times> u8 list) \<times> 'c flash_fs" where
  "ffs_fw_i32_read spi part position len s =
     (if part = 0 then fw_read_at spi FIRMWARE_0_START (fw_size s) position len s
      else if part = 2 then fw_read_at spi FIRMWARE_2_START (fw_size2 s) position len s
      else ((scast FFS_STATUS_INVALID_FILE, []), s))"

definition fw_write_at :: "'c spi \<Rightarrow> u32 \<Rightarrow> u32 \<Rightarrow> u32 \<Rightarrow> u8 list \<Rightarrow> 'c flash_fs \<Rightarrow> i32 \<times> 'c flash_fs" where
  "fw_write_at spi start sz position dat s =
     (let len = of_nat (length dat);
          write_len = (if sz - position < len then sz - position else len)
      in (write_len, on_flash (flash25_v_write spi (position + start) (take (unat write_len) dat)) s))"

definition ffs_fw_i32_write :: "'c spi \<Rightarrow> u8 \<Rightarrow> u32 \<Rightarrow> u8 list \<Rightarrow> 'c flash_fs \<Rightarrow> i32 \<times> 'c flash_fs" where
  "ffs_fw_i32_write spi part position dat s =
     (if part = 0 then
        if position > FIRMWARE_0_SIZE then (scast FFS_STATUS_EOF, s)
        else (let (write_len, s) = fw_write_at spi FIRMWARE_0_START FIRMWARE_0_SIZE position dat s
              in (write_len, s\<lparr>fw_size := write_len + position\<rparr>))
      else if part = 2 then
        if position > FIRMWARE_2_SIZE then (scast FFS_STATUS_EOF, s)
        else (let (write_len, s) = fw_write_at spi FIRMWARE_2_START FIRMWARE_2_SIZE position dat s
              in (write_len, s\<lparr>fw_size2 := write_len + position\<rparr>))
      else (scast FFS_STATUS_INVALID_FILE, s))"

section \<open>Mounting and formatting\<close>

definition ffs_v_mount :: "'c spi \<Rightarrow> bool \<Rightarrow> 'c flash_fs \<Rightarrow> 'c flash_fs option" where
  "ffs_v_mount spi memory_left s = do {
     g \<leftarrow> ffs_block_v_init spi memory_left (fs_ffs s);
     g \<leftarrow> ffs_page_v_init spi g;
     Some (s\<lparr>fs_ffs := g\<rparr>) }"

definition ffs_v_format :: "'c spi \<Rightarrow> bool \<Rightarrow> 'c flash_fs \<Rightarrow> 'c flash_fs option" where
  "ffs_v_format spi memory_left s = do {
     let s = on_flash (flash25_v_write_enable spi) s;
     let s = on_flash (flash25_v_erase_chip spi) s;
     let s = on_flash flash25_v_unlock_block0 s;
     let s = on_flash (flash25_v_erase_4k spi 0) s;
     let s = on_flash flash25_v_unlock_block0 s;
     let s = on_flash (flash25_v_write_byte spi 16 2) s;
     ffs_v_mount spi memory_left s }"

text \<open>
  \<open>format_mode\<close>: the system runs in \<open>SYS_MODE_FORMAT\<close>.  The result is the state at the restart
  (\<^term>\<open>Inl\<close>) or after the function has returned (\<^term>\<open>Inr\<close>).
\<close>

definition ffs_v_init ::
  "'c spi \<Rightarrow> (u32 \<Rightarrow> u8) \<Rightarrow> bool \<Rightarrow> bool \<Rightarrow> 'c flash_fs \<Rightarrow> ('c flash_fs + 'c flash_fs) option" where
  "ffs_v_init spi prog format_mode memory_left s = do {
     let (capacity, f) = flash25_u32_capacity spi (flash (fs_ffs s));
     let s = on_flash (\<lambda>_. f) s;
     if capacity = 0 then Some (Inr (s\<lparr>fs_ffs := (fs_ffs s)\<lparr>ffs_warning := True\<rparr>, ffs_fail := True\<rparr>))
     else do {
       let (bs, s) = read_flash spi 16 1 s;
       if format_mode \<or> bs ! 0 \<noteq> 2 then do {
         s \<leftarrow> ffs_v_format spi memory_left s;
         Some (Inl s) }
       else do {
         (_, s) \<leftarrow> ffs_fw_i8_init spi prog s;
         s \<leftarrow> ffs_v_mount spi memory_left s;
         Some (Inr s) } } }"

section \<open>Space\<close>

definition ffs_u32_get_file_count :: "'c flash_fs \<Rightarrow> u32" where
  "ffs_u32_get_file_count s = (if ffs_fail s then 0 else ucast (ffs_page_u8_count_files (fs_ffs s)) + 2)"

definition ffs_u32_get_dirty_space :: "'c flash_fs \<Rightarrow> u32" where
  "ffs_u32_get_dirty_space s = (if ffs_fail s then 0 else ucast (dirty_blocks (fs_ffs s)) * 3264)"

definition ffs_u32_get_free_space :: "'c flash_fs \<Rightarrow> u32" where
  "ffs_u32_get_free_space s = (if ffs_fail s then 0 else ucast (free_blocks (fs_ffs s)) * 3264)"

definition ffs_u32_get_available_space :: "'c flash_fs \<Rightarrow> u32" where
  "ffs_u32_get_available_space s =
     (if ffs_fail s then 0 else ffs_u32_get_dirty_space s + ffs_u32_get_free_space s)"

definition ffs_u32_get_total_space :: "'c flash_fs \<Rightarrow> u32" where
  "ffs_u32_get_total_space s = (if ffs_fail s then 0 else ucast (total_blocks (fs_ffs s)) * 3264)"

section \<open>Files by id\<close>

definition ffs_i32_get_file_size :: "i8 \<Rightarrow> 'c flash_fs \<Rightarrow> i32 option" where
  "ffs_i32_get_file_size file_id s =
     (if ffs_fail s then Some (scast FFS_STATUS_ERROR)
      else if sint file_id < 0 then Some (scast FFS_STATUS_INVALID_FILE)
      else if file_id = FFS_FILE_ID_FIRMWARE_0 then Some (ffs_fw_u32_size 0 s)
      else if file_id = FFS_FILE_ID_FIRMWARE_1 then Some (ffs_fw_u32_size 1 s)
      else if file_id = FFS_FILE_ID_FIRMWARE_2 then Some (ffs_fw_u32_size 2 s)
      else do {
        require (sint file_id < int FFS_MAX_FILES);
        raw_size \<leftarrow> ffs_page_i32_file_size file_id (fs_ffs s);
        if sint raw_size < 0 then Some raw_size
        else if sint raw_size < int FFS_FILE_META_SIZE then Some (scast FFS_STATUS_ERROR)
        else Some (raw_size - 128) })"

text \<open>
  Strings are lists of bytes without the final zero.  \<open>strlcpy\<close> looks for the zero in the source, here
  in the 64 bytes of the page.
\<close>

definition c_string :: "u8 list \<Rightarrow> u8 list option" where
  "c_string bs = (if 0 \<in> set bs then Some (takeWhile (\<lambda>b. b \<noteq> 0) bs) else None)"

definition strlcpy :: "u8 list \<Rightarrow> nat \<Rightarrow> u8 list" where
  "strlcpy src max_len = take (max_len - 1) src"

definition ascii :: "string \<Rightarrow> u8 list" where
  "ascii s = map (\<lambda>c. of_nat (of_char c)) s"

definition ffs_i8_read_filename :: "'c spi \<Rightarrow> i8 \<Rightarrow> u8 \<Rightarrow> 'c flash_fs \<Rightarrow> ((i8 \<times> u8 list) \<times> 'c flash_fs) option" where
  "ffs_i8_read_filename spi file_id max_len s =
     (if ffs_fail s then Some ((FFS_STATUS_ERROR, []), s)
      else if sint file_id < 0 then Some ((FFS_STATUS_INVALID_FILE, []), s)
      else if file_id = FFS_FILE_ID_FIRMWARE_0 then
        Some ((FFS_STATUS_OK, strlcpy (ascii ''firmware.bin'') (unat max_len)), s)
      else if file_id = FFS_FILE_ID_FIRMWARE_1 then
        Some ((FFS_STATUS_OK, strlcpy (ascii ''firmware2.bin'') (unat max_len)), s)
      else if file_id = FFS_FILE_ID_FIRMWARE_2 then
        Some ((FFS_STATUS_OK, strlcpy (ascii ''wifi_firmware.bin'') (unat max_len)), s)
      else do {
        require (sint file_id < int FFS_MAX_FILES);
        (r, g) \<leftarrow> ffs_page_i8_read spi file_id FFS_FILE_PAGE_META_0 (fs_ffs s);
        let s = s\<lparr>fs_ffs := g\<rparr>;
        if sint r < 0 then Some ((FFS_STATUS_ERROR, []), s)
        else do {
          (_, dat) \<leftarrow> ffs_page_p_get_cached_page g;
          src \<leftarrow> c_string dat;
          Some ((FFS_STATUS_OK, strlcpy src (unat max_len)), s) } })"

text \<open>\<open>strncpy\<close> into the name of the metadata page: cut off at its size, filled up with zeros.\<close>

definition meta0_page :: "u8 list \<Rightarrow> u8 list" where
  "meta0_page filename =
     take FFS_FILENAME_LEN (filename @ replicate FFS_FILENAME_LEN 0)
       @ replicate (FFS_PAGE_DATA_SIZE - FFS_FILENAME_LEN) 0xff"

definition ffs_i8_create_file :: "'c spi \<Rightarrow> u8 list \<Rightarrow> 'c flash_fs \<Rightarrow> (i8 \<times> 'c flash_fs) option" where
  "ffs_i8_create_file spi filename s =
     (if ffs_fail s then Some (FFS_STATUS_ERROR, s)
      else do {
        (file, g) \<leftarrow> ffs_page_i8_create_file spi (fs_ffs s);
        if sint file < 0 then Some (file, s\<lparr>fs_ffs := g\<rparr>)
        else do {
          (r, g) \<leftarrow> ffs_page_i8_write spi file FFS_FILE_PAGE_META_0 0 (meta0_page filename) 64 g;
          if sint r < 0 then do {
            (_, g) \<leftarrow> ffs_page_i8_delete_file spi file g;
            Some (FFS_STATUS_ERROR, s\<lparr>fs_ffs := g\<rparr>) }
          else do {
            (r, g) \<leftarrow> ffs_page_i8_write spi file FFS_FILE_PAGE_META_1 0 (replicate FFS_PAGE_DATA_SIZE 0xff) 64 g;
            if sint r < 0 then do {
              (_, g) \<leftarrow> ffs_page_i8_delete_file spi file g;
              Some (FFS_STATUS_ERROR, s\<lparr>fs_ffs := g\<rparr>) }
            else Some (file, s\<lparr>fs_ffs := g\<rparr>) } } })"

definition ffs_i8_delete_file :: "'c spi \<Rightarrow> i8 \<Rightarrow> 'c flash_fs \<Rightarrow> (i8 \<times> 'c flash_fs) option" where
  "ffs_i8_delete_file spi file_id s =
     (if ffs_fail s then Some (FFS_STATUS_ERROR, s)
      else if sint file_id < 0 then Some (FFS_STATUS_INVALID_FILE, s)
      else if file_id = FFS_FILE_ID_FIRMWARE_0 then Some (FFS_STATUS_OK, ffs_fw_v_erase spi 0 s)
      else if file_id = FFS_FILE_ID_FIRMWARE_1 then Some (FFS_STATUS_OK, ffs_fw_v_erase spi 1 s)
      else if file_id = FFS_FILE_ID_FIRMWARE_2 then Some (FFS_STATUS_OK, ffs_fw_v_erase spi 2 s)
      else do {
        require (sint file_id < int FFS_MAX_FILES);
        (r, g) \<leftarrow> ffs_page_i8_delete_file spi file_id (fs_ffs s);
        Some (r, s\<lparr>fs_ffs := g\<rparr>) })"

text \<open>
  The read loop: every turn takes at least one byte, as it stops when there is nothing to take.
  \<open>acc\<close> is what has been copied so far.
\<close>

definition piece_length :: "u32 \<Rightarrow> u32 \<Rightarrow> u32 \<Rightarrow> u8 \<Rightarrow> u8" where
  "piece_length fsz position len plen =
     (let offset = (ucast (position mod 64) :: u8);
          read_len = (if 64 > len then ucast len else 64 :: u8);
          read_len = (if int (unat read_len) > int (unat plen) - int (unat offset) then plen - offset else read_len)
      in if fsz - position < ucast read_len then ucast (fsz - position) else read_len)"

lemma unat_ucast_u8_less [simp]: "x < 256 \<Longrightarrow> unat (ucast x :: u8) = unat x" for x :: u32
  by (simp add: unsigned_ucast_eq take_bit_nat_eq_self word_less_nat_alt)

lemma unat_ucast_u8_u32 [simp]: "unat (ucast (x :: u8) :: u32) = unat x"
  by (simp add: unsigned_ucast_eq take_bit_nat_eq_self unat8_less less_trans [OF unat8_less])

lemma piece_length_le:
  assumes "\<not> (ucast (position mod 64) :: u8) > plen"
  shows "unat (piece_length fsz position len plen) \<le> unat len"
    and "unat (piece_length fsz position len plen) \<le> unat plen - unat (ucast (position mod 64) :: u8)"
proof -
  define offset where "offset = (ucast (position mod 64) :: u8)"
  define r0 where "r0 = (if 64 > len then ucast len else 64 :: u8)"
  define r1 where "r1 = (if int (unat r0) > int (unat plen) - int (unat offset) then plen - offset else r0)"
  have o: "unat (plen - offset) = unat plen - unat offset" "unat offset \<le> unat plen"
    using assms by (simp_all add: offset_def unat_sub word_le_nat_alt not_less)
  have "unat r0 \<le> unat len"
  proof (cases "64 > len")
    case True
    then have "len < 256" by (simp add: word_less_nat_alt)
    then show ?thesis using True by (simp add: r0_def)
  next
    case False
    then show ?thesis by (simp add: r0_def word_less_nat_alt)
  qed
  moreover have "int (unat r0) > int (unat plen) - int (unat offset) \<longleftrightarrow> unat r0 > unat plen - unat offset"
    using o(2) by linarith
  ultimately have r1: "unat r1 \<le> unat len" "unat r1 \<le> unat plen - unat offset"
    unfolding r1_def using o(1) by (simp_all only: split: if_split) auto
  have p: "piece_length fsz position len plen = (if fsz - position < ucast r1 then ucast (fsz - position) else r1)"
    by (simp add: piece_length_def r1_def r0_def offset_def Let_def)
  have "unat (piece_length fsz position len plen) \<le> unat r1"
  proof (cases "fsz - position < ucast r1")
    case True
    then have "unat (fsz - position) < unat r1" by (simp add: word_less_nat_alt)
    moreover from this have "fsz - position < 256" using unat8_less [of r1] by (simp add: word_less_nat_alt)
    ultimately show ?thesis using True p by simp
  qed (simp add: p)
  then show "unat (piece_length fsz position len plen) \<le> unat len"
    and "unat (piece_length fsz position len plen) \<le> unat plen - unat (ucast (position mod 64) :: u8)"
    using r1 by (simp_all add: offset_def)
qed

function read_loop :: "'c spi \<Rightarrow> i8 \<Rightarrow> u32 \<Rightarrow> u32 \<Rightarrow> u32 \<Rightarrow> u8 list \<Rightarrow> 'c ffs \<Rightarrow> ((i32 \<times> u8 list) \<times> 'c ffs) option" where
  "read_loop spi file_id fsz position len acc s =
     (if len = 0 then Some ((of_nat (length acc), acc), s)
      else
        (let file_page = (ucast (position div 64) + FFS_FILE_PAGE_DATA_0 :: u16);
             offset = (ucast (position mod 64) :: u8)
         in case ffs_page_i8_read spi file_id file_page s of
              None \<Rightarrow> None
            | Some (r, s) \<Rightarrow>
                if sint r < 0 then Some ((scast FFS_STATUS_ERROR, acc), s)
                else (case ffs_page_p_get_cached_page s of
                    None \<Rightarrow> None
                  | Some (plen, dat) \<Rightarrow>
                      if offset > plen then Some ((scast FFS_STATUS_ERROR, acc), s)
                      else
                        (let read_len = piece_length fsz position len plen
                         in if read_len = 0 then Some ((scast FFS_STATUS_ERROR, acc), s)
                            else if unat offset + unat read_len > FFS_PAGE_DATA_SIZE then None
                            else read_loop spi file_id fsz (position + ucast read_len) (len - ucast read_len)
                                   (acc @ take (unat read_len) (drop (unat offset) dat)) s))))"
  by pat_completeness auto

lemma piece_decreases:
  assumes "\<not> (ucast (position mod 64) :: u8) > plen" and "piece_length fsz position len plen \<noteq> 0"
  shows "unat (len - ucast (piece_length fsz position len plen)) < unat len"
proof -
  let ?r = "piece_length fsz position len plen"
  have "unat ?r \<le> unat len" by (rule piece_length_le) fact
  moreover have "0 < unat ?r" using assms(2) by (simp add: unat_gt_0)
  moreover have "unat (len - ucast ?r) = unat len - unat ?r"
    using \<open>unat ?r \<le> unat len\<close> by (subst unat_sub) (simp_all add: word_le_nat_alt)
  ultimately show ?thesis by simp
qed

termination read_loop
  by (relation "measure (\<lambda>(spi, file_id, fsz, position, len, acc, s). unat len)") (auto simp: piece_decreases)

definition ffs_i32_read ::
  "'c spi \<Rightarrow> i8 \<Rightarrow> u32 \<Rightarrow> u32 \<Rightarrow> 'c flash_fs \<Rightarrow> ((i32 \<times> u8 list) \<times> 'c flash_fs) option" where
  "ffs_i32_read spi file_id position len s =
     (if ffs_fail s then Some ((scast FFS_STATUS_ERROR, []), s)
      else if sint file_id < 0 then Some ((scast FFS_STATUS_INVALID_FILE, []), s)
      else if file_id = FFS_FILE_ID_FIRMWARE_0 then Some (ffs_fw_i32_read spi 0 position len s)
      else if file_id = FFS_FILE_ID_FIRMWARE_1 then Some (ffs_fw_i32_read spi 1 position len s)
      else if file_id = FFS_FILE_ID_FIRMWARE_2 then Some (ffs_fw_i32_read spi 2 position len s)
      else do {
        require (sint file_id < int FFS_MAX_FILES);
        fsz \<leftarrow> ffs_i32_get_file_size file_id s;
        if sint fsz < 0 then Some ((scast FFS_STATUS_INVALID_FILE, []), s)
        else if position \<ge> fsz then Some ((scast FFS_STATUS_EOF, []), s)
        else do {
          (r, g) \<leftarrow> read_loop spi file_id fsz position len [] (fs_ffs s);
          Some (r, s\<lparr>fs_ffs := g\<rparr>) } })"

definition write_piece :: "u32 \<Rightarrow> u32 \<Rightarrow> u8" where
  "write_piece position len =
     (let offset = (ucast (position mod 64) :: u8);
          write_len = (if 64 > len then ucast len else 64 :: u8)
      in if write_len > 64 - offset then 64 - offset else write_len)"

lemma write_piece_bounds:
  "unat (write_piece position len) \<le> unat len"
  "unat (ucast (position mod 64) :: u8) + unat (write_piece position len) \<le> 64"
  "len \<noteq> 0 \<Longrightarrow> 0 < unat (write_piece position len)"
proof -
  define offset where "offset = (ucast (position mod 64) :: u8)"
  define w where "w = (if 64 > len then ucast len else 64 :: u8)"
  have "position mod 64 < 64" by (simp add: word_mod_less_divisor)
  then have o: "unat offset < 64" unfolding offset_def by (simp add: word_less_nat_alt)
  then have d: "unat (64 - offset) = 64 - unat offset" by (subst unat_sub) (simp_all add: word_le_nat_alt)
  have w: "unat w \<le> unat len" "len \<noteq> 0 \<Longrightarrow> 0 < unat w"
    by (cases "64 > len"; simp add: w_def word_less_nat_alt unat_gt_0 unat_eq_zero)+
  have p: "write_piece position len = (if w > 64 - offset then 64 - offset else w)"
    by (simp add: write_piece_def w_def offset_def Let_def)
  show "unat (write_piece position len) \<le> unat len"
    "unat (ucast (position mod 64) :: u8) + unat (write_piece position len) \<le> 64"
    "len \<noteq> 0 \<Longrightarrow> 0 < unat (write_piece position len)"
    using o d w unfolding p offset_def [symmetric] by (auto simp: word_less_nat_alt)
qed

text \<open>The write loop, with the data still to write; \<open>len\<close> is its length.\<close>

function write_loop :: "'c spi \<Rightarrow> i8 \<Rightarrow> u32 \<Rightarrow> u32 \<Rightarrow> u8 list \<Rightarrow> u32 \<Rightarrow> 'c ffs \<Rightarrow> (i32 \<times> 'c ffs) option" where
  "write_loop spi file_id position len dat total_written s =
     (if len = 0 then Some (total_written, s)
      else
        (let file_page = (ucast (position div 64) + FFS_FILE_PAGE_DATA_0 :: u16);
             offset = (ucast (position mod 64) :: u8);
             write_len = write_piece position len
         in case ffs_page_i8_write spi file_id file_page offset dat write_len s of
              None \<Rightarrow> None
            | Some (r, s) \<Rightarrow>
                if r \<noteq> FFS_STATUS_OK then Some (scast FFS_STATUS_ERROR, s)
                else write_loop spi file_id (position + ucast write_len) (len - ucast write_len)
                       (drop (unat write_len) dat) (total_written + ucast write_len) s))"
  by pat_completeness auto

lemma unat_minus_piece:
  "unat (len - ucast (write_piece position len)) = unat len - unat (write_piece position len)"
  using write_piece_bounds(1) [of position len] by (subst unat_sub) (simp_all add: word_le_nat_alt)

termination write_loop
proof (relation "measure (\<lambda>(spi, file_id, position, len, dat, total_written, s). unat len)", simp, goal_cases)
  case (1 spi file_id position len dat total_written s)
  then show ?case using write_piece_bounds(1) [of position len] write_piece_bounds(3) [where position = position and len = len] unat_minus_piece [of len position] by simp
qed

definition ffs_i32_write :: "'c spi \<Rightarrow> i8 \<Rightarrow> u32 \<Rightarrow> u8 list \<Rightarrow> 'c flash_fs \<Rightarrow> (i32 \<times> 'c flash_fs) option" where
  "ffs_i32_write spi file_id position dat s =
     (if ffs_fail s then Some (scast FFS_STATUS_ERROR, s)
      else if sint file_id < 0 then Some (scast FFS_STATUS_INVALID_FILE, s)
      else if file_id = FFS_FILE_ID_FIRMWARE_0 then Some (ffs_fw_i32_write spi 0 position dat s)
      else if file_id = FFS_FILE_ID_FIRMWARE_1 then Some (ffs_fw_i32_write spi 1 position dat s)
      else if file_id = FFS_FILE_ID_FIRMWARE_2 then Some (ffs_fw_i32_write spi 2 position dat s)
      else do {
        require (sint file_id < int FFS_MAX_FILES);
        fsz \<leftarrow> ffs_i32_get_file_size file_id s;
        if sint fsz < 0 then Some (scast FFS_STATUS_INVALID_FILE, s)
        else if position > fsz then Some (scast FFS_STATUS_EOF, s)
        else do {
          (r, g) \<leftarrow> write_loop spi file_id position (of_nat (length dat)) dat 0 (fs_ffs s);
          Some (r, s\<lparr>fs_ffs := g\<rparr>) } })"

section \<open>The garbage collector\<close>

text \<open>
  One turn of the inner loop of \<open>garbage_collector_thread\<close> up to the erase; what follows counts the erases of the
  block in the file \<open>gc_data\<close>, through \<open>fs.c\<close>.
\<close>

definition gc_erase_dirty :: "'c spi \<Rightarrow> 'c ffs \<Rightarrow> 'c ffs option" where
  "gc_erase_dirty spi s = do {
     (block, s) \<leftarrow> ffs_block_fb_get_dirty s;
     require (block \<noteq> FFS_BLOCK_INVALID);
     (_, s) \<leftarrow> ffs_block_i8_erase spi block s;
     Some s }"

end
