(* ===== verification/Ffs_Lists.thy ===== *)
theory Ffs_Lists
  imports Ffs_Block
begin

text \<open>
  The lists of blocks as sequences: every list of the file system is a chain through the one array
  \<open>next_block\<close>, no block is in two of them, and the list operations are the operations on sequences.
\<close>

section \<open>Chains\<close>

fun linked :: "u8 list \<Rightarrow> u8 \<Rightarrow> u8 list \<Rightarrow> bool" where
  "linked nx h [] \<longleftrightarrow> h = FFS_BLOCK_INVALID"
| "linked nx h (b # bs) \<longleftrightarrow> h = b \<and> unat b < length nx \<and> linked nx (nx ! unat b) bs"

lemma nth_update_other [simp]: "b \<noteq> c \<Longrightarrow> xs[unat b := x] ! unat c = xs ! unat c" for b c :: u8
proof -
  assume "b \<noteq> c"
  then have "unat b \<noteq> unat c" by (simp add: word_unat_eq_iff)
  then show ?thesis by simp
qed

lemma nth_update_other' [simp]: "c \<noteq> b \<Longrightarrow> xs[unat b := x] ! unat c = xs ! unat c" for b c :: u8
  by (rule nth_update_other) auto

lemma linked_members: "linked nx h bs \<Longrightarrow> b \<in> set bs \<Longrightarrow> unat b < length nx"
  by (induction nx h bs rule: linked.induct) auto

lemma linked_frame:
  assumes "length nx' = length nx" and "\<And>b. b \<in> set bs \<Longrightarrow> nx' ! unat b = nx ! unat b"
  shows "linked nx' h bs = linked nx h bs"
  using assms(2) by (induction bs arbitrary: h) (auto simp: assms(1))

lemma linked_update:
  "c \<notin> set bs \<Longrightarrow> linked (nx[unat c := x]) h bs = linked nx h bs"
  by (rule linked_frame) (auto intro!: nth_update_other)

lemma linked_append:
  assumes "linked nx h (bs @ [b])" and "distinct (bs @ [b])"
  shows "linked (nx[unat b := c]) h (bs @ b # cs) \<longleftrightarrow> linked (nx[unat b := c]) c cs"
  using assms
proof (induction bs arbitrary: h)
  case (Cons a bs)
  then have "nx[unat b := c] ! unat a = nx ! unat a" by auto
  with Cons show ?case by auto
qed auto

lemma linked_snoc_link:
  assumes "linked nx h bs" and "bs \<noteq> []" and "distinct bs" and "b \<notin> set bs" and "unat b < length nx"
  shows "linked ((nx[unat b := 255])[unat (last bs) := b]) h (bs @ [b])"
proof -
  obtain init l where bs: "bs = init @ [l]" using assms(2) by (metis append_butlast_last_id)
  have "linked (nx[unat b := 255]) h bs" using assms(1,4) by (simp add: linked_update)
  moreover have "nx[unat b := 255, unat l := b] ! unat b = 255" using assms(4,5) bs by simp
  ultimately show ?thesis
    using linked_append [of "nx[unat b := 255]" h init l b "[b]"] assms(3,5) by (simp add: bs)
qed

lemma linked_not_invalid:
  assumes "linked nx h bs" and "length nx \<le> 255"
  shows "FFS_BLOCK_INVALID \<notin> set bs" and "h = FFS_BLOCK_INVALID \<longleftrightarrow> bs = []"
proof -
  show "FFS_BLOCK_INVALID \<notin> set bs" using linked_members [OF assms(1)] assms(2) by force
  then show "h = FFS_BLOCK_INVALID \<longleftrightarrow> bs = []" using assms(1) by (cases bs) auto
qed

text \<open>The first part of a chain, which does not depend on the link of its last block.\<close>

fun segment :: "u8 list \<Rightarrow> u8 \<Rightarrow> u8 list \<Rightarrow> bool" where
  "segment nx h [] \<longleftrightarrow> True"
| "segment nx h [b] \<longleftrightarrow> h = b \<and> unat b < length nx"
| "segment nx h (b # bs) \<longleftrightarrow> h = b \<and> unat b < length nx \<and> segment nx (nx ! unat b) bs"

lemma linked_split:
  "linked nx h (xs @ ys) \<longleftrightarrow> segment nx h xs \<and> linked nx (if xs = [] then h else nx ! unat (last xs)) ys"
  by (induction nx h xs rule: segment.induct) auto

lemma segment_frame:
  assumes "length nx' = length nx" and "\<And>b. b \<in> set (butlast xs) \<Longrightarrow> nx' ! unat b = nx ! unat b"
  shows "segment nx' h xs = segment nx h xs"
  using assms(2)
proof (induction xs arbitrary: h)
  case (Cons b bs)
  then show ?case by (cases bs) (auto simp: assms(1))
qed simp

section \<open>Walks\<close>

lemma next_of_in: "unat b < length (next_block s) \<Longrightarrow> next_of b s = Some (next_block s ! unat b)"
  by (simp add: next_of_def)

lemma set_next_in: "unat b < length (next_block s) \<Longrightarrow> set_next b x s = Some (s\<lparr>next_block := (next_block s)[unat b := x]\<rparr>)"
  by (simp add: set_next_def)

abbreviation sized :: "'c ffs \<Rightarrow> bool" where
  "sized s \<equiv> length (next_block s) = unat (total_blocks s) \<and> length (next_block s) \<le> 254"

lemma last_from_chain:
  assumes size: "sized s" and "linked (next_block s) h bs" and "bs \<noteq> []" and "length bs \<le> n"
  shows "last_from n s h = Some (last bs)"
  using assms(2-)
proof (induction bs arbitrary: h n)
  case (Cons b bs)
  then obtain n' where n: "n = Suc n'" by (cases n) auto
  have nx: "linked (next_block s) (next_block s ! unat b) bs" "unat b < unat (total_blocks s)" "h = b"
    using Cons.prems(1) size by auto
  show ?case
  proof (cases "bs = []")
    case True
    then show ?thesis using nx by (simp add: n next_of_def size word_less_nat_alt)
  next
    case False
    then have "next_block s ! unat b \<noteq> FFS_BLOCK_INVALID" using linked_not_invalid(2) [OF nx(1)] size by simp
    then show ?thesis using nx Cons.IH [OF nx(1) False, of n'] Cons.prems(3) False
      by (simp add: n next_of_def size word_less_nat_alt)
  qed
qed simp

lemma list_size_from_chain:
  assumes size: "sized s" and "linked (next_block s) h bs" and "length bs < n"
  shows "list_size_from n s h c = Some (c + of_nat (length bs))"
  using assms(2-)
proof (induction bs arbitrary: h n c)
  case Nil
  then show ?case by (cases n) auto
next
  case (Cons b bs)
  then obtain n' where n: "n = Suc n'" by (cases n) auto
  have "h \<noteq> FFS_BLOCK_INVALID" using linked_not_invalid(2) [OF Cons.prems(1)] size by simp
  then show ?case using Cons.prems Cons.IH [of "next_block s ! unat b" n' "c + 1"] size
    by (simp add: n next_of_def word_less_nat_alt add.assoc)
qed

lemma in_list_from_chain:
  assumes size: "sized s" and "linked (next_block s) h bs" and "length bs < n"
  shows "in_list_from n s b h = Some (b \<in> set bs)"
  using assms(2-)
proof (induction bs arbitrary: h n)
  case Nil
  then show ?case by (cases n) auto
next
  case (Cons a bs)
  then obtain n' where n: "n = Suc n'" by (cases n) auto
  have "h \<noteq> FFS_BLOCK_INVALID" using linked_not_invalid(2) [OF Cons.prems(1)] size by simp
  then show ?case using Cons.prems Cons.IH [of "next_block s ! unat a" n'] size
    by (auto simp: n next_of_def word_less_nat_alt)
qed

lemma get_block_from_chain:
  assumes size: "sized s" and "linked (next_block s) h bs"
  shows "get_block_from i s h = Some (if i < length bs then bs ! i else FFS_BLOCK_INVALID)"
  using assms(2-)
proof (induction i arbitrary: h bs)
  case 0
  then show ?case by (cases bs) auto
next
  case (Suc i)
  show ?case
  proof (cases bs)
    case (Cons b cs)
    have "h \<noteq> FFS_BLOCK_INVALID" using linked_not_invalid(2) [OF Suc.prems] size Cons by simp
    then show ?thesis using Suc.prems Suc.IH [of "next_block s ! unat b" cs] Cons by (simp add: next_of_def)
  qed (use Suc.prems in simp)
qed

text \<open>The block before another one.\<close>

lemma seek_before_chain:
  assumes size: "sized s" and "linked (next_block s) h (pre @ p # b # post)" and "b \<notin> set (pre @ [p])" and "length pre < n"
  shows "seek_before n s b h = Some p"
  using assms(2-)
proof (induction pre arbitrary: h n)
  case Nil
  then obtain n' where "n = Suc n'" by (cases n) auto
  then show ?case using Nil by (auto simp: next_of_def)
next
  case (Cons a pre)
  then obtain n' where n: "n = Suc n'" by (cases n) auto
  have l: "linked (next_block s) (next_block s ! unat a) (pre @ p # b # post)" "h = a" "unat a < length (next_block s)"
    using Cons.prems(1) by auto
  have "next_block s ! unat a = hd (pre @ [p])" using l(1) by (cases pre) auto
  then have "next_block s ! unat a \<noteq> b" using Cons.prems(2) by (cases pre) auto
  moreover have "next_block s ! unat a \<noteq> FFS_BLOCK_INVALID" using linked_not_invalid(2) [OF l(1)] size by simp
  ultimately show ?case using Cons.IH [OF l(1), of n'] Cons.prems(2,3) l by (simp add: n next_of_def)
qed

section \<open>All lists of the file system\<close>

definition lists_rep :: "'c ffs \<Rightarrow> (block_list \<Rightarrow> u8 list) \<Rightarrow> bool" where
  "lists_rep s L \<longleftrightarrow>
     sized s \<and> length (file_start s) = FFS_MAX_FILES
     \<and> (\<forall>l. case head_of l s of None \<Rightarrow> L l = [] | Some h \<Rightarrow> linked (next_block s) h (L l))
     \<and> (\<forall>l. distinct (L l)) \<and> (\<forall>l l' b. b \<in> set (L l) \<longrightarrow> b \<in> set (L l') \<longrightarrow> l = l')
     \<and> unat (free_blocks s) = length (L Free_list) \<and> unat (dirty_blocks s) = length (L Dirty_list)"

text \<open>What the list operations leave alone.\<close>

definition same_storage :: "'c ffs \<Rightarrow> 'c ffs \<Rightarrow> bool" where
  "same_storage s s' \<longleftrightarrow>
     flash s' = flash s \<and> index_cache_block s' = index_cache_block s \<and> index_cache_index s' = index_cache_index s
     \<and> total_blocks s' = total_blocks s \<and> file_size s' = file_size s \<and> page_len s' = page_len s
     \<and> page_data s' = page_data s \<and> page_crc s' = page_crc s \<and> cache_page_number s' = cache_page_number s
     \<and> cache_file_id s' = cache_file_id s"

lemma same_storage_refl [simp]: "same_storage s s"
  by (simp add: same_storage_def)

lemma same_storage_trans: "same_storage s s' \<Longrightarrow> same_storage s' s'' \<Longrightarrow> same_storage s s''"
  by (simp add: same_storage_def)

lemma lists_repD:
  assumes "lists_rep s L"
  shows "sized s" and "head_of l s = Some h \<Longrightarrow> linked (next_block s) h (L l)" and "distinct (L l)"
    and "b \<in> set (L l) \<Longrightarrow> b \<in> set (L l') \<Longrightarrow> l = l'"
    and "unat (free_blocks s) = length (L Free_list)" and "unat (dirty_blocks s) = length (L Dirty_list)"
    and "head_of l s = None \<Longrightarrow> L l = []" and "b \<in> set (L l) \<Longrightarrow> unat b < length (next_block s)"
proof -
  have l: "case head_of l s of None \<Rightarrow> L l = [] | Some h \<Rightarrow> linked (next_block s) h (L l)"
    using assms by (simp add: lists_rep_def)
  then show "head_of l s = Some h \<Longrightarrow> linked (next_block s) h (L l)" "head_of l s = None \<Longrightarrow> L l = []" by simp_all
  show "b \<in> set (L l) \<Longrightarrow> unat b < length (next_block s)"
    using l by (auto split: option.splits dest: linked_members)
qed (use assms in \<open>auto simp: lists_rep_def\<close>)

lemma list_length_bound:
  assumes "\<And>b. b \<in> set bs \<Longrightarrow> unat b < n" and "distinct (bs :: u8 list)"
  shows "length bs \<le> n"
proof -
  have "inj_on unat (set bs)" by (auto simp: inj_on_def word_unat_eq_iff)
  then have "card (set bs) = card (unat ` set bs)" by (simp add: card_image)
  also have "\<dots> \<le> card {..<n}" using assms(1) by (intro card_mono) auto
  finally show ?thesis using distinct_card [OF assms(2)] by simp
qed

lemma list_length:
  assumes "lists_rep s L"
  shows "length (L l) \<le> 254" and "length (L l) < 256"
proof -
  have "length (L l) \<le> length (next_block s)"
    by (rule list_length_bound) (use lists_repD(3,8) [OF assms] in auto)
  then show "length (L l) \<le> 254" "length (L l) < 256" using lists_repD(1) [OF assms] by auto
qed

lemma lists_repI:
  assumes "sized s" and "length (file_start s) = FFS_MAX_FILES"
    and "\<And>l. case head_of l s of None \<Rightarrow> L l = [] | Some h \<Rightarrow> linked (next_block s) h (L l)"
    and "\<And>l. distinct (L l)" and "\<And>l l' b. b \<in> set (L l) \<Longrightarrow> b \<in> set (L l') \<Longrightarrow> l = l'"
    and "unat (free_blocks s) = length (L Free_list)" and "unat (dirty_blocks s) = length (L Dirty_list)"
  shows "lists_rep s L"
  using assms unfolding lists_rep_def by blast

lemma add_list_correct:
  assumes rep: "lists_rep s L" and b: "unat b < length (next_block s)" "\<And>l'. b \<notin> set (L l')" and h: "head_of l s = Some h"
  obtains s' where "ffs_block_v_add_to_list l b s = Some s'" and "lists_rep s' (L(l := L l @ [b]))" and "same_storage s s'"
proof -
  note d = lists_repD [OF rep]
  have lnk: "linked (next_block s) h (L l)" using d(2) [OF h] .
  have "length (L l @ [b]) \<le> length (next_block s)"
    by (rule list_length_bound) (use d(3,8) b in auto)
  then have len: "length (L l @ [b]) \<le> 254" using d(1) by linarith
  let ?nx = "(next_block s)[unat b := 255]"
  let ?nx' = "if L l = [] then ?nx else ?nx[unat (last (L l)) := b]"
  let ?s = "s\<lparr>next_block := ?nx\<rparr>"
  define t where "t = count_block l ((if L l = [] then set_head l b else (\<lambda>s. s)) (s\<lparr>next_block := ?nx'\<rparr>))"
  have inv: "h = FFS_BLOCK_INVALID \<longleftrightarrow> L l = []" using linked_not_invalid(2) [OF lnk] d(1) by simp
  have run: "ffs_block_v_add_to_list l b s = Some t"
  proof (cases "L l = []")
    case True
    have "head_of l ?s = Some h" using h by (cases l) simp_all
    then show ?thesis using True b inv
      by (cases l) (simp_all add: ffs_block_v_add_to_list_def set_next_in count_block_def t_def)
  next
    case False
    have hs: "head_of l ?s = Some h" using h by (cases l) simp_all
    have "linked ?nx h (L l)" using lnk b(2) by (simp add: linked_update)
    then have "last_from WALK ?s h = Some (last (L l))"
      using last_from_chain [of ?s h "L l" WALK] d(1) False len by simp
    moreover have "unat (last (L l)) < length ?nx" using d(8) [OF last_in_set [OF False]] by simp
    moreover have "b < total_blocks ?s" using b(1) d(1) by (simp add: word_less_nat_alt)
    ultimately show ?thesis using hs False inv b(1)
      by (simp add: ffs_block_v_add_to_list_def set_next_in t_def)
  qed
  have nx: "length ?nx' = length (next_block s)" by simp
  have heads: "head_of l' t = (if l' = l \<and> L l = [] then Some b else head_of l' s)" for l'
    using h by (cases l; cases l') (auto simp: t_def count_block_def rd_def split: if_splits)
  have chains: "case head_of l' t of None \<Rightarrow> (L(l := L l @ [b])) l' = [] | Some h' \<Rightarrow> linked ?nx' h' ((L(l := L l @ [b])) l')" for l'
  proof (cases "l' = l")
    case True
    then show ?thesis using heads h linked_snoc_link [OF lnk _ d(3) b(2) b(1)] b(1) by auto
  next
    case False
    have "c \<noteq> b \<and> (L l \<noteq> [] \<longrightarrow> c \<noteq> last (L l))" if "c \<in> set (L l')" for c
      using that b(2) d(4) False last_in_set by blast
    then have "linked ?nx' h' (L l') = linked (next_block s) h' (L l')" for h'
      by (intro linked_frame) auto
    then show ?thesis using False heads [of l'] d(2,7) by (auto split: option.splits)
  qed
  have nb: "next_block t = ?nx'" "length (file_start t) = length (file_start s)" "total_blocks t = total_blocks s"
    by (cases l; simp add: count_block_def t_def)+
  have "lists_rep t (L(l := L l @ [b]))"
  proof (rule lists_repI)
    show "sized t" using d(1) by (simp add: nb)
    show "length (file_start t) = FFS_MAX_FILES" using rep by (simp add: nb lists_rep_def)
    show "case head_of l' t of None \<Rightarrow> (L(l := L l @ [b])) l' = [] | Some h \<Rightarrow> linked (next_block t) h ((L(l := L l @ [b])) l')" for l'
      unfolding nb by (rule chains)
    show "distinct ((L(l := L l @ [b])) l')" for l' using d(3) b(2) by simp
    show "c \<in> set ((L(l := L l @ [b])) l1) \<Longrightarrow> c \<in> set ((L(l := L l @ [b])) l2) \<Longrightarrow> l1 = l2" for c l1 l2
      using d(4) b(2) by (auto split: if_splits)
    show "unat (free_blocks t) = length ((L(l := L l @ [b])) Free_list)"
      using d(5) len by (cases l) (simp_all add: count_block_def t_def unat_word_ariths)
    show "unat (dirty_blocks t) = length ((L(l := L l @ [b])) Dirty_list)"
      using d(6) len by (cases l) (simp_all add: count_block_def t_def unat_word_ariths)
  qed
  moreover have "same_storage s t" by (cases l) (simp_all add: same_storage_def count_block_def t_def)
  ultimately show ?thesis using run that by blast
qed

text \<open>Taking a block from the front of a list; the two uses differ in a counter only.\<close>

lemma linked_front:
  assumes "lists_rep s L" and "head_of l s = Some h" and "L l = b # bs"
  shows "h = b" and "unat b < length (next_block s)" and "linked ((next_block s)[unat b := 255]) (next_block s ! unat b) bs"
    and "l' \<noteq> l \<Longrightarrow> linked ((next_block s)[unat b := 255]) h' (L l') = linked (next_block s) h' (L l')"
proof -
  note d = lists_repD [OF assms(1)]
  have lnk: "linked (next_block s) h (b # bs)" using d(2) [OF assms(2)] assms(3) by simp
  then show "h = b" "unat b < length (next_block s)" by simp_all
  have "b \<notin> set bs" using d(3) [of l] assms(3) by simp
  then show "linked ((next_block s)[unat b := 255]) (next_block s ! unat b) bs" using lnk by (simp add: linked_update)
  show "linked ((next_block s)[unat b := 255]) h' (L l') = linked (next_block s) h' (L l')" if "l' \<noteq> l"
    using d(4) [of b l l'] that assms(3) by (intro linked_update) auto
qed

lemma alloc_correct:
  assumes rep: "lists_rep s L" and free: "L Free_list = b # bs"
  obtains s' where "ffs_block_fb_alloc s = Some (b, s')" and "lists_rep s' (L(Free_list := bs))" and "same_storage s s'"
proof -
  note d = lists_repD [OF rep]
  have h: "head_of Free_list s = Some (free_list s)" by simp
  note front = linked_front [OF rep h free]
  define t where "t = s\<lparr>next_block := (next_block s)[unat b := 255], free_blocks := free_blocks s - 1,
      free_list := next_block s ! unat b, block_allocs := block_allocs s + 1\<rparr>"
  have n: "free_blocks s \<noteq> 0" using d(5) free by auto
  then have m: "unat (free_blocks s - 1) = length bs" using d(5) free by (simp add: unat_minus_one)
  have "ffs_block_fb_alloc s = Some (b, t)"
    using n front(1,2) by (simp add: ffs_block_fb_alloc_def next_of_in set_next_in t_def)
  moreover have heads: "head_of l t = (if l = Free_list then Some (next_block s ! unat b) else head_of l s)" for l
    by (cases l) (simp_all add: t_def)
  have "lists_rep t (L(Free_list := bs))"
  proof (rule lists_repI)
    show "case head_of l t of None \<Rightarrow> (L(Free_list := bs)) l = [] | Some h \<Rightarrow> linked (next_block t) h ((L(Free_list := bs)) l)" for l
    proof (cases "l = Free_list")
      case True
      then show ?thesis using front(3) by (simp add: heads) (simp add: t_def)
    next
      case False
      then show ?thesis using front(4) [OF False] d(2,7) [of l] by (auto simp: heads split: option.split) (simp add: t_def)
    qed
    show "distinct ((L(Free_list := bs)) l)" for l using d(3) [of l] free by (cases l) auto
    show "c \<in> set ((L(Free_list := bs)) l1) \<Longrightarrow> c \<in> set ((L(Free_list := bs)) l2) \<Longrightarrow> l1 = l2" for c l1 l2
      using d(4) [of c l1 l2] free by (auto split: if_splits)
  qed (use rep d(1,6) m in \<open>simp_all add: t_def lists_rep_def\<close>)
  moreover have "same_storage s t" by (simp add: same_storage_def t_def)
  ultimately show ?thesis using that by blast
qed

lemma get_dirty_correct:
  assumes rep: "lists_rep s L" and dirty: "L Dirty_list = b # bs"
  obtains s' where "ffs_block_fb_get_dirty s = Some (b, s')" and "lists_rep s' (L(Dirty_list := bs))" and "same_storage s s'"
proof -
  note d = lists_repD [OF rep]
  have h: "head_of Dirty_list s = Some (dirty_list s)" by simp
  note front = linked_front [OF rep h dirty]
  define t where "t = s\<lparr>next_block := (next_block s)[unat b := 255], dirty_blocks := dirty_blocks s - 1,
      dirty_list := next_block s ! unat b\<rparr>"
  have n: "dirty_blocks s \<noteq> 0" using d(6) dirty by auto
  then have m: "unat (dirty_blocks s - 1) = length bs" using d(6) dirty by (simp add: unat_minus_one)
  have "ffs_block_fb_get_dirty s = Some (b, t)"
    using n front(1,2) by (simp add: ffs_block_fb_get_dirty_def next_of_in set_next_in t_def)
  moreover have heads: "head_of l t = (if l = Dirty_list then Some (next_block s ! unat b) else head_of l s)" for l
    by (cases l) (simp_all add: t_def)
  have "lists_rep t (L(Dirty_list := bs))"
  proof (rule lists_repI)
    show "case head_of l t of None \<Rightarrow> (L(Dirty_list := bs)) l = [] | Some h \<Rightarrow> linked (next_block t) h ((L(Dirty_list := bs)) l)" for l
    proof (cases "l = Dirty_list")
      case True
      then show ?thesis using front(3) by (simp add: heads) (simp add: t_def)
    next
      case False
      then show ?thesis using front(4) [OF False] d(2,7) [of l] by (auto simp: heads split: option.split) (simp add: t_def)
    qed
    show "distinct ((L(Dirty_list := bs)) l)" for l using d(3) [of l] dirty by (cases l) auto
    show "c \<in> set ((L(Dirty_list := bs)) l1) \<Longrightarrow> c \<in> set ((L(Dirty_list := bs)) l2) \<Longrightarrow> l1 = l2" for c l1 l2
      using d(4) [of c l1 l2] dirty by (auto split: if_splits)
  qed (use rep d(1,5) m in \<open>simp_all add: t_def lists_rep_def\<close>)
  moreover have "same_storage s t" by (simp add: same_storage_def t_def)
  ultimately show ?thesis using that by blast
qed

lemma alloc_none:
  assumes "lists_rep s L" and "L Free_list = []"
  shows "ffs_block_fb_alloc s = Some (FFS_BLOCK_INVALID, s)"
  using lists_repD(5) [OF assms(1)] assms(2) by (simp add: ffs_block_fb_alloc_def unat_eq_zero)

text \<open>Replacing a block of a file by one that is in no list.\<close>

lemma replace_correct:
  assumes rep: "lists_rep s L" and l: "L (File_list i) = pre @ old # post" and h: "head_of (File_list i) s = Some h"
    and new: "unat new < length (next_block s)" "\<And>l. new \<notin> set (L l)"
  obtains s' where "ffs_block_v_replace_in_list (File_list i) old new s = Some s'"
    and "lists_rep s' (L(File_list i := pre @ new # post))" and "same_storage s s'"
proof -
  note d = lists_repD [OF rep]
  have lnk: "linked (next_block s) h (pre @ old # post)" using d(2) [OF h] l by simp
  have dist: "distinct (pre @ old # post)" using d(3) [of "File_list i"] l by simp
  have old: "unat old < length (next_block s)" "old \<noteq> new" using linked_members [OF lnk, of old] new(2) [of "File_list i"] l by auto
  have new': "new \<notin> set pre" "new \<notin> set post" using new(2) [of "File_list i"] l by auto
  have seg: "segment (next_block s) h pre" and tail: "linked (next_block s) (next_block s ! unat old) post"
    using lnk by (simp_all add: linked_split)
  have len: "length pre < 254" using list_length(1) [OF rep, of "File_list i"] l by simp
  have i: "i < length (file_start s)" using h by (simp add: rd_Some)
  let ?v = "next_block s ! unat old"
  define nx where "nx = (if pre = [] then next_block s else (next_block s)[unat (last pre) := new])[unat new := ?v]"
  define t where "t = (if pre = [] then set_head (File_list i) new else (\<lambda>s. s)) (s\<lparr>next_block := nx\<rparr>)"
  have run: "ffs_block_v_replace_in_list (File_list i) old new s = Some t"
  proof (cases "pre = []")
    case True
    then have "h = old" using lnk by simp
    then show ?thesis using True h i old new(1) d(1)
      by (simp add: ffs_block_v_replace_in_list_def word_less_nat_alt next_of_in set_next_in t_def nx_def)
  next
    case False
    then obtain init p where pre: "pre = init @ [p]" by (metis append_butlast_last_id)
    have "h = hd pre" using lnk False by (cases pre) auto
    then have "h \<noteq> old" using dist False by (cases pre) auto
    moreover have "seek_before WALK s old h = Some p"
      using seek_before_chain [of s h init p old post WALK] d(1) lnk dist len by (auto simp: pre)
    moreover have "unat p < length (next_block s)" "p \<noteq> old" using linked_members [OF lnk, of p] dist by (auto simp: pre)
    ultimately show ?thesis using False h old new(1) d(1)
      by (simp add: ffs_block_v_replace_in_list_def word_less_nat_alt next_of_in set_next_in t_def nx_def pre)
  qed
  have heads: "head_of l' t = (if l' = File_list i \<and> pre = [] then Some new else head_of l' s)" for l'
    using i by (cases l') (auto simp: t_def rd_def)
  have tail': "linked nx ?v post"
  proof -
    have "nx ! unat b = next_block s ! unat b" if "b \<in> set post" for b
    proof -
      have "set pre \<inter> set post = {}" using dist by auto
      then have "b \<noteq> new" "pre \<noteq> [] \<Longrightarrow> b \<noteq> last pre" using that new' last_in_set [of pre] by blast+
      then show ?thesis by (simp add: nx_def)
    qed
    then show ?thesis using tail by (subst linked_frame [of _ "next_block s"]) (auto simp: nx_def)
  qed
  have nxn: "nx ! unat new = ?v" "length nx = length (next_block s)" using new(1) by (auto simp: nx_def)
  have seg': "segment nx h pre"
  proof -
    have "nx ! unat b = next_block s ! unat b" if "b \<in> set (butlast pre)" for b
    proof -
      have "pre \<noteq> []" using that by auto
      then have "distinct (butlast pre @ [last pre])" using dist by simp
      then have "b \<noteq> last pre" using that by auto
      moreover have "b \<noteq> new" using in_set_butlastD [OF that] new'(1) by blast
      ultimately show ?thesis using \<open>pre \<noteq> []\<close> by (simp add: nx_def)
    qed
    then show ?thesis using seg by (subst segment_frame [of _ "next_block s"]) (auto simp: nx_def)
  qed
  have "nx ! unat (last pre) = new" if "pre \<noteq> []"
  proof -
    have "last pre \<noteq> new" "unat (last pre) < length (next_block s)"
      using that new' last_in_set [OF that] linked_members [OF lnk, of "last pre"] by auto
    then show ?thesis using that by (simp add: nx_def)
  qed
  then have chain: "linked nx (if pre = [] then new else h) (pre @ new # post)"
    using seg' tail' nxn new(1) by (simp add: linked_split)
  have nb: "next_block t = nx" "length (file_start t) = length (file_start s)" "total_blocks t = total_blocks s"
    "free_blocks t = free_blocks s" "dirty_blocks t = dirty_blocks s" by (simp_all add: t_def)
  have "lists_rep t (L(File_list i := pre @ new # post))"
  proof (rule lists_repI)
    show "case head_of l t of None \<Rightarrow> (L(File_list i := pre @ new # post)) l = []
        | Some h \<Rightarrow> linked (next_block t) h ((L(File_list i := pre @ new # post)) l)" for l
    proof (cases "l = File_list i")
      case True
      then show ?thesis using chain h heads [of l] by (auto simp: nb(1))
    next
      case False
      have "c \<noteq> new \<and> (pre \<noteq> [] \<longrightarrow> c \<noteq> last pre)" if "c \<in> set (L l)" for c
        using that False new(2) [of l] d(4) [of c l "File_list i"] by (auto simp: l)
      then have "linked nx h' (L l) = linked (next_block s) h' (L l)" for h'
        by (intro linked_frame) (auto simp: nx_def intro!: nth_update_other)
      then show ?thesis using False heads [of l] d(2,7) [of l] by (auto simp: nb(1) split: option.split)
    qed
    show "distinct ((L(File_list i := pre @ new # post)) l)" for l using d(3) [of l] dist new' by auto
    show "c \<in> set ((L(File_list i := pre @ new # post)) l1) \<Longrightarrow> c \<in> set ((L(File_list i := pre @ new # post)) l2) \<Longrightarrow> l1 = l2"
      for c l1 l2 using d(4) [of c l1 l2] new(2) l by (auto split: if_splits)
  qed (use rep d(1,5,6) in \<open>simp_all add: nb nxn lists_rep_def\<close>)
  moreover have "same_storage s t" by (simp add: same_storage_def t_def)
  ultimately show ?thesis using run that by blast
qed

end
