(* ===== verification/Ffs_Spec.thy ===== *)
theory Ffs_Spec
  imports Ffs_Page Ffs_Lists Flash_Chip
begin

text \<open>
  What the bytes of a block mean, and the block driver on a chip that keeps its promises (the locale
  \<open>flash_memory\<close>): the operations on headers and indexes read and write the bytes of their block and leave
  every other block alone.
\<close>

section \<open>The bytes of a block\<close>

abbreviation base :: "u8 \<Rightarrow> nat" where "base b \<equiv> 659456 + 4096 * unat b"

definition blk :: "(nat \<Rightarrow> u8) \<Rightarrow> u8 \<Rightarrow> nat \<Rightarrow> u8" where
  "blk m b i = (if i < 4096 then m (base b + i) else 0)"

lemma blk_written:
  assumes "off + length bs \<le> 4096"
  shows "blk (written m (base b + off) bs) c = (if c = b then written (blk m b) off bs else blk m c)"
proof (cases "c = b")
  case True
  then show ?thesis using assms by (auto simp: fun_eq_iff blk_def written_def)
next
  case False
  then have "unat c \<noteq> unat b" by (simp add: word_unat_eq_iff)
  then have "\<not> (base b + off \<le> base c + i \<and> base c + i < base b + off + length bs)" if "i < 4096" for i
    using that assms by auto
  then show ?thesis using False by (auto simp: fun_eq_iff blk_def written_def)
qed

definition blank :: "nat \<Rightarrow> u8" where
  "blank i = (if i < 4096 then 0xff else 0)"

lemma blk_erased: "blk (erased m (base b)) c = (if c = b then blank else blk m c)"
proof (cases "c = b")
  case False
  then have "unat c \<noteq> unat b" by (simp add: word_unat_eq_iff)
  then have "\<not> (base b \<le> base c + i \<and> base c + i < base b + 4096)" if "i < 4096" for i using that by auto
  then show ?thesis using False by (auto simp: fun_eq_iff blk_def erased_def)
qed (auto simp: fun_eq_iff blk_def erased_def blank_def)

definition bytes_at :: "(nat \<Rightarrow> u8) \<Rightarrow> nat \<Rightarrow> nat \<Rightarrow> u8 list" where
  "bytes_at B off n = map (\<lambda>i. B (off + i)) [0..<n]"

lemma length_bytes_at [simp]: "length (bytes_at B off n) = n"
  by (simp add: bytes_at_def)

lemma nth_bytes_at [simp]: "i < n \<Longrightarrow> bytes_at B off n ! i = B (off + i)"
  by (simp add: bytes_at_def)

lemma bytes_at_cong: "(\<And>i. i < n \<Longrightarrow> B (off + i) = B' (off + i)) \<Longrightarrow> bytes_at B off n = bytes_at B' off n"
  by (simp add: bytes_at_def)

lemma bytes_at_written: "bytes_at (written B off bs) off (length bs) = bs"
  by (rule nth_equalityI) (simp_all add: written_def)

abbreviation index_of :: "(nat \<Rightarrow> u8) \<Rightarrow> u8 list" where "index_of B \<equiv> bytes_at B 8 59"

text \<open>Two equal copies of a header.\<close>

definition meta_copies :: "(nat \<Rightarrow> u8) \<Rightarrow> bool" where
  "meta_copies B \<longleftrightarrow> bytes_at B 0 8 = bytes_at B 67 8"

definition index_copies :: "(nat \<Rightarrow> u8) \<Rightarrow> bool" where
  "index_copies B \<longleftrightarrow> bytes_at B 8 59 = bytes_at B 75 59"

section \<open>Addresses\<close>

lemma unat_small32: "n < 4294967296 \<Longrightarrow> unat (of_nat n :: u32) = n"
  by (rule unat_of_nat32)

lemma block_address [simp]: "unat (FFS_BLOCK_ADDRESS b) = base b"
proof -
  have "FFS_BLOCK_ADDRESS b = of_nat (base b)" by (simp add: FFS_BLOCK_ADDRESS_def)
  then show ?thesis using unat8_less [of b] by (simp only: unat_small32)
qed

lemma add_address: "unat (a + of_nat n :: u32) = unat a + n" if "unat a + n < 4294967296" for a :: u32
  using that by (simp add: unat_word_ariths unsigned_of_nat take_bit_nat_eq_self)

lemma header_addresses [simp]:
  "unat (FFS_META_0 b) = base b" "unat (FFS_META_0 b + 1) = base b + 1" "unat (FFS_META_1 b) = base b + 67"
  "unat (FFS_META_1 b + 1) = base b + 68" "unat (FFS_INDEX_0 b) = base b + 8" "unat (FFS_INDEX_1 b) = base b + 75"
proof -
  have b: "base b < 4000000000" using unat8_less [of b] by simp
  show m0: "unat (FFS_META_0 b) = base b" by (simp add: FFS_META_0_def)
  show "unat (FFS_META_0 b + 1) = base b + 1" using add_address [of "FFS_META_0 b" 1] b m0 by simp
  show m1: "unat (FFS_META_1 b) = base b + 67" using add_address [of "FFS_META_0 b" 67] b m0 by (simp add: FFS_META_1_def)
  show "unat (FFS_META_1 b + 1) = base b + 68" using add_address [of "FFS_META_1 b" 1] b m1 by simp
  show i0: "unat (FFS_INDEX_0 b) = base b + 8" using add_address [of "FFS_META_0 b" 8] b m0 by (simp add: FFS_INDEX_0_def)
  show "unat (FFS_INDEX_1 b) = base b + 75" using add_address [of "FFS_INDEX_0 b" 67] b i0 by (simp add: FFS_INDEX_1_def)
qed

lemma index_addresses [simp]:
  "unat (FFS_INDEX_0 b + ucast (i :: u8)) = base b + (8 + unat i)" "unat (FFS_INDEX_1 b + ucast i) = base b + (75 + unat i)"
proof -
  have b: "base b < 4000000000" using unat8_less [of b] by simp
  show "unat (FFS_INDEX_0 b + ucast i) = base b + (8 + unat i)" "unat (FFS_INDEX_1 b + ucast i) = base b + (75 + unat i)"
    using add_address [of "FFS_INDEX_0 b" "unat i"] add_address [of "FFS_INDEX_1 b" "unat i"] b unat8_less [of i]
    by simp_all
qed

lemma page_address_unat [simp]: "unat i < 59 \<Longrightarrow> unat (page_address b i) = base b + (134 + 67 * unat i)"
proof -
  assume i: "unat i < 59"
  have "page_address b i = FFS_BLOCK_ADDRESS b + of_nat (134 + 67 * unat i)"
    by (simp add: page_address_def Let_def)
  then show ?thesis using add_address [of "FFS_BLOCK_ADDRESS b" "134 + 67 * unat i"] i unat8_less [of b] by simp
qed

section \<open>Headers and indexes on a healthy chip\<close>

text \<open>All blocks at once; a write to one of them is an update of this function.\<close>

abbreviation blocks :: "('c \<Rightarrow> nat \<Rightarrow> u8) \<Rightarrow> 'c ffs \<Rightarrow> u8 \<Rightarrow> nat \<Rightarrow> u8" where
  "blocks cells s \<equiv> blk (cells (fl_chip (flash s)))"

definition index_cached :: "('c \<Rightarrow> nat \<Rightarrow> u8) \<Rightarrow> 'c ffs \<Rightarrow> bool" where
  "index_cached cells s \<longleftrightarrow>
     (index_cache_block s < total_blocks s \<longrightarrow> index_cache_index s = index_of (blocks cells s (index_cache_block s)))"

definition dirty_flags :: "(nat \<Rightarrow> u8) \<Rightarrow> nat \<Rightarrow> u8" where
  "dirty_flags B = B(1 := B 1 AND NOT FFS_FLAG_DIRTY, 68 := B 1 AND NOT FFS_FLAG_DIRTY)"

lemma written_single [simp]: "written m a [b] = m(a := b)"
  by (rule ext) (auto simp: written_def)

lemma programmable_single [simp]: "programmable m a [b] \<longleftrightarrow> b AND m a = b"
  by (simp add: programmable_def)

lemma programmable_blk:
  "off + length bs \<le> 4096 \<Longrightarrow> programmable m (base b + off) bs \<longleftrightarrow> programmable (blk m b) off bs"
  by (simp add: programmable_def blk_def add.assoc)

lemma three: "(3 :: nat) = Suc 2"
  by simp

lemmas first_tries =
  read_flags_tries.simps(2) [where tries = 2, folded three] read_meta_tries.simps(2) [where tries = 2, folded three]
  read_index_tries.simps(2) [where tries = 2, folded three] read_page_tries.simps(2) [where tries = 2, folded three]
  write_tries.simps(2) [where tries = 2, folded three]

lemma word_and_absorb [simp]: "(x AND y) AND x = x AND y" for x y :: "'a::len word"
  by (metis and.commute and.left_idem)

context flash_memory
begin

abbreviation usable :: "'c ffs \<Rightarrow> u8 \<Rightarrow> bool" where
  "usable s b \<equiv> ready (flash s) \<and> base b + 4096 \<le> cap"

lemma read_at:
  assumes "usable s b" and "unat a = base b + off" and "off + n \<le> 4096"
  shows "fs_read spi a n s = (bytes_at (blocks cells s b) off n, s)"
  using reads [of "flash s" a n] assms by (simp add: fs_read_def bytes_at_def blk_def add.assoc)

lemma read_byte_at:
  assumes "usable s b" and "unat a = base b + off" and "off < 4096"
  shows "fs_read_byte spi a s = (blocks cells s b off, s)"
  using read_byte [of "flash s" a] assms by (simp add: fs_read_byte_def blk_def)

lemma write_at:
  assumes "usable s b" and "unat a = base b + off" and "off + length bs \<le> 4096" and "programmable (blocks cells s b) off bs"
  shows "\<exists>f. fs_write spi a bs s = s\<lparr>flash := f\<rparr> \<and> ready f
    \<and> blk (cells (fl_chip f)) = (blocks cells s)(b := written (blocks cells s b) off bs)"
proof (intro exI conjI)
  show "fs_write spi a bs s = s\<lparr>flash := flash25_v_write spi a bs (flash s)\<rparr>" by (simp add: fs_write_def)
  have w: "ready (flash25_v_write spi a bs (flash s))"
    "cells (fl_chip (flash25_v_write spi a bs (flash s))) = written (cells (fl_chip (flash s))) (base b + off) bs"
    using writes [of "flash s" a bs] assms by (auto simp: programmable_blk)
  show "ready (flash25_v_write spi a bs (flash s))" by (rule w)
  show "blk (cells (fl_chip (flash25_v_write spi a bs (flash s)))) = (blocks cells s)(b := written (blocks cells s b) off bs)"
    unfolding w(2) by (rule ext) (use assms(3) in \<open>simp add: blk_written\<close>)
qed

lemma write_byte_at:
  assumes "usable s b" and "unat a = base b + off" and "off < 4096" and "x AND blocks cells s b off = x"
  shows "\<exists>f. fs_write_byte spi a x s = s\<lparr>flash := f\<rparr> \<and> ready f
    \<and> blk (cells (fl_chip f)) = (blocks cells s)(b := (blocks cells s b)(off := x))"
proof (intro exI conjI)
  show "fs_write_byte spi a x s = s\<lparr>flash := flash25_v_write_byte spi a x (flash s)\<rparr>" by (simp add: fs_write_byte_def)
  have w: "ready (flash25_v_write_byte spi a x (flash s))"
    "cells (fl_chip (flash25_v_write_byte spi a x (flash s))) = written (cells (fl_chip (flash s))) (base b + off) [x]"
    using writes_byte [of "flash s" a x] assms by (auto simp: blk_def)
  show "ready (flash25_v_write_byte spi a x (flash s))" by (rule w)
  show "blk (cells (fl_chip (flash25_v_write_byte spi a x (flash s)))) = (blocks cells s)(b := (blocks cells s b)(off := x))"
    unfolding w(2) by (rule ext) (use assms(3) in \<open>simp add: blk_written del: written_single\<close>, simp)
qed

lemma read_flags_healthy:
  assumes "usable s b" and "b < total_blocks s" and "blocks cells s b 1 = blocks cells s b 68"
  shows "ffs_block_u8_read_flags spi b s = Some (blocks cells s b 1, s)"
  using assms
  by (simp add: ffs_block_u8_read_flags_def first_tries read_byte_at [where b = b and off = 1] read_byte_at [where b = b and off = 68])

lemma set_dirty_healthy:
  assumes u: "usable s b" and "b < total_blocks s" and c: "blocks cells s b 1 = blocks cells s b 68"
  shows "\<exists>f. ffs_block_v_set_dirty spi b s = ffs_block_v_add_to_list Dirty_list b (s\<lparr>flash := f\<rparr>)
    \<and> ready f \<and> blk (cells (fl_chip f)) = (blocks cells s)(b := dirty_flags (blocks cells s b))"
proof -
  let ?B = "blocks cells s b"
  let ?x = "?B 1 AND NOT FFS_FLAG_DIRTY"
  obtain f where f: "fs_write_byte spi (FFS_META_0 b + 1) ?x s = s\<lparr>flash := f\<rparr>" "ready f"
      "blk (cells (fl_chip f)) = (blocks cells s)(b := ?B(1 := ?x))"
    using write_byte_at [OF u, of "FFS_META_0 b + 1" 1 ?x] by auto
  let ?s = "s\<lparr>flash := f\<rparr>"
  obtain g where g: "fs_write_byte spi (FFS_META_1 b + 1) ?x ?s = ?s\<lparr>flash := g\<rparr>" "ready g"
      "blk (cells (fl_chip g)) = (blocks cells s)(b := ?B(1 := ?x, 68 := ?x))"
    using write_byte_at [of ?s b "FFS_META_1 b + 1" 68 ?x] u f c by auto
  have "fs_read_byte spi (FFS_META_0 b + 1) (s\<lparr>flash := g\<rparr>) = (?x, s\<lparr>flash := g\<rparr>)"
    using read_byte_at [of "s\<lparr>flash := g\<rparr>" b "FFS_META_0 b + 1" 1] u g by simp
  then show ?thesis
    using f g assms by (intro exI [of _ g]) (simp add: ffs_block_v_set_dirty_def read_flags_healthy dirty_flags_def)
qed

lemma read_meta_healthy:
  assumes "usable s b" and "b < total_blocks s" and "meta_copies (blocks cells s b)"
    and "unat (blocks cells s b 0) < FFS_MAX_FILES" and "blocks cells s b 2 < total_blocks s"
  shows "ffs_block_i8_read_meta spi b s = Some (Some (meta_of (bytes_at (blocks cells s b) 0 8)), s)"
proof -
  have "fs_read spi (FFS_META_0 b) 8 s = (bytes_at (blocks cells s b) 0 8, s)"
    "fs_read spi (FFS_META_1 b) 8 s = (bytes_at (blocks cells s b) 0 8, s)"
    using read_at [of s b "FFS_META_0 b" 0 8] read_at [of s b "FFS_META_1 b" 67 8] assms(1,3) by (simp_all add: meta_copies_def)
  then show ?thesis using assms(2,4)
    by (simp add: ffs_block_i8_read_meta_def first_tries meta_of_def linorder_not_le [THEN iffD2, OF assms(5), unfolded numeral_2_eq_2] numeral_2_eq_2)
qed

lemma read_index_healthy:
  assumes "usable s b" and "b < total_blocks s" and "index_copies (blocks cells s b)" and "index_cached cells s"
  shows "ffs_block_i8_read_index spi b s
    = Some (FFS_STATUS_OK, s\<lparr>index_cache_index := index_of (blocks cells s b), index_cache_block := b\<rparr>)"
proof (cases "b = index_cache_block s")
  case True
  then show ?thesis using assms(2,4) by (simp add: ffs_block_i8_read_index_def index_cached_def)
next
  case False
  have "fs_read spi (FFS_INDEX_0 b) 59 s = (index_of (blocks cells s b), s)"
    "fs_read spi (FFS_INDEX_1 b) 59 s = (index_of (blocks cells s b), s)"
    using read_at [of s b "FFS_INDEX_0 b" 8 59] read_at [of s b "FFS_INDEX_1 b" 75 59] assms(1,3) by (simp_all add: index_copies_def)
  then show ?thesis using assms(2) False by (simp add: ffs_block_i8_read_index_def first_tries)
qed

lemma get_index_info_healthy:
  assumes "usable s b" and "b < total_blocks s" and "index_copies (blocks cells s b)" and "index_cached cells s"
  shows "ffs_block_i8_get_index_info spi b s
    = Some (Some (index_info (index_of (blocks cells s b))), s\<lparr>index_cache_index := index_of (blocks cells s b), index_cache_block := b\<rparr>)"
  using read_index_healthy [OF assms] by (simp add: ffs_block_i8_get_index_info_def)

text \<open>Both copies of a header.\<close>

lemma write_meta_healthy:
  assumes u: "usable s b" and t: "b < total_blocks s" and l: "length (meta_reserved meta) = 4"
    and p: "\<And>i. i < 8 \<Longrightarrow> blocks cells s b i = 0xff" "\<And>i. i < 8 \<Longrightarrow> blocks cells s b (67 + i) = 0xff"
    and m: "unat (meta_file_id meta) < FFS_MAX_FILES" "meta_block meta < total_blocks s"
  shows "\<exists>f. ffs_block_i8_write_meta spi b meta s = Some (FFS_STATUS_OK, s\<lparr>flash := f\<rparr>) \<and> ready f
    \<and> blk (cells (fl_chip f)) = (blocks cells s)(b := written (written (blocks cells s b) 0 (meta_bytes meta)) 67 (meta_bytes meta))"
proof -
  let ?B = "blocks cells s b" and ?bs = "meta_bytes meta"
  have len: "length ?bs = 8" using l by (simp add: meta_bytes_def)
  obtain f where f: "fs_write spi (FFS_META_0 b) ?bs s = s\<lparr>flash := f\<rparr>" "ready f"
      "blk (cells (fl_chip f)) = (blocks cells s)(b := written ?B 0 ?bs)"
    using write_at [OF u, of "FFS_META_0 b" 0 ?bs] len p(1) by (auto simp: programmable_blank)
  let ?s = "s\<lparr>flash := f\<rparr>"
  have "programmable (blocks cells ?s b) 67 ?bs"
    using p(2) len by (intro programmable_blank) (simp add: f written_def)
  then obtain g where g: "fs_write spi (FFS_META_1 b) ?bs ?s = ?s\<lparr>flash := g\<rparr>" "ready g"
      "blk (cells (fl_chip g)) = (blocks cells s)(b := written (written ?B 0 ?bs) 67 ?bs)"
    using write_at [of ?s b "FFS_META_1 b" 67 ?bs] u f len by auto
  let ?t = "s\<lparr>flash := g\<rparr>"
  have b0: "blocks cells ?t b i = ?bs ! i" "blocks cells ?t b (67 + i) = ?bs ! i" if "i < 8" for i
    using that len by (simp_all add: g written_def)
  then have "meta_copies (blocks cells ?t b)" by (simp add: meta_copies_def list_eq_iff_nth_eq)
  moreover have "blocks cells ?t b 0 = meta_file_id meta" "blocks cells ?t b 2 = meta_block meta"
    using b0(1) [of 0] b0(1) [of 2] by (simp_all add: meta_bytes_def)
  ultimately have "\<exists>r. ffs_block_i8_read_meta spi b ?t = Some (Some r, ?t)"
    using read_meta_healthy [of ?t b] u t m g(2) by auto
  then show ?thesis using f(1) g by (auto simp: ffs_block_i8_write_meta_def)
qed

lemma set_index_healthy:
  assumes u: "usable s b" and i: "unat i < FFS_PAGES_PER_BLOCK" and n: "unat n < FFS_DATA_PAGES_PER_BLOCK"
    and p: "blocks cells s b (8 + unat i) = 0xff" "blocks cells s b (75 + unat i) = 0xff"
  shows "\<exists>f. ffs_block_i8_set_index_entry spi b n i s
      = Some (FFS_STATUS_OK, s\<lparr>index_cache_index := (if b = index_cache_block s then (index_cache_index s)[unat i := n] else index_cache_index s),
          flash := f\<rparr>)
    \<and> ready f \<and> blk (cells (fl_chip f)) = (blocks cells s)(b := (blocks cells s b)(8 + unat i := n, 75 + unat i := n))"
proof -
  let ?B = "blocks cells s b"
  let ?x = "if b = index_cache_block s then (index_cache_index s)[unat i := n] else index_cache_index s"
  define c where "c = (if b = index_cache_block s then s\<lparr>index_cache_index := (index_cache_index s)[unat i := n]\<rparr> else s)"
  have c: "c = s\<lparr>index_cache_index := ?x\<rparr>" "flash c = flash s" by (simp_all add: c_def)
  have ff: "n AND 0xff = n" using programmable_blank [of "[n]" "\<lambda>_. 0xff" 0] by simp
  obtain f where f: "fs_write_byte spi (FFS_INDEX_0 b + ucast i) n c = c\<lparr>flash := f\<rparr>" "ready f"
      "blk (cells (fl_chip f)) = (blocks cells s)(b := ?B(8 + unat i := n))"
    using write_byte_at [of c b "FFS_INDEX_0 b + ucast i" "8 + unat i" n] u i p ff by (auto simp: c(2))
  obtain g where g: "fs_write_byte spi (FFS_INDEX_1 b + ucast i) n (c\<lparr>flash := f\<rparr>) = c\<lparr>flash := g\<rparr>" "ready g"
      "blk (cells (fl_chip g)) = (blocks cells s)(b := ?B(8 + unat i := n, 75 + unat i := n))"
    using write_byte_at [of "c\<lparr>flash := f\<rparr>" b "FFS_INDEX_1 b + ucast i" "75 + unat i" n] u i p ff f by auto
  let ?t = "c\<lparr>flash := g\<rparr>"
  have "fs_read_byte spi (FFS_INDEX_0 b + ucast i) ?t = (n, ?t)" "fs_read_byte spi (FFS_INDEX_1 b + ucast i) ?t = (n, ?t)"
    using read_byte_at [of ?t b "FFS_INDEX_0 b + ucast i" "8 + unat i"] read_byte_at [of ?t b "FFS_INDEX_1 b + ucast i" "75 + unat i"]
      u i g by simp_all
  then have "ffs_block_i8_set_index_entry spi b n i s = Some (FFS_STATUS_OK, ?t)"
    using f(1) g(1) i n by (simp add: ffs_block_i8_set_index_entry_def flip: c_def)
  then show ?thesis using g unfolding c(1) by blast
qed

lemma erase_healthy:
  assumes "usable s b"
  shows "\<exists>f. ffs_block_i8_erase spi b s = do {
      s \<leftarrow> ffs_block_v_add_to_list Free_list b (s\<lparr>index_cache_block := (if index_cache_block s = b then FFS_BLOCK_INVALID else index_cache_block s), flash := f\<rparr>);
      Some (FFS_STATUS_OK, s) }
    \<and> ready f \<and> blk (cells (fl_chip f)) = (blocks cells s)(b := blank)"
proof -
  let ?f = "flash25_v_erase_4k spi (FFS_BLOCK_ADDRESS b) (flash25_v_write_enable spi (flash s))"
  have "base b mod 4096 = 0" by presburger
  then have e: "ready ?f" "cells (fl_chip ?f) = erased (cells (fl_chip (flash s))) (base b)"
    using erases [of "flash s" "FFS_BLOCK_ADDRESS b"] assms by simp_all
  have "blk (cells (fl_chip ?f)) = (blocks cells s)(b := blank)" unfolding e(2) by (rule ext) (simp add: blk_erased)
  then show ?thesis using e(1) by (intro exI [of _ ?f]) (simp add: ffs_block_i8_erase_def Let_def)
qed

end

section \<open>The scan of an index\<close>

text \<open>An index whose entries are used from the front.\<close>

definition index_used :: "u8 list \<Rightarrow> nat \<Rightarrow> bool" where
  "index_used index n \<longleftrightarrow> n \<le> length index \<and> (\<forall>i < n. unat (index ! i) < FFS_DATA_PAGES_PER_BLOCK)
     \<and> (\<forall>i < length index. n \<le> i \<longrightarrow> index ! i = 0xff)"

lemma scan_used_prefix:
  assumes "\<forall>x \<in> set xs. unat (snd x) < 51" and "phy_next_free info = - 1"
  shows "phy_next_free (fold scan_entry xs info) = - 1"
  using assms by (induction xs arbitrary: info) (auto simp: scan_entry_def Let_def)

lemma scan_keeps_free:
  assumes "sint (phy_next_free info) \<ge> 0"
  shows "phy_next_free (fold scan_entry xs info) = phy_next_free info"
  using assms by (induction xs arbitrary: info) (auto simp: scan_entry_def Let_def split: prod.split)

lemma next_free_used:
  assumes "index_used index n" and "length index = 59"
  shows "phy_next_free (index_info index) = (if n < 59 then of_nat n else - 1)"
proof -
  let ?xs = "zip [0..<59] index"
  let ?i0 = "\<lparr>data_pages = 0, free_pages = 0, phy_last_page = - 1, logical_last_page = - 1, phy_next_free = - 1\<rparr> :: ffs_index_info"
  have n: "n \<le> 59" using assms by (simp add: index_used_def)
  have "\<forall>x \<in> set (take n ?xs). unat (snd x) < 51"
    using assms by (auto simp: index_used_def set_conv_nth)
  then have p: "phy_next_free (fold scan_entry (take n ?xs) ?i0) = - 1" by (rule scan_used_prefix) simp
  have "phy_next_free (index_info index) = phy_next_free (fold scan_entry ?xs ?i0)" by (simp add: index_info_def Let_def)
  also have "fold scan_entry ?xs ?i0 = fold scan_entry (drop n ?xs) (fold scan_entry (take n ?xs) ?i0)"
    by (metis append_take_drop_id comp_apply fold_append)
  also have "phy_next_free \<dots> = (if n < 59 then of_nat n else - 1)"
  proof (cases "n < 59")
    case True
    have "drop n ?xs = ?xs ! n # drop (Suc n) ?xs" using True assms(2) by (intro Cons_nth_drop_Suc [symmetric]) simp
    moreover have "?xs ! n = (n, 0xff)" using True assms by (auto simp: index_used_def)
    moreover have "sint (of_nat n :: 8 word) \<ge> 0"
    proof -
      have "sint (of_nat n :: 8 word) = int n" using True by (simp add: signed_of_nat signed_take_bit_int_eq_self)
      then show ?thesis by simp
    qed
    ultimately show ?thesis using True p by (simp add: scan_keeps_free scan_entry_def Let_def)
  qed (use p n assms(2) in simp)
  finally show ?thesis .
qed

end
