(* ===== verification/Ffs_Files.thy ===== *)
theory Ffs_Files
  imports Ffs_Spec
begin

text \<open>
  Files as lists of pages: when a block holds pages, when a list of blocks holds a file, and reading:
  on a healthy chip the page that is read is the page of the file, whether it is cached or not.
\<close>

section \<open>Pages in blocks\<close>

definition page_ok :: "(nat \<Rightarrow> u8) \<Rightarrow> nat \<Rightarrow> u8 list \<Rightarrow> bool" where
  "page_ok B slot pg \<longleftrightarrow> pg \<noteq> [] \<and> length pg \<le> FFS_PAGE_DATA_SIZE
     \<and> unat (B (134 + 67 * slot)) = length pg \<and> bytes_at B (135 + 67 * slot) (length pg) = pg
     \<and> ucast (B (199 + 67 * slot)) OR push_bit 8 (ucast (B (200 + 67 * slot))) = crc_of pg"

definition block_ok :: "(nat \<Rightarrow> u8) \<Rightarrow> nat \<Rightarrow> nat \<Rightarrow> u8 list list \<Rightarrow> bool" where
  "block_ok B i k ps \<longleftrightarrow>
     meta_copies B \<and> B 0 = of_nat i \<and> B 1 = NOT FFS_FLAG_VALID \<and> B 2 = of_nat k \<and> index_copies B
     \<and> length ps \<le> FFS_DATA_PAGES_PER_BLOCK
     \<and> (\<exists>n. index_used (index_of B) n \<and> (\<forall>j. 134 + 67 * n \<le> j \<longrightarrow> j < 4096 \<longrightarrow> B j = 0xff))
     \<and> (\<forall>p < FFS_DATA_PAGES_PER_BLOCK. case seek_index FFS_PAGES_PER_BLOCK (index_of B) (of_nat p) of
            None \<Rightarrow> length ps \<le> p
          | Some j \<Rightarrow> p < length ps \<and> page_ok B j (ps ! p))"

text \<open>The pages of block \<open>k\<close> of a file.\<close>

abbreviation part_of :: "u8 list list \<Rightarrow> nat \<Rightarrow> u8 list list" where
  "part_of ps k \<equiv> take FFS_DATA_PAGES_PER_BLOCK (drop (FFS_DATA_PAGES_PER_BLOCK * k) ps)"

definition file_blocks :: "(u8 \<Rightarrow> nat \<Rightarrow> u8) \<Rightarrow> nat \<Rightarrow> u8 list \<Rightarrow> u8 list list \<Rightarrow> bool" where
  "file_blocks C i bs ps \<longleftrightarrow>
     length ps \<le> FFS_DATA_PAGES_PER_BLOCK * length bs \<and> FFS_DATA_PAGES_PER_BLOCK * (length bs - 1) \<le> length ps
     \<and> (\<forall>k < length bs. block_ok (C (bs ! k)) i k (part_of ps k))"

lemma file_blocks_cong: "(\<And>b. b \<in> set bs \<Longrightarrow> C b = C' b) \<Longrightarrow> file_blocks C i bs ps = file_blocks C' i bs ps"
  by (auto simp: file_blocks_def)

section \<open>Seeking in an index\<close>

lemma seek_index_Some: "seek_index n index x = Some j \<Longrightarrow> j < n \<and> index ! j = x"
  by (induction n) (auto split: if_splits)

lemma seek_index_None: "seek_index n index x = None \<longleftrightarrow> (\<forall>i < n. index ! i \<noteq> x)"
  by (induction n) (auto simp: less_Suc_eq)

lemma seek_index_cong: "(\<And>i. i < n \<Longrightarrow> index ! i = index' ! i) \<Longrightarrow> seek_index n index x = seek_index n index' x"
  by (induction n) auto

text \<open>A new entry behind the used ones is the current one of its page, and of no other.\<close>

lemma seek_index_update:
  assumes "index_used index n" and "n < length index" and "m \<le> length index" and "y \<noteq> 0xff"
  shows "seek_index m (index[n := x]) y = (if n < m \<and> y = x then Some n else seek_index m index y)"
  using assms(3)
proof (induction m)
  case (Suc m)
  have "n \<le> i \<Longrightarrow> i < length index \<Longrightarrow> index ! i = 0xff" for i using assms(1) by (simp add: index_used_def)
  then show ?case using Suc assms(2,4) by (cases "m = n") (auto simp: nth_list_update less_Suc_eq_le)
qed simp

lemma index_used_update:
  assumes "index_used index n" and "n < length index" and "unat x < 51"
  shows "index_used (index[n := x]) (Suc n)"
  using assms by (auto simp: index_used_def nth_list_update less_Suc_eq)

section \<open>The cache\<close>

definition page_loaded :: "'c ffs \<Rightarrow> u8 list \<Rightarrow> bool" where
  "page_loaded s pg \<longleftrightarrow> unat (page_len s) = length pg \<and> take (length pg) (page_data s) = pg \<and> page_crc s = crc_of pg
     \<and> length (page_data s) = FFS_PAGE_DATA_SIZE"

text \<open>\<open>P\<close> gives the pages of each file that exists.\<close>

definition page_cached :: "'c ffs \<Rightarrow> (nat \<Rightarrow> u8 list list option) \<Rightarrow> bool" where
  "page_cached s P \<longleftrightarrow> length (page_data s) = FFS_PAGE_DATA_SIZE \<and>
     (cache_file_id s = - 1 \<or> (\<exists>i ps. cache_file_id s = of_nat i \<and> i < FFS_MAX_FILES \<and> P i = Some ps
        \<and> unat (cache_page_number s) < length ps \<and> page_loaded s (ps ! unat (cache_page_number s))))"

text \<open>What reading leaves alone.\<close>

definition same_lists :: "'c ffs \<Rightarrow> 'c ffs \<Rightarrow> bool" where
  "same_lists s s' \<longleftrightarrow>
     total_blocks s' = total_blocks s \<and> next_block s' = next_block s \<and> file_start s' = file_start s
     \<and> file_size s' = file_size s \<and> free_list s' = free_list s \<and> dirty_list s' = dirty_list s
     \<and> free_blocks s' = free_blocks s \<and> dirty_blocks s' = dirty_blocks s"

definition same_disk :: "'c ffs \<Rightarrow> 'c ffs \<Rightarrow> bool" where
  "same_disk s s' \<longleftrightarrow> flash s' = flash s \<and> same_lists s s'"

lemma same_disk_refl [simp]: "same_disk s s"
  by (simp add: same_disk_def same_lists_def)

lemma same_disk_trans: "same_disk s s' \<Longrightarrow> same_disk s' s'' \<Longrightarrow> same_disk s s''"
  by (simp add: same_disk_def same_lists_def)

lemma same_lists_refl [simp]: "same_lists s s"
  by (simp add: same_lists_def)

lemma same_lists_trans: "same_lists s s' \<Longrightarrow> same_lists s' s'' \<Longrightarrow> same_lists s s''"
  by (simp add: same_lists_def)

lemma same_lists_rep: "same_lists s s' \<Longrightarrow> lists_rep s' L = lists_rep s L"
proof -
  assume "same_lists s s'"
  moreover from this have "head_of l s' = head_of l s" for l by (cases l) (simp_all add: same_lists_def)
  ultimately show ?thesis by (simp add: same_lists_def lists_rep_def cong: option.case_cong)
qed

section \<open>Reading on a healthy chip\<close>

lemma file_index_of [simp]:
  assumes "i < FFS_MAX_FILES"
  shows "sint (of_nat i :: i8) = int i" and "file_index (of_nat i) = Some i"
proof -
  show *: "sint (of_nat i :: i8) = int i" using assms by (simp add: signed_of_nat signed_take_bit_int_eq_self)
  show "file_index (of_nat i) = Some i" using assms by (simp add: file_index_def *)
qed

lemma crc_of_eq: "length bs < 65536 \<Longrightarrow> crc_of bs = foldl crc_u16_byte crc_u16_start (bs @ [0, 0])"
  by (simp add: crc_of_def crc_u16_block_eq unat_of_nat16)

lemma crc_of_prefix:
  assumes "unat (page_len s) \<le> FFS_PAGE_DATA_SIZE" and "length (page_data s) = FFS_PAGE_DATA_SIZE"
  shows "cached_crc s = Some (crc_of (take (unat (page_len s)) (page_data s)))"
  using assms by (simp add: cached_crc_def crc_u16_block_def crc_u16_partial_block_def crc_u16_loop_eq crc_of_eq
    crc_u16_finish_def Let_def)

lemma page_loaded_crc: "page_loaded s pg \<Longrightarrow> length pg \<le> FFS_PAGE_DATA_SIZE \<Longrightarrow> cached_crc s = Some (page_crc s)"
  by (simp add: page_loaded_def crc_of_prefix)

context flash_memory
begin

lemma read_page_healthy:
  assumes u: "usable s b" and slot: "slot < FFS_PAGES_PER_BLOCK" and pg: "page_ok (blocks cells s b) slot pg"
  shows "\<exists>s'. read_page_tries FFS_IO_ATTEMPTS spi fid page (page_address b (of_nat slot)) s = Some (FFS_STATUS_OK, s')
    \<and> page_loaded s' pg \<and> same_disk s s' \<and> cache_file_id s' = fid \<and> cache_page_number s' = page
    \<and> index_cache_block s' = index_cache_block s \<and> index_cache_index s' = index_cache_index s"
proof -
  let ?B = "blocks cells s b" and ?a = "page_address b (of_nat slot)"
  let ?bs = "bytes_at ?B (134 + 67 * slot) 67"
  have "unat (of_nat slot :: u8) = slot" using slot by (simp add: unsigned_of_nat take_bit_nat_eq_self)
  then have r: "fs_read spi ?a 67 s = (?bs, s)"
    using read_at [OF u, of ?a "134 + 67 * slot" 67] slot by simp
  let ?l = "load_page ?bs s"
  have data: "page_data ?l = bytes_at ?B (135 + 67 * slot) 64"
    by (rule nth_equalityI) (simp_all add: load_page_def add.assoc)
  have len: "unat (page_len ?l) = length pg" and crc: "page_crc ?l = crc_of pg"
    using pg by (simp_all add: page_ok_def load_page_def add.commute)
  have "take (length pg) (bytes_at ?B (135 + 67 * slot) 64) = bytes_at ?B (135 + 67 * slot) (length pg)"
    using pg by (auto simp: page_ok_def bytes_at_def take_map min_absorb1)
  then have loaded: "page_loaded ?l pg" using pg len crc data by (simp add: page_loaded_def page_ok_def)
  then have "cached_crc ?l = Some (page_crc ?l)" using pg by (simp add: page_ok_def page_loaded_crc)
  then show ?thesis using r loaded
    by (simp add: first_tries) (simp add: page_loaded_def load_page_def same_disk_def same_lists_def)
qed

text \<open>Seeking finds the page in the block that the list names.\<close>

lemma get_block_healthy:
  assumes "lists_rep s L" and "head_of (File_list i) s \<noteq> None" and "k < unat (total_blocks s)"
  shows "ffs_block_fb_get_block (File_list i) (of_nat k) s
    = Some (if k < length (L (File_list i)) then L (File_list i) ! k else FFS_BLOCK_INVALID)"
proof -
  obtain h where h: "head_of (File_list i) s = Some h" using assms(2) by auto
  have d: "sized s" "linked (next_block s) h (L (File_list i))" using lists_repD(1,2) [OF assms(1)] h by auto
  have "k < 256" using assms(3) unat8_less [of "total_blocks s"] by simp
  then have k: "unat (of_nat k :: u8) = k" by (simp add: unsigned_of_nat take_bit_nat_eq_self)
  then have "(of_nat k :: u8) < total_blocks s" using assms(3) by (simp add: word_less_nat_alt)
  then show ?thesis using get_block_from_chain [OF d] h k by (simp add: ffs_block_fb_get_block_def)
qed

lemma file_head: "lists_rep s L \<Longrightarrow> i < FFS_MAX_FILES \<Longrightarrow> head_of (File_list i) s \<noteq> None"
  by (simp add: lists_rep_def)

lemma total_pages: "unat (ffs_page_u16_total_pages s) = unat (total_blocks s) * 59"
  using unat8_less [of "total_blocks s"] by (simp add: ffs_page_u16_total_pages_def unat_word_ariths)

text \<open>Everything the file system knows of one file.\<close>

definition file_at :: "'c ffs \<Rightarrow> (block_list \<Rightarrow> u8 list) \<Rightarrow> nat \<Rightarrow> u8 list list \<Rightarrow> bool" where
  "file_at s L i ps \<longleftrightarrow> i < FFS_MAX_FILES \<and> lists_rep s L \<and> file_blocks (blocks cells s) i (L (File_list i)) ps
     \<and> (\<forall>b \<in> set (L (File_list i)). usable s b) \<and> index_cached cells s"

lemma narrow: "(ucast w :: u8) = of_nat (unat w)" for w :: u16
  by simp

lemma unat_numeral_small: "unat (51 :: u16) = 51"
  by simp

lemma file_blocks_usable:
  assumes "file_at s L i ps" and "b \<in> set (L (File_list i))"
  shows "usable s b" and "b < total_blocks s" and "b \<noteq> FFS_BLOCK_INVALID"
proof -
  have rep: "lists_rep s L" using assms(1) by (simp add: file_at_def)
  show "usable s b" using assms by (simp add: file_at_def)
  have "unat b < unat (total_blocks s)" "unat (total_blocks s) \<le> 254"
    using lists_repD(1,8) [OF rep] assms(2) by (metis, metis)
  then show "b < total_blocks s" "b \<noteq> FFS_BLOCK_INVALID" by (auto simp: word_less_nat_alt)
qed

lemma seek_page_healthy:
  assumes f: "file_at s L i ps" and p: "p div 51 < unat (total_blocks s)" "p < 65536"
  defines "b \<equiv> L (File_list i) ! (p div 51)"
  shows "\<exists>s'. ffs_page_i32_seek_page spi (of_nat i) (of_nat p) s
      = Some (if p < length ps
              then Inr (page_address b (of_nat (the (seek_index 59 (index_of (blocks cells s b)) (of_nat (p mod 51))))))
              else Inl FFS_STATUS_EOF, s')
    \<and> same_disk s s' \<and> index_cached cells s' \<and> page_len s' = page_len s \<and> page_data s' = page_data s
    \<and> cache_file_id s' = cache_file_id s"
proof -
  let ?bs = "L (File_list i)"
  have i: "i < 23" and rep: "lists_rep s L" and fb: "file_blocks (blocks cells s) i ?bs ps"
    using f by (simp_all add: file_at_def)
  have p16: "unat (of_nat p :: u16) = p" using p(2) by (rule unat_of_nat16)
  have "p < unat (total_blocks s) * 59" using p(1) by (simp add: div_less_iff_less_mult)
  then have req: "(of_nat p :: u16) < ffs_page_u16_total_pages s" by (simp add: word_less_nat_alt p16 total_pages)
  have div: "(ucast ((of_nat p :: u16) div 51) :: u8) = of_nat (p div 51)" "(ucast ((of_nat p :: u16) mod 51) :: u8) = of_nat (p mod 51)"
    by (simp_all only: narrow unat_div_distrib unat_mod_distrib p16 unat_numeral_small)
  have get: "ffs_block_fb_get_block (File_list i) (of_nat (p div 51)) s = Some (if p div 51 < length ?bs then b else FFS_BLOCK_INVALID)"
    using get_block_healthy [OF rep file_head [OF rep i] p(1)] by (simp add: b_def)
  show ?thesis
  proof (cases "p div 51 < length ?bs")
    case False
    then have "51 * length ?bs \<le> 51 * (p div 51)" by simp
    also have "\<dots> \<le> p" by simp
    finally have "51 * length ?bs \<le> p" .
    then have "length ps \<le> p" using fb by (simp add: file_blocks_def)
    then show ?thesis using False i req div get f by (simp add: ffs_page_i32_seek_page_def file_at_def)
  next
    case True
    then have b: "b \<in> set ?bs" by (simp add: b_def)
    note u = file_blocks_usable [OF f b]
    let ?k = "p div 51" and ?q = "p mod 51"
    have ok: "block_ok (blocks cells s b) i ?k (part_of ps ?k)" using fb True by (simp add: file_blocks_def b_def)
    let ?t = "s\<lparr>index_cache_index := index_of (blocks cells s b), index_cache_block := b\<rparr>"
    have r: "ffs_block_i8_read_index spi b s = Some (FFS_STATUS_OK, ?t)"
      using read_index_healthy [of s b] u f ok by (simp add: file_at_def block_ok_def)
    have "?q < 51" by simp
    then have seek: "case seek_index 59 (index_of (blocks cells s b)) (of_nat ?q) of
        None \<Rightarrow> length (part_of ps ?k) \<le> ?q | Some j \<Rightarrow> ?q < length (part_of ps ?k) \<and> page_ok (blocks cells s b) j (part_of ps ?k ! ?q)"
      using ok unfolding block_ok_def by blast
    have len: "?q < length (part_of ps ?k) \<longleftrightarrow> p < length ps"
      using div_mult_mod_eq [of p 51] \<open>?q < 51\<close> by (simp only: length_take length_drop) linarith
    have t: "same_disk s ?t" "index_cached cells ?t" by (simp_all add: same_disk_def same_lists_def index_cached_def)
    have "seek_index 59 (index_of (blocks cells s b)) (of_nat ?q) = None \<longleftrightarrow> \<not> p < length ps"
      using seek unfolding len [symmetric] by (auto split: option.splits)
    then show ?thesis using u i req div get True r t
      by (auto simp: ffs_page_i32_seek_page_def split: option.splits)
  qed
qed

lemma file_at_same_disk: "file_at s L i ps \<Longrightarrow> same_disk s s' \<Longrightarrow> index_cached cells s' \<Longrightarrow> file_at s' L i ps"
  using same_lists_rep [of s s' L] by (simp add: file_at_def same_disk_def)

lemma seek_page_ok:
  assumes f: "file_at s L i ps" and p: "p < length ps"
  defines "b \<equiv> L (File_list i) ! (p div 51)"
  obtains j where "seek_index 59 (index_of (blocks cells s b)) (of_nat (p mod 51)) = Some j" and "j < 59"
    and "page_ok (blocks cells s b) j (ps ! p)" and "usable s b" and "p div 51 < unat (total_blocks s)"
proof -
  let ?bs = "L (File_list i)"
  have fb: "file_blocks (blocks cells s) i ?bs ps" and rep: "lists_rep s L" using f by (simp_all add: file_at_def)
  then have k: "p div 51 < length ?bs" using p by (simp add: file_blocks_def div_less_iff_less_mult mult.commute)
  then have u: "usable s b" using file_blocks_usable [OF f, of b] by (simp add: b_def)
  have "length ?bs \<le> unat (total_blocks s)"
    using list_length_bound [of ?bs "length (next_block s)"] lists_repD(1,3,8) [OF rep] by auto
  then have t: "p div 51 < unat (total_blocks s)" using k by simp
  have "block_ok (blocks cells s b) i (p div 51) (part_of ps (p div 51))" using fb k by (simp add: file_blocks_def b_def)
  then have seek: "case seek_index 59 (index_of (blocks cells s b)) (of_nat (p mod 51)) of
      None \<Rightarrow> length (part_of ps (p div 51)) \<le> p mod 51
    | Some j \<Rightarrow> p mod 51 < length (part_of ps (p div 51)) \<and> page_ok (blocks cells s b) j (part_of ps (p div 51) ! (p mod 51))"
    unfolding block_ok_def by (meson mod_less_divisor zero_less_numeral)
  have m: "p mod 51 < 51" "51 * (p div 51) + p mod 51 = p" by simp_all
  have len: "p mod 51 < length (part_of ps (p div 51))" using p m(1) less_diff_conv [of "p mod 51" "length ps" "51 * (p div 51)"] by (simp add: add.commute)
  then obtain j where j: "seek_index 59 (index_of (blocks cells s b)) (of_nat (p mod 51)) = Some j"
      "page_ok (blocks cells s b) j (part_of ps (p div 51) ! (p mod 51))"
    using seek by (auto split: option.splits)
  have "part_of ps (p div 51) ! (p mod 51) = ps ! p" using p m by simp
  then show ?thesis using that j seek_index_Some [OF j(1)] u t by simp
qed

lemma file_id_valid: "i < FFS_MAX_FILES \<Longrightarrow> (of_nat i :: i8) \<noteq> - 1"
proof
  assume "i < FFS_MAX_FILES" "(of_nat i :: i8) = - 1"
  then have "int i = sint (- 1 :: i8)" using file_index_of(1) [of i] by simp
  then show False by simp
qed

lemma file_id_inj: "i < FFS_MAX_FILES \<Longrightarrow> j < FFS_MAX_FILES \<Longrightarrow> (of_nat i :: i8) = of_nat j \<longleftrightarrow> i = j"
  using file_index_of(1) [of i] file_index_of(1) [of j] by (metis of_nat_eq_iff)

lemma page_cached_same: "same_disk s s' \<Longrightarrow> cache_file_id s' = - 1 \<Longrightarrow> length (page_data s') = FFS_PAGE_DATA_SIZE \<Longrightarrow> page_cached s' P"
  by (simp add: page_cached_def)

lemma read_healthy:
  assumes f: "file_at s L i ps" and c: "page_cached s P" and P: "P i = Some ps"
    and p: "p div 51 < unat (total_blocks s)" "p < 65536"
  shows "\<exists>s'. ffs_page_i8_read spi (of_nat i) (of_nat p) s = Some (if p < length ps then FFS_STATUS_OK else FFS_STATUS_EOF, s')
    \<and> same_disk s s' \<and> index_cached cells s' \<and> page_cached s' P
    \<and> (if p < length ps then page_loaded s' (ps ! p) \<and> cache_file_id s' = of_nat i \<and> cache_page_number s' = of_nat p
       else page_len s' = 0 \<and> cache_file_id s' = - 1)"
proof (cases "cache_file_id s = of_nat i \<and> cache_page_number s = of_nat p")
  case True
  have i: "i < 23" "index_cached cells s" using f by (simp_all add: file_at_def)
  have ne: "(of_nat i :: i8) \<noteq> - 1" by (rule file_id_valid) (rule i)
  then obtain j qs where j: "of_nat j = (of_nat i :: i8)" "j < 23" "P j = Some qs" "p < length qs" "page_loaded s (qs ! p)"
    using c True unat_of_nat16 [OF p(2)] by (auto simp: page_cached_def)
  then have "qs = ps" using P i(1) by (simp add: file_id_inj)
  let ?t = "s\<lparr>page_cache_hits := page_cache_hits s + 1\<rparr>"
  have "page_loaded ?t (ps ! p)" using j(5) \<open>qs = ps\<close> by (simp add: page_loaded_def)
  moreover have "page_cached ?t P" using c by (auto simp: page_cached_def page_loaded_def)
  moreover have "index_cached cells ?t" using i(2) by (simp add: index_cached_def)
  ultimately show ?thesis using True j(4) \<open>qs = ps\<close> by (simp add: ffs_page_i8_read_def same_disk_def same_lists_def)
next
  case False
  let ?s0 = "invalidate_cache (s\<lparr>page_cache_misses := page_cache_misses s + 1\<rparr>)"
  have d0: "same_disk s ?s0" "index_cached cells ?s0" using f by (simp_all add: same_disk_def same_lists_def invalidate_cache_def index_cached_def file_at_def)
  note f0 = file_at_same_disk [OF f d0]
  have len: "length (page_data ?s0) = 64" "page_len ?s0 = 0" "cache_file_id ?s0 = - 1"
    using c by (simp_all add: invalidate_cache_def page_cached_def)
  have b0: "blocks cells ?s0 = blocks cells s" "total_blocks ?s0 = total_blocks s" by (simp_all add: invalidate_cache_def)
  obtain s1 where s1: "ffs_page_i32_seek_page spi (of_nat i) (of_nat p) ?s0 = Some (if p < length ps
        then Inr (page_address (L (File_list i) ! (p div 51)) (of_nat (the (seek_index 59 (index_of (blocks cells s (L (File_list i) ! (p div 51)))) (of_nat (p mod 51))))))
        else Inl FFS_STATUS_EOF, s1)"
      "same_disk ?s0 s1" "index_cached cells s1" "page_len s1 = 0" "length (page_data s1) = 64" "cache_file_id s1 = - 1"
    using seek_page_healthy [OF f0 _ p(2)] p(1) len unfolding b0 by auto
  have d1: "same_disk s s1" using same_disk_trans [OF d0(1) s1(2)] .
  have run: "ffs_page_i8_read spi (of_nat i) (of_nat p) s = (case if p < length ps
        then Inr (page_address (L (File_list i) ! (p div 51)) (of_nat (the (seek_index 59 (index_of (blocks cells s (L (File_list i) ! (p div 51)))) (of_nat (p mod 51))))))
        else Inl FFS_STATUS_EOF of Inl r \<Rightarrow> if r = FFS_STATUS_EOF then Some (FFS_STATUS_EOF, s1) else Some (FFS_STATUS_ERROR, s1)
      | Inr a \<Rightarrow> read_page_tries FFS_IO_ATTEMPTS spi (of_nat i) (of_nat p) a s1)"
    using False s1(1) by (auto simp: ffs_page_i8_read_def Let_def)
  show ?thesis
  proof (cases "p < length ps")
    case False
    then show ?thesis using run d1 s1 by (simp add: page_cached_same [OF d1])
  next
    case True
    note f1 = file_at_same_disk [OF f d1 s1(3)]
    have b1: "blocks cells s1 = blocks cells s" using d1 by (simp add: same_disk_def same_lists_def)
    obtain j where j: "seek_index 59 (index_of (blocks cells s (L (File_list i) ! (p div 51)))) (of_nat (p mod 51)) = Some j" "j < 59"
        "page_ok (blocks cells s1 (L (File_list i) ! (p div 51))) j (ps ! p)" "usable s1 (L (File_list i) ! (p div 51))"
      using seek_page_ok [OF f1 True] unfolding b1 by blast
    from read_page_healthy [OF j(4,2,3), of "of_nat i" "of_nat p"] obtain s2 where s2:
        "read_page_tries FFS_IO_ATTEMPTS spi (of_nat i) (of_nat p) (page_address (L (File_list i) ! (p div 51)) (of_nat j)) s1 = Some (FFS_STATUS_OK, s2)"
        "page_loaded s2 (ps ! p)" "same_disk s1 s2" "cache_file_id s2 = of_nat i" "cache_page_number s2 = of_nat p"
        "index_cache_block s2 = index_cache_block s1" "index_cache_index s2 = index_cache_index s1" by blast
    have "index_cached cells s2" using s1(3) s2(3,6,7) by (simp add: index_cached_def same_disk_def same_lists_def)
    moreover have "page_cached s2 P" using s2 P True f unat_of_nat16 [OF p(2)] by (auto simp: page_cached_def page_loaded_def file_at_def)
    ultimately show ?thesis using run True j(1) s2 same_disk_trans [OF d1 s2(3)] by simp
  qed
qed

end

end
