(* ===== verification/Ffs_Write.thy ===== *)
theory Ffs_Write
  imports Ffs_Files
begin

text \<open>
  Writing a page on a healthy chip: what the cache holds before the write, what the block holds after it,
  and that a full block is replaced by a copy that holds the same pages.
\<close>

section \<open>The new contents of a page\<close>

definition overwrite :: "u8 list \<Rightarrow> nat \<Rightarrow> u8 list \<Rightarrow> u8 list" where
  "overwrite pg off d = take off pg @ d @ drop (off + length d) pg"

definition put_page :: "u8 list list \<Rightarrow> nat \<Rightarrow> u8 list \<Rightarrow> u8 list list" where
  "put_page ps p pg = (if p < length ps then ps[p := pg] else ps @ [pg])"

definition page_at :: "u8 list list \<Rightarrow> nat \<Rightarrow> u8 list" where
  "page_at ps p = (if p < length ps then ps ! p else [])"

lemma length_overwrite: "off \<le> length pg \<Longrightarrow> length (overwrite pg off d) = max (length pg) (off + length d)"
  by (auto simp: overwrite_def max_def min_def)

lemma take_put_overwrite:
  assumes "off \<le> n" and "n \<le> length xs" and "off + length d \<le> length xs"
  shows "take (max n (off + length d)) (put_bytes xs off d) = overwrite (take n xs) off d"
proof -
  have "max n (off + length d) - (off + length d) = n - (off + length d)" by simp
  then show ?thesis using assms by (simp add: put_bytes_def overwrite_def drop_take min_absorb1 min_absorb2)
qed

lemma write_length_eq:
  assumes "unat off + unat len \<le> 64"
  shows "write_length off len = len"
proof -
  have "unat len \<le> 64" using assms by simp
  then have "(if len < 64 then len else 64) = len" by (auto simp: word_less_nat_alt word_unat_eq_iff)
  moreover have "\<not> int (unat len) > 64 - int (unat off)" using assms by linarith
  ultimately show ?thesis by (simp only: write_length_def Let_def if_False)
qed

lemma write_cached_ok:
  assumes len: "unat off + unat len \<le> 64" "0 < unat len" "unat len \<le> length dat"
    and old: "if eof then page_len s = 0 \<and> pg = [] \<and> length (page_data s) = 64 else page_loaded s pg \<and> length pg \<le> 64"
    and off: "unat off \<le> length pg"
  obtains s' where "write_cached off dat len (if eof then FFS_STATUS_EOF else FFS_STATUS_OK) s = Some s'"
    and "page_loaded s' (overwrite pg (unat off) (take (unat len) dat))"
    and "same_disk s s'" and "index_cache_block s' = index_cache_block s" and "index_cache_index s' = index_cache_index s"
    and "cache_file_id s' = cache_file_id s"
proof -
  define xs where "xs = (if eof then replicate 64 0xff else page_data s)"
  define d where "d = take (unat len) dat"
  define ys where "ys = put_bytes xs (unat off) d"
  define l where "l = (if unat (page_len s) < unat off + unat len then off + len else page_len s)"
  have xs: "length xs = 64" "take (length pg) xs = pg" "unat (page_len s) = length pg" "length pg \<le> 64"
    using old by (auto simp: xs_def page_loaded_def split: if_splits)
  have d: "length d = unat len" using len(3) by (simp add: d_def)
  have "unat (off + len) = unat off + unat len" using len(1) by (simp add: unat_word_ariths)
  then have l: "unat l = max (length pg) (unat off + length d)" using d xs(3) by (auto simp: l_def max_def)
  have ys: "length ys = 64" "take (unat l) ys = overwrite pg (unat off) d"
    using take_put_overwrite [OF off, of xs d] xs d len(1) by (simp_all add: ys_def l)
  let ?t = "s\<lparr>page_data := ys, page_len := l\<rparr>"
  have "unat l \<le> 64" using l d len(1) xs(4) by simp
  then have crc: "cached_crc ?t = Some (crc_of (overwrite pg (unat off) d))" using crc_of_prefix [of ?t] ys by simp
  have "length (overwrite pg (unat off) d) = unat l" using length_overwrite [OF off] l by simp
  then have loaded: "page_loaded (?t\<lparr>page_crc := crc_of (overwrite pg (unat off) d)\<rparr>) (overwrite pg (unat off) d)"
    using ys by (simp add: page_loaded_def)
  have set_len: "(if unat (page_len s) < unat off + unat len then s\<lparr>page_data := ys, page_len := off + len\<rparr> else s\<lparr>page_data := ys\<rparr>)
      = ?t" by (simp add: l_def)
  have set_data: "(if (if eof then FFS_STATUS_EOF else FFS_STATUS_OK) = FFS_STATUS_EOF then s\<lparr>page_data := replicate 64 0xff\<rparr> else s)
      = s\<lparr>page_data := xs\<rparr>" by (simp add: xs_def)
  have "write_cached off dat len (if eof then FFS_STATUS_EOF else FFS_STATUS_OK) s = Some (?t\<lparr>page_crc := crc_of (overwrite pg (unat off) d)\<rparr>)"
  proof -
    have "write_cached off dat len (if eof then FFS_STATUS_EOF else FFS_STATUS_OK) s = do {
        crc \<leftarrow> cached_crc (if unat (page_len s) < unat off + unat len then s\<lparr>page_data := ys, page_len := off + len\<rparr> else s\<lparr>page_data := ys\<rparr>);
        Some ((if unat (page_len s) < unat off + unat len then s\<lparr>page_data := ys, page_len := off + len\<rparr> else s\<lparr>page_data := ys\<rparr>)\<lparr>page_crc := crc\<rparr>) }"
      unfolding write_cached_def Let_def write_length_eq [OF len(1)] set_data using len(1,3) by (simp add: ys_def d_def)
    then show ?thesis unfolding set_len crc by simp
  qed
  then show ?thesis using loaded that by (simp add: d_def same_disk_def same_lists_def)
qed

section \<open>Storing a page in a block\<close>

definition page_image :: "u8 list \<Rightarrow> u8 list \<Rightarrow> bool" where
  "page_image bs pg \<longleftrightarrow> length bs = 67 \<and> unat (bs ! 0) = length pg \<and> take (length pg) (drop 1 bs) = pg
     \<and> ucast (bs ! 65) OR push_bit 8 (ucast (bs ! 66)) = crc_of pg"

lemma page_bytes_image: "page_loaded s pg \<Longrightarrow> length pg \<le> 64 \<Longrightarrow> page_image (page_bytes s) pg"
  by (simp add: page_image_def page_bytes_def page_loaded_def bytes16_def bytes16_join nth_append)

lemma page_ok_written:
  assumes "page_image bs pg" and "pg \<noteq> []" and "length pg \<le> 64"
  shows "page_ok (written B (134 + 67 * n) bs) n pg"
proof -
  have at: "written B (134 + 67 * n) bs (134 + 67 * n + i) = bs ! i" if "i < 67" for i
    using that assms(1) by (simp add: written_def page_image_def)
  have "bytes_at (written B (134 + 67 * n) bs) (135 + 67 * n) (length pg) = pg"
  proof (rule nth_equalityI)
    fix i assume "i < length (bytes_at (written B (134 + 67 * n) bs) (135 + 67 * n) (length pg))"
    then have i: "i < length pg" by simp
    have e: "take (length pg) (drop 1 bs) = pg" "length bs = 67" using assms(1) by (simp_all add: page_image_def)
    have "take (length pg) (drop 1 bs) ! i = bs ! (1 + i)" using i e(2) by (simp only: nth_take nth_drop)
    then have "bs ! (1 + i) = pg ! i" unfolding e(1) by simp
    then show "bytes_at (written B (134 + 67 * n) bs) (135 + 67 * n) (length pg) ! i = pg ! i"
      using at [of "1 + i"] i assms(3) by (simp add: add.assoc)
  qed simp
  then show ?thesis using at [of 0] at [of 65] at [of 66] assms by (simp add: page_ok_def page_image_def add.commute)
qed

lemma page_ok_cong:
  assumes "\<And>i. i < 67 \<Longrightarrow> B' (134 + 67 * n + i) = B (134 + 67 * n + i)"
  shows "page_ok B' n pg = page_ok B n pg"
proof -
  have "bytes_at B' (135 + 67 * n) (length pg) = bytes_at B (135 + 67 * n) (length pg)" if "length pg \<le> 64"
    using assms [of "Suc _"] that by (intro bytes_at_cong) (simp add: add.assoc)
  then show ?thesis using assms [of 0] assms [of 65] assms [of 66] by (auto simp: page_ok_def add.commute)
qed

lemma bytes_at_nth_eq: "(bytes_at B o1 n = bytes_at B' o2 n) \<longleftrightarrow> (\<forall>i < n. B (o1 + i) = B' (o2 + i))"
  by (simp add: list_eq_iff_nth_eq)

definition stored :: "(nat \<Rightarrow> u8) \<Rightarrow> nat \<Rightarrow> u8 list \<Rightarrow> u8 \<Rightarrow> nat \<Rightarrow> u8" where
  "stored B n bs q = (written B (134 + 67 * n) bs)(8 + n := q, 75 + n := q)"

lemma stored_at:
  assumes "n < 59"
  shows "x < 134 + 67 * n \<Longrightarrow> stored B n bs q x = (if x = 8 + n \<or> x = 75 + n then q else B x)"
    and "134 \<le> x \<Longrightarrow> stored B n bs q x = written B (134 + 67 * n) bs x"
  using assms by (auto simp: stored_def written_def)

lemma index_of_stored:
  assumes "n < 59"
  shows "index_of (stored B n bs q) = (index_of B)[n := q]" and "bytes_at (stored B n bs q) 75 59 = (bytes_at B 75 59)[n := q]"
  using assms by (auto intro!: nth_equalityI simp: stored_at nth_list_update)

lemma block_ok_used:
  assumes "block_ok B i k ps"
  obtains n where "index_used (index_of B) n" and "n \<le> 59" and "\<And>j. 134 + 67 * n \<le> j \<Longrightarrow> j < 4096 \<Longrightarrow> B j = 0xff"
    and "phy_next_free (index_info (index_of B)) = (if n < 59 then of_nat n else - 1)"
proof -
  obtain n where n: "index_used (index_of B) n" "\<forall>j. 134 + 67 * n \<le> j \<longrightarrow> j < 4096 \<longrightarrow> B j = 0xff"
    using assms unfolding block_ok_def by blast
  then have "n \<le> 59" by (simp add: index_used_def)
  then show ?thesis using that n next_free_used [OF n(1)] by simp
qed

lemma block_ok_stored:
  assumes ok: "block_ok B i k ps" and used: "index_used (index_of B) n" "n < 59"
    and blank: "\<And>j. 134 + 67 * n \<le> j \<Longrightarrow> j < 4096 \<Longrightarrow> B j = 0xff"
    and pg: "page_image bs pg" "pg \<noteq> []" "length pg \<le> 64" and q: "q \<le> length ps" "q < 51"
  shows "block_ok (stored B n bs (of_nat q)) i k (put_page ps q pg)"
proof -
  let ?B = "stored B n bs (of_nat q)"
  note at = stored_at [OF used(2), of _ B bs "of_nat q"]
  have bs: "length bs = 67" using pg(1) by (simp add: page_image_def)
  have q8: "unat (of_nat q :: u8) = q" using q(2) by (simp add: unsigned_of_nat take_bit_nat_eq_self)
  have "meta_copies ?B" using ok at(1) used(2) by (auto simp: block_ok_def meta_copies_def bytes_at_nth_eq)
  moreover have "?B 0 = of_nat i" "?B 1 = NOT FFS_FLAG_VALID" "?B 2 = of_nat k" using ok at(1) used(2) by (auto simp: block_ok_def)
  moreover have "index_copies ?B" using ok used(2) by (simp add: block_ok_def index_copies_def index_of_stored)
  moreover have "length (put_page ps q pg) \<le> 51" using ok q by (auto simp: block_ok_def put_page_def)
  moreover have "\<exists>n. index_used (index_of ?B) n \<and> (\<forall>j. 134 + 67 * n \<le> j \<longrightarrow> j < 4096 \<longrightarrow> ?B j = 0xff)"
  proof (intro exI [of _ "Suc n"] conjI allI impI)
    show "index_used (index_of ?B) (Suc n)" using index_used_update [OF used(1)] used(2) q(2) q8 by (simp add: index_of_stored)
    show "?B j = 0xff" if "134 + 67 * Suc n \<le> j" "j < 4096" for j
      using that blank [of j] at(2) [of j] bs by (simp add: written_def)
  qed
  moreover have "case seek_index 59 (index_of ?B) (of_nat p) of None \<Rightarrow> length (put_page ps q pg) \<le> p
      | Some j \<Rightarrow> p < length (put_page ps q pg) \<and> page_ok ?B j (put_page ps q pg ! p)" if p: "p < 51" for p
  proof -
    have p8: "unat (of_nat p :: u8) = p" using p by (simp add: unsigned_of_nat take_bit_nat_eq_self)
    have inj: "(of_nat p :: u8) = of_nat q \<longleftrightarrow> p = q" using p8 q8 by metis
    have ne: "(of_nat p :: u8) \<noteq> 0xff" using p8 p by (auto simp: word_unat_eq_iff)
    have seek: "seek_index 59 (index_of ?B) (of_nat p) = (if p = q then Some n else seek_index 59 (index_of B) (of_nat p))"
      using seek_index_update [OF used(1) _ _ ne, of 59 "of_nat q"] used(2) by (simp add: index_of_stored inj)
    have old: "case seek_index 59 (index_of B) (of_nat p) of None \<Rightarrow> length ps \<le> p | Some j \<Rightarrow> p < length ps \<and> page_ok B j (ps ! p)"
      using ok p unfolding block_ok_def by blast
    show ?thesis
    proof (cases "p = q")
      case True
      have "page_ok ?B n pg"
        using page_ok_written [OF pg, of B n] at(2) by (subst page_ok_cong [where B = "written B (134 + 67 * n) bs"]) auto
      then show ?thesis using True seek q(1) by (auto simp: put_page_def nth_append)
    next
      case False
      show ?thesis
      proof (cases "seek_index 59 (index_of B) (of_nat p)")
        case None
        then show ?thesis using old False seek q(1) by (auto simp: put_page_def)
      next
        case (Some j)
        have j: "j < 59" "index_of B ! j = of_nat p" using seek_index_Some [OF Some] by blast+
        have "j < n"
        proof (rule ccontr)
          assume "\<not> j < n"
          then have "index_of B ! j = 0xff" using used(1) j(1) by (simp add: index_used_def)
          then show False using j(2) ne by simp
        qed
        then have "page_ok ?B j pg' = page_ok B j pg'" for pg'
          using at(2) by (intro page_ok_cong) (simp add: written_def)
        then show ?thesis using old Some False seek q(1) by (auto simp: put_page_def nth_append)
      qed
    qed
  qed
  ultimately show ?thesis unfolding block_ok_def by blast
qed

section \<open>The file after a page was put\<close>

lemma part_of_put:
  assumes "p \<le> length ps"
  shows "part_of (put_page ps p pg) k = (if k = p div 51 then put_page (part_of ps k) (p mod 51) pg else part_of ps k)"
proof -
  have m: "p mod 51 < 51" "51 * (p div 51) + p mod 51 = p" by simp_all
  have cmp: "k < p div 51 \<Longrightarrow> 51 * k + 51 \<le> p" "p div 51 < k \<Longrightarrow> p < 51 * k" using m by linarith+
  show ?thesis
  proof (cases "p < length ps")
    case True
    show ?thesis
    proof (cases "51 * k \<le> p")
      case False
      then have "k \<noteq> p div 51" using m by linarith
      then show ?thesis using True False by (simp add: put_page_def)
    next
      case ge: True
      have "part_of (ps[p := pg]) k = (part_of ps k)[p - 51 * k := pg]" using ge by (simp add: drop_update_swap take_update_swap)
      moreover have "p - 51 * k = p mod 51 \<and> p mod 51 < length (part_of ps k)" if "k = p div 51"
      proof -
        have "p - 51 * (p div 51) = p mod 51" "p mod 51 < length ps - 51 * (p div 51)" using m True by linarith+
        then show ?thesis using m(1) that by (simp only: length_take length_drop min_less_iff_conj simp_thms)
      qed
      moreover have "length (part_of ps k) \<le> p - 51 * k" if "k \<noteq> p div 51"
      proof -
        have "51 \<le> p - 51 * k" using cmp ge that by linarith
        then show ?thesis by simp
      qed
      ultimately show ?thesis using True
        by (simp add: put_page_def list_update_beyond del: length_take length_drop)
    qed
  next
    case False
    then have p: "p = length ps" using assms by simp
    consider "k < p div 51" | "k = p div 51" | "p div 51 < k" by linarith
    then show ?thesis
    proof cases
      case 1
      then show ?thesis using cmp(1) p by (simp add: put_page_def)
    next
      case 2
      then have "length (drop (51 * k) ps) = p mod 51" using m p by (simp only: length_drop)
      then show ?thesis using 2 p m by (simp add: put_page_def min_def not_less)
    next
      case 3
      then show ?thesis using cmp(2) p by (simp add: put_page_def)
    qed
  qed
qed

lemma file_blocks_put:
  assumes f: "file_blocks C i bs ps" and p: "p \<le> length ps" "p div 51 < length bs" and bs: "distinct bs"
    and B: "block_ok B i (p div 51) (put_page (part_of ps (p div 51)) (p mod 51) pg)"
  shows "file_blocks (C(bs ! (p div 51) := B)) i bs (put_page ps p pg)"
proof -
  have "p < 51 * length bs" using p(2) by (simp add: div_less_iff_less_mult mult.commute)
  then have len: "length (put_page ps p pg) \<le> 51 * length bs" "51 * (length bs - 1) \<le> length (put_page ps p pg)"
    using f p(1) by (auto simp: file_blocks_def put_page_def)
  have "block_ok ((C(bs ! (p div 51) := B)) (bs ! k)) i k (part_of (put_page ps p pg) k)" if "k < length bs" for k
    using that f B bs p(2) by (auto simp: part_of_put [OF p(1)] nth_eq_iff_index_eq file_blocks_def)
  then show ?thesis using len by (simp add: file_blocks_def)
qed

lemma list_length_total: "lists_rep s L \<Longrightarrow> length (L l) \<le> unat (total_blocks s)"
  using list_length_bound [of "L l" "unat (total_blocks s)"] lists_repD(1,3,8) by fastforce

lemma lists_rep_size [simp]: "lists_rep (s\<lparr>file_size := x\<rparr>) L = lists_rep s L"
proof -
  have "head_of l (s\<lparr>file_size := x\<rparr>) = head_of l s" for l by (cases l) simp_all
  then show ?thesis by (simp add: lists_rep_def cong: option.case_cong)
qed

section \<open>Storing on a healthy chip\<close>

text \<open>The page in the cache and its label.\<close>

definition same_page :: "'c ffs \<Rightarrow> 'c ffs \<Rightarrow> bool" where
  "same_page s s' \<longleftrightarrow> page_len s' = page_len s \<and> page_data s' = page_data s \<and> page_crc s' = page_crc s
     \<and> cache_file_id s' = cache_file_id s \<and> cache_page_number s' = cache_page_number s"

lemma same_page_bytes: "same_page s s' \<Longrightarrow> page_bytes s' = page_bytes s"
  by (simp add: same_page_def page_bytes_def)

lemma same_page_loaded: "same_page s s' \<Longrightarrow> page_loaded s' pg = page_loaded s pg"
  by (simp add: same_page_def page_loaded_def)

text \<open>Slot \<open>n\<close> of a block is unused, and everything behind it.\<close>

definition slot_free :: "(nat \<Rightarrow> u8) \<Rightarrow> nat \<Rightarrow> bool" where
  "slot_free B n \<longleftrightarrow> n < FFS_PAGES_PER_BLOCK \<and> index_used (index_of B) n \<and> index_copies B
     \<and> (\<forall>j. 134 + 67 * n \<le> j \<longrightarrow> j < 4096 \<longrightarrow> B j = 0xff)"

lemma slot_free_entries:
  assumes "slot_free B n"
  shows "B (8 + n) = 0xff" and "B (75 + n) = 0xff"
proof -
  have i: "n < 59" "index_of B ! n = 0xff" using assms by (simp_all add: slot_free_def index_used_def)
  then show "B (8 + n) = 0xff" by simp
  then show "B (75 + n) = 0xff" using assms i(1) by (simp add: slot_free_def index_copies_def bytes_at_nth_eq)
qed

lemma written_blank: "slot_free B n \<Longrightarrow> length bs = 67 \<Longrightarrow> programmable B (134 + 67 * n) bs"
  by (rule programmable_blank) (auto simp: slot_free_def)

lemma slot_u8 [simp]: "n < FFS_PAGES_PER_BLOCK \<Longrightarrow> unat (of_nat n :: u8) = n"
  by (simp add: unsigned_of_nat take_bit_nat_eq_self)

context flash_memory
begin

lemma write_slot:
  assumes u: "usable s b" and n: "n < FFS_PAGES_PER_BLOCK" and bs: "length bs = 67"
    and p: "programmable (blocks cells s b) (134 + 67 * n) bs"
  shows "\<exists>f. fs_write spi (page_address b (of_nat n)) bs s = s\<lparr>flash := f\<rparr> \<and> ready f
    \<and> blk (cells (fl_chip f)) = (blocks cells s)(b := written (blocks cells s b) (134 + 67 * n) bs)"
  using write_at [OF u, of "page_address b (of_nat n)" "134 + 67 * n" bs] n bs p by simp

lemma set_index_entry:
  assumes u: "usable s b" and n: "n < FFS_PAGES_PER_BLOCK" and q: "q < FFS_DATA_PAGES_PER_BLOCK"
    and e: "blocks cells s b (8 + n) = 0xff" "blocks cells s b (75 + n) = 0xff"
  obtains s' where "ffs_block_i8_set_index_entry spi b (of_nat q) (of_nat n) s = Some (FFS_STATUS_OK, s')"
    and "ready (flash s')" and "same_lists s s'" and "same_page s s'"
    and "blocks cells s' = (blocks cells s)(b := (blocks cells s b)(8 + n := of_nat q, 75 + n := of_nat q))"
    and "index_cache_block s' = index_cache_block s"
    and "index_cache_index s' = (if b = index_cache_block s then (index_cache_index s)[n := of_nat q] else index_cache_index s)"
proof -
  have "\<exists>f. ffs_block_i8_set_index_entry spi b (of_nat q) (of_nat n) s = Some (FFS_STATUS_OK, s\<lparr>index_cache_index :=
          (if b = index_cache_block s then (index_cache_index s)[n := of_nat q] else index_cache_index s), flash := f\<rparr>)
    \<and> ready f \<and> blk (cells (fl_chip f)) = (blocks cells s)(b := (blocks cells s b)(8 + n := of_nat q, 75 + n := of_nat q))"
    using set_index_healthy [OF u, of "of_nat n" "of_nat q", unfolded slot_u8 [OF n]] n q e by simp
  then obtain f where f: "ffs_block_i8_set_index_entry spi b (of_nat q) (of_nat n) s = Some (FFS_STATUS_OK, s\<lparr>index_cache_index :=
          (if b = index_cache_block s then (index_cache_index s)[n := of_nat q] else index_cache_index s), flash := f\<rparr>)"
    "ready f" "blk (cells (fl_chip f)) = (blocks cells s)(b := (blocks cells s b)(8 + n := of_nat q, 75 + n := of_nat q))" by blast
  show ?thesis by (rule that [OF f(1)]) (use f(2,3) in \<open>simp_all add: same_lists_def same_page_def\<close>)
qed

text \<open>The page first, then its index entry.\<close>

lemma store_page:
  assumes u: "usable s b" and free: "slot_free (blocks cells s b) n" and q: "q < FFS_DATA_PAGES_PER_BLOCK"
    and bs: "length bs = 67" and ic: "index_cached cells s"
  obtains s' where "ffs_block_i8_set_index_entry spi b (of_nat q) (of_nat n) (fs_write spi (page_address b (of_nat n)) bs s) = Some (FFS_STATUS_OK, s')"
    and "ready (flash s')" and "same_lists s s'" and "same_page s s'" and "index_cached cells s'"
    and "blocks cells s' = (blocks cells s)(b := stored (blocks cells s b) n bs (of_nat q))"
proof -
  let ?B = "blocks cells s b"
  have n: "n < 59" using free by (simp add: slot_free_def)
  obtain f where f: "fs_write spi (page_address b (of_nat n)) bs s = s\<lparr>flash := f\<rparr>" "ready f"
      "blk (cells (fl_chip f)) = (blocks cells s)(b := written ?B (134 + 67 * n) bs)"
    using write_slot [OF u n bs written_blank [OF free bs]] by blast
  have e: "written ?B (134 + 67 * n) bs (8 + n) = 0xff" "written ?B (134 + 67 * n) bs (75 + n) = 0xff"
    using slot_free_entries [OF free] n by (simp_all add: written_def)
  obtain t where t: "ffs_block_i8_set_index_entry spi b (of_nat q) (of_nat n) (s\<lparr>flash := f\<rparr>) = Some (FFS_STATUS_OK, t)"
      "ready (flash t)" "same_lists (s\<lparr>flash := f\<rparr>) t" "same_page (s\<lparr>flash := f\<rparr>) t"
      "blocks cells t = (blocks cells s)(b := stored ?B n bs (of_nat q))"
      "index_cache_block t = index_cache_block s"
      "index_cache_index t = (if b = index_cache_block s then (index_cache_index s)[n := of_nat q] else index_cache_index s)"
    by (rule set_index_entry [of "s\<lparr>flash := f\<rparr>" b n q]) (use u n q e f in \<open>simp_all add: stored_def\<close>)
  have "index_cached cells t" using ic t(3,5-7) n by (auto simp: index_cached_def index_of_stored same_lists_def)
  then show ?thesis using that [of t] t f(1) by (simp add: same_lists_def same_page_def)
qed

text \<open>The index entry first, then the page.\<close>

lemma store_page_indexed:
  assumes u: "usable s b" and free: "slot_free (blocks cells s b) n" and q: "q < FFS_DATA_PAGES_PER_BLOCK"
    and bs: "length bs = 67" and ic: "index_cached cells s"
  obtains s1 s' where "ffs_block_i8_set_index_entry spi b (of_nat q) (of_nat n) s = Some (FFS_STATUS_OK, s1)"
    and "same_page s s1" and "fs_write spi (page_address b (of_nat n)) bs s1 = s'"
    and "ready (flash s')" and "same_lists s s'" and "same_page s s'" and "index_cached cells s'"
    and "blocks cells s' = (blocks cells s)(b := stored (blocks cells s b) n bs (of_nat q))"
proof -
  let ?B = "blocks cells s b"
  have n: "n < 59" using free by (simp add: slot_free_def)
  obtain t where t: "ffs_block_i8_set_index_entry spi b (of_nat q) (of_nat n) s = Some (FFS_STATUS_OK, t)"
      "ready (flash t)" "same_lists s t" "same_page s t"
      "blocks cells t = (blocks cells s)(b := ?B(8 + n := of_nat q, 75 + n := of_nat q))"
      "index_cache_block t = index_cache_block s"
      "index_cache_index t = (if b = index_cache_block s then (index_cache_index s)[n := of_nat q] else index_cache_index s)"
    using set_index_entry [OF u n q slot_free_entries [OF free]] by blast
  have "programmable (blocks cells t b) (134 + 67 * n) bs"
    using free bs n by (intro programmable_blank) (auto simp: t(5) slot_free_def)
  then obtain g where g: "fs_write spi (page_address b (of_nat n)) bs t = t\<lparr>flash := g\<rparr>" "ready g"
      "blk (cells (fl_chip g)) = (blocks cells t)(b := written (blocks cells t b) (134 + 67 * n) bs)"
    using write_slot [of t b n bs] u t(2) n bs by auto
  have "written (?B(8 + n := of_nat q, 75 + n := of_nat q)) (134 + 67 * n) bs = stored ?B n bs (of_nat q)"
    using n by (auto simp: stored_def written_def fun_eq_iff)
  then have b: "blk (cells (fl_chip g)) = (blocks cells s)(b := stored ?B n bs (of_nat q))" using g(3) t(5) by simp
  then have "index_cached cells (t\<lparr>flash := g\<rparr>)" using ic n t(3,6,7) by (auto simp: index_cached_def index_of_stored same_lists_def)
  then show ?thesis using that [OF t(1,4) g(1)] t(3,4) g(2) b by (simp add: same_lists_def same_page_def)
qed

text \<open>One attempt on a block with a free slot.\<close>

lemma write_page_healthy:
  assumes f: "file_at s L i ps" and c: "page_cached s P" and P: "P i = Some ps"
    and p: "p \<le> length ps" "p div 51 < length (L (File_list i))"
    and free: "slot_free (blocks cells s b) n" and b: "b = L (File_list i) ! (p div 51)"
    and d: "unat off + unat len \<le> 64" "0 < unat len" "unat len \<le> length dat" "unat off \<le> length (page_at ps p)"
    and size: "file_size s ! i = of_nat size0" "size0 < 4294967296" "length (file_size s) = FFS_MAX_FILES"
  defines "pg \<equiv> overwrite (page_at ps p) (unat off) (take (unat len) dat)"
  obtains s' where "write_page spi (of_nat i) (of_nat p) (of_nat (p mod 51)) off dat len b (of_nat n) s = Some (Inr s')"
    and "file_at s' L i (put_page ps p pg)" and "page_cached s' (P(i \<mapsto> put_page ps p pg))"
    and "same_lists (s\<lparr>file_size := (file_size s)[i := of_nat (max size0 (64 * p + length pg))]\<rparr>) s'"
    and "\<And>c. c \<noteq> b \<Longrightarrow> blocks cells s' c = blocks cells s c"
proof -
  let ?bs = "L (File_list i)" and ?k = "p div 51" and ?q = "p mod 51" and ?eof = "\<not> p < length ps"
  have i: "i < 23" and rep: "lists_rep s L" and fb: "file_blocks (blocks cells s) i ?bs ps" and ic: "index_cached cells s"
    using f by (simp_all add: file_at_def)
  have bset: "b \<in> set ?bs" using b p(2) by simp
  note u = file_blocks_usable [OF f bset]
  have k: "?k < unat (total_blocks s)" using p(2) list_length_total [OF rep, of "File_list i"] by simp
  moreover have "length ?bs \<le> 254" using list_length [OF rep] by simp
  then have "?k < 254" using p(2) by simp
  then have p16: "p < 65536" by (simp add: div_less_iff_less_mult)
  ultimately obtain s1 where s1: "ffs_page_i8_read spi (of_nat i) (of_nat p) s = Some (if ?eof then FFS_STATUS_EOF else FFS_STATUS_OK, s1)"
      "same_disk s s1" "index_cached cells s1" "page_cached s1 P"
      "if ?eof then page_len s1 = 0 \<and> cache_file_id s1 = - 1 else page_loaded s1 (ps ! p)"
    using read_healthy [OF f c P _ p16] by (auto split: if_splits)
  have ok: "block_ok (blocks cells s b) i ?k (part_of ps ?k)" using fb p(2) b by (simp add: file_blocks_def)
  have old: "length (page_at ps p) \<le> 64"
  proof (cases "p < length ps")
    case True
    then show ?thesis using seek_page_ok [OF f True] by (metis page_at_def page_ok_def)
  qed (simp add: page_at_def)
  obtain s2 where s2: "write_cached off dat len (if ?eof then FFS_STATUS_EOF else FFS_STATUS_OK) s1 = Some s2"
      "page_loaded s2 pg" "same_disk s1 s2" "index_cache_block s2 = index_cache_block s1" "index_cache_index s2 = index_cache_index s1"
      "cache_file_id s2 = cache_file_id s1"
    by (rule write_cached_ok [of off len dat ?eof s1 "page_at ps p"])
      (use d s1(4,5) old in \<open>auto simp: page_at_def page_cached_def pg_def\<close>)
  have "length pg = max (length (page_at ps p)) (unat off + unat len)" using d by (simp add: pg_def length_overwrite)
  then have pg: "pg \<noteq> []" "length pg \<le> 64" using d(1,2) old by auto
  have d2: "same_disk s s2" by (rule same_disk_trans [OF s1(2) s2(3)])
  have b2: "blocks cells s2 = blocks cells s" "total_blocks s2 = total_blocks s" "flash s2 = flash s"
    using d2 by (simp_all add: same_disk_def same_lists_def)
  have i2: "index_cached cells s2" using s1(3) s2(3-5) by (simp add: index_cached_def same_disk_def same_lists_def)
  have img: "page_image (page_bytes s2) pg" "length (page_bytes s2) = 67"
    using page_bytes_image [OF s2(2) pg(2)] by (simp_all add: page_image_def)
  have u2: "usable s2 b" "slot_free (blocks cells s2 b) n" using u free b2 by simp_all
  obtain s3 where s3: "ffs_block_i8_set_index_entry spi b (of_nat ?q) (of_nat n) (fs_write spi (page_address b (of_nat n)) (page_bytes s2) s2)
        = Some (FFS_STATUS_OK, s3)" "ready (flash s3)" "same_lists s2 s3" "same_page s2 s3" "index_cached cells s3"
      "blocks cells s3 = (blocks cells s)(b := stored (blocks cells s b) n (page_bytes s2) (of_nat ?q))"
    using store_page [OF u2 _ img(2) i2, of ?q] b2 by auto
  let ?ps = "put_page ps p pg"
  have len: "?q \<le> length (part_of ps ?k)"
    using p(1) div_mult_mod_eq [of p 51] mod_less_divisor [of 51 p] by (simp only: length_take length_drop)
  have B: "block_ok (stored (blocks cells s b) n (page_bytes s2) (of_nat ?q)) i ?k (put_page (part_of ps ?k) ?q pg)"
    by (rule block_ok_stored [OF ok]) (use free img pg len in \<open>auto simp: slot_free_def\<close>)
  have sl: "same_lists s s3" using d2 s3(3) same_lists_trans by (auto simp: same_disk_def)
  let ?s4 = "invalidate_cache s3"
  have f4: "file_at ?s4 L i ?ps"
  proof -
    have "file_blocks (blocks cells s3) i ?bs ?ps"
      unfolding s3(6) b by (rule file_blocks_put [OF fb p lists_repD(3) [OF rep] B [unfolded b]])
    moreover have "lists_rep ?s4 L" using same_lists_rep [OF sl] rep same_lists_rep [of s3 ?s4 L]
      by (simp add: invalidate_cache_def same_lists_def)
    moreover have "index_cached cells ?s4" using s3(5) by (simp add: invalidate_cache_def index_cached_def)
    ultimately show ?thesis using f s3(2) by (simp add: file_at_def invalidate_cache_def)
  qed
  have len4: "length (page_data ?s4) = 64" using s3(4) s2(2) by (simp add: invalidate_cache_def same_page_def page_loaded_def)
  then have c4: "page_cached ?s4 (P(i \<mapsto> ?ps))" by (simp add: page_cached_def invalidate_cache_def)
  have p4: "p < length ?ps" "?ps ! p = pg" using p(1) by (auto simp: put_page_def nth_append)
  have "?k < unat (total_blocks ?s4)" using k sl by (simp add: invalidate_cache_def same_lists_def)
  then obtain s5 where s5: "ffs_page_i8_read spi (of_nat i) (of_nat p) ?s4 = Some (FFS_STATUS_OK, s5)"
      "same_disk ?s4 s5" "index_cached cells s5" "page_cached s5 (P(i \<mapsto> ?ps))" "page_loaded s5 pg"
    using read_healthy [OF f4 c4 _ _ p16] p4 by auto
  define top where "top = 64 * p + length pg"
  have l5: "unat (page_len s5) = length pg" using s5(5) by (simp add: page_loaded_def)
  have wide: "(ucast (of_nat p :: u16) :: u32) = of_nat p" "(ucast (page_len s5) :: u32) = of_nat (length pg)"
    using of_nat_unat [of "of_nat p :: u16"] of_nat_unat [of "page_len s5"] unat_of_nat16 [OF p16] l5 by metis+
  have top: "(ucast (of_nat p :: u16) * 64 + ucast (page_len s5) :: u32) = of_nat top" "top < 4294967296"
    using p16 pg(2) by (simp_all add: top_def wide)
  have fs5: "file_size s5 = file_size s" using sl s5(2) by (simp add: same_disk_def same_lists_def invalidate_cache_def)
  let ?new = "(file_size s)[i := of_nat (max size0 top)]"
  let ?s6 = "if of_nat top > file_size s5 ! i then s5\<lparr>file_size := (file_size s5)[i := of_nat top]\<rparr> else s5"
  have gt: "file_size s ! i < of_nat top \<longleftrightarrow> size0 < top"
    using size(1,2) top(2) by (simp add: word_less_nat_alt unat_of_nat32)
  have s6: "?s6 = s5\<lparr>file_size := ?new\<rparr>"
  proof (cases "size0 < top")
    case True
    then show ?thesis by (simp add: gt fs5 max_def)
  next
    case False
    then have "?new = file_size s" by (simp add: max_def list_update_id flip: size(1))
    then show ?thesis using False by (simp add: fs5 gt)
  qed
  have rest: "same_lists (s\<lparr>file_size := ?new\<rparr>) (s5\<lparr>file_size := ?new\<rparr>)" "blocks cells s5 = blocks cells s3"
    using sl s5(2) by (simp_all add: same_disk_def same_lists_def invalidate_cache_def)
  have "file_at (s5\<lparr>file_size := ?new\<rparr>) L i ?ps"
    using file_at_same_disk [OF f4 s5(2,3)] by (simp add: file_at_def index_cached_def)
  moreover have "page_cached (s5\<lparr>file_size := ?new\<rparr>) (P(i \<mapsto> ?ps))" using s5(4) by (auto simp: page_cached_def page_loaded_def)
  moreover have "write_page spi (of_nat i) (of_nat p) (of_nat ?q) off dat len b (of_nat n) s = Some (Inr (s5\<lparr>file_size := ?new\<rparr>))"
    unfolding s6 [symmetric]
    using s1(1) s2(1) s3(1) s5(1) i top(1) by (simp add: write_page_def Let_def)
  ultimately show ?thesis using that rest s3(6) by (auto simp: top_def)
qed

end

end
