(* ===== verification/Ffs_Replace.thy ===== *)
theory Ffs_Replace
  imports Ffs_Write
begin

text \<open>
  A full block is replaced: the current pages of its file are copied to a free block, which takes its place
  in the list of the file and holds the same pages; the old block becomes dirty.
\<close>

section \<open>A block that pages are copied to\<close>

definition copied :: "(nat \<Rightarrow> u8) \<Rightarrow> u8 list list \<Rightarrow> bool" where
  "copied D qs \<longleftrightarrow> length qs \<le> FFS_DATA_PAGES_PER_BLOCK \<and> slot_free D (length qs)
     \<and> (\<forall>j < 8. D j = 0xff \<and> D (67 + j) = 0xff)
     \<and> (\<forall>j < length qs. D (8 + j) = of_nat j \<and> page_ok D j (qs ! j))"

lemma copied_blank: "copied blank []"
  by (auto simp: copied_def slot_free_def blank_def index_used_def index_copies_def bytes_at_def)

lemma copied_step:
  assumes c: "copied D qs" and pg: "page_image bs pg" "pg \<noteq> []" "length pg \<le> 64" and q: "length qs < 51"
  shows "copied (stored D (length qs) bs (of_nat (length qs))) (qs @ [pg])"
proof -
  let ?n = "length qs"
  let ?D = "stored D ?n bs (of_nat ?n)"
  have free: "slot_free D ?n" using c by (simp add: copied_def)
  then have n: "?n < 59" by (simp add: slot_free_def)
  note at = stored_at [OF n, of _ D bs "of_nat ?n"]
  have bs: "length bs = 67" using pg(1) by (simp add: page_image_def)
  have "index_used ((index_of D)[?n := of_nat ?n]) (Suc ?n)"
    by (rule index_used_update) (use free q n in \<open>simp_all add: slot_free_def\<close>)
  then have "slot_free ?D (Suc ?n)"
    using free q bs by (simp add: slot_free_def index_of_stored index_copies_def at(2) written_def)
  moreover have "?D j = 0xff \<and> ?D (67 + j) = 0xff" if "j < 8" for j
    using c that by (simp add: copied_def at(1))
  moreover have "?D (8 + j) = of_nat j" if "j \<le> ?n" for j
    using c that q by (cases "j = ?n") (auto simp: copied_def at(1))
  moreover have "page_ok ?D ?n pg"
    using page_ok_written [OF pg, of D ?n] at(2) by (subst page_ok_cong [where B = "written D (134 + 67 * ?n) bs"]) auto
  moreover have "page_ok ?D j (qs ! j)" if "j < ?n" for j
    using c that at(2) by (subst page_ok_cong [where B = D]) (auto simp: copied_def written_def)
  ultimately show ?thesis using q by (simp add: copied_def nth_append less_Suc_eq_le)
qed

text \<open>With its header the copy is a block of the file.\<close>

lemma copied_seek:
  assumes "copied D qs" and "p < 51"
  shows "seek_index 59 (index_of D) (of_nat p) = (if p < length qs then Some p else None)"
proof -
  have used: "index_used (index_of D) (length qs)" and entry: "\<And>j. j < length qs \<Longrightarrow> index_of D ! j = of_nat j"
    and len: "length qs \<le> 51"
    using assms(1) by (simp_all add: copied_def slot_free_def)
  have p8: "unat (of_nat p :: u8) = p" using assms(2) by simp
  have inj: "(of_nat j :: u8) = of_nat p \<longleftrightarrow> j = p" if "j < 51" for j
    using slot_u8 [of j] p8 that by (auto simp: word_unat_eq_iff)
  have other: "index_of D ! j \<noteq> of_nat p" if "j < 59" "length qs \<le> j" for j
    using used that assms(2) p8 by (auto simp: index_used_def word_unat_eq_iff)
  have only: "j = p \<and> p < length qs" if "seek_index 59 (index_of D) (of_nat p) = Some j" for j
  proof -
    have j: "j < 59" "index_of D ! j = of_nat p" using seek_index_Some [OF that] by simp_all
    then have "j < length qs" using other [of j] by (meson not_less)
    moreover from this have "(of_nat j :: u8) = of_nat p" using j(2) entry by simp
    ultimately show ?thesis using inj [of j] len by simp
  qed
  show ?thesis
  proof (cases "seek_index 59 (index_of D) (of_nat p)")
    case None
    then have "\<not> p < length qs" using entry [of p] len by (auto simp: seek_index_None)
    then show ?thesis using None by simp
  next
    case (Some j)
    then show ?thesis using only [OF Some] by simp
  qed
qed

lemma block_ok_copied:
  assumes c: "copied D qs" and mb: "length mb = 8" "mb ! 0 = of_nat i" "mb ! 1 = NOT FFS_FLAG_VALID" "mb ! 2 = of_nat k"
  shows "block_ok (written (written D 0 mb) 67 mb) i k qs"
proof -
  let ?B = "written (written D 0 mb) 67 mb"
  have at: "?B j = D j" if "8 \<le> j" "j < 67 \<or> 75 \<le> j" for j using that mb(1) by (auto simp: written_def)
  have head: "?B j = mb ! j" "?B (67 + j) = mb ! j" if "j < 8" for j using that mb(1) by (simp_all add: written_def)
  have idx: "index_of ?B = index_of D" "bytes_at ?B 75 59 = bytes_at D 75 59" by (simp_all add: bytes_at_nth_eq at)
  have "page_ok ?B j pg = page_ok D j pg" for j pg by (rule page_ok_cong) (simp add: at)
  moreover have "meta_copies ?B" using head by (simp add: meta_copies_def bytes_at_nth_eq)
  moreover have "?B 0 = of_nat i" "?B 1 = NOT FFS_FLAG_VALID" "?B 2 = of_nat k"
    using head(1) [of 0] head(1) [of 1] head(1) [of 2] mb by simp_all
  moreover have "?B j = 0xff" if "134 + 67 * length qs \<le> j" "j < 4096" for j
    using that c at [of j] by (simp add: copied_def slot_free_def)
  moreover have "seek_index 59 (index_of ?B) (of_nat p) = (if p < length qs then Some p else None)" if "p < 51" for p
    using copied_seek [OF c that] idx by simp
  ultimately show ?thesis using c idx by (auto simp: block_ok_def copied_def slot_free_def index_copies_def intro!: exI [of _ "length qs"])
qed

section \<open>Copying\<close>

lemma same_page_cached: "same_page s s' \<Longrightarrow> page_cached s' P = page_cached s P"
  by (simp add: same_page_def page_cached_def page_loaded_def)

lemma storage_page: "same_storage s s' \<Longrightarrow> same_page s s'"
  by (simp add: same_storage_def same_page_def)

lemma page_ok_length: "page_ok B j pg \<Longrightarrow> pg \<noteq> [] \<and> length pg \<le> 64"
  by (simp add: page_ok_def)

context flash_memory
begin

text \<open>A file only depends on its own blocks.\<close>

lemma file_at_frame:
  assumes "file_at s L i ps" and "same_lists s s'" and "ready (flash s')" and "index_cached cells s'"
    and "\<And>b. b \<in> set (L (File_list i)) \<Longrightarrow> blocks cells s' b = blocks cells s b"
  shows "file_at s' L i ps"
  using assms same_lists_rep [OF assms(2), of L] file_blocks_cong [of "L (File_list i)" "blocks cells s'" "blocks cells s" i ps]
  by (simp add: file_at_def)

text \<open>One page.\<close>

lemma copy_page_healthy:
  assumes f: "file_at s L i ps" and c: "page_cached s P" and P: "P i = Some ps"
    and k: "k < length (L (File_list i))" and j: "j < 51" "j \<le> length (part_of ps k)"
    and d: "usable s d" "\<And>l. d \<notin> set (L l)" and D: "copied (blocks cells s d) (take j (part_of ps k))"
  shows "if j = length (part_of ps k)
    then \<exists>s'. copy_pages spi d (of_nat i) (of_nat (51 * k)) (j # js) s = Some (True, s')
      \<and> ready (flash s') \<and> same_disk s s' \<and> index_cached cells s' \<and> page_cached s' P
    else \<exists>s'. copy_pages spi d (of_nat i) (of_nat (51 * k)) (j # js) s = copy_pages spi d (of_nat i) (of_nat (51 * k)) js s'
      \<and> ready (flash s') \<and> same_lists s s' \<and> index_cached cells s' \<and> page_cached s' P
      \<and> copied (blocks cells s' d) (take (Suc j) (part_of ps k)) \<and> (\<forall>c. c \<noteq> d \<longrightarrow> blocks cells s' c = blocks cells s c)"
proof -
  let ?p = "51 * k + j"
  have i: "i < 23" and rep: "lists_rep s L" using f by (simp_all add: file_at_def)
  have kt: "k < unat (total_blocks s)" "k < 254"
    using k list_length_total [OF rep, of "File_list i"] list_length(1) [OF rep, of "File_list i"] by simp_all
  have pk: "?p div 51 = k" "?p mod 51 = j" using j(1) by simp_all
  have p16: "?p < 65536" using kt(2) j(1) by simp
  have addr: "(of_nat (51 * k) + of_nat j :: u16) = of_nat ?p" by simp
  have end_eq: "j = length (part_of ps k) \<longleftrightarrow> \<not> ?p < length ps" using j by (auto simp: min_def split: if_splits)
  obtain s1 where s1: "ffs_page_i8_read spi (of_nat i) (of_nat ?p) s = Some (if ?p < length ps then FFS_STATUS_OK else FFS_STATUS_EOF, s1)"
      "same_disk s s1" "index_cached cells s1" "page_cached s1 P" "?p < length ps \<Longrightarrow> page_loaded s1 (ps ! ?p)"
    using read_healthy [OF f c P _ p16] kt(1) by (simp only: pk) (auto split: if_splits)
  have r1: "ready (flash s1)" using s1(2) d(1) by (simp add: same_disk_def)
  show ?thesis
  proof (cases "?p < length ps")
    case False
    then have "copy_pages spi d (of_nat i) (of_nat (51 * k)) (j # js) s = Some (True, s1)"
      using s1(1) by (simp only: copy_pages.simps addr) simp
    moreover have "j = length (part_of ps k)" using False end_eq by blast
    ultimately show ?thesis using s1(2-4) r1 by (simp only: simp_thms if_True) blast
  next
    case True
    let ?pg = "ps ! ?p"
    have f1: "file_at s1 L i ps" by (rule file_at_same_disk [OF f s1(2,3)])
    have pg: "?pg \<noteq> []" "length ?pg \<le> 64" using seek_page_ok [OF f1 True] page_ok_length by metis+
    have b1: "blocks cells s1 = blocks cells s" "same_lists s s1" using s1(2) by (simp_all add: same_disk_def)
    have img: "page_image (page_bytes s1) ?pg" by (rule page_bytes_image [OF s1(5) [OF True] pg(2)])
    have lenj: "length (take j (part_of ps k)) = j" using j(2) by simp
    have free: "slot_free (blocks cells s1 d) j" using D unfolding b1(1) copied_def lenj by blast
    obtain s2 s3 where s3: "ffs_block_i8_set_index_entry spi d (of_nat j) (of_nat j) s1 = Some (FFS_STATUS_OK, s2)" "same_page s1 s2"
        "fs_write spi (page_address d (of_nat j)) (page_bytes s1) s2 = s3" "ready (flash s3)" "same_lists s1 s3" "same_page s1 s3"
        "index_cached cells s3" "blocks cells s3 = (blocks cells s)(d := stored (blocks cells s d) j (page_bytes s1) (of_nat j))"
      using store_page_indexed [of s1 d j j "page_bytes s1"] free r1 d(1) j(1) img s1(3) unfolding page_image_def b1(1) by metis
    have l3: "same_lists s s3" by (rule same_lists_trans [OF b1(2) s3(5)])
    have f3: "file_at s3 L i ps"
      by (rule file_at_frame [OF f l3 s3(4,7)]) (use d(2) in \<open>auto simp: s3(8)\<close>)
    have c3: "page_cached s3 P" using s1(4) s3(6) by (simp add: same_page_cached)
    have "k < unat (total_blocks s3)" using kt(1) l3 by (simp add: same_lists_def)
    then obtain s4 where s4: "ffs_page_i8_read spi (of_nat i) (of_nat ?p) s3 = Some (FFS_STATUS_OK, s4)"
        "same_disk s3 s4" "index_cached cells s4" "page_cached s4 P"
      using read_healthy [OF f3 c3 P _ p16] True by (simp only: pk) auto
    have "page_bytes s2 = page_bytes s1" using same_page_bytes [OF s3(2)] .
    then have run: "copy_pages spi d (of_nat i) (of_nat (51 * k)) (j # js) s = copy_pages spi d (of_nat i) (of_nat (51 * k)) js s4"
      using s1(1) s3(1,3) s4(1) True by (simp only: copy_pages.simps addr) simp
    have b4: "blocks cells s4 = blocks cells s3" "flash s4 = flash s3" using s4(2) by (simp_all add: same_disk_def)
    have "part_of ps k ! j = ?pg" "j < length (part_of ps k)" using True j end_eq by simp_all
    then have "take (Suc j) (part_of ps k) = take j (part_of ps k) @ [?pg]" by (simp only: take_Suc_conv_app_nth)
    then have "copied (blocks cells s4 d) (take (Suc j) (part_of ps k))"
      using copied_step [OF D img pg] j(1) unfolding lenj by (simp only: b4 s3(8) fun_upd_same)
    moreover have "same_lists s s4" using l3 s4(2) same_lists_trans by (auto simp: same_disk_def)
    moreover have "ready (flash s4)" "\<And>c. c \<noteq> d \<Longrightarrow> blocks cells s4 c = blocks cells s c" by (simp_all add: b4 s3(4,8))
    moreover have "j \<noteq> length (part_of ps k)" using True end_eq by blast
    ultimately show ?thesis unfolding run using s4(3,4) by (simp only: if_False) blast
  qed
qed

lemma copy_pages_healthy:
  assumes "file_at s L i ps" and "page_cached s P" and "P i = Some ps" and "k < length (L (File_list i))"
    and "j \<le> 51" and "j \<le> length (part_of ps k)" and "usable s d" and "\<And>l. d \<notin> set (L l)"
    and "copied (blocks cells s d) (take j (part_of ps k))"
  shows "\<exists>s'. copy_pages spi d (of_nat i) (of_nat (51 * k)) [j..<51] s = Some (True, s')
    \<and> ready (flash s') \<and> same_lists s s' \<and> index_cached cells s' \<and> page_cached s' P
    \<and> copied (blocks cells s' d) (part_of ps k) \<and> (\<forall>c. c \<noteq> d \<longrightarrow> blocks cells s' c = blocks cells s c)"
  using assms
proof (induction "51 - j" arbitrary: j s)
  case 0
  then have "j = 51" "[j..<51] = []" "take j (part_of ps k) = part_of ps k" by simp_all
  moreover have "index_cached cells s" using 0 by (simp add: file_at_def)
  ultimately show ?case using 0 by auto
next
  case (Suc n)
  then have j: "j < 51" "[j..<51] = j # [Suc j..<51]" by (simp_all add: upt_conv_Cons)
  note step = copy_page_healthy [OF Suc.prems(1-4) j(1) Suc.prems(6-9), where js = "[Suc j..<51]"]
  show ?case
  proof (cases "j = length (part_of ps k)")
    case True
    then have "take j (part_of ps k) = part_of ps k" by (simp only: take_all)
    moreover obtain s' where "copy_pages spi d (of_nat i) (of_nat (51 * k)) (j # [Suc j..<51]) s = Some (True, s')"
        "ready (flash s')" "same_disk s s'" "index_cached cells s'" "page_cached s' P"
      using step unfolding if_P [OF True] by blast
    ultimately show ?thesis using Suc.prems(9) unfolding j(2) same_disk_def by (intro exI [of _ s']) (simp only: simp_thms)
  next
    case False
    then obtain t where t: "copy_pages spi d (of_nat i) (of_nat (51 * k)) [j..<51] s = copy_pages spi d (of_nat i) (of_nat (51 * k)) [Suc j..<51] t"
        "ready (flash t)" "same_lists s t" "index_cached cells t" "page_cached t P"
        "copied (blocks cells t d) (take (Suc j) (part_of ps k))" "\<And>c. c \<noteq> d \<Longrightarrow> blocks cells t c = blocks cells s c"
      using step unfolding if_not_P [OF False] j(2) by blast
    have ft: "file_at t L i ps" by (rule file_at_frame [OF Suc.prems(1) t(3,2,4)]) (metis Suc.prems(8) t(7))
    have "Suc j \<le> length (part_of ps k)" using False Suc.prems(6) by linarith
    moreover have "usable t d" using Suc.prems(7) t(2) by simp
    moreover have "n = 51 - Suc j" "Suc j \<le> 51" using Suc.hyps(2) j(1) by simp_all
    ultimately obtain s' where s': "copy_pages spi d (of_nat i) (of_nat (51 * k)) [Suc j..<51] t = Some (True, s')"
        "ready (flash s')" "same_lists t s'" "index_cached cells s'" "page_cached s' P" "copied (blocks cells s' d) (part_of ps k)"
        "\<And>c. c \<noteq> d \<Longrightarrow> blocks cells s' c = blocks cells t c"
      using Suc.hyps(1) [of "Suc j" t] ft t(5,6) Suc.prems(3,4,8) by blast
    have "same_lists s s'" by (rule same_lists_trans [OF t(3) s'(3)])
    moreover have "\<And>c. c \<noteq> d \<Longrightarrow> blocks cells s' c = blocks cells s c" using s'(7) t(7) by simp
    ultimately show ?thesis unfolding t(1) using s'(1,2,4-6) by blast
  qed
qed

end

section \<open>A copied block\<close>

lemma slot_free_meta:
  assumes "slot_free D n" and "length mb = 8"
  shows "slot_free (written (written D 0 mb) 67 mb) n"
proof -
  have at: "written (written D 0 mb) 67 mb j = D j" if "8 \<le> j" "j < 67 \<or> 75 \<le> j" for j
    using that assms(2) by (auto simp: written_def)
  then have "index_of (written (written D 0 mb) 67 mb) = index_of D" "bytes_at (written (written D 0 mb) 67 mb) 75 59 = bytes_at D 75 59"
    by (simp_all add: bytes_at_nth_eq)
  moreover have "index_used (index_of D) n" "index_of D = bytes_at D 75 59" using assms(1)
    unfolding slot_free_def index_copies_def by blast+
  ultimately show ?thesis using assms at by (simp add: slot_free_def index_copies_def)
qed

context flash_memory
begin

text \<open>The header behind the copied pages (or no pages at all).\<close>

lemma write_meta_copied:
  assumes u: "usable s d" "d < total_blocks s" and D: "copied (blocks cells s d) qs" and ic: "index_cached cells s"
    and m: "meta_file_id meta = of_nat i" "meta_flags meta = NOT FFS_FLAG_VALID" "meta_block meta = of_nat k" "length (meta_reserved meta) = 4"
    and i: "i < FFS_MAX_FILES" and k: "k < unat (total_blocks s)"
  obtains s' where "ffs_block_i8_write_meta spi d meta s = Some (FFS_STATUS_OK, s')"
    and "ready (flash s')" and "same_lists s s'" and "same_page s s'" and "index_cached cells s'"
    and "block_ok (blocks cells s' d) i k qs" and "slot_free (blocks cells s' d) (length qs)"
    and "\<And>c. c \<noteq> d \<Longrightarrow> blocks cells s' c = blocks cells s c"
proof -
  let ?mb = "meta_bytes meta"
  have k8: "unat (of_nat k :: u8) = k" using k unat8_less [of "total_blocks s"] by (simp add: unsigned_of_nat take_bit_nat_eq_self)
  have mb: "length ?mb = 8" "?mb ! 0 = of_nat i" "?mb ! 1 = NOT FFS_FLAG_VALID" "?mb ! 2 = of_nat k" using m by (simp_all add: meta_bytes_def)
  have "unat (meta_file_id meta) < FFS_MAX_FILES" "meta_block meta < total_blocks s" using m i k k8 by (simp_all add: word_less_nat_alt)
  then obtain f where f: "ffs_block_i8_write_meta spi d meta s = Some (FFS_STATUS_OK, s\<lparr>flash := f\<rparr>)" "ready f"
      "blk (cells (fl_chip f)) = (blocks cells s)(d := written (written (blocks cells s d) 0 ?mb) 67 ?mb)"
    using write_meta_healthy [OF u m(4)] D by (auto simp: copied_def)
  have "index_of (written (written (blocks cells s d) 0 ?mb) 67 ?mb) = index_of (blocks cells s d)"
    using mb(1) by (simp add: bytes_at_nth_eq written_def)
  then have "index_cached cells (s\<lparr>flash := f\<rparr>)" using ic f(3) by (auto simp: index_cached_def)
  moreover have "slot_free (blocks cells s d) (length qs)" using D by (simp add: copied_def)
  ultimately show ?thesis
    using that [OF f(1)] f(2,3) block_ok_copied [OF D mb] slot_free_meta [OF _ mb(1)] by (simp add: same_lists_def same_page_def)
qed

lemma file_block:
  assumes "file_at s L i ps" and "k < length (L (File_list i))"
  shows "block_ok (blocks cells s (L (File_list i) ! k)) i k (part_of ps k)" and "k < unat (total_blocks s)"
    and "L (File_list i) ! k \<in> set (L (File_list i))"
  using assms list_length_total [of s L "File_list i"] by (auto simp: file_at_def file_blocks_def)

lemma block_copy_healthy:
  assumes f: "file_at s L i ps" and c: "page_cached s P" and P: "P i = Some ps" and k: "k < length (L (File_list i))"
    and d: "usable s d" "d < total_blocks s" "\<And>l. d \<notin> set (L l)" "blocks cells s d = blank"
  obtains s' where "ffs_page_i8_block_copy spi (L (File_list i) ! k) d s = Some (FFS_STATUS_OK, s')"
    and "ready (flash s')" and "same_lists s s'" and "index_cached cells s'" and "page_cached s' P"
    and "block_ok (blocks cells s' d) i k (part_of ps k)" and "slot_free (blocks cells s' d) (length (part_of ps k))"
    and "\<And>c. c \<noteq> d \<Longrightarrow> blocks cells s' c = blocks cells s c"
proof -
  let ?b = "L (File_list i) ! k" and ?s = "s\<lparr>block_copies := block_copies s + 1\<rparr>"
  let ?B = "blocks cells s ?b"
  let ?m = "meta_of (bytes_at ?B 0 8)"
  note b = file_block [OF f k] and u = file_blocks_usable [OF f file_block(3) [OF f k]]
  have i: "i < 23" using f by (simp add: file_at_def)
  have same: "same_disk s ?s" "index_cached cells ?s" using f by (simp_all add: same_disk_def same_lists_def file_at_def index_cached_def)
  note f0 = file_at_same_disk [OF f same]
  have k8: "unat (of_nat k :: u8) = k" "unat (of_nat i :: u8) = i"
    using b(2) i unat8_less [of "total_blocks s"] by (simp_all add: unsigned_of_nat take_bit_nat_eq_self)
  have B: "meta_copies ?B" "?B 0 = of_nat i" "?B 1 = NOT FFS_FLAG_VALID" "?B 2 = of_nat k" using b(1) by (simp_all add: block_ok_def)
  have meta: "meta_file_id ?m = of_nat i" "meta_flags ?m = NOT FFS_FLAG_VALID" "meta_block ?m = of_nat k" "length (meta_reserved ?m) = 4"
    using B by (simp_all add: meta_of_def bytes_at_def numeral_2_eq_2)
  have r: "ffs_block_i8_read_meta spi ?b ?s = Some (Some ?m, ?s)"
    using read_meta_healthy [of ?s ?b] u B i b(2) k8 by (simp add: word_less_nat_alt)
  have "(ucast (of_nat k :: u8) :: u16) = of_nat k" using of_nat_unat [of "of_nat k :: u8"] k8(1) by metis
  then have base: "(ucast (meta_block ?m) * 51 :: u16) = of_nat (51 * k)" unfolding meta(3) by simp
  have c0: "page_cached ?s P" using c by (auto simp: page_cached_def page_loaded_def)
  have "copied (blocks cells ?s d) (take 0 (part_of ps k))" using d(4) copied_blank by simp
  then obtain t where t: "copy_pages spi d (of_nat i) (of_nat (51 * k)) [0..<51] ?s = Some (True, t)"
      "ready (flash t)" "same_lists ?s t" "index_cached cells t" "page_cached t P" "copied (blocks cells t d) (part_of ps k)"
      "\<And>c. c \<noteq> d \<Longrightarrow> blocks cells t c = blocks cells s c"
    using copy_pages_healthy [OF f0 c0 P k, of 0 d] d(1,3) by auto
  have st: "same_lists s t" using t(3) by (simp add: same_lists_def)
  let ?m' = "?m\<lparr>meta_sequence := meta_sequence ?m + 1\<rparr>"
  obtain s' where s': "ffs_block_i8_write_meta spi d ?m' t = Some (FFS_STATUS_OK, s')" "ready (flash s')" "same_lists t s'" "same_page t s'"
      "index_cached cells s'" "block_ok (blocks cells s' d) i k (part_of ps k)" "slot_free (blocks cells s' d) (length (part_of ps k))"
      "\<And>c. c \<noteq> d \<Longrightarrow> blocks cells s' c = blocks cells t c"
    by (rule write_meta_copied [of t d "part_of ps k" ?m' i k]) (use t st d b(2) meta i in \<open>simp_all add: same_lists_def\<close>)
  have "ffs_page_i8_block_copy spi ?b d s = Some (FFS_STATUS_OK, s')"
    using r t(1) s'(1) by (simp add: ffs_page_i8_block_copy_def Let_def base meta(1))
  then show ?thesis using that s' t(5,7) same_lists_trans [OF st s'(3)] same_page_cached [OF s'(4)] by simp
qed

text \<open>A block becomes dirty.\<close>

definition same_files :: "'c ffs \<Rightarrow> 'c ffs \<Rightarrow> bool" where
  "same_files s s' \<longleftrightarrow> total_blocks s' = total_blocks s \<and> file_size s' = file_size s"

lemma set_dirty_list:
  assumes rep: "lists_rep s L" and u: "usable s b" "b < total_blocks s" and b: "\<And>l. b \<notin> set (L l)"
    and m: "meta_copies (blocks cells s b)" and ic: "index_cached cells s"
  obtains s' where "ffs_block_v_set_dirty spi b s = Some s'" and "lists_rep s' (L(Dirty_list := L Dirty_list @ [b]))"
    and "ready (flash s')" and "same_page s s'" and "same_files s s'" and "index_cached cells s'"
    and "blocks cells s' = (blocks cells s)(b := dirty_flags (blocks cells s b))"
proof -
  have flags: "blocks cells s b 1 = blocks cells s b 68" using m by (auto simp: meta_copies_def bytes_at_nth_eq dest: spec [of _ 1])
  obtain f where f: "ffs_block_v_set_dirty spi b s = ffs_block_v_add_to_list Dirty_list b (s\<lparr>flash := f\<rparr>)" "ready f"
      "blk (cells (fl_chip f)) = (blocks cells s)(b := dirty_flags (blocks cells s b))"
    using set_dirty_healthy [OF u flags] by blast
  have rep': "lists_rep (s\<lparr>flash := f\<rparr>) L" using same_lists_rep [of s "s\<lparr>flash := f\<rparr>" L] rep by (simp add: same_lists_def)
  have "unat b < length (next_block (s\<lparr>flash := f\<rparr>))" using lists_repD(1) [OF rep] u(2) by (simp add: word_less_nat_alt)
  then obtain s' where s': "ffs_block_v_add_to_list Dirty_list b (s\<lparr>flash := f\<rparr>) = Some s'"
      "lists_rep s' (L(Dirty_list := L Dirty_list @ [b]))" "same_storage (s\<lparr>flash := f\<rparr>) s'"
    using add_list_correct [OF rep' _ b, of Dirty_list] by auto
  have "index_of (dirty_flags (blocks cells s b)) = index_of (blocks cells s b)" by (simp add: dirty_flags_def bytes_at_nth_eq)
  then have "index_cached cells s'" using ic f(3) s'(3) by (auto simp: index_cached_def same_storage_def)
  then show ?thesis using that f s' by (simp add: same_storage_def same_page_def same_files_def)
qed

lemma free_block:
  assumes rep: "lists_rep s L" and free: "L Free_list = d # rest"
  shows "d < total_blocks s" and "unat d < length (next_block s)" and "l \<noteq> Free_list \<Longrightarrow> d \<notin> set (L l)" and "d \<notin> set rest"
    and "d \<notin> set ((L(Free_list := rest)) l)" and "l \<noteq> Free_list \<Longrightarrow> length (L l) < unat (total_blocks s)"
    and "d \<noteq> FFS_BLOCK_INVALID"
proof -
  note r = lists_repD [OF rep]
  show d: "unat d < length (next_block s)" using r(8) [of d Free_list] free by simp
  then show "d < total_blocks s" "d \<noteq> FFS_BLOCK_INVALID" using r(1) by (auto simp: word_less_nat_alt)
  show other: "l \<noteq> Free_list \<Longrightarrow> d \<notin> set (L l)" for l using r(4) [of d Free_list l] free by auto
  show rest: "d \<notin> set rest" using r(3) [of Free_list] free by simp
  show "d \<notin> set ((L(Free_list := rest)) l)" using other [of l] rest by simp
  show "length (L l) < unat (total_blocks s)" if "l \<noteq> Free_list"
  proof -
    have "length (d # L l) \<le> length (next_block s)"
      by (rule list_length_bound) (use d r(3,8) other [OF that] in auto)
    then show ?thesis using r(1) by simp
  qed
qed

text \<open>A free block becomes the last one of a file.\<close>

lemma alloc_block_healthy:
  assumes rep: "lists_rep s L" and i: "i < FFS_MAX_FILES" and free: "L Free_list = d # rest"
    and u: "usable s d" and blank: "blocks cells s d = blank" and ic: "index_cached cells s"
  obtains s' where "ffs_page_i16_alloc_block spi (of_nat i) s = Some (FFS_STATUS_OK, s')"
    and "lists_rep s' (L(Free_list := rest, File_list i := L (File_list i) @ [d]))"
    and "ready (flash s')" and "same_page s s'" and "same_files s s'" and "index_cached cells s'"
    and "block_ok (blocks cells s' d) i (length (L (File_list i))) []" and "slot_free (blocks cells s' d) 0"
    and "\<And>c. c \<noteq> d \<Longrightarrow> blocks cells s' c = blocks cells s c"
proof -
  let ?bs = "L (File_list i)" and ?L1 = "L(Free_list := rest)"
  note fb = free_block [OF rep free]
  obtain h where h: "head_of (File_list i) s = Some h" using file_head [OF rep i] by auto
  have size: "ffs_block_u8_list_size (File_list i) s = Some (of_nat (length ?bs))"
    using list_size_from_chain [OF lists_repD(1) [OF rep] lists_repD(2) [OF rep h], of 256 0] h list_length [OF rep, of "File_list i"]
    by (simp add: ffs_block_u8_list_size_def)
  obtain s1 where s1: "ffs_block_fb_alloc s = Some (d, s1)" "lists_rep s1 ?L1" "same_storage s s1"
    using alloc_correct [OF rep free] by blast
  define meta where "meta = \<lparr>meta_file_id = of_nat i, meta_flags = NOT FFS_FLAG_VALID, meta_block = of_nat (length ?bs),
    meta_sequence = 0, meta_reserved = replicate 4 0xff\<rparr>"
  have copied: "copied (blocks cells s1 d) []" using blank s1(3) copied_blank by (simp add: same_storage_def)
  obtain s2 where s2: "ffs_block_i8_write_meta spi d meta s1 = Some (FFS_STATUS_OK, s2)" "ready (flash s2)" "same_lists s1 s2" "same_page s1 s2"
      "index_cached cells s2" "block_ok (blocks cells s2 d) i (length ?bs) []" "slot_free (blocks cells s2 d) (length ([] :: u8 list list))"
      "\<And>c. c \<noteq> d \<Longrightarrow> blocks cells s2 c = blocks cells s1 c"
    by (rule write_meta_copied [of s1 d "[]" meta i "length ?bs"])
      (use u s1(3) fb(1) fb(6) [of "File_list i"] copied ic i in \<open>simp_all add: meta_def same_storage_def index_cached_def\<close>)
  have rep2: "lists_rep s2 ?L1" using same_lists_rep [OF s2(3)] s1(2) by simp
  have "unat d < length (next_block s2)" using fb(1) s1(3) s2(3) lists_repD(1) [OF rep2]
    by (simp add: same_lists_def same_storage_def word_less_nat_alt)
  moreover obtain h2 where "head_of (File_list i) s2 = Some h2" using file_head [OF rep2 i] by auto
  ultimately obtain s3 where s3: "ffs_block_v_add_to_list (File_list i) d s2 = Some s3"
      "lists_rep s3 (?L1(File_list i := ?L1 (File_list i) @ [d]))" "same_storage s2 s3"
    using add_list_correct [OF rep2 _ fb(5)] by blast
  have "ffs_page_i16_alloc_block spi (of_nat i) s = Some (FFS_STATUS_OK, s3)"
    using i size s1(1) fb(7) s2(1) [unfolded meta_def] s3(1) by (simp add: ffs_page_i16_alloc_block_def)
  then show ?thesis using that [of s3] s3 s1(3) s2
    by (simp add: same_storage_def same_lists_def same_page_def same_files_def index_cached_def)
qed

text \<open>A full block.\<close>

lemma replace_block_healthy:
  assumes f: "file_at s L i ps" and c: "page_cached s P" and P: "P i = Some ps" and k: "k < length (L (File_list i))"
    and free: "L Free_list = d # rest" and u: "usable s d" and blank: "blocks cells s d = blank"
  defines "old \<equiv> L (File_list i) ! k"
  obtains s' where "ffs_page_i16_replace_block spi (of_nat i) (of_nat k) s = Some (d, s')"
    and "lists_rep s' (L(Free_list := rest, File_list i := (L (File_list i))[k := d], Dirty_list := L Dirty_list @ [old]))"
    and "ready (flash s')" and "page_cached s' P" and "same_files s s'" and "index_cached cells s'"
    and "block_ok (blocks cells s' d) i k (part_of ps k)" and "slot_free (blocks cells s' d) (length (part_of ps k))"
    and "\<And>c. c \<noteq> d \<Longrightarrow> c \<noteq> old \<Longrightarrow> blocks cells s' c = blocks cells s c"
proof -
  let ?bs = "L (File_list i)" and ?L1 = "L(Free_list := rest)"
  let ?L2 = "?L1(File_list i := ?bs[k := d])"
  have rep: "lists_rep s L" and i: "i < 23" using f by (simp_all add: file_at_def)
  note fb = free_block [OF rep free] and b = file_block [OF f k]
  have old: "old \<in> set ?bs" "old \<noteq> d" using b(3) fb(3) [of "File_list i"] by (auto simp: old_def)
  note uo = file_blocks_usable [OF f old(1)]
  have get: "ffs_block_fb_get_block (File_list i) (of_nat k) s = Some old"
    using get_block_healthy [OF rep file_head [OF rep i] b(2)] k by (simp add: old_def)
  obtain s1 where s1: "ffs_block_fb_alloc s = Some (d, s1)" "lists_rep s1 ?L1" "same_storage s s1"
    using alloc_correct [OF rep free] by blast
  have st1: "flash s1 = flash s" "total_blocks s1 = total_blocks s" "index_cached cells s1" "page_cached s1 P"
    using s1(3) f c by (auto simp: same_storage_def file_at_def index_cached_def page_cached_def page_loaded_def)
  have f1: "file_at s1 ?L1 i ps" using f s1(2) st1 by (simp add: file_at_def)
  obtain s2 where s2: "ffs_page_i8_block_copy spi old d s1 = Some (FFS_STATUS_OK, s2)" "ready (flash s2)" "same_lists s1 s2"
      "index_cached cells s2" "page_cached s2 P" "block_ok (blocks cells s2 d) i k (part_of ps k)"
      "slot_free (blocks cells s2 d) (length (part_of ps k))" "\<And>c. c \<noteq> d \<Longrightarrow> blocks cells s2 c = blocks cells s c"
    using block_copy_healthy [OF f1 st1(4) P, of k d] k fb(1,5) u blank st1 by (auto simp: old_def)
  have rep2: "lists_rep s2 ?L1" using same_lists_rep [OF s2(3)] s1(2) by simp
  have t2: "total_blocks s2 = total_blocks s" using s2(3) st1 by (simp add: same_lists_def)
  obtain h2 where h2: "head_of (File_list i) s2 = Some h2" using file_head [OF rep2 i] by auto
  have split: "?L1 (File_list i) = take k ?bs @ old # drop (Suc k) ?bs" "take k ?bs @ d # drop (Suc k) ?bs = ?bs[k := d]"
    using k by (simp_all add: old_def id_take_nth_drop [symmetric] upd_conv_take_nth_drop)
  have "unat d < length (next_block s2)" using fb(1) t2 lists_repD(1) [OF rep2] by (simp add: word_less_nat_alt)
  then obtain s3 where s3: "ffs_block_v_replace_in_list (File_list i) old d s2 = Some s3" "lists_rep s3 ?L2" "same_storage s2 s3"
    using replace_correct [OF rep2 split(1) h2 _ fb(5)] unfolding split(2) by blast
  have "distinct ?bs" using lists_repD(3) [OF rep] .
  then have gone: "old \<notin> set (?bs[k := d])" using k old(2) by (auto simp: old_def in_set_conv_nth nth_list_update nth_eq_iff_index_eq split: if_splits)
  have "old \<notin> set (?L2 l)" for l
  proof (cases "l = File_list i")
    case True
    then show ?thesis using gone by simp
  next
    case False
    then have "old \<notin> set (L l)" using lists_repD(4) [OF rep old(1), of l] by blast
    then show ?thesis using False free by (cases "l = Free_list") simp_all
  qed
  moreover have "meta_copies (blocks cells s3 old)" "usable s3 old" "old < total_blocks s3" "index_cached cells s3"
    using b(1) s2(2,4,8) s3(3) old uo t2 by (simp_all add: old_def same_storage_def block_ok_def index_cached_def)
  ultimately obtain s4 where s4: "ffs_block_v_set_dirty spi old s3 = Some s4" "lists_rep s4 (?L2(Dirty_list := ?L2 Dirty_list @ [old]))"
      "ready (flash s4)" "same_page s3 s4" "same_files s3 s4" "index_cached cells s4"
      "blocks cells s4 = (blocks cells s3)(old := dirty_flags (blocks cells s3 old))"
    using set_dirty_list [OF s3(2)] by blast
  have "ffs_page_i16_replace_block spi (of_nat i) (of_nat k) s = Some (d, s4)"
    using i get uo(3) fb(7) s1(1) s2(1) s3(1) s4(1) by (simp add: ffs_page_i16_replace_block_def)
  moreover have "page_cached s4 P" using s2(5) same_page_cached [OF s4(4)] same_page_cached [OF storage_page [OF s3(3)]] by simp
  ultimately show ?thesis using that [of s4] s2 s3(3) s4 t2 st1 s1(3) old(2)
    by (simp add: same_storage_def same_files_def same_lists_def)
qed

end

end
