(* ===== verification/Ffs_Refine.thy ===== *)
theory Ffs_Refine
  imports Ffs_Replace
begin

text \<open>
  The flash file system as a map from file ids to byte sequences: the relation between a state and the
  files it holds, and the page operations on that map.  A write changes the bytes that are named and
  nothing else, whether the block has room, is full, or has to be allocated.
\<close>

section \<open>Bytes and pages\<close>

fun pages_of :: "u8 list \<Rightarrow> u8 list list" where
  "pages_of bs = (if bs = [] then [] else take 64 bs # pages_of (drop 64 bs))"

declare pages_of.simps [simp del]

lemma pages_of_Nil [simp]: "pages_of [] = []"
  by (simp add: pages_of.simps)

lemma pages_of_unfold: "bs \<noteq> [] \<Longrightarrow> pages_of bs = take 64 bs # pages_of (drop 64 bs)"
  by (simp add: pages_of.simps)

lemma length_pages: "length (pages_of bs) = (length bs + 63) div 64"
proof (induction bs rule: pages_of.induct)
  case (1 bs)
  show ?case
  proof (cases "bs = []")
    case False
    have "length bs \<le> 64 \<or> (\<exists>n. length bs = n + 64)" by (metis le_add_diff_inverse2 nat_le_linear)
    then show ?thesis using 1 [OF False] False by (auto simp: pages_of_unfold Suc_le_eq intro: div_nat_eqI [symmetric])
  qed simp
qed

lemma pages_less: "p < length (pages_of bs) \<longleftrightarrow> 64 * p < length bs"
proof -
  have "p < (length bs + 63) div 64 \<longleftrightarrow> Suc p * 64 \<le> length bs + 63" by (simp add: Suc_le_eq [symmetric] less_eq_div_iff_mult_less_eq)
  then show ?thesis by (simp add: length_pages) linarith
qed

lemma page_at_bytes: "page_at (pages_of bs) p = take 64 (drop (64 * p) bs)"
proof (induction p arbitrary: bs)
  case 0
  then show ?case by (cases "bs = []") (simp_all add: page_at_def pages_of_unfold)
next
  case (Suc p)
  show ?case
  proof (cases "bs = []")
    case False
    then show ?thesis using Suc [of "drop 64 bs"] by (auto simp: page_at_def pages_of_unfold add.commute)
  qed (simp add: page_at_def)
qed

lemma overwrite_Nil [simp]: "overwrite [] 0 d = d"
  by (simp add: overwrite_def)

lemma take_overwrite: "off \<le> length bs \<Longrightarrow> off + length d \<le> 64 \<Longrightarrow> take 64 (overwrite bs off d) = overwrite (take 64 bs) off d"
  by (cases "off = 64") (simp_all add: overwrite_def min_def drop_take)

lemma drop_overwrite: "off \<le> length bs \<Longrightarrow> off + length d \<le> 64 \<Longrightarrow> drop 64 (overwrite bs off d) = drop 64 bs"
  by (simp add: overwrite_def min_def)

lemma take_overwrite_later: "64 + x \<le> length bs \<Longrightarrow> take 64 (overwrite bs (64 + x) d) = take 64 bs"
  by (simp add: overwrite_def min_def)

lemma drop_overwrite_later: "64 + x \<le> length bs \<Longrightarrow> drop 64 (overwrite bs (64 + x) d) = overwrite (drop 64 bs) x d"
  by (simp add: overwrite_def drop_take min_def ac_simps)

text \<open>Writing a part of a page is writing these bytes of the file.\<close>

lemma pages_of_overwrite:
  assumes "64 * p + off \<le> length bs" and "off + length d \<le> 64" and "d \<noteq> []"
  shows "pages_of (overwrite bs (64 * p + off) d) = put_page (pages_of bs) p (overwrite (page_at (pages_of bs) p) off d)"
  using assms(1)
proof (induction p arbitrary: bs)
  case 0
  have ne: "overwrite bs off d \<noteq> []" using assms(3) by (simp add: overwrite_def)
  show ?case
  proof (cases "bs = []")
    case True
    then show ?thesis using 0 assms(2,3) by (simp add: put_page_def page_at_def pages_of_unfold)
  next
    case False
    then show ?thesis using 0 assms(2) ne
      by (simp add: put_page_def page_at_def pages_of_unfold take_overwrite drop_overwrite)
  qed
next
  case (Suc p)
  then have l: "64 + (64 * p + off) \<le> length bs" by simp
  have ne: "bs \<noteq> []" "overwrite bs (64 + (64 * p + off)) d \<noteq> []" using l assms(3) by (auto simp: overwrite_def)
  have "pages_of (overwrite bs (64 * Suc p + off) d) = take 64 bs # pages_of (overwrite (drop 64 bs) (64 * p + off) d)"
    using pages_of_unfold [OF ne(2)] take_overwrite_later [OF l, of d] drop_overwrite_later [OF l, of d] by (simp add: add.assoc)
  also have "\<dots> = take 64 bs # put_page (pages_of (drop 64 bs)) p (overwrite (page_at (pages_of (drop 64 bs)) p) off d)"
    using Suc.IH [of "drop 64 bs"] l by simp
  finally show ?case using ne(1) by (simp add: put_page_def page_at_def pages_of_unfold)
qed

section \<open>One attempt to write\<close>

text \<open>The part of \<^const>\<open>write_try\<close> that follows the allocation.\<close>

definition write_block :: "'c spi \<Rightarrow> i8 \<Rightarrow> u16 \<Rightarrow> u8 \<Rightarrow> u8 list \<Rightarrow> u8 \<Rightarrow> 'c ffs \<Rightarrow> ('c ffs + 'c ffs) option" where
  "write_block spi file_id page offset dat len s = do {
     let block = (ucast (page div 51) :: u8);
     let page_index = (ucast (page mod 51) :: u8);
     i \<leftarrow> file_index file_id;
     phy_block \<leftarrow> ffs_block_fb_get_block (File_list i) block s;
     require (phy_block \<noteq> FFS_BLOCK_INVALID);
     (r, s) \<leftarrow> ffs_block_i8_get_index_info spi phy_block s;
     case r of
       None \<Rightarrow> Some (Inl s)
     | Some info \<Rightarrow>
         if sint (phy_next_free info) < 0 then do {
           (phy_block, s) \<leftarrow> ffs_page_i16_replace_block spi file_id block s;
           if phy_block = FFS_BLOCK_INVALID then Some (Inl s)
           else do {
             (r, s) \<leftarrow> ffs_block_i8_get_index_info spi phy_block s;
             case r of
               None \<Rightarrow> Some (Inl s)
             | Some info \<Rightarrow>
                 if sint (phy_next_free info) < 0 then Some (Inl s)
                 else write_page spi file_id page page_index offset dat len phy_block (phy_next_free info) s } }
         else write_page spi file_id page page_index offset dat len phy_block (phy_next_free info) s }"

lemma write_try_block:
  "write_try spi file_id page offset dat len block_count s =
     (if block_count = ucast (page div 51) then do {
        (new_block, s) \<leftarrow> ffs_page_i16_alloc_block spi file_id (s\<lparr>page_allocs := page_allocs s + 1\<rparr>);
        if new_block = FFS_BLOCK_INVALID then Some (Inl s) else write_block spi file_id page offset dat len s }
      else write_block spi file_id page offset dat len (s\<lparr>page_allocs := page_allocs s + 1\<rparr>))"
  unfolding write_try_def write_block_def Let_def by simp

lemma slot_free_info:
  assumes "slot_free B n"
  shows "phy_next_free (index_info (index_of B)) = of_nat n" and "\<not> sint (of_nat n :: i8) < 0"
proof -
  have n: "n < 59" "index_used (index_of B) n" using assms by (simp_all add: slot_free_def)
  show "phy_next_free (index_info (index_of B)) = of_nat n" using next_free_used [OF n(2)] n(1) by simp
  show "\<not> sint (of_nat n :: i8) < 0" using n(1) by (simp add: signed_of_nat signed_take_bit_int_eq_self)
qed

lemma page_parts:
  assumes "p < 65536"
  shows "(ucast ((of_nat p :: u16) div 51) :: u8) = of_nat (p div 51)" and "(ucast ((of_nat p :: u16) mod 51) :: u8) = of_nat (p mod 51)"
proof -
  have "(ucast w :: u8) = of_nat (unat w)" for w :: u16 by simp
  then show "(ucast ((of_nat p :: u16) div 51) :: u8) = of_nat (p div 51)" "(ucast ((of_nat p :: u16) mod 51) :: u8) = of_nat (p mod 51)"
    using unat_of_nat16 [OF assms] by (simp_all only: unat_div_distrib unat_mod_distrib) simp_all
qed

lemma file_blocks_replace:
  assumes "file_blocks C i bs ps" and "k < length bs" and "distinct bs" and "block_ok (C' d) i k (part_of ps k)"
    and "\<And>c. c \<in> set bs \<Longrightarrow> c \<noteq> bs ! k \<Longrightarrow> C' c = C c"
  shows "file_blocks C' i (bs[k := d]) ps"
proof -
  have "block_ok (C' (bs[k := d] ! j)) i j (part_of ps j)" if "j < length bs" for j
    using assms that by (cases "j = k") (auto simp: file_blocks_def nth_eq_iff_index_eq)
  then show ?thesis using assms(1) by (simp add: file_blocks_def)
qed

lemma file_blocks_snoc:
  assumes "file_blocks C i bs ps" and "length ps = 51 * length bs" and "block_ok (C' d) i (length bs) []"
    and "\<And>c. c \<in> set bs \<Longrightarrow> C' c = C c"
  shows "file_blocks C' i (bs @ [d]) ps"
proof -
  have "block_ok (C' ((bs @ [d]) ! j)) i j (part_of ps j)" if "j < Suc (length bs)" for j
    using assms that by (cases "j = length bs") (auto simp: file_blocks_def nth_append)
  then show ?thesis using assms(2) by (simp add: file_blocks_def)
qed

context flash_memory
begin

lemma file_page_small:
  assumes "file_at s L i ps" and "p div 51 < length (L (File_list i))"
  shows "p < 65536" and "p div 51 < unat (total_blocks s)"
proof -
  have rep: "lists_rep s L" using assms(1) by (simp add: file_at_def)
  have "p div 51 < 254" using assms(2) list_length [OF rep, of "File_list i"] by simp
  then show "p < 65536" by (simp add: div_less_iff_less_mult)
  show "p div 51 < unat (total_blocks s)" using assms(2) list_length_total [OF rep, of "File_list i"] by simp
qed

lemma write_block_room:
  assumes f: "file_at s L i ps" and c: "page_cached s P" and P: "P i = Some ps"
    and p: "p \<le> length ps" "p div 51 < length (L (File_list i))"
    and free: "slot_free (blocks cells s b) n" and b: "b = L (File_list i) ! (p div 51)"
    and d: "unat off + unat len \<le> 64" "0 < unat len" "unat len \<le> length dat" "unat off \<le> length (page_at ps p)"
    and size: "file_size s ! i = of_nat size0" "size0 < 4294967296" "length (file_size s) = FFS_MAX_FILES"
  defines "pg \<equiv> overwrite (page_at ps p) (unat off) (take (unat len) dat)"
  obtains s' where "write_block spi (of_nat i) (of_nat p) off dat len s = Some (Inr s')"
    and "file_at s' L i (put_page ps p pg)" and "page_cached s' (P(i \<mapsto> put_page ps p pg))"
    and "same_lists (s\<lparr>file_size := (file_size s)[i := of_nat (max size0 (64 * p + length pg))]\<rparr>) s'"
    and "\<And>c. c \<noteq> b \<Longrightarrow> blocks cells s' c = blocks cells s c"
proof -
  let ?t = "s\<lparr>index_cache_index := index_of (blocks cells s b), index_cache_block := b\<rparr>"
  note small = file_page_small [OF f p(2)]
  have i: "i < 23" and rep: "lists_rep s L" and ic: "index_cached cells s" using f by (simp_all add: file_at_def)
  have bset: "b \<in> set (L (File_list i))" using b p(2) by simp
  note u = file_blocks_usable [OF f bset]
  have get: "ffs_block_fb_get_block (File_list i) (of_nat (p div 51)) s = Some b"
    using get_block_healthy [OF rep file_head [OF rep i] small(2)] p(2) b by simp
  have info: "ffs_block_i8_get_index_info spi b s = Some (Some (index_info (index_of (blocks cells s b))), ?t)"
    using get_index_info_healthy [OF u(1,2) _ ic] free by (simp add: slot_free_def)
  have t: "same_disk s ?t" "index_cached cells ?t" by (simp_all add: same_disk_def same_lists_def index_cached_def)
  have f': "file_at ?t L i ps" by (rule file_at_same_disk [OF f t])
  have c': "page_cached ?t P" using c by (auto simp: page_cached_def page_loaded_def)
  obtain s' where s': "write_page spi (of_nat i) (of_nat p) (of_nat (p mod 51)) off dat len b (of_nat n) ?t = Some (Inr s')"
      "file_at s' L i (put_page ps p pg)" "page_cached s' (P(i \<mapsto> put_page ps p pg))"
      "same_lists (?t\<lparr>file_size := (file_size ?t)[i := of_nat (max size0 (64 * p + length pg))]\<rparr>) s'"
      "\<And>c. c \<noteq> b \<Longrightarrow> blocks cells s' c = blocks cells ?t c"
    unfolding pg_def by (rule write_page_healthy [OF f' c' P p, of b n off len dat size0]) (use free b d size in simp_all)
  have "write_block spi (of_nat i) (of_nat p) off dat len s = Some (Inr s')"
    using i get u(3) info s'(1) slot_free_info [OF free]
    by (simp add: write_block_def page_parts [OF small(1)] Let_def)
  then show ?thesis using that [of s'] s'(2-5) by (simp add: same_lists_def)
qed

text \<open>A full block is replaced first.\<close>

lemma write_block_full:
  assumes f: "file_at s L i ps" and c: "page_cached s P" and P: "P i = Some ps"
    and p: "p \<le> length ps" "p div 51 < length (L (File_list i))"
    and full: "phy_next_free (index_info (index_of (blocks cells s b))) = - 1" and b: "b = L (File_list i) ! (p div 51)"
    and free: "L Free_list = e # rest" "usable s e" "blocks cells s e = blank"
    and d: "unat off + unat len \<le> 64" "0 < unat len" "unat len \<le> length dat" "unat off \<le> length (page_at ps p)"
    and size: "file_size s ! i = of_nat size0" "size0 < 4294967296" "length (file_size s) = FFS_MAX_FILES"
  defines "pg \<equiv> overwrite (page_at ps p) (unat off) (take (unat len) dat)"
    and "L' \<equiv> L(Free_list := rest, File_list i := (L (File_list i))[p div 51 := e], Dirty_list := L Dirty_list @ [b])"
  obtains s' where "write_block spi (of_nat i) (of_nat p) off dat len s = Some (Inr s')"
    and "file_at s' L' i (put_page ps p pg)" and "page_cached s' (P(i \<mapsto> put_page ps p pg))"
    and "total_blocks s' = total_blocks s" and "file_size s' = (file_size s)[i := of_nat (max size0 (64 * p + length pg))]"
    and "\<And>c. c \<noteq> b \<Longrightarrow> c \<noteq> e \<Longrightarrow> blocks cells s' c = blocks cells s c"
proof -
  let ?k = "p div 51"
  let ?t = "s\<lparr>index_cache_index := index_of (blocks cells s b), index_cache_block := b\<rparr>"
  note small = file_page_small [OF f p(2)]
  have i: "i < 23" and rep: "lists_rep s L" and ic: "index_cached cells s" using f by (simp_all add: file_at_def)
  have bset: "b \<in> set (L (File_list i))" using b p(2) by simp
  note u = file_blocks_usable [OF f bset] and fe = free_block [OF rep free(1)]
  have get: "ffs_block_fb_get_block (File_list i) (of_nat ?k) s = Some b"
    using get_block_healthy [OF rep file_head [OF rep i] small(2)] p(2) b by simp
  have ok: "block_ok (blocks cells s b) i ?k (part_of ps ?k)" using file_block(1) [OF f p(2)] b by simp
  then have info: "ffs_block_i8_get_index_info spi b s = Some (Some (index_info (index_of (blocks cells s b))), ?t)"
    using get_index_info_healthy [OF u(1,2) _ ic] by (simp add: block_ok_def)
  have t: "same_disk s ?t" "index_cached cells ?t" by (simp_all add: same_disk_def same_lists_def index_cached_def)
  have f': "file_at ?t L i ps" by (rule file_at_same_disk [OF f t])
  have c': "page_cached ?t P" using c by (auto simp: page_cached_def page_loaded_def)
  obtain s1 where s1: "ffs_page_i16_replace_block spi (of_nat i) (of_nat ?k) ?t = Some (e, s1)"
      "lists_rep s1 L'" "ready (flash s1)" "page_cached s1 P" "same_files ?t s1" "index_cached cells s1"
      "block_ok (blocks cells s1 e) i ?k (part_of ps ?k)" "slot_free (blocks cells s1 e) (length (part_of ps ?k))"
      "\<And>c. c \<noteq> e \<Longrightarrow> c \<noteq> b \<Longrightarrow> blocks cells s1 c = blocks cells s c"
    unfolding L'_def b by (rule replace_block_healthy [OF f' c' P p(2) free(1)]) (use free b in simp_all)
  have sf: "total_blocks s1 = total_blocks s" "file_size s1 = file_size s" using s1(5) by (simp_all add: same_files_def)
  have L': "L' (File_list i) = (L (File_list i))[?k := e]" by (simp add: L'_def)
  have dist: "distinct (L (File_list i))" using lists_repD(3) [OF rep] .
  have fb0: "file_blocks (blocks cells s) i (L (File_list i)) ps" using f by (simp add: file_at_def)
  have ne: "e \<notin> set (L (File_list i))" using fe(3) [of "File_list i"] by simp
  have fb1: "file_blocks (blocks cells s1) i (L' (File_list i)) ps" unfolding L'
    by (rule file_blocks_replace [where C' = "blocks cells s1", OF fb0 p(2) dist s1(7)]) (metis b s1(9) ne)
  have us: "\<forall>x \<in> set (L' (File_list i)). usable s1 x"
    using f free(2) s1(3) set_update_subset_insert [of "L (File_list i)" ?k e] unfolding L' by (auto simp: file_at_def)
  have f1: "file_at s1 L' i ps" using i s1(2,6) fb1 us by (simp add: file_at_def)
  let ?u = "s1\<lparr>index_cache_index := index_of (blocks cells s1 e), index_cache_block := e\<rparr>"
  have e1: "usable s1 e" "e < total_blocks s1" using free(2) s1(3) fe(1) sf by simp_all
  have info1: "ffs_block_i8_get_index_info spi e s1 = Some (Some (index_info (index_of (blocks cells s1 e))), ?u)"
    using get_index_info_healthy [OF e1 _ s1(6)] s1(8) by (simp add: slot_free_def)
  have t1: "same_disk s1 ?u" "index_cached cells ?u" by (simp_all add: same_disk_def same_lists_def index_cached_def)
  have fu: "file_at ?u L' i ps" by (rule file_at_same_disk [OF f1 t1])
  have cu: "page_cached ?u P" using s1(4) by (auto simp: page_cached_def page_loaded_def)
  obtain s' where s': "write_page spi (of_nat i) (of_nat p) (of_nat (p mod 51)) off dat len e (of_nat (length (part_of ps ?k))) ?u = Some (Inr s')"
      "file_at s' L' i (put_page ps p pg)" "page_cached s' (P(i \<mapsto> put_page ps p pg))"
      "same_lists (?u\<lparr>file_size := (file_size ?u)[i := of_nat (max size0 (64 * p + length pg))]\<rparr>) s'"
      "\<And>c. c \<noteq> e \<Longrightarrow> blocks cells s' c = blocks cells ?u c"
    unfolding pg_def by (rule write_page_healthy [OF fu cu P p(1), of e "length (part_of ps ?k)" off len dat size0])
      (use s1(8) p(2) d size sf in \<open>simp_all add: L'\<close>)
  have "write_block spi (of_nat i) (of_nat p) off dat len s = Some (Inr s')"
    using i get u(3) info full fe(7) s1(1) info1 s'(1) slot_free_info [OF s1(8)]
    by (simp add: write_block_def page_parts [OF small(1)] Let_def)
  then show ?thesis using that [of s'] s'(2-5) s1(9) sf by (simp add: same_lists_def)
qed

end

section \<open>The files of a state\<close>

text \<open>
  \<open>L\<close> gives the blocks of every list, \<open>F\<close> the bytes of every file that exists, its two pages of metadata
  included.
\<close>

definition fs_rep ::
  "('c \<Rightarrow> nat \<Rightarrow> u8) \<Rightarrow> ('c flash \<Rightarrow> bool) \<Rightarrow> nat \<Rightarrow> 'c ffs \<Rightarrow> (block_list \<Rightarrow> u8 list) \<Rightarrow> (nat \<Rightarrow> u8 list option) \<Rightarrow> bool" where
  "fs_rep cells ready cap s L F \<longleftrightarrow>
     lists_rep s L \<and> ready (flash s) \<and> (\<forall>b. b < total_blocks s \<longrightarrow> base b + 4096 \<le> cap) \<and> index_cached cells s
     \<and> page_cached s (\<lambda>i. map_option pages_of (F i)) \<and> length (file_size s) = FFS_MAX_FILES
     \<and> (\<forall>b \<in> set (L Free_list). blocks cells s b = blank)
     \<and> (\<forall>i < FFS_MAX_FILES. case F i of
            None \<Rightarrow> L (File_list i) = [] \<and> file_size s ! i = - 1
          | Some bs \<Rightarrow> L (File_list i) \<noteq> [] \<and> file_blocks (blocks cells s) i (L (File_list i)) (pages_of bs)
              \<and> file_size s ! i = of_nat (length bs))"

definition holds :: "('c \<Rightarrow> nat \<Rightarrow> u8) \<Rightarrow> ('c flash \<Rightarrow> bool) \<Rightarrow> nat \<Rightarrow> 'c ffs \<Rightarrow> (nat \<Rightarrow> u8 list option) \<Rightarrow> bool" where
  "holds cells ready cap s F \<longleftrightarrow> (\<exists>L. fs_rep cells ready cap s L F)"

lemma fs_repD:
  assumes "fs_rep cells ready cap s L F"
  shows "lists_rep s L" and "ready (flash s)" and "b < total_blocks s \<Longrightarrow> base b + 4096 \<le> cap" and "index_cached cells s"
    and "page_cached s (\<lambda>i. map_option pages_of (F i))" and "length (file_size s) = FFS_MAX_FILES"
    and "b \<in> set (L Free_list) \<Longrightarrow> blocks cells s b = blank"
    and "i < FFS_MAX_FILES \<Longrightarrow> F i = None \<Longrightarrow> L (File_list i) = [] \<and> file_size s ! i = - 1"
    and "i < FFS_MAX_FILES \<Longrightarrow> F i = Some bs \<Longrightarrow> L (File_list i) \<noteq> [] \<and> file_blocks (blocks cells s) i (L (File_list i)) (pages_of bs)
              \<and> file_size s ! i = of_nat (length bs)"
    and "b \<in> set (L l) \<Longrightarrow> base b + 4096 \<le> cap"
proof -
  show "b \<in> set (L l) \<Longrightarrow> base b + 4096 \<le> cap"
    using assms lists_repD(1) [of s L] lists_repD(8) [of s L b l] unfolding fs_rep_def by (auto simp: word_less_nat_alt)
qed (use assms in \<open>auto simp: fs_rep_def split: option.splits\<close>)

context flash_memory
begin

lemma fs_rep_file:
  assumes "fs_rep cells ready cap s L F" and "i < FFS_MAX_FILES" and "F i = Some bs"
  shows "file_at s L i (pages_of bs)"
  using fs_repD [OF assms(1)] assms(2,3) by (auto simp: file_at_def)

text \<open>One file has changed.\<close>

lemma fs_rep_update:
  assumes rep: "fs_rep cells ready cap s L F" and f: "file_at s' L' i (pages_of bs')" and c: "page_cached s' (\<lambda>i. map_option pages_of (F' i))"
    and F': "F' = F(i \<mapsto> bs')" and ne: "L' (File_list i) \<noteq> []" and ready: "ready (flash s')"
    and t: "total_blocks s' = total_blocks s" and size: "file_size s' = (file_size s)[i := of_nat (length bs')]"
    and L': "\<And>j. j \<noteq> i \<Longrightarrow> L' (File_list j) = L (File_list j)" "set (L' Free_list) \<subseteq> set (L Free_list)"
    and b: "\<And>b. b \<in> set (L' Free_list) \<Longrightarrow> blocks cells s' b = blocks cells s b"
      "\<And>b j. j \<noteq> i \<Longrightarrow> b \<in> set (L (File_list j)) \<Longrightarrow> blocks cells s' b = blocks cells s b"
  shows "fs_rep cells ready cap s' L' F'"
proof -
  note r = fs_repD [OF rep]
  have i: "i < 23" "lists_rep s' L'" "file_blocks (blocks cells s') i (L' (File_list i)) (pages_of bs')" "index_cached cells s'"
    using f by (simp_all add: file_at_def)
  have "case F' j of None \<Rightarrow> L' (File_list j) = [] \<and> file_size s' ! j = - 1
      | Some bs \<Rightarrow> L' (File_list j) \<noteq> [] \<and> file_blocks (blocks cells s') j (L' (File_list j)) (pages_of bs) \<and> file_size s' ! j = of_nat (length bs)"
    if j: "j < 23" for j
  proof (cases "j = i")
    case True
    then show ?thesis using i ne size r(6) by (simp add: F')
  next
    case False
    have "file_blocks (blocks cells s') j (L (File_list j)) ps = file_blocks (blocks cells s) j (L (File_list j)) ps" for ps
      by (rule file_blocks_cong) (use b(2) [OF False] in blast)
    then show ?thesis using False r(8,9) [OF j] L'(1) [OF False] size by (cases "F j") (simp_all add: F')
  qed
  moreover have "blocks cells s' b = blank" if "b \<in> set (L' Free_list)" for b using b(1) [OF that] r(7) L'(2) that by auto
  ultimately show ?thesis using i ready t c r(3,6) size by (simp add: fs_rep_def)
qed

lemma write_attempt:
  assumes rep: "fs_rep cells ready cap s L F" and i: "i < FFS_MAX_FILES" and F: "F i = Some bs"
    and pos: "64 * p + unat off \<le> length bs" and d: "unat off + unat len \<le> 64" "0 < unat len" "unat len \<le> length dat"
    and free: "L Free_list = e # rest"
  defines "bs' \<equiv> overwrite bs (64 * p + unat off) (take (unat len) dat)"
  obtains s' L' where "write_try spi (of_nat i) (of_nat p) off dat len (of_nat (length (L (File_list i)))) s = Some (Inr s')"
    and "fs_rep cells ready cap s' L' (F(i \<mapsto> bs'))" and "total_blocks s' = total_blocks s"
    and "L' Free_list \<in> {L Free_list, rest}"
proof -
  let ?bl = "L (File_list i)" and ?ps = "pages_of bs" and ?P = "\<lambda>i. map_option pages_of (F i)"
  let ?k = "p div 51" and ?s0 = "s\<lparr>page_allocs := page_allocs s + 1\<rparr>"
  let ?pg = "overwrite (page_at ?ps p) (unat off) (take (unat len) dat)"
  note r = fs_repD [OF rep] and fl = fs_repD(9) [OF rep i F] and fe = free_block [OF fs_repD(1) [OF rep] free]
  have len: "length (take (unat len) dat) = unat len" using d(3) by simp
  have bs': "pages_of bs' = put_page ?ps p ?pg" unfolding bs'_def
    by (rule pages_of_overwrite [OF pos]) (use d len in auto)
  have p: "p \<le> length ?ps" using pos by (simp add: length_pages less_eq_div_iff_mult_less_eq)
  have off: "unat off \<le> length (page_at ?ps p)" using pos d(1) by (simp add: page_at_bytes)
  have fit: "length ?ps \<le> 51 * length ?bl" "length ?bl \<le> 254" using fl list_length(1) [OF r(1)] by (simp_all add: file_blocks_def)
  have "length bs < 64 * length ?ps + 1" using pages_less [of "length ?ps" bs] by simp
  then have small: "length bs < 4294967296" using fit by simp
  have size: "max (length bs) (64 * p + length ?pg) = length bs'"
    using length_overwrite [OF off, of "take (unat len) dat"] length_overwrite [OF pos, of "take (unat len) dat"] d len
    by (simp add: bs'_def page_at_bytes)
  have same0: "same_disk s ?s0" "index_cached cells ?s0" using r(4) by (simp_all add: same_disk_def same_lists_def index_cached_def)
  have c0: "page_cached ?s0 ?P" using r(5) by (auto simp: page_cached_def page_loaded_def)
  note f0 = file_at_same_disk [OF fs_rep_file [OF rep i F] same0]
  have ue: "usable ?s0 e" "blocks cells ?s0 e = blank" using r(2,3,7) fe(1) free by simp_all
  have "?k * 51 \<le> p" by simp
  then have kle: "?k \<le> length ?bl" using p fit(1) by (metis div_le_mono le_trans nonzero_mult_div_cancel_left zero_neq_numeral)
  then have k16: "?k < 255" "p < 65536" using fit(2) by (simp_all add: div_less_iff_less_mult)
  have part: "(ucast ((of_nat p :: u16) div 51) :: u8) = of_nat ?k" by (rule page_parts(1) [OF k16(2)])
  have cmp: "(of_nat (length ?bl) :: u8) = of_nat ?k \<longleftrightarrow> length ?bl = ?k"
    using k16(1) fit(2) by (simp add: word_unat_eq_iff unsigned_of_nat take_bit_nat_eq_self)
  have P': "?P(i \<mapsto> put_page ?ps p ?pg) = (\<lambda>j. map_option pages_of ((F(i \<mapsto> bs')) j))" by (auto simp: bs')
  have other: "b \<in> set ?bl \<Longrightarrow> l \<noteq> File_list i \<Longrightarrow> b \<notin> set (L l)" for b l using lists_repD(4) [OF r(1)] by blast
  show ?thesis
  proof (cases "?k = length ?bl")
    case True
    let ?L1 = "L(Free_list := rest, File_list i := ?bl @ [e])"
    have "51 * length ?bl \<le> p" using True by (metis mult.commute times_div_less_eq_dividend)
    then have full: "length ?ps = 51 * length ?bl" using p fit(1) by simp
    have "lists_rep ?s0 L" "index_cached cells ?s0" using f0 by (simp_all add: file_at_def)
    then obtain s1 where s1: "ffs_page_i16_alloc_block spi (of_nat i) ?s0 = Some (FFS_STATUS_OK, s1)" "lists_rep s1 ?L1"
        "ready (flash s1)" "same_page ?s0 s1" "same_files ?s0 s1" "index_cached cells s1"
        "block_ok (blocks cells s1 e) i (length ?bl) []" "slot_free (blocks cells s1 e) 0"
        "\<And>c. c \<noteq> e \<Longrightarrow> blocks cells s1 c = blocks cells s c"
      using alloc_block_healthy [of ?s0 L i e rest] i free ue by auto
    have ne: "e \<notin> set (L (File_list j))" for j using fe(3) by simp
    have "file_blocks (blocks cells s1) i (?bl @ [e]) ?ps"
      by (rule file_blocks_snoc [where C' = "blocks cells s1", OF conjunct1 [OF conjunct2 [OF fl]] full s1(7)]) (metis ne s1(9))
    then have f1: "file_at s1 ?L1 i ?ps" using s1(2,3,6) i r(3,10) fe(1) by (auto simp: file_at_def)
    have c1: "page_cached s1 ?P" using c0 same_page_cached [OF s1(4)] by simp
    have b1: "e = ?L1 (File_list i) ! ?k" "?k < length (?L1 (File_list i))" using True by simp_all
    have t1: "file_size s1 = file_size s" "total_blocks s1 = total_blocks s" using s1(5) by (simp_all add: same_files_def)
    obtain s' where s': "write_block spi (of_nat i) (of_nat p) off dat len s1 = Some (Inr s')" "file_at s' ?L1 i (put_page ?ps p ?pg)"
        "page_cached s' (?P(i \<mapsto> put_page ?ps p ?pg))"
        "same_lists (s1\<lparr>file_size := (file_size s1)[i := of_nat (max (length bs) (64 * p + length ?pg))]\<rparr>) s'"
        "\<And>c. c \<noteq> e \<Longrightarrow> blocks cells s' c = blocks cells s1 c"
      by (rule write_block_room [OF f1 c1 _ p b1(2) s1(8) b1(1) d off, of "length bs"]) (use F fl small r(6) t1 in simp_all)
    have "write_try spi (of_nat i) (of_nat p) off dat len (of_nat (length ?bl)) s = Some (Inr s')"
      using s1(1) s'(1) True by (simp add: write_try_block part cmp)
    moreover have "fs_rep cells ready cap s' ?L1 (F(i \<mapsto> bs'))"
    proof (rule fs_rep_update [OF rep s'(2) [folded bs'] s'(3) [unfolded P'] refl])
      show "blocks cells s' b = blocks cells s b" if "b \<in> set (?L1 Free_list)" for b
        using that s'(5) s1(9) fe(4) by (simp, metis)
      show "blocks cells s' b = blocks cells s b" if "b \<in> set (L (File_list j))" for b j using that s'(5) s1(9) ne by metis
    qed (use s'(2,4) t1 size free in \<open>auto simp: file_at_def same_lists_def\<close>)
    ultimately show ?thesis using that [of s' ?L1] s'(4) t1 by (simp add: same_lists_def)
  next
    case False
    then have k: "?k < length ?bl" using kle by simp
    let ?b = "?bl ! ?k"
    have bset: "?b \<in> set ?bl" using k by simp
    note b = file_block(1) [OF f0 k]
    have skip: "write_try spi (of_nat i) (of_nat p) off dat len (of_nat (length ?bl)) s = write_block spi (of_nat i) (of_nat p) off dat len ?s0"
      using False by (simp add: write_try_block part cmp)
    obtain n where n: "index_used (index_of (blocks cells s ?b)) n" "n \<le> 59" "\<And>j. 134 + 67 * n \<le> j \<Longrightarrow> j < 4096 \<Longrightarrow> blocks cells s ?b j = 0xff"
        "phy_next_free (index_info (index_of (blocks cells s ?b))) = (if n < 59 then of_nat n else - 1)"
      using block_ok_used [OF b] by auto
    show ?thesis
    proof (cases "n < 59")
      case True
      then have sf: "slot_free (blocks cells ?s0 ?b) n" using n b by (simp add: slot_free_def block_ok_def)
      obtain s' where s': "write_block spi (of_nat i) (of_nat p) off dat len ?s0 = Some (Inr s')" "file_at s' L i (put_page ?ps p ?pg)"
          "page_cached s' (?P(i \<mapsto> put_page ?ps p ?pg))"
          "same_lists (?s0\<lparr>file_size := (file_size ?s0)[i := of_nat (max (length bs) (64 * p + length ?pg))]\<rparr>) s'"
          "\<And>c. c \<noteq> ?b \<Longrightarrow> blocks cells s' c = blocks cells ?s0 c"
        by (rule write_block_room [OF f0 c0 _ p k sf refl d off, of "length bs"]) (use F fl small r(6) in simp_all)
      have "fs_rep cells ready cap s' L (F(i \<mapsto> bs'))"
      proof (rule fs_rep_update [OF rep s'(2) [folded bs'] s'(3) [unfolded P'] refl])
        show "blocks cells s' c = blocks cells s c" if "c \<in> set (L Free_list)" for c using that s'(5) [of c] other [OF bset, of Free_list] by fastforce
        show "blocks cells s' c = blocks cells s c" if "j \<noteq> i" "c \<in> set (L (File_list j))" for c j
          using that s'(5) [of c] other [OF bset, of "File_list j"] by fastforce
      qed (use s'(2,4) fl size bset in \<open>auto simp: file_at_def same_lists_def\<close>)
      then show ?thesis using that [of s' L] skip s'(1,4) by (simp add: same_lists_def)
    next
      case False
      then have full: "phy_next_free (index_info (index_of (blocks cells ?s0 ?b))) = - 1" using n(4) by simp
      let ?L2 = "L(Free_list := rest, File_list i := ?bl[?k := e], Dirty_list := L Dirty_list @ [?b])"
      obtain s' where s': "write_block spi (of_nat i) (of_nat p) off dat len ?s0 = Some (Inr s')" "file_at s' ?L2 i (put_page ?ps p ?pg)"
          "page_cached s' (?P(i \<mapsto> put_page ?ps p ?pg))" "total_blocks s' = total_blocks ?s0"
          "file_size s' = (file_size ?s0)[i := of_nat (max (length bs) (64 * p + length ?pg))]"
          "\<And>c. c \<noteq> ?b \<Longrightarrow> c \<noteq> e \<Longrightarrow> blocks cells s' c = blocks cells ?s0 c"
        by (rule write_block_full [OF f0 c0 _ p k full refl free ue d off, of "length bs"]) (use F fl small r(6) in simp_all)
      have "fs_rep cells ready cap s' ?L2 (F(i \<mapsto> bs'))"
      proof (rule fs_rep_update [OF rep s'(2) [folded bs'] s'(3) [unfolded P'] refl])
        show "blocks cells s' c = blocks cells s c" if "c \<in> set (?L2 Free_list)" for c
          using that s'(6) [of c] other [OF bset, of Free_list] fe(4) free by fastforce
        show "blocks cells s' c = blocks cells s c" if "j \<noteq> i" "c \<in> set (L (File_list j))" for c j
          using that s'(6) [of c] other [OF bset, of "File_list j"] fe(3) [of "File_list j"] by fastforce
        show "ready (flash s')" using s'(2) set_update_memI [OF k, of e] by (auto simp: file_at_def)
      qed (use s'(2,4,5) fl size free in \<open>auto simp: file_at_def\<close>)
      then show ?thesis using that [of s' ?L2] skip s'(1,4) by simp
    qed
  qed
qed

lemma file_length_small:
  assumes "fs_rep cells ready cap s L F" and "i < FFS_MAX_FILES" and "F i = Some bs"
  shows "length bs < 2000000" and "sint (file_size s ! i) = int (length bs)"
proof -
  note r = fs_repD [OF assms(1)] and fl = fs_repD(9) [OF assms]
  have "length (pages_of bs) \<le> 51 * length (L (File_list i))" "length (L (File_list i)) \<le> 254"
    using fl list_length(1) [OF r(1)] by (simp_all add: file_blocks_def)
  moreover have "length bs < 64 * length (pages_of bs) + 1" using pages_less [of "length (pages_of bs)" bs] by simp
  ultimately show l: "length bs < 2000000" by simp
  show "sint (file_size s ! i) = int (length bs)" using fl l by (simp add: signed_of_nat signed_take_bit_int_eq_self)
qed

lemma list_size_healthy:
  assumes rep: "lists_rep s L" and i: "i < FFS_MAX_FILES"
  shows "ffs_block_u8_list_size (File_list i) s = Some (of_nat (length (L (File_list i))))"
proof -
  obtain h where h: "head_of (File_list i) s = Some h" using file_head [OF rep i] by auto
  show ?thesis
    using list_size_from_chain [OF lists_repD(1) [OF rep] lists_repD(2) [OF rep h], of 256 0] h list_length [OF rep, of "File_list i"]
    by (simp add: ffs_block_u8_list_size_def)
qed

lemma page_write_healthy:
  assumes rep: "fs_rep cells ready cap s L F" and i: "i < FFS_MAX_FILES" and F: "F i = Some bs"
    and pos: "64 * p + unat off \<le> length bs" and d: "unat off + unat len \<le> 64" "0 < unat len" "unat len \<le> length dat"
    and free: "free_blocks s \<noteq> 0"
  obtains s' L' where "ffs_page_i8_write spi (of_nat i) (of_nat p) off dat len s = Some (FFS_STATUS_OK, s')"
    and "fs_rep cells ready cap s' L' (F(i \<mapsto> overwrite bs (64 * p + unat off) (take (unat len) dat)))"
    and "total_blocks s' = total_blocks s" and "unat (free_blocks s) \<le> Suc (unat (free_blocks s'))"
proof -
  let ?bl = "L (File_list i)"
  note r = fs_repD [OF rep] and fl = fs_repD(9) [OF rep i F] and small = file_length_small [OF rep i F]
  have fb: "unat (free_blocks s) = length (L Free_list)" by (rule lists_repD(5) [OF r(1)])
  then obtain e rest where e: "L Free_list = e # rest" using free by (cases "L Free_list") (simp_all add: unat_eq_zero)
  have bl: "length ?bl < unat (total_blocks s)" "length ?bl \<le> 254"
    using free_block(6) [OF r(1) e, of "File_list i"] list_length(1) [OF r(1)] by simp_all
  have "length (pages_of bs) \<le> 51 * length ?bl" using fl by (simp add: file_blocks_def)
  moreover have "p \<le> length (pages_of bs)" using pos by (simp add: length_pages less_eq_div_iff_mult_less_eq)
  ultimately have p: "p \<le> 51 * length ?bl" by simp
  have p16: "unat (of_nat p :: u16) = p" using p bl(2) by (intro unat_of_nat16) simp
  have req1: "(of_nat p :: u16) < ffs_page_u16_total_pages s" using p bl(1) p16 by (simp add: word_less_nat_alt total_pages)
  let ?c = "if sint (file_size s ! i) > 0 then word_of_int (sint (file_size s ! i) div 64) + 1 else 0 :: u16"
  have req2: "(of_nat p :: u16) \<le> ?c"
  proof (cases "bs = []")
    case True
    then show ?thesis using pos by simp
  next
    case False
    have "p \<le> length bs div 64" using pos by (simp add: less_eq_div_iff_mult_less_eq mult.commute)
    moreover have "length bs div 64 < 51 * 254 + 1"
    proof -
      have "length bs < 64 * length (pages_of bs) + 1" using pages_less [of "length (pages_of bs)" bs] by simp
      also have "\<dots> \<le> 64 * (51 * 254) + 1" using \<open>length (pages_of bs) \<le> 51 * length ?bl\<close> bl(2) by simp
      finally show ?thesis by (simp add: div_less_iff_less_mult)
    qed
    moreover have "?c = of_nat (length bs div 64 + 1)"
    proof -
      have "int (length bs) div 64 = int (length bs div 64)" by (simp add: zdiv_int)
      then show ?thesis using False small(2) by (simp only: small(2)) (simp del: of_nat_div)
    qed
    ultimately show ?thesis using p16 by (simp only: word_le_nat_alt unat_of_nat16)
  qed
  obtain s' L' where s': "write_try spi (of_nat i) (of_nat p) off dat len (of_nat (length ?bl)) s = Some (Inr s')"
      "fs_rep cells ready cap s' L' (F(i \<mapsto> overwrite bs (64 * p + unat off) (take (unat len) dat)))"
      "total_blocks s' = total_blocks s" "L' Free_list \<in> {L Free_list, rest}"
    by (rule write_attempt [OF rep i F pos d e])
  have "ffs_page_i8_write spi (of_nat i) (of_nat p) off dat len s = Some (FFS_STATUS_OK, s')"
    using i list_size_healthy [OF r(1) i] req1 req2 s'(1) by (simp add: ffs_page_i8_write_def Let_def first_tries)
  moreover have "unat (free_blocks s) \<le> Suc (unat (free_blocks s'))"
    using lists_repD(5) [OF fs_repD(1) [OF s'(2)]] fb s'(4) e by auto
  ultimately show ?thesis using that s'(2,3) by blast
qed

lemma page_read_healthy:
  assumes rep: "fs_rep cells ready cap s L F" and i: "i < FFS_MAX_FILES" and F: "F i = Some bs" and p: "p div 51 < unat (total_blocks s)"
  obtains s' where "ffs_page_i8_read spi (of_nat i) (of_nat p) s = Some (if 64 * p < length bs then FFS_STATUS_OK else FFS_STATUS_EOF, s')"
    and "fs_rep cells ready cap s' L F" and "same_disk s s'"
    and "64 * p < length bs \<Longrightarrow> page_loaded s' (take 64 (drop (64 * p) bs)) \<and> cache_file_id s' = of_nat i"
proof -
  note r = fs_repD [OF rep]
  let ?P = "\<lambda>i. map_option pages_of (F i)"
  have "unat (total_blocks s) \<le> 254" using lists_repD(1) [OF r(1)] by simp
  then have "p div 51 < 254" using p by simp
  then have "p < 65536" by (simp add: div_less_iff_less_mult)
  then obtain s' where s': "ffs_page_i8_read spi (of_nat i) (of_nat p) s = Some (if 64 * p < length bs then FFS_STATUS_OK else FFS_STATUS_EOF, s')"
      "same_disk s s'" "index_cached cells s'" "page_cached s' ?P"
      "64 * p < length bs \<Longrightarrow> page_loaded s' (pages_of bs ! p) \<and> cache_file_id s' = of_nat i"
    using read_healthy [OF fs_rep_file [OF rep i F] r(5) _ p] F by (auto simp: pages_less split: if_splits)
  have d: "flash s' = flash s" "same_lists s s'" using s'(2) by (simp_all add: same_disk_def)
  have "fs_rep cells ready cap s' L F" using rep s'(3,4) same_lists_rep [OF d(2), of L] d by (simp add: fs_rep_def same_lists_def cong: option.case_cong)
  moreover have "64 * p < length bs \<Longrightarrow> pages_of bs ! p = take 64 (drop (64 * p) bs)"
    using page_at_bytes [of bs p] by (simp add: page_at_def pages_less)
  ultimately show ?thesis using that s'(1,2,5) by simp
qed

end

end
