(* ===== verification/Ffs_Bytes.thy ===== *)
theory Ffs_Bytes
  imports Flash_Fs Ffs_Refine
begin

text \<open>
  The files by id (\<open>flash_fs.c\<close>) on a chip that keeps its promises: reading and writing are reading and
  overwriting of byte sequences, at any position and of any length, page and block boundaries included.
\<close>

section \<open>The pieces of a transfer\<close>

lemma offset_u8 [simp]: "unat (ucast (position mod 64) :: u8) = unat position mod 64" for position :: u32
proof -
  have "position mod 64 < 256" using word_mod_less_divisor [of 64 position] by (simp add: word_less_nat_alt)
  then show ?thesis by (simp add: unat_mod_distrib)
qed

lemma clipped: "unat (if 64 > len then ucast len else 64 :: u8) = min 64 (unat len)" for len :: u32
proof (cases "64 > len")
  case True
  then have "len < 256" by (simp add: word_less_nat_alt)
  then show ?thesis using True by (simp add: word_less_nat_alt)
qed (simp add: word_less_nat_alt)

lemma write_piece_value: "unat (write_piece position len) = min (min 64 (unat len)) (64 - unat position mod 64)"
proof -
  let ?o = "ucast (position mod 64) :: u8"
  have o: "unat ?o < 64" by simp
  then have s: "unat (64 - ?o) = 64 - unat position mod 64" by (subst unat_sub) (simp_all add: word_le_nat_alt)
  define w where "w = (if 64 > len then ucast len else 64 :: u8)"
  have w: "unat w = min 64 (unat len)" unfolding w_def by (rule clipped)
  have "write_piece position len = (if w > 64 - ?o then 64 - ?o else w)" by (simp add: write_piece_def w_def Let_def)
  then show ?thesis using w s by (simp add: word_less_nat_alt min_def)
qed

lemma piece_length_value:
  assumes "unat position mod 64 \<le> unat plen" and "unat plen \<le> 64" and "position \<le> fsz"
  shows "unat (piece_length fsz position len plen)
    = min (min (min 64 (unat len)) (unat plen - unat position mod 64)) (unat fsz - unat position)"
proof -
  let ?o = "ucast (position mod 64) :: u8"
  define w where "w = (if 64 > len then ucast len else 64 :: u8)"
  have w: "unat w = min 64 (unat len)" unfolding w_def by (rule clipped)
  define r1 where "r1 = (if int (unat w) > int (unat plen) - int (unat ?o) then plen - ?o else w)"
  have s: "unat (plen - ?o) = unat plen - unat position mod 64" using assms(1) by (subst unat_sub) (simp_all add: word_le_nat_alt)
  have "int (unat w) > int (unat plen) - int (unat ?o) \<longleftrightarrow> unat plen - unat position mod 64 < unat w"
    using assms(1) by (simp only: offset_u8) linarith
  then have r1: "unat r1 = min (min 64 (unat len)) (unat plen - unat position mod 64)"
    using w s by (simp add: r1_def min_def)
  have d: "unat (fsz - position) = unat fsz - unat position" using assms(3) by (simp add: unat_sub)
  have p: "piece_length fsz position len plen = (if fsz - position < ucast r1 then ucast (fsz - position) else r1)"
    by (simp only: piece_length_def r1_def w_def Let_def)
  show ?thesis
  proof (cases "fsz - position < ucast r1")
    case True
    then have l: "unat (fsz - position) < unat r1" by (simp add: word_less_nat_alt)
    then have "fsz - position < 256" using unat8_less [of r1] by (simp add: word_less_nat_alt)
    then show ?thesis using True l p r1 d by (simp add: min_def)
  next
    case False
    then have "unat r1 \<le> unat fsz - unat position" using d by (simp add: word_less_nat_alt not_less)
    then show ?thesis using False p r1 by (simp add: min_def)
  qed
qed

lemma overwrite_overwrite:
  assumes "q \<le> length bs"
  shows "overwrite (overwrite bs q d1) (q + length d1) d2 = overwrite bs q (d1 @ d2)"
  using assms by (simp add: overwrite_def min_def ac_simps)

lemma overwrite_nothing [simp]: "overwrite bs q [] = bs"
  by (simp add: overwrite_def)

text \<open>How many pages a transfer touches.\<close>

definition pages_touched :: "nat \<Rightarrow> nat \<Rightarrow> nat" where
  "pages_touched pos n = (if n = 0 then 0 else (pos mod 64 + n + 63) div 64)"

lemma pages_touched_step:
  assumes "0 < n" and "w = min n (64 - pos mod 64)"
  shows "pages_touched pos n = Suc (pages_touched (pos + w) (n - w))"
proof (cases "n \<le> 64 - pos mod 64")
  case True
  have "pos mod 64 < 64" by simp
  then have "pos mod 64 + n + 63 = 64 + (pos mod 64 + n - 1)" "pos mod 64 + n - 1 < 64" using True assms(1) by linarith+
  then have "(pos mod 64 + n + 63) div 64 = 1" by simp
  then show ?thesis using True assms by (simp add: pages_touched_def min_def)
next
  case False
  let ?w = "64 - pos mod 64"
  have m: "pos mod 64 < 64" by simp
  have "?w + pos mod 64 = 64" using m by simp
  moreover have "64 * d + m + w = 64 * (d + 1)" if "w + m = 64" for d m w :: nat using that by simp
  ultimately have "64 * (pos div 64) + pos mod 64 + ?w = 64 * (pos div 64 + 1)" by blast
  then have "pos + ?w = 64 * (pos div 64 + 1)" unfolding mult_div_mod_eq .
  then have z: "(pos + ?w) mod 64 = 0" by (simp only: mod_mult_self1_is_0)
  obtain n' where n': "n = ?w + n'" "0 < n'" using False by (metis less_imp_add_positive not_le)
  have "x + (w + n' + 63) = (n' + 63) + 64" if "w + x = 64" for w x :: nat using that by simp
  then have "(pos mod 64 + (?w + n' + 63)) div 64 = Suc ((n' + 63) div 64)" using \<open>?w + pos mod 64 = 64\<close> by simp
  moreover have "w = ?w" "n - w = n'" using n' assms(2) by auto
  moreover have "\<not> 64 + n' \<le> pos mod 64" using m by linarith
  ultimately show ?thesis using n' z by (simp add: pages_touched_def add.assoc)
qed

section \<open>The loops\<close>

declare read_loop.simps [simp del] write_loop.simps [simp del]

lemma file_page:
  fixes position :: u32
  assumes "unat position < 2000000"
  shows "(ucast (position div 64) + 2 :: u16) = of_nat (unat position div 64 + 2)"
proof -
  have "unat (position div 64) = unat position div 64" by (simp add: unat_div_distrib)
  moreover have "(ucast (position div 64) :: u16) = of_nat (unat (position div 64))" by simp
  ultimately show ?thesis by (simp only: of_nat_add of_nat_numeral)
qed

lemma page_position: "64 * (pos div 64 + 2) + pos mod 64 = 128 + pos" for pos :: nat
proof -
  have "64 * (pos div 64 + 2) + pos mod 64 = 128 + (64 * (pos div 64) + pos mod 64)" by simp
  then show ?thesis unfolding mult_div_mod_eq .
qed

context flash_memory
begin

lemma write_loop_healthy:
  assumes "fs_rep cells ready cap s L F" and i: "i < FFS_MAX_FILES" and "F i = Some bs"
    and "128 + unat position \<le> length bs" and "unat len = length dat"
    and "pages_touched (unat position) (length dat) \<le> unat (free_blocks s)"
  shows "\<exists>s' L'. write_loop spi (of_nat i) position len dat total_written s = Some (total_written + len, s')
    \<and> fs_rep cells ready cap s' L' (F(i \<mapsto> overwrite bs (128 + unat position) dat))"
  using assms(1,3-)
proof (induction "length dat" arbitrary: position len dat total_written s L F bs rule: less_induct)
  case less
  note rep = less.prems(1) and F = less.prems(2) and pos = less.prems(3) and len = less.prems(4) and room = less.prems(5)
  show ?case
  proof (cases "len = 0")
    case True
    then have "write_loop spi (of_nat i) position len dat total_written s = Some (total_written + len, s)"
      by (subst write_loop.simps) simp
    moreover have "dat = []" using True len by simp
    ultimately show ?thesis using rep F by (auto simp: fun_upd_idem)
  next
    case False
    then have n: "0 < length dat" using len by (simp add: unat_gt_0 flip: len)
    let ?pos = "unat position"
    let ?wl = "write_piece position len"
    define w where "w = min (length dat) (64 - ?pos mod 64)"
    have wl: "unat ?wl = w" unfolding write_piece_value len w_def by auto
    have w: "0 < w" "w \<le> length dat" "?pos mod 64 + w \<le> 64" "w \<le> 64" using n by (auto simp: w_def)
    have touched: "pages_touched ?pos (length dat) = Suc (pages_touched (?pos + w) (length dat - w))"
      by (rule pages_touched_step [OF n w_def])
    have small: "?pos < 2000000" using file_length_small(1) [OF rep i F] pos by simp
    have free: "free_blocks s \<noteq> 0" using room touched by auto
    let ?p = "?pos div 64 + 2" and ?o = "ucast (position mod 64) :: u8"
    have at: "64 * ?p + unat ?o = 128 + ?pos" using page_position by simp
    obtain t M where t: "ffs_page_i8_write spi (of_nat i) (of_nat ?p) ?o dat ?wl s = Some (FFS_STATUS_OK, t)"
        "fs_rep cells ready cap t M (F(i \<mapsto> overwrite bs (64 * ?p + unat ?o) (take (unat ?wl) dat)))"
        "unat (free_blocks s) \<le> Suc (unat (free_blocks t))"
      by (rule page_write_healthy [OF rep i F, of ?p ?o ?wl dat]) (use at pos wl w free in simp_all)
    note t(2) [unfolded at wl]
    note t = t(1) this t(3)
    let ?bs = "overwrite bs (128 + ?pos) (take w dat)"
    have len_bs: "length ?bs = max (length bs) (128 + ?pos + w)" using length_overwrite [OF pos, of "take w dat"] w(2) by simp
    have next_pos: "unat (position + ucast ?wl) = ?pos + w" using small w(4) wl by (simp add: unat_word_ariths)
    have next_len: "unat (len - ucast ?wl) = length (drop w dat)" using unat_minus_piece [of len position] wl len by simp
    have side: "length dat - w < length dat" "128 + (?pos + w) \<le> max (length bs) (128 + ?pos + w)" using w(1) n by simp_all
    obtain s' L' where s': "write_loop spi (of_nat i) (position + ucast ?wl) (len - ucast ?wl) (drop w dat) (total_written + ucast ?wl) t
          = Some (total_written + ucast ?wl + (len - ucast ?wl), s')"
        "fs_rep cells ready cap s' L' ((F(i \<mapsto> ?bs))(i \<mapsto> overwrite ?bs (128 + unat (position + ucast ?wl)) (drop w dat)))"
      using less.hyps [of "drop w dat" t M "F(i \<mapsto> ?bs)" ?bs "position + ucast ?wl" "len - ucast ?wl" "total_written + ucast ?wl"]
        side w t(2,3) room touched next_pos next_len len_bs by auto
    have "overwrite ?bs (128 + unat (position + ucast ?wl)) (drop w dat) = overwrite bs (128 + ?pos) dat"
      using overwrite_overwrite [OF pos, of "take w dat" "drop w dat"] w(2) next_pos by (simp add: add.assoc)
    moreover have "write_loop spi (of_nat i) position len dat total_written s = Some (total_written + len, s')"
      using False t(1) s'(1) wl by (subst write_loop.simps) (simp add: Let_def file_page [OF small])
    ultimately show ?thesis using s'(2) by auto
  qed
qed

text \<open>One turn of the read loop inside the file.\<close>

lemma read_piece_healthy:
  assumes rep: "fs_rep cells ready cap s L F" and i: "i < FFS_MAX_FILES" and F: "F i = Some bs"
    and pos: "128 + unat position < length bs" and len: "len \<noteq> 0" and fsz: "unat fsz + 128 = length bs"
  defines "w \<equiv> min (min (unat len) (64 - unat position mod 64)) (unat fsz - unat position)"
  obtains s' and wl :: u8 where "read_loop spi (of_nat i) fsz position len acc s
      = read_loop spi (of_nat i) fsz (position + ucast wl) (len - ucast wl) (acc @ take w (drop (128 + unat position) bs)) s'"
    and "fs_rep cells ready cap s' L F" and "total_blocks s' = total_blocks s" and "unat wl = w" and "0 < w"
proof -
  let ?pos = "unat position"
  let ?p = "?pos div 64 + 2" and ?o = "?pos mod 64"
  have fp: "?pos < 2000000" using file_length_small(1) [OF rep i F] pos by simp
  have at: "64 * ?p + ?o = 128 + ?pos" by (rule page_position)
  then have inside: "64 * ?p < length bs" using pos by linarith
  have "length (pages_of bs) \<le> 51 * length (L (File_list i))" using fs_repD(9) [OF rep i F] by (simp add: file_blocks_def)
  then have "?p < length (L (File_list i)) * 51" using inside pages_less [of ?p bs] by simp
  then have blk: "?p div 51 < length (L (File_list i))" by (rule less_mult_imp_div_less)
  note k = file_page_small [OF fs_rep_file [OF rep i F] blk]
  obtain t where t0: "ffs_page_i8_read spi (of_nat i) (of_nat ?p) s = Some (if 64 * ?p < length bs then FFS_STATUS_OK else FFS_STATUS_EOF, t)"
      "fs_rep cells ready cap t L F" "same_disk s t"
      "64 * ?p < length bs \<Longrightarrow> page_loaded t (take 64 (drop (64 * ?p) bs)) \<and> cache_file_id t = of_nat i"
    using page_read_healthy [OF rep i F k(2)] by blast
  note t = t0(1) [unfolded if_P [OF inside]] t0(2,3) conjunct1 [OF t0(4) [OF inside]] conjunct2 [OF t0(4) [OF inside]]
  let ?pg = "take 64 (drop (64 * ?p) bs)"
  have pg: "unat (page_len t) = length ?pg" "take (length ?pg) (page_data t) = ?pg" "length (page_data t) = 64"
    using t(4) by (simp_all add: page_loaded_def)
  have m: "?o < 64" by simp
  have o: "?o < length ?pg" using m at pos by (simp only: length_take length_drop)
  have cached: "ffs_page_p_get_cached_page t = Some (page_len t, page_data t)" using t(5) i by (simp add: ffs_page_p_get_cached_page_def)
  have le: "position \<le> fsz" using pos fsz by (simp add: word_le_nat_alt)
  have gap: "length ?pg - ?o = min (64 - ?o) (unat fsz - ?pos)"
  proof -
    have "length bs - 64 * ?p - ?o = unat fsz - ?pos" using at fsz by linarith
    moreover have "min x y - z = min (y - z) (x - z)" for x y z :: nat by simp
    ultimately show ?thesis by (simp only: length_take length_drop)
  qed
  define wl where "wl = piece_length fsz position len (page_len t)"
  have wl: "unat wl = w"
  proof -
    have "unat wl = min (min (min 64 (unat len)) (length ?pg - ?o)) (unat fsz - ?pos)"
      unfolding wl_def pg(1) [symmetric]
    proof (rule piece_length_value [OF _ _ le])
      show "?o \<le> unat (page_len t)" "unat (page_len t) \<le> 64" unfolding pg(1) using o by (rule less_imp_le, simp)
    qed
    moreover note gap
    moreover have "min (min (min 64 n) x) y = min (min n (64 - z)) y" if "x = min (64 - z) y" for n x y z :: nat
      unfolding that by auto
    ultimately show ?thesis unfolding w_def by presburger
  qed
  have w: "0 < w" "w \<le> length ?pg - ?o"
    unfolding w_def gap using len pos fsz m by (simp_all add: unat_gt_0)
  have ow: "?o + w \<le> 64" using w(2) o by simp
  have dat: "take w (drop ?o (page_data t)) = take w (drop (128 + ?pos) bs)"
  proof -
    have "take w (drop ?o (page_data t)) = take w (drop ?o (take (length ?pg) (page_data t)))"
      using w(2) by (simp add: drop_take min_absorb1)
    also have "\<dots> = take w (take (64 - ?o) (drop (64 * ?p + ?o) bs))" unfolding pg(2) by (simp add: drop_take add.commute)
    also have "\<dots> = take w (drop (128 + ?pos) bs)" unfolding at using ow by (simp add: min_absorb1)
    finally show ?thesis .
  qed
  have "read_loop spi (of_nat i) fsz position len acc s
      = read_loop spi (of_nat i) fsz (position + ucast wl) (len - ucast wl) (acc @ take w (drop (128 + ?pos) bs)) t"
  proof -
    have "wl \<noteq> 0" "\<not> (ucast (position mod 64) :: u8) > page_len t" using w(1) wl o pg(1) by (auto simp: word_less_nat_alt)
    then show ?thesis
      using len t(1) cached wl ow dat
      by (subst read_loop.simps) (simp add: Let_def file_page [OF fp] wl_def [symmetric])
  qed
  moreover have "total_blocks t = total_blocks s" using t(3) by (simp add: same_disk_def same_lists_def)
  ultimately show ?thesis using that t(2) wl w(1) by blast
qed

text \<open>Behind the last byte there is nothing to take: the loop ends with an error.\<close>

lemma read_end_healthy:
  assumes rep: "fs_rep cells ready cap s L F" and i: "i < FFS_MAX_FILES" and F: "F i = Some bs"
    and pos: "128 + unat position = length bs" and len: "len \<noteq> 0" and fsz: "fsz = position"
    and room: "length bs div 64 div 51 < unat (total_blocks s)"
  obtains s' where "read_loop spi (of_nat i) fsz position len acc s = Some ((scast FFS_STATUS_ERROR, acc), s')"
    and "fs_rep cells ready cap s' L F"
proof -
  let ?pos = "unat position"
  let ?p = "?pos div 64 + 2" and ?o = "?pos mod 64"
  have fp: "?pos < 2000000" using file_length_small(1) [OF rep i F] pos by simp
  have at: "64 * ?p + ?o = 128 + ?pos" by (rule page_position)
  have "length bs div 64 = ?p" using pos by (simp flip: pos)
  then obtain t where t: "ffs_page_i8_read spi (of_nat i) (of_nat ?p) s = Some (if 64 * ?p < length bs then FFS_STATUS_OK else FFS_STATUS_EOF, t)"
      "fs_rep cells ready cap t L F"
      "64 * ?p < length bs \<Longrightarrow> page_loaded t (take 64 (drop (64 * ?p) bs)) \<and> cache_file_id t = of_nat i"
    using page_read_healthy [OF rep i F, of ?p] room by metis
  have "read_loop spi (of_nat i) fsz position len acc s = Some ((scast FFS_STATUS_ERROR, acc), t)"
  proof (cases "64 * ?p < length bs")
    case False
    then show ?thesis using len t(1) by (subst read_loop.simps) (simp add: Let_def file_page [OF fp])
  next
    case True
    then have l: "unat (page_len t) = length (take 64 (drop (64 * ?p) bs))" "cache_file_id t = of_nat i" using t(3) by (auto simp: page_loaded_def)
    have "length bs - 64 * ?p = ?o" using at pos by linarith
    moreover have "?o < 64" by simp
    ultimately have o: "unat (page_len t) = ?o" using l(1) by (simp only: length_take length_drop)
    then have "unat (piece_length fsz position len (page_len t)) = 0"
      using piece_length_value [of position "page_len t" fsz len] fsz by simp
    then have z: "piece_length fsz position len (page_len t) = 0" by (simp add: unat_eq_zero)
    have "ffs_page_p_get_cached_page t = Some (page_len t, page_data t)" using l(2) i by (simp add: ffs_page_p_get_cached_page_def)
    moreover have "ffs_page_i8_read spi (of_nat i) (of_nat ?p) s = Some (FFS_STATUS_OK, t)" using t(1) True by simp
    moreover have "\<not> (ucast (position mod 64) :: u8) > page_len t" using o by (simp add: word_less_nat_alt)
    ultimately show ?thesis using len z by (subst read_loop.simps) (simp add: Let_def file_page [OF fp])
  qed
  then show ?thesis using that t(2) by blast
qed

lemma read_loop_healthy:
  assumes "fs_rep cells ready cap s L F" and i: "i < FFS_MAX_FILES" and F: "F i = Some bs"
    and "unat position \<le> unat fsz" and fsz: "unat fsz + 128 = length bs"
    and "unat position + unat len \<le> unat fsz \<or> length bs div 64 div 51 < unat (total_blocks s)"
    and "length acc + unat len < 2 ^ 32"
  shows "\<exists>s'. read_loop spi (of_nat i) fsz position len acc s
      = Some (if unat position + unat len \<le> unat fsz then (of_nat (length acc + unat len), acc @ take (unat len) (drop (128 + unat position) bs))
              else (scast FFS_STATUS_ERROR, acc @ drop (128 + unat position) bs), s')
    \<and> fs_rep cells ready cap s' L F"
  using assms(1,4,6,7)
proof (induction "unat len" arbitrary: position len acc s rule: less_induct)
  case less
  note rep = less.prems(1) and pos = less.prems(2) and room = less.prems(3) and big = less.prems(4)
  show ?case
  proof (cases "len = 0")
    case True
    then show ?thesis using rep pos by (subst read_loop.simps) simp
  next
    case False
    then have n: "0 < unat len" by (simp add: unat_gt_0)
    show ?thesis
    proof (cases "unat position = unat fsz")
      case True
      then have "fsz = position" "128 + unat position = length bs" using fsz by (simp_all add: word_unat_eq_iff)
      moreover have "length bs div 64 div 51 < unat (total_blocks s)" using room n True by simp
      ultimately obtain s' where "read_loop spi (of_nat i) fsz position len acc s = Some ((scast FFS_STATUS_ERROR, acc), s')"
          "fs_rep cells ready cap s' L F"
        using read_end_healthy [OF rep i F _ False] by metis
      then show ?thesis using n True fsz by simp
    next
      case inner: False
      let ?pos = "unat position"
      define w where "w = min (min (unat len) (64 - ?pos mod 64)) (unat fsz - ?pos)"
      have "128 + ?pos < length bs" using inner pos fsz by simp
      then obtain t and wl :: u8 where t: "read_loop spi (of_nat i) fsz position len acc s
            = read_loop spi (of_nat i) fsz (position + ucast wl) (len - ucast wl) (acc @ take w (drop (128 + ?pos) bs)) t"
          "fs_rep cells ready cap t L F" "total_blocks t = total_blocks s" "unat wl = w" "0 < w"
        using read_piece_healthy [OF rep i F _ False fsz] unfolding w_def by metis
      have w: "w \<le> unat len" "?pos + w \<le> unat fsz" using inner pos by (auto simp: w_def)
      have p': "unat (position + ucast wl) = ?pos + w" using t(4) w(2) unat32_less [of fsz] by (simp add: unat_word_ariths)
      have l': "unat (len - ucast wl) = unat len - w" using t(4) w(1) by (subst unat_sub) (simp_all add: word_le_nat_alt)
      have pc: "length (take w (drop (128 + ?pos) bs)) = w" using w(2) fsz by simp
      obtain s' where s': "read_loop spi (of_nat i) fsz (position + ucast wl) (len - ucast wl) (acc @ take w (drop (128 + ?pos) bs)) t
          = Some (if unat (position + ucast wl) + unat (len - ucast wl) \<le> unat fsz
              then (of_nat (length (acc @ take w (drop (128 + ?pos) bs)) + unat (len - ucast wl)),
                (acc @ take w (drop (128 + ?pos) bs)) @ take (unat (len - ucast wl)) (drop (128 + unat (position + ucast wl)) bs))
              else (scast FFS_STATUS_ERROR, (acc @ take w (drop (128 + ?pos) bs)) @ drop (128 + unat (position + ucast wl)) bs), s')"
          "fs_rep cells ready cap s' L F"
        using less.hyps [of "len - ucast wl" t "position + ucast wl" "acc @ take w (drop (128 + ?pos) bs)"] t(2,3,5) n w p' l' pc room big by auto
      have "take w (drop (128 + ?pos) bs) @ take (unat len - w) (drop (128 + (?pos + w)) bs) = take (unat len) (drop (128 + ?pos) bs)"
        using w(1) take_add [of w "unat len - w" "drop (128 + ?pos) bs"] by (simp add: ac_simps)
      moreover have "take w (drop (128 + ?pos) bs) @ drop (128 + (?pos + w)) bs = drop (128 + ?pos) bs"
        using append_take_drop_id [of w "drop (128 + ?pos) bs"] by (simp add: ac_simps)
      ultimately show ?thesis unfolding t(1) s'(1) p' l' length_append pc using s'(2) w(1) by (simp add: add.assoc)
    qed
  qed
qed

end

end
