(* ===== verification/Ffs_System.thy ===== *)
theory Ffs_System
  imports Ffs_Bytes
begin

text \<open>
  The file system as a whole, on a chip that keeps its promises: writing, reading, creating and deleting a file and
  the garbage collector are the operations on byte sequences that their names say, and keep the relation
  between the state and the files.
\<close>

section \<open>Files by id\<close>

lemma overwrite_behind: "length meta = n \<Longrightarrow> pos \<le> length bs \<Longrightarrow> overwrite (meta @ bs) (n + pos) d = meta @ overwrite bs pos d"
  by (simp add: overwrite_def)

lemma pages_touched_bound:
  assumes "pages_touched pos n \<le> m"
  shows "n \<le> 64 * m"
proof (cases "n = 0")
  case False
  then have "(pos mod 64 + n + 63) div 64 < Suc m" using assms by (simp add: pages_touched_def)
  then have "pos mod 64 + n + 63 < Suc m * 64" by (simp add: div_less_iff_less_mult)
  then show ?thesis by simp
qed simp

lemma file_id_plain:
  assumes "i < FFS_MAX_FILES"
  shows "(of_nat i :: i8) \<noteq> FFS_FILE_ID_FIRMWARE_0" and "(of_nat i :: i8) \<noteq> FFS_FILE_ID_FIRMWARE_1"
    and "(of_nat i :: i8) \<noteq> FFS_FILE_ID_FIRMWARE_2" and "\<not> sint (of_nat i :: i8) < 0"
proof -
  have "(of_nat i :: i8) \<noteq> x" if "int i \<noteq> sint x" for x using file_index_of(1) [OF assms] that by metis
  then show "(of_nat i :: i8) \<noteq> FFS_FILE_ID_FIRMWARE_0" "(of_nat i :: i8) \<noteq> FFS_FILE_ID_FIRMWARE_1"
    "(of_nat i :: i8) \<noteq> FFS_FILE_ID_FIRMWARE_2" using assms by simp_all
  show "\<not> sint (of_nat i :: i8) < 0" using assms by simp
qed

context flash_memory
begin

lemma file_size_healthy:
  assumes rep: "fs_rep cells ready cap (fs_ffs s) L F" and ok: "\<not> ffs_fail s" and i: "i < FFS_MAX_FILES"
    and F: "F i = Some (meta @ bs)" and meta: "length meta = FFS_FILE_META_SIZE"
  shows "ffs_i32_get_file_size (of_nat i) s = Some (of_nat (length bs))"
    and "unat (of_nat (length bs) :: u32) = length bs" and "\<not> sint (of_nat (length bs) :: i32) < 0" and "length bs < 2000000"
proof -
  note r = fs_repD [OF rep] and small = file_length_small [OF rep i F] and fl = fs_repD(9) [OF rep i F]
  have raw: "ffs_page_i32_file_size (of_nat i) (fs_ffs s) = Some (of_nat (length (meta @ bs)))"
    using i fl r(6) by (simp add: ffs_page_i32_file_size_def rd_def)
  have "sint (of_nat (length (meta @ bs)) :: i32) = int (length (meta @ bs))" using small fl by metis
  moreover have "(of_nat (length (meta @ bs)) - 128 :: i32) = of_nat (length bs)" using meta by simp
  moreover note file_id_plain [OF i]
  ultimately show "ffs_i32_get_file_size (of_nat i) s = Some (of_nat (length bs))"
    using ok i raw meta by (simp add: ffs_i32_get_file_size_def)
  show "length bs < 2000000" using small by simp
  then show "unat (of_nat (length bs) :: u32) = length bs" by (simp add: unat_of_nat32)
  show "\<not> sint (of_nat (length bs) :: i32) < 0"
    using \<open>length bs < 2000000\<close> by (simp add: signed_of_nat signed_take_bit_int_eq_self)
qed

lemma file_write_healthy:
  assumes rep: "fs_rep cells ready cap (fs_ffs s) L F" and ok: "\<not> ffs_fail s" and i: "i < FFS_MAX_FILES"
    and F: "F i = Some (meta @ bs)" and meta: "length meta = FFS_FILE_META_SIZE"
    and pos: "pos \<le> length bs" and room: "pages_touched pos (length dat) \<le> unat (free_blocks (fs_ffs s))"
  shows "\<exists>s' L'. ffs_i32_write spi (of_nat i) (of_nat pos) dat s = Some (of_nat (length dat), s')
    \<and> fs_rep cells ready cap (fs_ffs s') L' (F(i \<mapsto> meta @ overwrite bs pos dat)) \<and> \<not> ffs_fail s'"
proof -
  note size = file_size_healthy [OF rep ok i F meta] and id = file_id_plain [OF i]
  have p: "unat (of_nat pos :: u32) = pos" using pos size(4) by (simp add: unat_of_nat32)
  have "length dat \<le> 64 * 256" using pages_touched_bound [OF room] unat8_less [of "free_blocks (fs_ffs s)"] by simp
  then have d: "unat (of_nat (length dat) :: u32) = length dat" by (simp add: unat_of_nat32)
  have le: "\<not> (of_nat pos :: u32) > of_nat (length bs)" using pos p size(2) by (simp add: word_less_nat_alt)
  obtain g L' where g: "write_loop spi (of_nat i) (of_nat pos) (of_nat (length dat)) dat 0 (fs_ffs s) = Some (0 + of_nat (length dat), g)"
      "fs_rep cells ready cap g L' (F(i \<mapsto> overwrite (meta @ bs) (128 + unat (of_nat pos :: u32)) dat))"
    using write_loop_healthy [OF rep i F, of "of_nat pos" "of_nat (length dat)" dat 0] pos p d room meta by auto
  have "overwrite (meta @ bs) (128 + pos) dat = meta @ overwrite bs pos dat" by (rule overwrite_behind [OF meta pos])
  then have "fs_rep cells ready cap g L' (F(i \<mapsto> meta @ overwrite bs pos dat))" using g(2) p by simp
  moreover have "ffs_i32_write spi (of_nat i) (of_nat pos) dat s = Some (of_nat (length dat), s\<lparr>fs_ffs := g\<rparr>)"
    using ok i id size(1,3) le g(1) by (simp add: ffs_i32_write_def)
  ultimately show ?thesis using ok by (intro exI [of _ "s\<lparr>fs_ffs := g\<rparr>"] exI [of _ L']) simp
qed

lemma file_read_healthy:
  assumes rep: "fs_rep cells ready cap (fs_ffs s) L F" and ok: "\<not> ffs_fail s" and i: "i < FFS_MAX_FILES"
    and F: "F i = Some (meta @ bs)" and meta: "length meta = FFS_FILE_META_SIZE"
    and pos: "pos < length bs" and n: "pos + n \<le> length bs"
  shows "\<exists>s'. ffs_i32_read spi (of_nat i) (of_nat pos) (of_nat n) s = Some ((of_nat n, take n (drop pos bs)), s')
    \<and> fs_rep cells ready cap (fs_ffs s') L F \<and> \<not> ffs_fail s'"
proof -
  note size = file_size_healthy [OF rep ok i F meta] and id = file_id_plain [OF i]
  have p: "unat (of_nat pos :: u32) = pos" "unat (of_nat n :: u32) = n" using pos n size(4) by (simp_all add: unat_of_nat32)
  have lt: "\<not> (of_nat pos :: u32) \<ge> of_nat (length bs)" using pos p size(2) by (simp add: word_le_nat_alt)
  obtain g where g: "read_loop spi (of_nat i) (of_nat (length bs)) (of_nat pos) (of_nat n) [] (fs_ffs s)
        = Some ((of_nat n, take n (drop (128 + pos) (meta @ bs))), g)" "fs_rep cells ready cap g L F"
    using read_loop_healthy [OF rep i F, of "of_nat pos" "of_nat (length bs)" "of_nat n" "[]"] pos n p size meta by auto
  have "ffs_i32_read spi (of_nat i) (of_nat pos) (of_nat n) s = Some ((of_nat n, take n (drop pos bs)), s\<lparr>fs_ffs := g\<rparr>)"
    using ok i id size(1,3) lt g(1) meta by (simp add: ffs_i32_read_def)
  then show ?thesis using g(2) ok by (intro exI [of _ "s\<lparr>fs_ffs := g\<rparr>"]) simp
qed

end

section \<open>Creating a file\<close>

lemma page_cached_grow: "page_cached s P \<Longrightarrow> P i = None \<Longrightarrow> page_cached s (P(i \<mapsto> ps))"
  unfolding page_cached_def by (metis fun_upd_other option.distinct(1))

lemma find_cong_upto: "(\<And>i. i < n \<Longrightarrow> p i = q i) \<Longrightarrow> find p [0..<n] = find q [0..<n]"
  by (rule find_cong) auto

context flash_memory
begin

lemma free_id_healthy:
  assumes "fs_rep cells ready cap s L F"
  shows "free_file_id s = find (\<lambda>i. F i = None) [0..<FFS_MAX_FILES]"
  unfolding free_file_id_def
proof (rule find_cong_upto)
  fix i assume i: "i < FFS_MAX_FILES"
  show "(sint (file_size s ! i) < 0) = (F i = None)"
    using fs_repD(8) [OF assms i] file_length_small(2) [OF assms i] by (cases "F i") auto
qed

lemma page_create_healthy:
  assumes rep: "fs_rep cells ready cap s L F" and i: "find (\<lambda>i. F i = None) [0..<FFS_MAX_FILES] = Some i" and free: "free_blocks s \<noteq> 0"
  obtains s' L' where "ffs_page_i8_create_file spi s = Some (of_nat i, s')" and "fs_rep cells ready cap s' L' (F(i \<mapsto> []))"
    and "unat (free_blocks s) = Suc (unat (free_blocks s'))"
proof -
  note r = fs_repD [OF rep]
  have i': "i < FFS_MAX_FILES" "F i = None" using i by (auto simp: find_Some_iff)
  have fb: "unat (free_blocks s) = length (L Free_list)" by (rule lists_repD(5) [OF r(1)])
  then obtain e rest where e: "L Free_list = e # rest" using free by (cases "L Free_list") (simp_all add: unat_eq_zero)
  note fe = free_block [OF r(1) e]
  have empty: "L (File_list i) = []" using r(8) [OF i'] by simp
  let ?L1 = "L(Free_list := rest, File_list i := L (File_list i) @ [e])"
  have ue: "usable s e" "blocks cells s e = blank" using r(2,3,7) fe(1) e by simp_all
  obtain s1 where s1: "ffs_page_i16_alloc_block spi (of_nat i) s = Some (FFS_STATUS_OK, s1)" "lists_rep s1 ?L1"
      "ready (flash s1)" "same_page s s1" "same_files s s1" "index_cached cells s1"
      "block_ok (blocks cells s1 e) i (length (L (File_list i))) []" "slot_free (blocks cells s1 e) 0"
      "\<And>c. c \<noteq> e \<Longrightarrow> blocks cells s1 c = blocks cells s c"
    using alloc_block_healthy [OF r(1) i'(1) e ue r(4)] by blast
  let ?s' = "s1\<lparr>file_size := (file_size s)[i := 0]\<rparr>"
  have t1: "file_size s1 = file_size s" "total_blocks s1 = total_blocks s" using s1(5) by (simp_all add: same_files_def)
  have f: "file_at ?s' ?L1 i (pages_of [])"
    using i'(1) s1(2,3,6,7) r(3) fe(1) empty by (simp add: file_at_def file_blocks_def index_cached_def)
  have "page_cached s1 (\<lambda>j. map_option pages_of (F j))" using r(5) same_page_cached [OF s1(4)] by simp
  then have "page_cached s1 ((\<lambda>j. map_option pages_of (F j))(i \<mapsto> pages_of []))" using i'(2) by (intro page_cached_grow) simp_all
  moreover have "(\<lambda>j. map_option pages_of (F j))(i \<mapsto> pages_of []) = (\<lambda>j. map_option pages_of ((F(i \<mapsto> [])) j))" by auto
  ultimately have c1: "page_cached s1 (\<lambda>j. map_option pages_of ((F(i \<mapsto> [])) j))" by (simp only:)
  have "same_page s1 ?s'" by (simp add: same_page_def)
  from same_page_cached [OF this] c1 have c: "page_cached ?s' (\<lambda>j. map_option pages_of ((F(i \<mapsto> [])) j))" by blast
  have ne: "e \<notin> set (L (File_list j))" for j using fe(3) by simp
  have rep': "fs_rep cells ready cap ?s' ?L1 (F(i \<mapsto> []))"
  proof (rule fs_rep_update [OF rep f c refl])
    show "blocks cells ?s' b = blocks cells s b" if "b \<in> set (?L1 Free_list)" for b using that s1(9) fe(4) by (simp, metis)
    show "blocks cells ?s' b = blocks cells s b" if "b \<in> set (L (File_list j))" for b j using that s1(9) ne by (simp, metis)
  qed (use s1(3) t1 e in auto)
  have "ffs_page_i8_create_file spi s = Some (of_nat i, ?s')"
    using free_id_healthy [OF rep] i s1(1) t1 by (simp add: ffs_page_i8_create_file_def)
  moreover have "unat (free_blocks s) = Suc (unat (free_blocks ?s'))" using fb e lists_repD(5) [OF s1(2)] by simp
  ultimately show ?thesis using that rep' by blast
qed

lemma file_create_healthy:
  assumes rep: "fs_rep cells ready cap (fs_ffs s) L F" and ok: "\<not> ffs_fail s"
    and i: "find (\<lambda>i. F i = None) [0..<FFS_MAX_FILES] = Some i" and free: "3 \<le> unat (free_blocks (fs_ffs s))"
  shows "\<exists>s' L'. ffs_i8_create_file spi filename s = Some (of_nat i, s')
    \<and> fs_rep cells ready cap (fs_ffs s') L' (F(i \<mapsto> meta0_page filename @ replicate 64 0xff)) \<and> \<not> ffs_fail s'
    \<and> unat (free_blocks (fs_ffs s)) \<le> 3 + unat (free_blocks (fs_ffs s'))"
proof -
  have i': "i < FFS_MAX_FILES" using i by (auto simp: find_Some_iff)
  note id = file_id_plain [OF i']
  have nz: "free_blocks (fs_ffs s) \<noteq> 0" using free by auto
  let ?m = "meta0_page filename"
  have m: "length ?m = 64" by (simp add: meta0_page_def)
  obtain s1 L1 where s1: "ffs_page_i8_create_file spi (fs_ffs s) = Some (of_nat i, s1)" "fs_rep cells ready cap s1 L1 (F(i \<mapsto> []))"
      "unat (free_blocks (fs_ffs s)) = Suc (unat (free_blocks s1))"
    using page_create_healthy [OF rep i nz] by blast
  have f1: "free_blocks s1 \<noteq> 0" using s1(3) free by auto
  obtain s2 L2 where s2: "ffs_page_i8_write spi (of_nat i) (of_nat 0) 0 ?m 64 s1 = Some (FFS_STATUS_OK, s2)"
      "fs_rep cells ready cap s2 L2 ((F(i \<mapsto> []))(i \<mapsto> overwrite [] (64 * 0 + unat (0 :: u8)) (take (unat (64 :: u8)) ?m)))"
      "unat (free_blocks s1) \<le> Suc (unat (free_blocks s2))"
    by (rule page_write_healthy [OF s1(2) i' _ _ _ _ _ f1, of "[]" 0 0 64 ?m]) (use m in simp_all)
  have b2: "fs_rep cells ready cap s2 L2 (F(i \<mapsto> ?m))" using s2(2) m by simp
  have f2: "free_blocks s2 \<noteq> 0" using s2(3) s1(3) free by auto
  let ?r = "replicate 64 0xff :: u8 list"
  obtain s3 L3 where s3: "ffs_page_i8_write spi (of_nat i) (of_nat 1) 0 ?r 64 s2 = Some (FFS_STATUS_OK, s3)"
      "fs_rep cells ready cap s3 L3 ((F(i \<mapsto> ?m))(i \<mapsto> overwrite ?m (64 * 1 + unat (0 :: u8)) (take (unat (64 :: u8)) ?r)))"
      "unat (free_blocks s2) \<le> Suc (unat (free_blocks s3))"
    by (rule page_write_healthy [OF b2 i' _ _ _ _ _ f2, of ?m 1 0 64 ?r]) (use m in simp_all)
  have "fs_rep cells ready cap s3 L3 (F(i \<mapsto> ?m @ ?r))" using s3(2) m by (simp add: overwrite_def)
  moreover have "ffs_i8_create_file spi filename s = Some (of_nat i, s\<lparr>fs_ffs := s3\<rparr>)"
    using ok s1(1) id(4) s2(1) s3(1) by (simp add: ffs_i8_create_file_def)
  ultimately show ?thesis using ok s1(3) s2(3) s3(3) by (intro exI [of _ "s\<lparr>fs_ffs := s3\<rparr>"] exI [of _ L3]) simp
qed

end

section \<open>Collecting garbage\<close>

context flash_memory
begin

lemma gc_healthy:
  assumes rep: "fs_rep cells ready cap s L F" and dirty: "dirty_blocks s \<noteq> 0"
  obtains s' L' where "gc_erase_dirty spi s = Some s'" and "fs_rep cells ready cap s' L' F"
    and "unat (free_blocks s') = Suc (unat (free_blocks s))" and "Suc (unat (dirty_blocks s')) = unat (dirty_blocks s)"
proof -
  note r = fs_repD [OF rep]
  note l = lists_repD [OF r(1)]
  obtain b rest where b: "L Dirty_list = b # rest" using dirty l(6) by (cases "L Dirty_list") (simp_all add: unat_eq_zero)
  let ?L1 = "L(Dirty_list := rest)"
  let ?L2 = "?L1(Free_list := L Free_list @ [b])"
  have bl: "unat b < length (next_block s)" using l(8) [of b Dirty_list] b by simp
  then have bt: "b < total_blocks s" "b \<noteq> FFS_BLOCK_INVALID" "\<not> FFS_BLOCK_INVALID < total_blocks s"
    using l(1) by (auto simp: word_less_nat_alt)
  have gone: "b \<notin> set (?L1 x)" for x using l(4) [of b Dirty_list x] l(3) [of Dirty_list] b by auto
  then have other: "x \<noteq> Dirty_list \<Longrightarrow> b \<notin> set (L x)" for x by (metis fun_upd_other)
  obtain s1 where s1: "ffs_block_fb_get_dirty s = Some (b, s1)" "lists_rep s1 ?L1" "same_storage s s1"
    using get_dirty_correct [OF r(1) b] by blast
  have f1: "flash s1 = flash s" "total_blocks s1 = total_blocks s" "file_size s1 = file_size s" using s1(3) by (simp_all add: same_storage_def)
  have u: "usable s1 b" using r(2,3) bt(1) f1 by simp
  define ib where "ib = (if index_cache_block s1 = b then FFS_BLOCK_INVALID else index_cache_block s1)"
  obtain f where f: "ffs_block_i8_erase spi b s1 = do {
        s \<leftarrow> ffs_block_v_add_to_list Free_list b (s1\<lparr>index_cache_block := ib, flash := f\<rparr>);
        Some (FFS_STATUS_OK, s) }" "ready f" "blk (cells (fl_chip f)) = (blocks cells s)(b := blank)"
    using erase_healthy [OF u] f1 by (auto simp: ib_def)
  let ?t = "s1\<lparr>index_cache_block := ib, flash := f\<rparr>"
  have rt: "lists_rep ?t ?L1" using s1(2) same_lists_rep [of s1 ?t ?L1] by (simp add: same_lists_def)
  have bl2: "unat b < length (next_block ?t)" using bt(1) f1 lists_repD(1) [OF s1(2)] by (simp add: word_less_nat_alt)
  have h: "head_of Free_list ?t = Some (free_list s1)" by simp
  obtain s2 where s2: "ffs_block_v_add_to_list Free_list b ?t = Some s2" "lists_rep s2 (?L1(Free_list := ?L1 Free_list @ [b]))"
      "same_storage ?t s2"
    using add_list_correct [OF rt bl2 gone h] by blast
  have L2: "lists_rep s2 ?L2" using s2(2) by simp
  have b2: "blocks cells s2 = (blocks cells s)(b := blank)" "ready (flash s2)" using f s2(3) by (simp_all add: same_storage_def)
  have "index_cached cells s2"
    using r(4) s2(3) s1(3) b2(1) bt(3) by (auto simp: index_cached_def same_storage_def ib_def)
  moreover have "same_page s s2" using s1(3) s2(3) by (simp add: same_storage_def same_page_def)
  then have "page_cached s2 (\<lambda>i. map_option pages_of (F i))" using r(5) by (simp add: same_page_cached)
  moreover have "blocks cells s2 c = blank" if "c \<in> set (?L2 Free_list)" for c using that r(7) b2(1) by auto
  moreover have "file_blocks (blocks cells s2) i (L (File_list i)) ps = file_blocks (blocks cells s) i (L (File_list i)) ps" for i ps
    by (rule file_blocks_cong) (use b2(1) other [of "File_list i"] in auto)
  moreover have "file_size s2 = file_size s" "total_blocks s2 = total_blocks s" using s2(3) f1 by (simp_all add: same_storage_def)
  ultimately have "fs_rep cells ready cap s2 ?L2 F" using rep L2 b2(2) by (simp add: fs_rep_def cong: option.case_cong)
  moreover have "gc_erase_dirty spi s = Some s2" using s1(1) f(1) s2(1) bt(2) by (simp add: gc_erase_dirty_def)
  ultimately show ?thesis using that [of s2 ?L2] l(5,6) lists_repD(5,6) [OF L2] b by simp
qed

end

section \<open>Deleting a file\<close>

text \<open>While the blocks are set dirty, the array of first blocks still names the old one.\<close>

lemma last_from_starts: "last_from n (s\<lparr>file_start := x\<rparr>) b = last_from n s b"
  by (induction n arbitrary: b) (simp_all add: next_of_def cong: if_cong)

lemma starts_last:
  "s\<lparr>file_start := x\<rparr>\<lparr>next_block := v\<rparr> = s\<lparr>next_block := v\<rparr>\<lparr>file_start := x\<rparr>"
  "s\<lparr>file_start := x\<rparr>\<lparr>dirty_list := b\<rparr> = s\<lparr>dirty_list := b\<rparr>\<lparr>file_start := x\<rparr>"
  "s\<lparr>file_start := x\<rparr>\<lparr>dirty_blocks := n\<rparr> = s\<lparr>dirty_blocks := n\<rparr>\<lparr>file_start := x\<rparr>"
  by simp_all

lemma set_next_starts: "set_next b c (s\<lparr>file_start := x\<rparr>) = map_option (\<lambda>s. s\<lparr>file_start := x\<rparr>) (set_next b c s)"
  by (cases "wr (next_block s) (unat b) c") (simp_all add: set_next_def)

lemma add_dirty_starts:
  "ffs_block_v_add_to_list Dirty_list b (s\<lparr>file_start := x\<rparr>)
    = map_option (\<lambda>s. s\<lparr>file_start := x\<rparr>) (ffs_block_v_add_to_list Dirty_list b s)"
proof (cases "set_next b FFS_BLOCK_INVALID s")
  case None
  then show ?thesis by (simp add: ffs_block_v_add_to_list_def set_next_starts)
next
  case (Some t)
  show ?thesis
  proof (cases "dirty_list t = FFS_BLOCK_INVALID \<or> last_from 256 t (dirty_list t) = None")
    case True
    then show ?thesis using Some
      by (auto simp: ffs_block_v_add_to_list_def set_next_starts last_from_starts count_block_def require_def)
  next
    case False
    then obtain c where c: "last_from 256 t (dirty_list t) = Some c" by auto
    then show ?thesis using Some False
      by (cases "set_next c b t") (simp_all add: ffs_block_v_add_to_list_def set_next_starts last_from_starts count_block_def require_def)
  qed
qed

text \<open>The file without its first block.\<close>

lemma drop_front:
  assumes rep: "lists_rep (s\<lparr>file_start := (file_start s)[i := b]\<rparr>) (L(File_list i := x # xs))" and i: "i < FFS_MAX_FILES"
  shows "lists_rep (s\<lparr>file_start := (file_start s)[i := next_block s ! unat x]\<rparr>) (L(File_list i := xs))"
    and "x \<notin> set ((L(File_list i := xs)) l)" and "b = x" and "unat x < unat (total_blocks s)" and "x \<noteq> FFS_BLOCK_INVALID"
proof -
  let ?s = "s\<lparr>file_start := (file_start s)[i := b]\<rparr>" and ?t = "s\<lparr>file_start := (file_start s)[i := next_block s ! unat x]\<rparr>"
  let ?L = "L(File_list i := x # xs)" and ?M = "L(File_list i := xs)"
  note r = lists_repD [OF rep]
  have len: "length (file_start s) = 23" using rep by (simp add: lists_rep_def)
  have h: "head_of (File_list i) ?s = Some b" "head_of (File_list i) ?t = Some (next_block s ! unat x)" using len i by (simp_all add: rd_def)
  have l: "linked (next_block s) b (x # xs)" using r(2) [OF h(1)] by simp
  then show "b = x" by simp
  show x: "unat x < unat (total_blocks s)" using l r(1) by simp
  then show "x \<noteq> FFS_BLOCK_INVALID" using r(1) by auto
  have sub: "set (?M l) \<subseteq> set (?L l)" for l by auto
  have dist: "distinct (x # xs)" using r(3) [of "File_list i"] by simp
  show "x \<notin> set (?M l)" for l using r(4) [of x "File_list i" l] dist by (auto split: if_splits)
  show "lists_rep ?t ?M"
  proof (rule lists_repI)
    show "case head_of l ?t of None \<Rightarrow> ?M l = [] | Some h \<Rightarrow> linked (next_block ?t) h (?M l)" for l
    proof (cases "l = File_list i")
      case True
      then show ?thesis using h(2) l by simp
    next
      case False
      then have "head_of l ?t = head_of l ?s" using len by (cases l) (auto simp: rd_def)
      then show ?thesis using False r(2) [of l] r(7) [of l] by (cases "head_of l ?s") simp_all
    qed
    show "distinct (?M l)" for l using r(3) [of l] by (auto split: if_splits)
    show "c \<in> set (?M l) \<Longrightarrow> c \<in> set (?M l') \<Longrightarrow> l = l'" for l l' c using r(4) [of c l l'] sub by blast
  qed (use r(1,5,6) len in simp_all)
qed

context flash_memory
begin

lemma dirty_from_healthy:
  assumes "lists_rep (s\<lparr>file_start := (file_start s)[i := b]\<rparr>) (L(File_list i := bs))" and i: "i < FFS_MAX_FILES"
    and "\<And>x. x \<in> set bs \<Longrightarrow> usable s x \<and> meta_copies (blocks cells s x)" and "index_cached cells s" and "ready (flash s)" and "length bs < n"
  shows "\<exists>s'. dirty_from n spi b s = Some s' \<and> file_start s' = file_start s
    \<and> lists_rep (s'\<lparr>file_start := (file_start s)[i := FFS_BLOCK_INVALID]\<rparr>) (L(File_list i := [], Dirty_list := L Dirty_list @ bs))
    \<and> ready (flash s') \<and> same_page s s' \<and> same_files s s' \<and> index_cached cells s' \<and> (\<forall>c. c \<notin> set bs \<longrightarrow> blocks cells s' c = blocks cells s c)"
  using assms(1,3-)
proof (induction bs arbitrary: s b n L)
  case Nil
  have "length (file_start s) = 23" using Nil.prems(1) by (simp add: lists_rep_def)
  then have "head_of (File_list i) (s\<lparr>file_start := (file_start s)[i := b]\<rparr>) = Some b" using i by (simp add: rd_def)
  then have "b = FFS_BLOCK_INVALID" using lists_repD(2) [OF Nil.prems(1)] by fastforce
  moreover obtain m where "n = Suc m" using Nil.prems(5) by (cases n) auto
  moreover have "L(File_list i := [], Dirty_list := L Dirty_list) = L(File_list i := [])" by (auto simp: fun_eq_iff)
  ultimately show ?case using Nil.prems by (simp add: same_page_def same_files_def del: fun_upd_apply)
next
  case (Cons x xs)
  note front = drop_front [OF Cons.prems(1) i]
  let ?nx = "next_block s ! unat x" and ?M = "L(File_list i := xs)"
  let ?fs = "(file_start s)[i := ?nx]"
  obtain m where n: "n = Suc m" "length xs < m" using Cons.prems(5) by (cases n) auto
  have ux: "usable s x" "meta_copies (blocks cells s x)" using Cons.prems(2) [of x] by simp_all
  have xt: "x < total_blocks s" using front(4) by (simp add: word_less_nat_alt)
  have size: "length (next_block s) = unat (total_blocks s)" using lists_repD(1) [OF front(1)] by simp
  have nx: "ffs_block_fb_next x s = Some ?nx" using xt front(4) size by (simp add: ffs_block_fb_next_def next_of_in)
  have "blocks cells s x 1 = blocks cells s x 68" using ux(2) by (auto simp: meta_copies_def bytes_at_nth_eq dest: spec [of _ 1])
  then obtain f where f: "ffs_block_v_set_dirty spi x s = ffs_block_v_add_to_list Dirty_list x (s\<lparr>flash := f\<rparr>)" "ready f"
      "blk (cells (fl_chip f)) = (blocks cells s)(x := dirty_flags (blocks cells s x))"
    using set_dirty_healthy [OF ux(1) xt] by blast
  let ?s = "s\<lparr>flash := f\<rparr>"
  have rep: "lists_rep (?s\<lparr>file_start := ?fs\<rparr>) ?M"
    using front(1) same_lists_rep [of "s\<lparr>file_start := ?fs\<rparr>" "?s\<lparr>file_start := ?fs\<rparr>" ?M] by (simp add: same_lists_def)
  have lx: "unat x < length (next_block (?s\<lparr>file_start := ?fs\<rparr>))" using front(4) size by simp
  have hd: "head_of Dirty_list (?s\<lparr>file_start := ?fs\<rparr>) = Some (dirty_list s)" by simp
  obtain t where t: "ffs_block_v_add_to_list Dirty_list x (?s\<lparr>file_start := ?fs\<rparr>) = Some t"
      "lists_rep t (?M(Dirty_list := ?M Dirty_list @ [x]))" "same_storage (?s\<lparr>file_start := ?fs\<rparr>) t"
    using add_list_correct [OF rep lx front(2) hd] by blast
  from t(1) obtain u where u: "ffs_block_v_add_to_list Dirty_list x ?s = Some u" "t = u\<lparr>file_start := ?fs\<rparr>"
    unfolding add_dirty_starts by auto
  have fsu: "file_start u = file_start s"
  proof -
    have "u\<lparr>file_start := file_start s\<rparr> = u" using add_dirty_starts [where b = x and s = ?s and x = "file_start s"] u(1) by simp
    then show ?thesis by (metis ffs.select_convs(14) ffs.update_convs(14) ffs.surjective)
  qed
  have bu: "blocks cells u = (blocks cells s)(x := dirty_flags (blocks cells s x))" "ready (flash u)" "same_page s u" "same_files s u"
    using f(2,3) t(3) u(2) by (simp_all add: same_storage_def same_page_def same_files_def)
  have "index_of (dirty_flags (blocks cells s x)) = index_of (blocks cells s x)" by (simp add: dirty_flags_def bytes_at_nth_eq)
  then have icu: "index_cached cells u" using Cons.prems(3) bu(1) t(3) u(2) by (auto simp: index_cached_def same_storage_def)
  have twist: "(?M(Dirty_list := ?M Dirty_list @ [x])) = (L(Dirty_list := L Dirty_list @ [x]))(File_list i := xs)"
    "(L(Dirty_list := L Dirty_list @ [x]))(File_list i := [], Dirty_list := (L(Dirty_list := L Dirty_list @ [x])) Dirty_list @ xs)
      = L(File_list i := [], Dirty_list := L Dirty_list @ x # xs)" by (auto simp: fun_eq_iff)
  have ru: "lists_rep (u\<lparr>file_start := (file_start u)[i := ?nx]\<rparr>) ((L(Dirty_list := L Dirty_list @ [x]))(File_list i := xs))"
    using t(2) u(2) fsu twist(1) by simp
  have notin: "x \<notin> set xs" using front(2) [of "File_list i"] by simp
  have mu: "usable u y \<and> meta_copies (blocks cells u y)" if "y \<in> set xs" for y
    using Cons.prems(2) [of y] that notin bu(1,2) by auto
  obtain v where v: "dirty_from m spi ?nx u = Some v" "file_start v = file_start u"
      "lists_rep (v\<lparr>file_start := (file_start u)[i := FFS_BLOCK_INVALID]\<rparr>)
        ((L(Dirty_list := L Dirty_list @ [x]))(File_list i := [], Dirty_list := (L(Dirty_list := L Dirty_list @ [x])) Dirty_list @ xs))"
      "ready (flash v)" "same_page u v" "same_files u v" "index_cached cells v" "\<And>c. c \<notin> set xs \<Longrightarrow> blocks cells v c = blocks cells u c"
    using Cons.IH [OF ru mu icu bu(2) n(2)] by blast
  have "dirty_from n spi b s = Some v" using n(1) front(3,5) nx f(1) u(1) v(1) by simp
  moreover have "same_page s v" "same_files s v" using bu(3,4) v(5,6) by (simp_all add: same_page_def same_files_def)
  moreover have "blocks cells v c = blocks cells s c" if "c \<notin> set (x # xs)" for c using that v(8) bu(1) by simp
  ultimately show ?case using v(2-4,7) fsu unfolding twist(2) by (simp del: fun_upd_apply)
qed

text \<open>The page cache is left alone: it may still hold a page of the file.\<close>

lemma page_delete_healthy:
  assumes rep: "fs_rep cells ready cap s L F" and i: "i < FFS_MAX_FILES" and F: "F i = Some bs"
  shows "\<exists>s' L'. ffs_page_i8_delete_file spi (of_nat i) s = Some (FFS_STATUS_OK, s')
    \<and> fs_rep cells ready cap (s'\<lparr>cache_file_id := - 1\<rparr>) L' (F(i := None)) \<and> cache_file_id s' = cache_file_id s"
proof -
  note r = fs_repD [OF rep] and fl = fs_repD(9) [OF rep i F] and lr = lists_repD [OF fs_repD(1) [OF rep]]
  let ?bl = "L (File_list i)"
  obtain h where h: "head_of (File_list i) s = Some h" using file_head [OF r(1) i] by auto
  have len: "length (file_start s) = 23" using r(1) by (simp add: lists_rep_def)
  then have hs: "(file_start s)[i := h] = file_start s" "h = file_start s ! i" using h i by (auto simp: rd_def)
  have tot: "0 < unat (total_blocks s)" using fl list_length_total [OF r(1), of "File_list i"] by (cases ?bl) auto
  have first: "ffs_block_fb_get_block (File_list i) 0 s = Some h"
    using tot h by (simp add: ffs_block_fb_get_block_def word_less_nat_alt)
  have ok: "usable s x \<and> meta_copies (blocks cells s x)" if "x \<in> set ?bl" for x
    using that fl r(2,10) by (auto simp: file_blocks_def block_ok_def in_set_conv_nth)
  have "lists_rep (s\<lparr>file_start := (file_start s)[i := h]\<rparr>) (L(File_list i := ?bl))" using r(1) hs(1) by simp
  then obtain t where t: "dirty_from 256 spi h s = Some t" "file_start t = file_start s"
      "lists_rep (t\<lparr>file_start := (file_start s)[i := FFS_BLOCK_INVALID]\<rparr>) (L(File_list i := [], Dirty_list := L Dirty_list @ ?bl))"
      "ready (flash t)" "same_page s t" "same_files s t" "index_cached cells t" "\<And>c. c \<notin> set ?bl \<Longrightarrow> blocks cells t c = blocks cells s c"
    using dirty_from_healthy [of s i h L ?bl 256] i ok r(2,4) list_length(2) [OF r(1)] by blast
  let ?L = "L(File_list i := [], Dirty_list := L Dirty_list @ ?bl)"
  let ?t = "t\<lparr>file_start := (file_start s)[i := FFS_BLOCK_INVALID], file_size := (file_size s)[i := - 1]\<rparr>"
  have run: "ffs_page_i8_delete_file spi (of_nat i) s = Some (FFS_STATUS_OK, ?t)"
    using i first t(1,2,6) by (simp add: ffs_page_i8_delete_file_def same_files_def)
  let ?u = "?t\<lparr>cache_file_id := - 1\<rparr>"
  have "lists_rep ?u ?L" using t(3) same_lists_rep [of ?t ?u ?L] by (simp add: same_lists_def)
  moreover have dis: "b \<notin> set ?bl" if "b \<in> set (L l)" "l \<noteq> File_list i" for b l using lr(4) that by blast
  then have "blocks cells ?u b = blank" if "b \<in> set (?L Free_list)" for b using that r(7) t(8) [of b] by fastforce
  moreover have "file_blocks (blocks cells ?u) j (L (File_list j)) ps = file_blocks (blocks cells s) j (L (File_list j)) ps" if "j \<noteq> i" for j ps
    by (rule file_blocks_cong) (use dis that t(8) in fastforce)
  moreover have "page_cached ?u (\<lambda>j. map_option pages_of ((F(i := None)) j))"
    using r(5) t(5) by (simp add: page_cached_def same_page_def)
  moreover have "index_cached cells ?u" using t(7) by (simp add: index_cached_def)
  ultimately have "fs_rep cells ready cap ?u ?L (F(i := None))"
    using r(3,6,8,9) t(4,6) by (auto simp: fs_rep_def same_files_def nth_list_update split: option.splits)
  then show ?thesis using run t(5) by (auto simp: same_page_def)
qed

end

end
