(* ===== verification/Ffs_Theorems.thy ===== *)
theory Ffs_Theorems
  imports Ffs_System
begin

text \<open>
  The properties of the flash file system, with the chip as a hypothesis: it keeps the laws of the locale
  \<open>flash_memory\<close>, as every chip with pages of 256 bytes or with auto-increment writes does (theory Flash_Chip).
  They are applied to a freshly formatted file system of four blocks on the chip defined there.
\<close>

section \<open>An empty file system\<close>

definition empty_ffs :: "nor_chip ffs" where
  "empty_ffs = \<lparr>flash = blank_nor, index_cache_block = FFS_BLOCK_INVALID, index_cache_index = replicate 59 0xff,
     total_blocks = 4, free_blocks = 4, dirty_blocks = 0, free_list = 0, dirty_list = FFS_BLOCK_INVALID,
     next_block = [1, 2, 3, FFS_BLOCK_INVALID], soft_io_errors = 0, hard_io_errors = 0, block_allocs = 0, ffs_warning = False,
     file_start = replicate FFS_MAX_FILES FFS_BLOCK_INVALID, file_size = replicate FFS_MAX_FILES (- 1),
     page_len = 0, page_data = replicate 64 0, page_crc = 0, cache_page_number = 0, cache_file_id = - 1, cache_page_addr = 0,
     block_copies = 0, page_allocs = 0, page_cache_hits = 0, page_cache_misses = 0\<rparr>"

definition empty_fs :: "nor_chip flash_fs" where
  "empty_fs = \<lparr>fs_ffs = empty_ffs, fw_size = 0, fw_size1 = 0, fw_size2 = 0, ffs_fail = False\<rparr>"

definition empty_lists :: "block_list \<Rightarrow> u8 list" where
  "empty_lists l = (if l = Free_list then [0, 1, 2, 3] else [])"

lemma empty_rep: "fs_rep nor_array (\<lambda>f. \<not> aai_write_enabled f) (2 ^ 21) empty_ffs empty_lists (\<lambda>_. None)"
proof -
  have "lists_rep empty_ffs empty_lists"
  proof (rule lists_repI)
    show "case head_of l empty_ffs of None \<Rightarrow> empty_lists l = [] | Some h \<Rightarrow> linked (next_block empty_ffs) h (empty_lists l)" for l
      by (cases l) (auto simp: empty_ffs_def empty_lists_def rd_def)
  qed (auto simp: empty_ffs_def empty_lists_def split: if_splits)
  moreover have "blocks nor_array empty_ffs b = blank" for b
    by (auto simp: fun_eq_iff blk_def blank_def empty_ffs_def blank_nor_def)
  moreover have "base b + 4096 \<le> 2 ^ 21" if "b < 4" for b using that by (simp add: word_less_nat_alt)
  ultimately show ?thesis
    by (simp add: fs_rep_def empty_ffs_def index_cached_def page_cached_def empty_lists_def blank_nor_def)
qed

abbreviation "sample_holds \<equiv> holds nor_array (\<lambda>f. \<not> aai_write_enabled f) (2 ^ 21)"
abbreviation "sample_spi \<equiv> nor_spi [0x01, 0x40, 0x15]"

lemma sample_memory: "flash_memory sample_spi nor_array (\<lambda>f. \<not> aai_write_enabled f) (2 ^ 21)"
  by (rule paged.page_memory)

text \<open>With one file that holds no data, for the applications below.\<close>

definition sample_meta :: "u8 list" where
  "sample_meta = meta0_page (ascii ''log'') @ replicate 64 0xff"

lemma length_sample_meta [simp]: "length sample_meta = 128"
  by (simp add: sample_meta_def meta0_page_def)

lemma sample_file:
  obtains s :: "nor_chip flash_fs" where "sample_holds (fs_ffs s) [0 \<mapsto> sample_meta]" and "\<not> ffs_fail s" and "free_blocks (fs_ffs s) \<noteq> 0"
proof -
  have first: "find (\<lambda>i. (\<lambda>_. None :: u8 list option) i = None) [0..<FFS_MAX_FILES] = Some 0" by (simp add: upt_conv_Cons)
  have rep: "fs_rep nor_array (\<lambda>f. \<not> aai_write_enabled f) (2 ^ 21) (fs_ffs empty_fs) empty_lists (\<lambda>_. None)"
    and ok: "\<not> ffs_fail empty_fs" and free: "3 \<le> unat (free_blocks (fs_ffs empty_fs))" "unat (free_blocks (fs_ffs empty_fs)) = 4"
    using empty_rep by (simp_all add: empty_fs_def empty_ffs_def)
  from flash_memory.file_create_healthy [OF sample_memory rep ok first free(1), of "ascii ''log''", folded sample_meta_def]
  obtain s :: "nor_chip flash_fs" and L where s: "fs_rep nor_array (\<lambda>f. \<not> aai_write_enabled f) (2 ^ 21) (fs_ffs s) L [0 \<mapsto> sample_meta]" "\<not> ffs_fail s"
      "unat (free_blocks (fs_ffs empty_fs)) \<le> 3 + unat (free_blocks (fs_ffs s))" by blast
  have "free_blocks (fs_ffs s) \<noteq> 0" using s(3) free(2) by auto
  then show ?thesis using that s(1,2) unfolding holds_def by blast
qed

lemma sample_data:
  obtains s :: "nor_chip flash_fs" where "sample_holds (fs_ffs s) [0 \<mapsto> sample_meta @ [1, 2, 3]]" and "\<not> ffs_fail s"
proof -
  obtain s :: "nor_chip flash_fs" where s: "sample_holds (fs_ffs s) [0 \<mapsto> sample_meta]" "\<not> ffs_fail s" "free_blocks (fs_ffs s) \<noteq> 0" by (rule sample_file)
  then obtain L where L: "fs_rep nor_array (\<lambda>f. \<not> aai_write_enabled f) (2 ^ 21) (fs_ffs s) L [0 \<mapsto> sample_meta]" by (auto simp: holds_def)
  have "pages_touched 0 (length [1, 2, 3 :: u8]) \<le> unat (free_blocks (fs_ffs s))" using s(3) by (simp add: pages_touched_def Suc_le_eq unat_gt_0)
  from flash_memory.file_write_healthy [OF sample_memory L s(2) _ _ length_sample_meta _ this, of 0 "[]"] that show ?thesis
    by (auto simp: overwrite_def holds_def)
qed

section \<open>Reading and writing\<close>

text \<open>
  C8 Writing to a file stores exactly the given bytes at the given position, extends the file where they go
  beyond its end, and changes no other byte of it and no other file - whatever pages and blocks the
  write touches, full blocks that have to be copied to a free one and new blocks included -, as long as
  there is a free block for every page that is touched.
\<close>

theorem ffs_i32_write_overwrites:
  assumes "flash_memory spi cells ready cap" and "holds cells ready cap (fs_ffs s) F" and "\<not> ffs_fail s"
    and "i < FFS_MAX_FILES" and "F i = Some (meta @ bs)" and "length meta = FFS_FILE_META_SIZE" and "pos \<le> length bs"
    and "pages_touched pos (length dat) \<le> unat (free_blocks (fs_ffs s))"
  shows "\<exists>s'. ffs_i32_write spi (of_nat i) (of_nat pos) dat s = Some (of_nat (length dat), s')
    \<and> holds cells ready cap (fs_ffs s') (F(i \<mapsto> meta @ overwrite bs pos dat))"
proof -
  obtain L where "fs_rep cells ready cap (fs_ffs s) L F" using assms(2) by (auto simp: holds_def)
  from flash_memory.file_write_healthy [OF assms(1) this assms(3-8)] show ?thesis unfolding holds_def by blast
qed

lemma ffs_i32_write_overwrites_witness:
  "\<exists>s s'. sample_holds (fs_ffs s) [0 \<mapsto> sample_meta] \<and> ffs_i32_write sample_spi 0 0 [1, 2, 3] s = Some (3, s')
    \<and> sample_holds (fs_ffs s') [0 \<mapsto> sample_meta @ [1, 2, 3]]"
proof -
  obtain s :: "nor_chip flash_fs" where s: "sample_holds (fs_ffs s) [0 \<mapsto> sample_meta]" "\<not> ffs_fail s" "free_blocks (fs_ffs s) \<noteq> 0" by (rule sample_file)
  have "pages_touched 0 (length [1, 2, 3 :: u8]) \<le> unat (free_blocks (fs_ffs s))" using s(3) by (simp add: pages_touched_def Suc_le_eq unat_gt_0)
  then show ?thesis
    using ffs_i32_write_overwrites [OF sample_memory s(1,2), of 0 sample_meta "[]" 0 "[1, 2, 3]"] s(1) by (auto simp: overwrite_def)
qed

text \<open>
  C9 Reading inside a file answers the bytes of the file at that position, over page and block
  boundaries, and changes no file.
\<close>

theorem ffs_i32_read_bytes:
  assumes "flash_memory spi cells ready cap" and "holds cells ready cap (fs_ffs s) F" and "\<not> ffs_fail s"
    and "i < FFS_MAX_FILES" and "F i = Some (meta @ bs)" and "length meta = FFS_FILE_META_SIZE"
    and "pos < length bs" and "pos + n \<le> length bs"
  shows "\<exists>s'. ffs_i32_read spi (of_nat i) (of_nat pos) (of_nat n) s = Some ((of_nat n, take n (drop pos bs)), s')
    \<and> holds cells ready cap (fs_ffs s') F"
proof -
  obtain L where "fs_rep cells ready cap (fs_ffs s) L F" using assms(2) by (auto simp: holds_def)
  from flash_memory.file_read_healthy [OF assms(1) this assms(3-8)] show ?thesis unfolding holds_def by blast
qed

lemma ffs_i32_read_bytes_witness:
  "\<exists>(s :: nor_chip flash_fs) s'. sample_holds (fs_ffs s) [0 \<mapsto> sample_meta @ [1, 2, 3]]
    \<and> ffs_i32_read sample_spi 0 1 2 s = Some ((2, [2, 3]), s')"
proof -
  obtain s :: "nor_chip flash_fs" where s: "sample_holds (fs_ffs s) [0 \<mapsto> sample_meta @ [1, 2, 3]]" "\<not> ffs_fail s" by (rule sample_data)
  show ?thesis using ffs_i32_read_bytes [OF sample_memory s, of 0 sample_meta "[1, 2, 3]" 1 2] s(1) by auto
qed

text \<open>
  C10 What was written is read back: after a write, reading the same range answers the bytes that were
  written, and the state still holds the file with them.
\<close>

theorem ffs_write_read:
  assumes "flash_memory spi cells ready cap" and "holds cells ready cap (fs_ffs s) F" and "\<not> ffs_fail s"
    and "i < FFS_MAX_FILES" and "F i = Some (meta @ bs)" and "length meta = FFS_FILE_META_SIZE" and "pos \<le> length bs"
    and "pages_touched pos (length dat) \<le> unat (free_blocks (fs_ffs s))" and "dat \<noteq> []"
  shows "\<exists>s' s''. ffs_i32_write spi (of_nat i) (of_nat pos) dat s = Some (of_nat (length dat), s')
    \<and> ffs_i32_read spi (of_nat i) (of_nat pos) (of_nat (length dat)) s' = Some ((of_nat (length dat), dat), s'')"
proof -
  obtain L where L: "fs_rep cells ready cap (fs_ffs s) L F" using assms(2) by (auto simp: holds_def)
  from flash_memory.file_write_healthy [OF assms(1) L assms(3-8)] obtain s' M where
    s': "ffs_i32_write spi (of_nat i) (of_nat pos) dat s = Some (of_nat (length dat), s')"
      "fs_rep cells ready cap (fs_ffs s') M (F(i \<mapsto> meta @ overwrite bs pos dat))" "\<not> ffs_fail s'" by blast
  have len: "length (overwrite bs pos dat) = max (length bs) (pos + length dat)" by (rule length_overwrite [OF assms(7)])
  have in_range: "pos < length (overwrite bs pos dat)" "pos + length dat \<le> length (overwrite bs pos dat)"
    using len assms(9) by (simp_all add: less_max_iff_disj)
  have "take (length dat) (drop pos (overwrite bs pos dat)) = dat" using assms(7) by (simp add: overwrite_def)
  then show ?thesis
    using flash_memory.file_read_healthy [OF assms(1) s'(2,3) assms(4) _ assms(6) in_range] s'(1) by auto
qed

lemma ffs_write_read_witness:
  "\<exists>(s :: nor_chip flash_fs) s' s''. ffs_i32_write sample_spi 0 0 [1, 2, 3] s = Some (3, s')
    \<and> ffs_i32_read sample_spi 0 0 3 s' = Some ((3, [1, 2, 3]), s'')"
proof -
  obtain s :: "nor_chip flash_fs" where s: "sample_holds (fs_ffs s) [0 \<mapsto> sample_meta]" "\<not> ffs_fail s" "free_blocks (fs_ffs s) \<noteq> 0" by (rule sample_file)
  have "pages_touched 0 (length [1, 2, 3 :: u8]) \<le> unat (free_blocks (fs_ffs s))" using s(3) by (simp add: pages_touched_def Suc_le_eq unat_gt_0)
  then show ?thesis
    using ffs_write_read [OF sample_memory s(1,2), of 0 sample_meta "[]" 0 "[1, 2, 3]"] by auto
qed

section \<open>Creating, deleting, collecting\<close>

text \<open>
  C11 Creating a file gives it the first free id; it then holds its name, cut off or filled up to 32 bytes, in its
  two pages of metadata and no data, and every other file keeps its bytes.
\<close>

theorem ffs_i8_create_file_fresh:
  assumes "flash_memory spi cells ready cap" and "holds cells ready cap (fs_ffs s) F" and "\<not> ffs_fail s"
    and "find (\<lambda>i. F i = None) [0..<FFS_MAX_FILES] = Some i" and "3 \<le> unat (free_blocks (fs_ffs s))"
  shows "\<exists>s'. ffs_i8_create_file spi filename s = Some (of_nat i, s')
    \<and> holds cells ready cap (fs_ffs s') (F(i \<mapsto> meta0_page filename @ replicate 64 0xff))"
proof -
  obtain L where "fs_rep cells ready cap (fs_ffs s) L F" using assms(2) by (auto simp: holds_def)
  from flash_memory.file_create_healthy [OF assms(1) this assms(3-5)] show ?thesis unfolding holds_def by blast
qed

lemma ffs_i8_create_file_fresh_witness:
  "\<exists>s'. ffs_i8_create_file sample_spi (ascii ''log'') empty_fs = Some (0, s') \<and> sample_holds (fs_ffs s') [0 \<mapsto> sample_meta]"
proof -
  have "sample_holds (fs_ffs empty_fs) (\<lambda>_. None)" using empty_rep by (auto simp: holds_def empty_fs_def)
  then show ?thesis
    using ffs_i8_create_file_fresh [OF sample_memory, of empty_fs "\<lambda>_. None" 0 "ascii ''log''", folded sample_meta_def]
    by (simp add: upt_conv_Cons empty_fs_def empty_ffs_def)
qed



text \<open>
  C13 One turn of the garbage collector erases a dirty block and makes it a free one: there is one more
  free block and one dirty block less, and every file keeps its bytes.
\<close>

theorem gc_keeps_files:
  assumes "flash_memory spi cells ready cap" and "holds cells ready cap s F" and "dirty_blocks s \<noteq> 0"
  shows "\<exists>s'. gc_erase_dirty spi s = Some s' \<and> holds cells ready cap s' F
    \<and> unat (free_blocks s') = Suc (unat (free_blocks s)) \<and> Suc (unat (dirty_blocks s')) = unat (dirty_blocks s)"
proof -
  obtain L where L: "fs_rep cells ready cap s L F" using assms(2) by (auto simp: holds_def)
  show ?thesis by (rule flash_memory.gc_healthy [OF assms(1) L assms(3)]) (auto simp: holds_def)
qed

text \<open>The same file system with one block dirty instead of free.\<close>

definition dirty_ffs :: "nor_chip ffs" where
  "dirty_ffs = empty_ffs\<lparr>free_blocks := 3, dirty_blocks := 1, dirty_list := 3, next_block := [1, 2, FFS_BLOCK_INVALID, FFS_BLOCK_INVALID]\<rparr>"

lemma dirty_rep: "sample_holds dirty_ffs (\<lambda>_. None)"
proof -
  define L :: "block_list \<Rightarrow> u8 list" where "L l = (if l = Free_list then [0, 1, 2] else if l = Dirty_list then [3] else [])" for l
  have "lists_rep dirty_ffs L"
  proof (rule lists_repI)
    show "case head_of l dirty_ffs of None \<Rightarrow> L l = [] | Some h \<Rightarrow> linked (next_block dirty_ffs) h (L l)" for l
      by (cases l) (auto simp: dirty_ffs_def empty_ffs_def L_def rd_def)
  qed (auto simp: dirty_ffs_def empty_ffs_def L_def split: if_splits)
  moreover have "blocks nor_array dirty_ffs b = blank" for b
    by (auto simp: fun_eq_iff blk_def blank_def dirty_ffs_def empty_ffs_def blank_nor_def)
  moreover have "base b + 4096 \<le> 2 ^ 21" if "b < 4" for b using that by (simp add: word_less_nat_alt)
  ultimately have "fs_rep nor_array (\<lambda>f. \<not> aai_write_enabled f) (2 ^ 21) dirty_ffs L (\<lambda>_. None)"
    by (simp add: fs_rep_def dirty_ffs_def empty_ffs_def index_cached_def page_cached_def L_def blank_nor_def)
  then show ?thesis by (auto simp: holds_def)
qed

lemma gc_keeps_files_witness:
  "\<exists>s'. gc_erase_dirty sample_spi dirty_ffs = Some s' \<and> sample_holds s' (\<lambda>_. None) \<and> unat (free_blocks s') = 4"
  using gc_keeps_files [OF sample_memory dirty_rep] by (auto simp: dirty_ffs_def)

section \<open>Where it goes wrong\<close>

lemma get_block_past_end:
  assumes "flash_memory spi cells ready cap" and rep: "lists_rep s L" and "i < FFS_MAX_FILES"
    and eq: "length (L (File_list i)) = k"
  shows "ffs_block_fb_get_block (File_list i) (of_nat k) s \<in> {None, Some FFS_BLOCK_INVALID}"
proof (cases "k < unat (total_blocks s)")
  case True
  then show ?thesis
    using flash_memory.get_block_healthy [OF assms(1) rep flash_memory.file_head [OF assms(1) rep assms(3)], of k] eq by simp
next
  case False
  have "k \<le> 254" using list_length(1) [OF rep] eq by blast
  then show ?thesis using False by (simp add: ffs_block_fb_get_block_def word_less_nat_alt unsigned_of_nat take_bit_nat_eq_self)
qed


text \<open>A file system of one block, which holds a file of 51 full pages.\<close>

definition zero_page :: "u8 list" where
  "zero_page = 64 # replicate 64 0 @ bytes16 (crc_of (replicate 64 0))"

fun filled_block :: "nat \<Rightarrow> nat \<Rightarrow> u8" where
  "filled_block 0 = blank"
| "filled_block (Suc n) = stored (filled_block n) n zero_page (of_nat n)"

definition full_block :: "nat \<Rightarrow> u8" where
  "full_block = written (written (filled_block 51) 0 [0, NOT FFS_FLAG_VALID, 0, 0, 0, 0, 0, 0]) 67 [0, NOT FFS_FLAG_VALID, 0, 0, 0, 0, 0, 0]"

definition full_ffs :: "nor_chip ffs" where
  "full_ffs = empty_ffs\<lparr>flash := blank_nor\<lparr>fl_chip := (fl_chip blank_nor)\<lparr>nor_array := (\<lambda>a. full_block (a - 659456))\<rparr>\<rparr>,
     total_blocks := 1, free_blocks := 0, free_list := FFS_BLOCK_INVALID, next_block := [FFS_BLOCK_INVALID],
     file_start := (replicate FFS_MAX_FILES FFS_BLOCK_INVALID)[0 := 0], file_size := (replicate FFS_MAX_FILES (- 1))[0 := 3264]\<rparr>"

lemma zero_page_image: "page_image zero_page (replicate 64 0)"
  by (simp add: page_image_def zero_page_def bytes16_def bytes16_join nth_append)

lemma filled_copied: "n \<le> 51 \<Longrightarrow> copied (filled_block n) (replicate n (replicate 64 0))"
proof (induction n)
  case 0
  then show ?case using copied_blank by simp
next
  case (Suc n)
  then show ?case
    using copied_step [of "filled_block n" "replicate n (replicate 64 0)" zero_page "replicate 64 0"] zero_page_image
    by (simp add: replicate_append_same)
qed

lemma filled_outside: "n \<le> 51 \<Longrightarrow> 4096 \<le> x \<Longrightarrow> filled_block n x = 0"
  by (induction n) (simp_all add: blank_def stored_def written_def zero_page_def bytes16_def)

lemma full_rep: "sample_holds full_ffs [0 \<mapsto> replicate 3264 0]"
proof -
  define L :: "block_list \<Rightarrow> u8 list" where "L l = (if l = File_list 0 then [0] else [])" for l
  have rep: "lists_rep full_ffs L"
  proof (rule lists_repI)
    show "case head_of l full_ffs of None \<Rightarrow> L l = [] | Some h \<Rightarrow> linked (next_block full_ffs) h (L l)" for l
      by (cases l) (auto simp: full_ffs_def empty_ffs_def L_def rd_def nth_list_update)
  qed (auto simp: full_ffs_def empty_ffs_def L_def split: if_splits)
  have b: "block_ok full_block 0 0 (replicate 51 (replicate 64 0))"
    unfolding full_block_def by (rule block_ok_copied [OF filled_copied]) simp_all
  have pages: "pages_of (replicate 3264 0) = replicate 51 (replicate 64 0)"
  proof (rule nth_equalityI)
    fix i assume "i < length (pages_of (replicate 3264 0))"
    then have i: "i < 51" by (simp add: length_pages)
    then have "64 \<le> 3264 - 64 * i" by linarith
    then show "pages_of (replicate 3264 0) ! i = replicate 51 (replicate 64 0) ! i"
      using page_at_bytes [of "replicate 3264 0" i] i by (simp add: page_at_def length_pages min_absorb1)
  qed (simp add: length_pages)
  have cells: "blocks nor_array full_ffs 0 = full_block"
    by (auto simp: fun_eq_iff blk_def full_ffs_def full_block_def written_def filled_outside not_less)
  have fb: "file_blocks (blocks nor_array full_ffs) 0 [0] (replicate 51 (replicate 64 0))"
    using b cells by (simp add: file_blocks_def)
  have "base b + 4096 \<le> 2 ^ 21" if "b < 1" for b using that by (simp add: word_less_nat_alt)
  then have "fs_rep nor_array (\<lambda>f. \<not> aai_write_enabled f) (2 ^ 21) full_ffs L [0 \<mapsto> replicate 3264 0]"
    using rep fb pages by (simp add: fs_rep_def full_ffs_def empty_ffs_def index_cached_def page_cached_def L_def blank_nor_def nth_list_update)
  then show ?thesis by (auto simp: holds_def)
qed


text \<open>
  C17 The number of blocks of a chip is cut off to eight bits before it is compared with the maximum of 254:
  a chip of 2 MB, for which the formula gives 447, gets 191 instead of 254.
\<close>

theorem blocks_of_size_wraps:
  assumes "65 \<le> n" and "n < 65536"
  shows "unat (blocks_of_size (of_nat (4096 * n))) = min 254 ((n - 65) mod 256)"
proof -
  have "unat (of_nat (4096 * n) :: u32) = 4096 * n" using assms(2) by (intro unat_of_nat32) simp
  then have "unat ((of_nat (4096 * n) :: u32) div 4096) = n" by (simp add: unat_div_distrib)
  then have d: "(of_nat (4096 * n) :: u32) div 4096 = of_nat n" using assms(2) by (simp add: word_unat_eq_iff unat_of_nat32)
  have w: "(ucast (ucast (of_nat n :: u32) :: u16) :: u32) = of_nat n"
  proof -
    have "unat (of_nat n :: u32) = n" using assms(2) by (simp add: unat_of_nat32)
    then have "(ucast (of_nat n :: u32) :: u16) = of_nat n" using of_nat_unat [of "of_nat n :: u32"] by metis
    moreover have "(ucast (of_nat n :: u16) :: u32) = of_nat n"
      using of_nat_unat [of "of_nat n :: u16"] unat_of_nat16 [OF assms(2)] by metis
    ultimately show ?thesis by simp
  qed
  have "of_nat n - (32 + 32 + 1) = (of_nat (n - 65) :: u32)" using assms(1) by (simp add: of_nat_diff)
  then have t: "(ucast (ucast (ucast (of_nat n :: u32) :: u16) - (32 + 32 + 1) :: u32) :: u8) = ucast (of_nat (n - 65) :: u32)" unfolding w by simp
  have u: "unat (ucast (of_nat (n - 65) :: u32) :: u8) = (n - 65) mod 256"
    using assms(2) by (simp add: unsigned_ucast_eq unat_of_nat32 take_bit_eq_mod)
  define total where "total = (ucast (of_nat (n - 65) :: u32) :: u8)"
  have "blocks_of_size (of_nat (4096 * n)) = (if total > 254 then 254 else total)"
    unfolding blocks_of_size_def Let_def d t total_def ..
  then show ?thesis using u [folded total_def] by (simp add: word_less_nat_alt min_def)
qed

lemma blocks_of_size_wraps_witness: "unat (blocks_of_size (of_nat (4096 * 512))) = 191"
  using blocks_of_size_wraps [of 512] by simp

section \<open>Any chip\<close>

lemma cached_crc_length: "cached_crc s = Some c \<Longrightarrow> unat (page_len s) \<le> FFS_PAGE_DATA_SIZE"
  by (auto simp: cached_crc_def require_def split: if_splits)

lemma cached_crc_label [simp]:
  "cached_crc (s\<lparr>cache_page_number := p, cache_page_addr := a, cache_file_id := i\<rparr>) = cached_crc s"
  by (simp add: cached_crc_def)

lemma read_page_tries_checked:
  "read_page_tries n spi file_id page a s = Some (FFS_STATUS_OK, s') \<Longrightarrow>
    unat (page_len s') \<le> FFS_PAGE_DATA_SIZE \<and> cached_crc s' = Some (page_crc s') \<and> cache_file_id s' = file_id \<and> cache_page_number s' = page"
  by (induction n arbitrary: s)
    (auto simp: Let_def split: prod.splits bind_splits if_splits dest: cached_crc_length)



end
