(* ===== verification/Spec2Isabelle.thy ===== *)
theory Spec2Isabelle
  imports Rand Util Kvdb Crc Bytes Memory Memory_Blocks Memory_Pool Memory_Objects Node_List Node_List_Spec
    Node_List_Props Gfx_State Gfx_Pixels Gfx_Fader Gfx_Color Vm_Image Vm_Core Vm_Run Vm_Steps Vm_Safe Vm_Runner
    Vm_Runner_Safe Flash Flash_Chip Ffs_Block Ffs_Page Flash_Fs Ffs_Lists Ffs_Spec Ffs_Files
    Ffs_Write Ffs_Replace Ffs_Refine Ffs_Bytes Ffs_System Ffs_Theorems
begin

text \<open>
  \<^bold>\<open>Chromatron.\<close>  A networked controller of LED pixels has two processors.  The AVR (xmega128a4u) runs the
  operating system under \<open>src/src/sapphireos\<close>; the WiFi processor (\<open>src/src/chromatron_wifi\<close>) runs scripts in a
  virtual machine that animates the pixels (\<open>src/src/lib_chromatron\<close>).  The development models the logic of the
  scripts and of the storage, from the C sources, as functions on explicit states.

  \<^bold>\<open>The parts and their theories.\<close>  \<open>Prelude\<close> and \<open>Bytes\<close>: the C integers as words, truncating division, array
  accesses, loops over index ranges, little-endian memory.

  Script side, built for the WiFi firmware:
  \<^item> \<open>Rand\<close> (\<open>random.c\<close>), \<open>Util\<close> and \<open>Bubble\<close> (\<open>util.c\<close>), \<open>Crc\<close> (\<open>crc.c\<close>): the helpers.
  \<^item> \<open>Kvdb\<close> (\<open>kvdb.c\<close>): the key-value database, a sorted array of entries with a search cache.
  \<^item> \<open>Gfx_State\<close>, \<open>Gfx_Pixels\<close>, \<open>Gfx_Fader\<close>, \<open>Gfx_Color\<close> (\<open>gfx_lib.c\<close>): parameters and limits; coordinates, attributes
    and array arithmetic; the faders; dimmer curve, colour conversion, output arrays, noise.  The one state is
    the record \<open>gfx_state\<close>, the statics of the file.
  \<^item> \<open>Vm_Image\<close> and \<open>Vm_Core\<close> (\<open>vm_core.c\<close>): the loader of program images, the opcode handlers, the dispatch and the
    recursive interpreter.  \<open>Vm_Run\<close>: every run ends, and keeps the invariants of graphics and database.
    \<open>Vm_Steps\<close>: the interpreter refines a machine with a return stack.  \<open>Vm_Safe\<close>: a static check of byte code
    (the development's own) after which no instruction is undefined.
  \<^item> \<open>Memory\<close> (\<open>memory.c\<close>) with \<open>Memory_Blocks\<close>, \<open>Memory_Pool\<close>, \<open>Memory_Objects\<close>: the pool with its handles and its compacting
    collector; its layout as a list of blocks; its objects, which no operation on others changes.
  \<^item> \<open>Node_List\<close> (\<open>list.c\<close>) with \<open>Node_List_Spec\<close>, \<open>Node_List_Props\<close>: doubly linked lists of pool objects, refined from
    sequences of nodes.
  \<^item> \<open>Vm_Runner\<close> (\<open>vm_runner.cpp\<close>) with \<open>Vm_Runner_Safe\<close>: loading a program in pieces, frames, published variables,
    the messages, and the synchronisation of two devices.

  Storage side, built for the AVR:
  \<^item> \<open>Flash\<close> (\<open>flash25.c\<close>): the driver of the serial flash chip.
  \<^item> \<open>Ffs_Block\<close> (\<open>ffs_block.c\<close>): erase blocks, their lists, their headers and page indexes.  \<open>Ffs_Page\<close>
    (\<open>ffs_page.c\<close>): pages with their cache, writing with replacement of full blocks, files as lists of
    blocks, mounting.  \<open>Flash_Fs\<close> (\<open>flash_fs.c\<close>, \<open>ffs_fw.c\<close>, \<open>ffs_gc.c\<close>): files by id, firmware partitions, formatting,
    and what the garbage collector does with one dirty block.
  \<^item> \<open>Flash_Chip\<close>: what the data sheets promise, as locales over the bus (the argument \<open>spi\<close> of the driver),
    interpreted on a chip that is defined there; from either kind of chip follow the laws of the locale
    \<open>flash_memory\<close>, in which the rest is proved.  \<open>Ffs_Lists\<close>: block lists refine sequences.  \<open>Ffs_Spec\<close>: the bytes of
    a block.  \<open>Ffs_Files\<close>: when blocks hold a file; reading a page.  \<open>Ffs_Write\<close>: writing a page into a free slot.
    \<open>Ffs_Replace\<close>: copying a full block.  \<open>Ffs_Refine\<close>: the relation \<open>fs_rep\<close> between a state and a map from file
    ids to bytes, kept by page writes.  \<open>Ffs_Bytes\<close>: the transfer loops.  \<open>Ffs_System\<close>: files by id, creating,
    deleting, collecting.  \<open>Ffs_Theorems\<close>: the properties, on any chip that keeps the laws.

  \<^bold>\<open>How they interact.\<close>  The runner owns a slab of bytes with the image, the state of the machine and the list of
  messages to send; a frame copies variables from the database into the data table, runs the interpreter, which
  calls into graphics and database, and publishes variables back, through blocks of the pool.  In the model the
  record \<open>vm_runner\<close> holds the machine, the machine holds the graphics and the database.

  \<^bold>\<open>What the lemmas show.\<close>  Each component has an invariant and lemmas that its operations keep it and do what they
  mean to; the properties carry the ids C1 to C40.  The main ones: an image of checked byte code, received in any
  pieces, loads and then runs for ever without undefined behaviour (this theory); the interpreter always returns;
  database, pool and lists refine a finite map, a set of objects and a sequence; the table-driven checksum is the
  polynomial one; every fade reaches its target; the flash file system, on a chip that keeps its data sheet, is a
  map from file ids to byte sequences, which writes, reads, creation, deletion and garbage collection act on as
  their names say.

  \<^bold>\<open>Conventions and bounds.\<close>  What C leaves undefined (an access outside an object, a division by zero, a wild
  pointer) is \<^term>\<open>None\<close>, and so is a failed assertion where the target compiles assertions in (the AVR).  The WiFi
  firmware defines them away.  Integers keep their width; its \<open>int\<close> has 32 bits and is little-endian.  The machine
  ends a run after 32768 counted cycles; every other instruction moves the program counter forward or is a
  call that is counted, so the recursion gets fuel 32770 (\<open>vm_fuel\<close>), and \<open>Vm_Run\<close> proves it is enough.  Walks over
  linked lists get as many steps as there are nodes, and the bound of 256 of the walks over block lists
  is exact, as a block number has 8 bits.  \<open>memcpy\<close> of overlapping blocks, which the collector does, is modelled as
  if it copied through a buffer.  Pixel objects of a script are kept apart from the image bytes, and the slab is
  aligned to 4.  The database's own block grows by an argument (\<open>grown\<close>), not through the pool.  The depth of
  the C stack is not modelled.

  \<^bold>\<open>Not modelled.\<close>  The name file of the database (not enabled in this firmware); floating point (\<open>f_abs\<close>); the
  protothreads of the network, of the configuration and of the hardware services, which are interleaved by macros
  around processor registers; file names and handles (\<open>fs.c\<close>) and the loop of the garbage collector, which counts
  erases in a file; the USB library and the boot loaders; the Python tools.  The branches of the storage for the
  simulator are left out.  Mounting is modelled, but the relation \<open>fs_rep\<close> is not shown to be what a mount
  establishes: the mount does not resolve duplicate blocks as it means to (see the findings).
\<close>

section \<open>The whole program\<close>

text \<open>A machine that is not running anything: valid graphics and a list of messages.\<close>

definition idle :: "vm_runner \<Rightarrow> bool" where
  "idle r \<longleftrightarrow> gfx_ready (vm_gfx (rn_vm r)) \<and> (\<exists>ns. list_rep (kv_send_list r) (rn_pool r) ns)"


text \<open>A program of two functions that return, with a published variable and one pixel object.\<close>

definition tiny_program :: vm_program where
  "tiny_program = \<lparr>prog_init = 0, prog_loop = 2, prog_read_keys = [], prog_write_keys = [1, 2, 3, 4],
     prog_publish = [9, 0, 0, 0, 1, 0, 0, 0], prog_pix_objs = replicate 12 0, prog_code = [22, 0, 22, 0],
     prog_data = [7, 0, 0, 0, 9, 0, 0, 0]\<rparr>"

definition idle_runner :: vm_runner where
  "idle_runner = \<lparr>vm_offset = 5, vm_len = 5, rn_vm = ret_machine sample_gfx sample_db, rn_state = vm_state_zero,
     rn_info = \<lparr>info_status = 0, info_return_code = 0, info_loop_time = 0, info_fader_time = 0, info_max_cycles = 0\<rparr>,
     rn_run_vm = False, rn_run_faders = False,
     kv_send_list = list_v_init \<lparr>list_init = 0, list_head = 0, list_tail = 0\<rparr>, rn_pool = sample_pool,
     rn_rnd = rnd_v_seed 1, fader_time_start = 0,
     request_vm_info = False, request_rgb_pix0 = False, request_rgb_array = False\<rparr>"

lemma tiny_program_checked: "program_checked tiny_program"
proof -
  have "starts 0 (prog_code tiny_program) = [0, 2]" "code_checked (prog_code tiny_program) 2"
    "length (image_of tiny_program) = 74"
    "rd_publish (prog_publish tiny_program) 0 = Some (9, 1)"
    "map_option length (rd_pixel_arrays (prog_pix_objs tiny_program) 0 1) = Some 1"
    by code_simp+
  moreover have "program_ok tiny_program" by (simp add: program_ok_def image_body_def tiny_program_def)
  ultimately show ?thesis
    by (auto simp: program_checked_def tiny_program_def Suc_length_conv length_Suc_conv)
qed

lemma idle_runner_idle: "idle idle_runner"
  using sample_gfx_ok(1,2) empty_list [OF sample_pool_inv]
  by (auto simp: idle_def idle_runner_def gfx_ready_def ret_machine_def sample_gfx_def gfx_initial_def)


text \<open>A device that runs it.\<close>

lemma tiny_loaded:
  obtains r where "loaded (prog_code tiny_program) r"
proof -
  let ?pad = "replicate (VM_SLAB_SIZE - 74) 0 :: u8 list"
  have len: "length (image_of tiny_program) = 74" by code_simp
  let ?r = "idle_runner\<lparr>rn_vm := (rn_vm idle_runner)\<lparr>vm_mem := image_of tiny_program @ ?pad\<rparr>, vm_len := len16 (image_of tiny_program)\<rparr>"
  obtain ns where "gfx_ready (vm_gfx (rn_vm idle_runner))" "list_rep (kv_send_list idle_runner) (rn_pool idle_runner) ns"
    using idle_runner_idle by (auto simp: idle_def)
  then obtain rc r' where "runner_inv (prog_code tiny_program) r'" "info_status (rn_info r') = 0"
    using load_end [OF tiny_program_checked, of ?r ?pad ns sample_env "[]" "\<lambda>k. None" 0 0]
    by (auto simp: len idle_runner_def)
  then have "loaded (prog_code tiny_program) r'" by (simp add: loaded_def)
  then show thesis by (rule that)
qed

text \<open>
  C6 Synchronisation: the message of one device makes another that runs the same program take over
  its frame number, the state of its random generator and the first 16 words of its data table, and
  no other word; the status is 0 exactly if the devices agreed on all of these before.
\<close>

theorem frame_sync_agrees:
  assumes "loaded code a" and "loaded code b" and "data_count (rn_state a) = data_count (rn_state b)"
    and "length (sync_data msg) = 16"
  shows "\<exists>sync status b'. vm_i8_get_frame_sync 0 msg a = Some (0, sync) \<and> vm_u8_set_frame_sync sync b = Some (status, b')
    \<and> frame_number (rn_state b') = frame_number (rn_state a) \<and> rng_seed (rn_state b') = rng_seed (rn_state a)
    \<and> (\<forall>k. vm_i32_get_reg k b' = (if unat k < 16 then vm_i32_get_reg k a else vm_i32_get_reg k b))
    \<and> (status = 0 \<longleftrightarrow> frame_number (rn_state b) = frame_number (rn_state a) \<and> rng_seed (rn_state b) = rng_seed (rn_state a)
          \<and> (\<forall>k. unat k < 16 \<longrightarrow> vm_i32_get_reg k b = vm_i32_get_reg k a))"
proof -
  obtain sync where sync: "vm_i8_get_frame_sync 0 msg a = Some (0, sync)" "sync_frame_number sync = frame_number (rn_state a)"
      "sync_rng_seed sync = rng_seed (rn_state a)" "sync_data_index sync = 0"
      "unat (sync_data_count sync) = min 16 (unat (data_count (rn_state a)))" "length (sync_data sync) = 16"
      "\<And>k. unat k < unat (sync_data_count sync) \<Longrightarrow> vm_i32_get_reg k a = Some (sync_data sync ! unat k)"
    by (rule frame_sync_message [OF assms(1,4)]) blast
  let ?f = "frame_number (rn_state b)" and ?s = "rng_seed (rn_state b)" and ?n = "unat (sync_data_count sync)"
  let ?b = "b\<lparr>rn_state := (rn_state b)\<lparr>frame_number := frame_number (rn_state a), rng_seed := rng_seed (rn_state a)\<rparr>\<rparr>"
  have same: "vm_i32_get_reg k ?b = vm_i32_get_reg k b" for k
    by (simp add: vm_i32_get_reg_def vm_i32_get_data_def data_table_def)
  have b: "loaded code ?b" using assms(2) by (simp add: loaded_def runner_inv_def)
  have "?n \<le> 16" "?n \<le> unat (data_count (rn_state ?b))" using sync(5) assms(3) by simp_all
  then have n: "?n \<le> length (sync_data sync)" "?n < 256" "?n \<le> unat (data_count (rn_state ?b))" using sync(6) by simp_all
  obtain st where set: "vm_u8_set_frame_sync sync b = sync_words sync 0 st ?b"
    and st: "st = 0 \<longleftrightarrow> ?f = frame_number (rn_state a) \<and> ?s = rng_seed (rn_state a)"
    using set_frame_sync_start [of sync b] unfolding sync(2,3) by blast
  obtain b' where b': "sync_words sync 0 st ?b = Some (st OR
        (if \<exists>k. unat (0 :: u8) \<le> unat k \<and> unat k < ?n \<and> vm_i32_get_reg k ?b \<noteq> Some (sync_data sync ! unat k) then 2 else 0), b')"
      "rn_state b' = rn_state ?b"
      "\<forall>k. vm_i32_get_reg k b' = (if unat (0 :: u8) \<le> unat k \<and> unat k < ?n then Some (sync_data sync ! unat k) else vm_i32_get_reg k ?b)"
    using sync_words_result [OF b sync(4) n, of 0 st] by blast
  have range: "k \<ge> 0 \<and> unat k < ?n \<longleftrightarrow> unat k < 16 \<and> unat k < unat (data_count (rn_state a))" for k :: u8
    using sync(5) by auto
  have zero: "vm_i32_get_reg k r = Some 0" if "loaded code r" "unat (data_count (rn_state r)) \<le> unat k" for k r
    using that by (simp add: loaded_get(1) vm_i32_get_data_def)
  have beyond: "vm_i32_get_reg k b = vm_i32_get_reg k a" if "unat k < 16" "\<not> unat k < ?n" for k
    using zero [OF assms(1), of k] zero [OF assms(2), of k] that sync(5) assms(3) by auto
  have words: "vm_i32_get_reg k b' = (if unat k < 16 then vm_i32_get_reg k a else vm_i32_get_reg k b)" for k
    using b'(3) sync(5,7) same beyond by auto
  have "(\<exists>k. unat (0 :: u8) \<le> unat k \<and> unat k < ?n \<and> vm_i32_get_reg k ?b \<noteq> Some (sync_data sync ! unat k))
      \<longleftrightarrow> \<not> (\<forall>k. unat k < 16 \<longrightarrow> vm_i32_get_reg k b = vm_i32_get_reg k a)"
    using sync(5,7) beyond by (auto simp: same) (metis min.strict_boundedE)+
  then show ?thesis
    using sync(1) set b'(1,2) words st by (auto simp: or_eq_0_iff)
qed

lemma frame_sync_agrees_witness:
  "\<exists>a b sync status b'. vm_i8_get_frame_sync 0 \<lparr>sync_rng_seed = 0, sync_frame_number = 0, sync_data_index = 0,
       sync_data_count = 0, sync_data = replicate 16 0\<rparr> a = Some (0, sync)
     \<and> vm_u8_set_frame_sync sync b = Some (status, b') \<and> vm_i32_get_reg 1 b' = vm_i32_get_reg 1 a"
proof -
  obtain r where r: "loaded (prog_code tiny_program) r" by (rule tiny_loaded)
  let ?msg = "\<lparr>sync_rng_seed = 0, sync_frame_number = 0, sync_data_index = 0, sync_data_count = 0, sync_data = replicate 16 0\<rparr>"
  have "length (sync_data ?msg) = 16" by simp
  from frame_sync_agrees [OF r r refl this] show ?thesis by (auto simp: exI [of _ r])
qed

text \<open>
  C7 A synchronisation message is believed: if it claims more words than the 16 it has room for,
  reading it runs behind its end, whatever the program is.
\<close>

theorem frame_sync_overrun:
  assumes "loaded code r" and "length (sync_data sync) = 16" and "16 < sync_data_count sync"
  shows "vm_u8_set_frame_sync sync r = None"
proof -
  obtain st where set: "vm_u8_set_frame_sync sync r = sync_words sync 0 st
      (r\<lparr>rn_state := (rn_state r)\<lparr>frame_number := sync_frame_number sync, rng_seed := sync_rng_seed sync\<rparr>\<rparr>)"
    using set_frame_sync_start by blast
  have "loaded code (r\<lparr>rn_state := (rn_state r)\<lparr>frame_number := sync_frame_number sync, rng_seed := sync_rng_seed sync\<rparr>\<rparr>)"
    using assms(1) by (simp add: loaded_def runner_inv_def)
  then show ?thesis
    unfolding set by (rule sync_words_overrun) (use assms in \<open>simp_all add: word_less_nat_alt\<close>)
qed

lemma frame_sync_overrun_witness:
  "\<exists>r. vm_u8_set_frame_sync \<lparr>sync_rng_seed = 0, sync_frame_number = 0, sync_data_index = 0, sync_data_count = 17,
       sync_data = replicate 16 0\<rparr> r = None"
proof -
  obtain r where r: "loaded (prog_code tiny_program) r" by (rule tiny_loaded)
  show ?thesis by (intro exI [of _ r] frame_sync_overrun [OF r]) simp_all
qed

end
